(* ===== verification/Go_Prelude.thy ===== *)
theory Go_Prelude
  imports Main "HOL-Library.Char_ord" "HOL-Library.List_Lexorder" "HOL-Library.Multiset"
begin

text \<open>
  Shared vocabulary of the development: the Go runtime notions that every component uses
  and the generic lemmas about them.

  \<^item> A Go \<^verbatim>\<open>map[K]V\<close> is a partial function \<open>'k \<rightharpoonup> 'v\<close>. The order in which a
    \<^verbatim>\<open>range\<close> loop visits a map is chosen afresh by the runtime every time, so every
    operation that ranges over a map takes the visiting order as an explicit list of keys;
    \<open>range_of m ks\<close> says that \<open>ks\<close> is such an order. Theorems hold for every order.
  \<^item> A Go \<^verbatim>\<open>error\<close> result is the left summand of \<open>'e + 'a\<close>, or an \<open>'e option\<close>
    where the operation returns an error only.
  \<^item> Locks are not modelled: each operation is the critical section its mutex protects, and
    concurrency is the interleaving of those critical sections.
  \<^item> Strings are byte sequences (\<open>string\<close>), compared byte by byte as Go compares them.
\<close>

named_theorems go_simps \<open>unfolding rules for the small accessors of the model\<close>
named_theorems inv_intros \<open>preservation of component invariants\<close>

type_synonym ('e, 'a) result = "'e + 'a"

section \<open>Maps and range loops\<close>

definition range_of :: "('k \<rightharpoonup> 'v) \<Rightarrow> 'k list \<Rightarrow> bool" where
  "range_of m ks \<longleftrightarrow> distinct ks \<and> set ks = dom m"

text \<open>Reading a missing key of a Go map yields the zero value of the element type.\<close>

definition map_get :: "'v \<Rightarrow> ('k \<rightharpoonup> 'v) \<Rightarrow> 'k \<Rightarrow> 'v" where
  "map_get zero m k = (case m k of None \<Rightarrow> zero | Some v \<Rightarrow> v)"

text \<open>The builtin \<^verbatim>\<open>delete(m, k)\<close>, and \<^verbatim>\<open>len(m)\<close>.\<close>

definition map_delete :: "'k \<Rightarrow> ('k \<rightharpoonup> 'v) \<Rightarrow> ('k \<rightharpoonup> 'v)" where
  "map_delete k m = m(k := None)"

definition map_len :: "('k \<rightharpoonup> 'v) \<Rightarrow> nat" where
  "map_len m = card (dom m)"

lemma map_get_None [simp]: "m k = None \<Longrightarrow> map_get z m k = z"
  by (simp add: map_get_def)

lemma map_get_Some [simp]: "m k = Some v \<Longrightarrow> map_get z m k = v"
  by (simp add: map_get_def)

lemma map_get_upd [simp]: "map_get z (m(k \<mapsto> v)) k' = (if k' = k then v else map_get z m k')"
  by (simp add: map_get_def)

lemma map_get_delete [simp]: "map_get z (map_delete k m) k' = (if k' = k then z else map_get z m k')"
  by (simp add: map_get_def map_delete_def)

lemma map_delete_apply [simp]: "map_delete k m k' = (if k' = k then None else m k')"
  by (simp add: map_delete_def)

lemma dom_map_delete [simp]: "dom (map_delete k m) = dom m - {k}"
  by (auto simp: map_delete_def)

lemma range_of_finite: "range_of m ks \<Longrightarrow> finite (dom m)"
  unfolding range_of_def by (metis List.finite_set)

lemma range_of_length: "range_of m ks \<Longrightarrow> length ks = map_len m"
  by (metis distinct_card map_len_def range_of_def)

lemma range_of_empty [simp]: "range_of Map.empty ks \<longleftrightarrow> ks = []"
  by (auto simp: range_of_def)

lemma range_of_mem: "range_of m ks \<Longrightarrow> k \<in> set ks \<longleftrightarrow> m k \<noteq> None"
  by (auto simp: range_of_def domIff)

lemma map_len_empty [simp]: "map_len Map.empty = 0"
  by (simp add: map_len_def)

lemma map_len_upd:
  "finite (dom m) \<Longrightarrow> map_len (m(k \<mapsto> v)) = (if k \<in> dom m then map_len m else Suc (map_len m))"
  by (simp add: map_len_def card_insert_if)

lemma map_len_delete:
  "finite (dom m) \<Longrightarrow> map_len (map_delete k m) = (if k \<in> dom m then map_len m - 1 else map_len m)"
  by (simp add: map_len_def)

lemma map_len_zero: "finite (dom m) \<Longrightarrow> map_len m = 0 \<longleftrightarrow> m = Map.empty"
  by (simp add: map_len_def)

section \<open>Strings: strings.Split\<close>

text \<open>\<^verbatim>\<open>strings.Split(s, sep)\<close> for a one-byte separator.\<close>

fun split_on :: "char \<Rightarrow> string \<Rightarrow> string list" where
  "split_on c [] = [[]]"
| "split_on c (x # xs) =
     (if x = c then [] # split_on c xs
      else (case split_on c xs of [] \<Rightarrow> [[x]] | y # ys \<Rightarrow> (x # y) # ys))"

lemma split_on_nonempty [simp]: "split_on c s \<noteq> []"
  by (induction s) (auto split: list.splits)

lemma split_on_no_sep: "c \<notin> set s \<Longrightarrow> split_on c s = [s]"
  by (induction s) auto

lemma split_on_sep: "c \<notin> set s \<Longrightarrow> split_on c (s @ c # t) = s # split_on c t"
  by (induction s) auto

lemma length_split_on: "length (split_on c s) = Suc (count_list s c)"
  by (induction s) (auto split: list.splits simp: neq_Nil_conv)

section \<open>Binary search: sort.Search\<close>

text \<open>\<^verbatim>\<open>sort.Search(n, f)\<close>: the loop of the standard library, on the interval \<open>[i, j)\<close>.\<close>

function search_loop :: "(nat \<Rightarrow> bool) \<Rightarrow> nat \<Rightarrow> nat \<Rightarrow> nat" where
  "search_loop f i j =
     (if i < j then
        let h = i + (j - i) div 2
        in if \<not> f h then search_loop f (Suc h) j else search_loop f i h
      else i)"
  by pat_completeness auto
termination
  by (relation "measure (\<lambda>(f, i, j). j - i)") auto

declare search_loop.simps [simp del]

definition sort_Search :: "nat \<Rightarrow> (nat \<Rightarrow> bool) \<Rightarrow> nat" where
  "sort_Search n f = search_loop f 0 n"

lemma search_loop_done: "\<not> i < j \<Longrightarrow> search_loop f i j = i"
  by (subst search_loop.simps) simp

lemma search_loop_least:
  assumes "\<And>a b. a \<le> b \<Longrightarrow> f a \<Longrightarrow> f b" and "i \<le> j"
    and "\<forall>h < i. \<not> f h" and "\<forall>h. j \<le> h \<and> h < n \<longrightarrow> f h"
  shows "search_loop f i j \<le> j \<and> (\<forall>h < search_loop f i j. \<not> f h) \<and>
         (\<forall>h. search_loop f i j \<le> h \<and> h < n \<longrightarrow> f h)"
  using assms(2-4)
proof (induction "j - i" arbitrary: i j rule: less_induct)
  case less
  define h where "h = i + (j - i) div 2"
  show ?case
  proof (cases "i < j")
    case False
    with less.prems show ?thesis by (auto simp: search_loop_done)
  next
    case True
    then have h: "i \<le> h" "h < j" by (auto simp: h_def)
    have step: "search_loop f i j = (if \<not> f h then search_loop f (Suc h) j else search_loop f i h)"
      using True by (subst search_loop.simps) (simp add: h_def Let_def)
    show ?thesis
    proof (cases "f h")
      case True
      have "search_loop f i h \<le> h \<and> (\<forall>k < search_loop f i h. \<not> f k) \<and>
            (\<forall>k. search_loop f i h \<le> k \<and> k < n \<longrightarrow> f k)"
        by (rule less.hyps) (use h less.prems True assms(1) in auto)
      with step True h show ?thesis by auto
    next
      case False
      have "search_loop f (Suc h) j \<le> j \<and> (\<forall>k < search_loop f (Suc h) j. \<not> f k) \<and>
            (\<forall>k. search_loop f (Suc h) j \<le> k \<and> k < n \<longrightarrow> f k)"
        by (rule less.hyps) (use h less.prems False assms(1) in \<open>auto simp: less_Suc_eq_le\<close>)
      with step False show ?thesis by auto
    qed
  qed
qed

text \<open>For a predicate that stays true once it is, the search finds the boundary.\<close>

lemma sort_Search_boundary:
  assumes "\<And>a b. a \<le> b \<Longrightarrow> b < n \<Longrightarrow> f a \<Longrightarrow> f b"
  shows "sort_Search n f \<le> n \<and> (\<forall>h < sort_Search n f. \<not> f h) \<and>
         (\<forall>h. sort_Search n f \<le> h \<and> h < n \<longrightarrow> f h)"
proof -
  have agree: "search_loop f i j = search_loop (\<lambda>h. f h \<or> n \<le> h) i j" if "j \<le> n" for i j
    using that
  proof (induction f i j rule: search_loop.induct)
    case (1 f i j)
    show ?case
    proof (cases "i < j")
      case True
      define h where "h = i + (j - i) div 2"
      have "h < n" using True 1(3) by (simp add: h_def)
      have l: "search_loop f i j = (if \<not> f h then search_loop f (Suc h) j else search_loop f i h)"
        using True by (subst search_loop.simps) (simp add: h_def Let_def)
      have r: "search_loop (\<lambda>h. f h \<or> n \<le> h) i j =
               (if \<not> f h then search_loop (\<lambda>h. f h \<or> n \<le> h) (Suc h) j
                else search_loop (\<lambda>h. f h \<or> n \<le> h) i h)"
        using True \<open>h < n\<close> by (subst search_loop.simps) (simp add: h_def Let_def)
      show ?thesis
        using 1(1) [OF True h_def] 1(2) [OF True h_def] \<open>h < n\<close> 1(3) by (simp add: l r)
    qed (simp add: search_loop_done)
  qed
  have "search_loop (\<lambda>h. f h \<or> n \<le> h) 0 n \<le> n \<and>
        (\<forall>h < search_loop (\<lambda>h. f h \<or> n \<le> h) 0 n. \<not> (f h \<or> n \<le> h)) \<and>
        (\<forall>h. search_loop (\<lambda>h. f h \<or> n \<le> h) 0 n \<le> h \<and> h < n \<longrightarrow> f h \<or> n \<le> h)"
  proof (rule search_loop_least)
    show "f b \<or> n \<le> b" if "a \<le> b" and "f a \<or> n \<le> a" for a b
      using assms [of a b] that by linarith
  qed simp_all
  moreover have "search_loop (\<lambda>h. f h \<or> n \<le> h) 0 n = sort_Search n f"
    unfolding sort_Search_def by (rule agree [symmetric]) simp
  ultimately show ?thesis by (simp only:) (meson leD)
qed

section \<open>Folds that keep an invariant\<close>

lemma foldl_invariant:
  assumes "P s" and "\<And>s x. P s \<Longrightarrow> x \<in> set xs \<Longrightarrow> P (f s x)"
  shows "P (foldl f s xs)"
  using assms by (induction xs arbitrary: s) auto

end
