(* ===== verification/Cache_Store.thy ===== *)
theory Cache_Store
  imports Go_Prelude
begin

text \<open>
  The object store of the client cache: \<^verbatim>\<open>pkg/client/cache/store.go\<close>,
  \<^verbatim>\<open>thread_safe_store.go\<close> and \<^verbatim>\<open>index.go\<close>. \<open>threadSafeMap\<close> holds the items and one
  index per registered index function; \<open>cache\<close> wraps it with a key function. The lemmas
  show that the indices always agree with the items (\<open>index_inv\<close>), that \<open>ByIndex\<close> and
  \<open>Index\<close> return exactly the matching objects, that a key survives being split again, and
  that the store keeps the contract of a map (the locale \<open>object_store\<close>).
\<close>

section \<open>Values\<close>

text \<open>
  The dynamic types an \<^verbatim>\<open>interface{}\<close> of this package can hold: nil, an API object,
  an \<^verbatim>\<open>ExplicitKey\<close>, a tombstone (\<^verbatim>\<open>DeletedFinalStateUnknown\<close>), a \<^verbatim>\<open>Deltas\<close>
  slice and the \<^verbatim>\<open>*timestampedEntry\<close> of the expiration cache.
\<close>

datatype DeltaType = Added | Updated | Deleted | Sync

datatype 'o iface =
    NilI
  | Obj 'o
  | ExplicitKey string
  | DeletedFinalStateUnknown (tomb_Key: string) (tomb_Obj: "'o iface")
  | DeltasI "'o Delta list"
  | timestampedEntry (entry_obj: "'o iface") (entry_timestamp: int)
and 'o Delta = Delta (delta_Type: DeltaType) (delta_Object: "'o iface")

datatype 'o cache_error =
    KeyError "'o iface" "'o cache_error"
  | ErrZeroLengthDeltasObject
  | NotDeltas "'o iface"
  | IndexNotExist string
  | RunningIndex
  | IndexerConflict "string set"
  | TooManyKeys "string list"
  | ObjectHasNoMeta
  | UnexpectedKeyFormat string
  | CouldntQueue "'o cache_error"
  | CallerError string

type_synonym 'o KeyFunc = "'o iface \<Rightarrow> ('o cache_error, string) result"
type_synonym 'o IndexFunc = "'o iface \<Rightarrow> ('o cache_error, string list) result"
type_synonym Index = "string \<rightharpoonup> string set"

section \<open>Keys\<close>

text \<open>
  \<open>accessor\<close> is what \<^verbatim>\<open>meta.Accessor\<close> finds in an API object: its namespace and its
  name, or nothing when the type carries no metadata. The other dynamic types carry none.
\<close>

definition meta_of :: "('o \<Rightarrow> (string \<times> string) option) \<Rightarrow> 'o iface \<Rightarrow> (string \<times> string) option" where
  "meta_of accessor obj = (case obj of Obj x \<Rightarrow> accessor x | _ \<Rightarrow> None)"

definition MetaNamespaceKeyFunc :: "('o \<Rightarrow> (string \<times> string) option) \<Rightarrow> 'o KeyFunc" where
  "MetaNamespaceKeyFunc accessor obj =
     (case obj of
        ExplicitKey key \<Rightarrow> Inr key
      | _ \<Rightarrow>
        (case meta_of accessor obj of
           None \<Rightarrow> Inl ObjectHasNoMeta
         | Some (ns, name) \<Rightarrow> if length ns > 0 then Inr (ns @ ''/'' @ name) else Inr name))"

definition SplitMetaNamespaceKey :: "string \<Rightarrow> ('o cache_error, string \<times> string) result" where
  "SplitMetaNamespaceKey key =
     (case split_on (CHR ''/'') key of
        [name] \<Rightarrow> Inr ('''', name)
      | [ns, name] \<Rightarrow> Inr (ns, name)
      | _ \<Rightarrow> Inl (UnexpectedKeyFormat key))"

definition MetaNamespaceIndexFunc :: "('o \<Rightarrow> (string \<times> string) option) \<Rightarrow> 'o IndexFunc" where
  "MetaNamespaceIndexFunc accessor obj =
     (case meta_of accessor obj of None \<Rightarrow> Inl ObjectHasNoMeta | Some (ns, _) \<Rightarrow> Inr [ns])"

text \<open>\<open>indexKeys[0]\<close> panics on an empty list: the outer option is the panic.\<close>

definition IndexFuncToKeyFuncAdapter ::
  "'o IndexFunc \<Rightarrow> 'o iface \<Rightarrow> ('o cache_error, string) result option" where
  "IndexFuncToKeyFuncAdapter indexFunc obj =
     (case indexFunc obj of
        Inl err \<Rightarrow> Some (Inl err)
      | Inr indexKeys \<Rightarrow>
          if length indexKeys > 1 then Some (Inl (TooManyKeys indexKeys))
          else (case indexKeys of [] \<Rightarrow> None | k # _ \<Rightarrow> Some (Inr k)))"

section \<open>threadSafeMap\<close>

record 'o threadSafeMap =
  items :: "string \<rightharpoonup> 'o iface"
  indexers :: "string \<rightharpoonup> 'o IndexFunc"
  indices :: "string \<rightharpoonup> Index"

definition NewThreadSafeStore ::
  "(string \<rightharpoonup> 'o IndexFunc) \<Rightarrow> (string \<rightharpoonup> Index) \<Rightarrow> 'o threadSafeMap" where
  "NewThreadSafeStore ixs inds = \<lparr>items = Map.empty, indexers = ixs, indices = inds\<rparr>"

text \<open>The inner loops over the values an index function returned.\<close>

fun insert_values :: "string \<Rightarrow> string list \<Rightarrow> Index \<Rightarrow> Index" where
  "insert_values key [] index = index"
| "insert_values key (indexValue # vs) index =
     insert_values key vs (index(indexValue \<mapsto> insert key (map_get {} index indexValue)))"

fun delete_values :: "string \<Rightarrow> string list \<Rightarrow> Index \<Rightarrow> Index" where
  "delete_values key [] index = index"
| "delete_values key (indexValue # vs) index =
     delete_values key vs
       (case index indexValue of
          None \<Rightarrow> index
        | Some keys \<Rightarrow> index(indexValue \<mapsto> keys - {key}))"

text \<open>
  \<open>ns\<close> is the order in which the range over \<^verbatim>\<open>c.indexers\<close> visits the names. An index
  function that fails ends the loop; what was done so far stays.
\<close>

fun deleteFromIndices ::
  "string list \<Rightarrow> 'o iface \<Rightarrow> string \<Rightarrow> 'o threadSafeMap \<Rightarrow> 'o cache_error option \<times> 'o threadSafeMap" where
  "deleteFromIndices [] obj key c = (None, c)"
| "deleteFromIndices (name # ns) obj key c =
     (case indexers c name of
        None \<Rightarrow> deleteFromIndices ns obj key c
      | Some indexFunc \<Rightarrow>
          (case indexFunc obj of
             Inl err \<Rightarrow> (Some err, c)
           | Inr indexValues \<Rightarrow>
               deleteFromIndices ns obj key
                 (case indices c name of
                    None \<Rightarrow> c
                  | Some index \<Rightarrow>
                      c\<lparr>indices := (indices c)(name \<mapsto> delete_values key indexValues index)\<rparr>)))"

fun addToIndices ::
  "string list \<Rightarrow> 'o iface \<Rightarrow> string \<Rightarrow> 'o threadSafeMap \<Rightarrow> 'o cache_error option \<times> 'o threadSafeMap" where
  "addToIndices [] newObj key c = (None, c)"
| "addToIndices (name # ns) newObj key c =
     (case indexers c name of
        None \<Rightarrow> addToIndices ns newObj key c
      | Some indexFunc \<Rightarrow>
          (case indexFunc newObj of
             Inl err \<Rightarrow> (Some err, c)
           | Inr indexValues \<Rightarrow>
               addToIndices ns newObj key
                 (c\<lparr>indices := (indices c)
                     (name \<mapsto> insert_values key indexValues (map_get Map.empty (indices c) name))\<rparr>)))"

definition updateIndices ::
  "string list \<Rightarrow> string list \<Rightarrow> 'o iface \<Rightarrow> 'o iface \<Rightarrow> string \<Rightarrow> 'o threadSafeMap
     \<Rightarrow> 'o cache_error option \<times> 'o threadSafeMap" where
  "updateIndices ns_del ns_add oldObj newObj key c =
     addToIndices ns_add newObj key
       (if oldObj \<noteq> NilI then snd (deleteFromIndices ns_del oldObj key c) else c)"

definition threadSafeMap_Add ::
  "string list \<Rightarrow> string list \<Rightarrow> string \<Rightarrow> 'o iface \<Rightarrow> 'o threadSafeMap \<Rightarrow> 'o threadSafeMap" where
  "threadSafeMap_Add ns_del ns_add key obj c =
     (let oldObject = map_get NilI (items c) key
      in snd (updateIndices ns_del ns_add oldObject obj key (c\<lparr>items := (items c)(key \<mapsto> obj)\<rparr>)))"

definition threadSafeMap_Update ::
  "string list \<Rightarrow> string list \<Rightarrow> string \<Rightarrow> 'o iface \<Rightarrow> 'o threadSafeMap \<Rightarrow> 'o threadSafeMap" where
  "threadSafeMap_Update ns_del ns_add key obj c =
     (let oldObject = map_get NilI (items c) key
      in snd (updateIndices ns_del ns_add oldObject obj key (c\<lparr>items := (items c)(key \<mapsto> obj)\<rparr>)))"

definition threadSafeMap_Delete ::
  "string list \<Rightarrow> string \<Rightarrow> 'o threadSafeMap \<Rightarrow> 'o threadSafeMap" where
  "threadSafeMap_Delete ns key c =
     (case items c key of
        None \<Rightarrow> c
      | Some obj \<Rightarrow>
          let c1 = snd (deleteFromIndices ns obj key c)
          in c1\<lparr>items := map_delete key (items c1)\<rparr>)"

definition threadSafeMap_Get :: "string \<Rightarrow> 'o threadSafeMap \<Rightarrow> 'o iface \<times> bool" where
  "threadSafeMap_Get key c = (map_get NilI (items c) key, items c key \<noteq> None)"

definition threadSafeMap_List :: "string list \<Rightarrow> 'o threadSafeMap \<Rightarrow> 'o iface list" where
  "threadSafeMap_List ks c = map (map_get NilI (items c)) ks"

definition threadSafeMap_ListKeys :: "string list \<Rightarrow> 'o threadSafeMap \<Rightarrow> string list" where
  "threadSafeMap_ListKeys ks c = ks"

text \<open>\<open>ks\<close> visits the new items; \<open>nss k\<close> visits the indexers while item \<open>k\<close> is indexed.\<close>

fun rebuild_indices ::
  "string list \<Rightarrow> (string \<Rightarrow> string list) \<Rightarrow> 'o threadSafeMap \<Rightarrow> 'o threadSafeMap" where
  "rebuild_indices [] nss c = c"
| "rebuild_indices (key # ks) nss c =
     rebuild_indices ks nss
       (snd (updateIndices [] (nss key) NilI (map_get NilI (items c) key) key c))"

definition threadSafeMap_Replace ::
  "string list \<Rightarrow> (string \<Rightarrow> string list) \<Rightarrow> (string \<rightharpoonup> 'o iface) \<Rightarrow> 'o threadSafeMap \<Rightarrow> 'o threadSafeMap" where
  "threadSafeMap_Replace ks nss its c =
     rebuild_indices ks nss (c\<lparr>items := its, indices := Map.empty\<rparr>)"

text \<open>The set of keys an index holds for a value; \<open>sets.String.List\<close> sorts it.\<close>

definition index_keys :: "'o threadSafeMap \<Rightarrow> string \<Rightarrow> string \<Rightarrow> string set" where
  "index_keys c name v = map_get {} (map_get Map.empty (indices c) name) v"

definition threadSafeMap_ByIndex ::
  "string \<Rightarrow> string \<Rightarrow> 'o threadSafeMap \<Rightarrow> ('o cache_error, 'o iface list) result" where
  "threadSafeMap_ByIndex indexName indexKey c =
     (case indexers c indexName of
        None \<Rightarrow> Inl (IndexNotExist indexName)
      | Some _ \<Rightarrow>
          Inr (map (map_get NilI (items c)) (sorted_list_of_set (index_keys c indexName indexKey))))"

text \<open>\<open>Index\<close> collects the keys of every index value of the given object without repetition;
  \<open>ks\<close> is the order in which it then visits that set.\<close>

definition index_return_keys :: "'o threadSafeMap \<Rightarrow> string \<Rightarrow> string list \<Rightarrow> string set" where
  "index_return_keys c name vs = (\<Union>v \<in> set vs. index_keys c name v)"

definition threadSafeMap_Index ::
  "string list \<Rightarrow> string \<Rightarrow> 'o iface \<Rightarrow> 'o threadSafeMap \<Rightarrow> ('o cache_error, 'o iface list) result" where
  "threadSafeMap_Index ks indexName obj c =
     (case indexers c indexName of
        None \<Rightarrow> Inl (IndexNotExist indexName)
      | Some indexFunc \<Rightarrow>
          (case indexFunc obj of
             Inl err \<Rightarrow> Inl err
           | Inr indexKeys \<Rightarrow>
               Inr (map (map_get NilI (items c))
                 (filter (\<lambda>k. k \<in> index_return_keys c indexName indexKeys) ks))))"

definition threadSafeMap_ListIndexFuncValues :: "string list \<Rightarrow> string \<Rightarrow> 'o threadSafeMap \<Rightarrow> string list" where
  "threadSafeMap_ListIndexFuncValues ks indexName c =
     filter (\<lambda>k. map_get Map.empty (indices c) indexName k \<noteq> None) ks"

definition threadSafeMap_AddIndexers ::
  "(string \<rightharpoonup> 'o IndexFunc) \<Rightarrow> 'o threadSafeMap \<Rightarrow> ('o cache_error, 'o threadSafeMap) result" where
  "threadSafeMap_AddIndexers newIndexers c =
     (if map_len (items c) > 0 then Inl RunningIndex
      else if dom (indexers c) \<inter> dom newIndexers \<noteq> {}
      then Inl (IndexerConflict (dom (indexers c) \<inter> dom newIndexers))
      else Inr (c\<lparr>indexers := indexers c ++ newIndexers\<rparr>))"

section \<open>cache\<close>

record 'o cache =
  cacheStorage :: "'o threadSafeMap"
  keyFunc :: "'o KeyFunc"

definition NewIndexer :: "'o KeyFunc \<Rightarrow> (string \<rightharpoonup> 'o IndexFunc) \<Rightarrow> 'o cache" where
  "NewIndexer kf ixs = \<lparr>cacheStorage = NewThreadSafeStore ixs Map.empty, keyFunc = kf\<rparr>"

definition NewStore :: "'o KeyFunc \<Rightarrow> 'o cache" where
  "NewStore kf = \<lparr>cacheStorage = NewThreadSafeStore Map.empty Map.empty, keyFunc = kf\<rparr>"

type_synonym orders = "string list \<times> string list"

definition cache_Add :: "orders \<Rightarrow> 'o iface \<Rightarrow> 'o cache \<Rightarrow> ('o cache_error, 'o cache) result" where
  "cache_Add ord obj c =
     (case keyFunc c obj of
        Inl err \<Rightarrow> Inl (KeyError obj err)
      | Inr key \<Rightarrow> Inr (c\<lparr>cacheStorage := threadSafeMap_Add (fst ord) (snd ord) key obj (cacheStorage c)\<rparr>))"

definition cache_Update :: "orders \<Rightarrow> 'o iface \<Rightarrow> 'o cache \<Rightarrow> ('o cache_error, 'o cache) result" where
  "cache_Update ord obj c =
     (case keyFunc c obj of
        Inl err \<Rightarrow> Inl (KeyError obj err)
      | Inr key \<Rightarrow> Inr (c\<lparr>cacheStorage := threadSafeMap_Update (fst ord) (snd ord) key obj (cacheStorage c)\<rparr>))"

definition cache_Delete :: "orders \<Rightarrow> 'o iface \<Rightarrow> 'o cache \<Rightarrow> ('o cache_error, 'o cache) result" where
  "cache_Delete ord obj c =
     (case keyFunc c obj of
        Inl err \<Rightarrow> Inl (KeyError obj err)
      | Inr key \<Rightarrow> Inr (c\<lparr>cacheStorage := threadSafeMap_Delete (fst ord) key (cacheStorage c)\<rparr>))"

definition cache_GetByKey :: "string \<Rightarrow> 'o cache \<Rightarrow> 'o iface \<times> bool" where
  "cache_GetByKey key c = threadSafeMap_Get key (cacheStorage c)"

definition cache_Get :: "'o iface \<Rightarrow> 'o cache \<Rightarrow> ('o cache_error, 'o iface \<times> bool) result" where
  "cache_Get obj c =
     (case keyFunc c obj of
        Inl err \<Rightarrow> Inl (KeyError obj err)
      | Inr key \<Rightarrow> Inr (cache_GetByKey key c))"

definition cache_List :: "string list \<Rightarrow> 'o cache \<Rightarrow> 'o iface list" where
  "cache_List ks c = threadSafeMap_List ks (cacheStorage c)"

definition cache_ListKeys :: "string list \<Rightarrow> 'o cache \<Rightarrow> string list" where
  "cache_ListKeys ks c = threadSafeMap_ListKeys ks (cacheStorage c)"

text \<open>The loop that keys a list of objects; a later object replaces an earlier one.\<close>

fun key_items ::
  "'o KeyFunc \<Rightarrow> 'o iface list \<Rightarrow> (string \<rightharpoonup> 'o iface) \<Rightarrow> ('o cache_error, string \<rightharpoonup> 'o iface) result" where
  "key_items kf [] m = Inr m"
| "key_items kf (item # xs) m =
     (case kf item of
        Inl err \<Rightarrow> Inl (KeyError item err)
      | Inr key \<Rightarrow> key_items kf xs (m(key \<mapsto> item)))"

definition cache_Replace ::
  "string list \<Rightarrow> (string \<Rightarrow> string list) \<Rightarrow> 'o iface list \<Rightarrow> 'o cache \<Rightarrow> ('o cache_error, 'o cache) result" where
  "cache_Replace ks nss xs c =
     (case key_items (keyFunc c) xs Map.empty of
        Inl err \<Rightarrow> Inl err
      | Inr its \<Rightarrow> Inr (c\<lparr>cacheStorage := threadSafeMap_Replace ks nss its (cacheStorage c)\<rparr>))"


section \<open>What the indices mean\<close>

definition indexes :: "'o threadSafeMap \<Rightarrow> string \<Rightarrow> 'o iface \<Rightarrow> string \<Rightarrow> bool" where
  "indexes c name obj v \<longleftrightarrow>
     (case indexers c name of
        None \<Rightarrow> False
      | Some f \<Rightarrow> (case f obj of Inl _ \<Rightarrow> False | Inr vs \<Rightarrow> v \<in> set vs))"

definition index_total :: "'o threadSafeMap \<Rightarrow> 'o iface \<Rightarrow> bool" where
  "index_total c obj \<longleftrightarrow> (\<forall>name f. indexers c name = Some f \<longrightarrow> (\<exists>vs. f obj = Inr vs))"

definition matching_keys :: "'o threadSafeMap \<Rightarrow> string \<Rightarrow> string \<Rightarrow> string set" where
  "matching_keys c name v = {k. \<exists>obj. items c k = Some obj \<and> indexes c name obj v}"

text \<open>
  The invariant of the store: finitely many items, none of them nil, every index function
  defined on every stored object, and every index holding exactly the keys of the objects
  that have the value.
\<close>

definition index_inv :: "'o threadSafeMap \<Rightarrow> bool" where
  "index_inv c \<longleftrightarrow>
     finite (dom (items c)) \<and>
     (\<forall>k obj. items c k = Some obj \<longrightarrow> obj \<noteq> NilI \<and> index_total c obj) \<and>
     (\<forall>name v. name \<in> dom (indexers c) \<longrightarrow> index_keys c name v = matching_keys c name v)"

lemma map_get_insert_values:
  "map_get {} (insert_values key vs index) v =
     (if v \<in> set vs then insert key (map_get {} index v) else map_get {} index v)"
  by (induction vs arbitrary: index) auto

lemma map_get_delete_values:
  "map_get {} (delete_values key vs index) v =
     (if v \<in> set vs then map_get {} index v - {key} else map_get {} index v)"
  by (induction vs arbitrary: index) (auto split: option.splits)

lemma index_keys_upd:
  "index_keys (c\<lparr>indices := (indices c)(n \<mapsto> index)\<rparr>) name v =
     (if name = n then map_get {} index v else index_keys c name v)"
  by (simp add: index_keys_def)

lemma index_keys_items [simp]: "index_keys (c\<lparr>items := its\<rparr>) = index_keys c"
  by (intro ext) (simp add: index_keys_def)

lemma indexes_items [simp]: "indexes (c\<lparr>items := its\<rparr>) = indexes c"
  by (intro ext) (simp add: indexes_def)

lemma index_total_items [simp]: "index_total (c\<lparr>items := its\<rparr>) = index_total c"
  by (intro ext) (simp add: index_total_def)

lemma deleteFromIndices_frame:
  "items (snd (deleteFromIndices ns obj key c)) = items c \<and>
   indexers (snd (deleteFromIndices ns obj key c)) = indexers c"
proof (induction ns obj key c rule: deleteFromIndices.induct)
  case (2 name ns obj key c)
  then show ?case
    by (cases "indexers c name") (auto split: sum.splits option.splits)
qed simp

lemma addToIndices_frame:
  "items (snd (addToIndices ns obj key c)) = items c \<and>
   indexers (snd (addToIndices ns obj key c)) = indexers c"
proof (induction ns obj key c rule: addToIndices.induct)
  case (2 name ns obj key c)
  then show ?case
    by (cases "indexers c name") (auto split: sum.splits)
qed simp

lemmas indices_frame [simp] =
  deleteFromIndices_frame [THEN conjunct1] deleteFromIndices_frame [THEN conjunct2]
  addToIndices_frame [THEN conjunct1] addToIndices_frame [THEN conjunct2]

lemma indexes_cong: "indexers c' = indexers c \<Longrightarrow> indexes c' = indexes c"
  by (intro ext) (simp add: indexes_def)

lemma index_total_cong: "indexers c' = indexers c \<Longrightarrow> index_total c' = index_total c"
  by (intro ext) (simp add: index_total_def)

text \<open>The loops, when every index function is defined on the object.\<close>

lemma addToIndices_keys:
  assumes "index_total c obj"
  shows "fst (addToIndices ns obj key c) = None \<and>
         index_keys (snd (addToIndices ns obj key c)) name v =
           (if name \<in> set ns \<and> indexes c name obj v then insert key (index_keys c name v)
            else index_keys c name v)"
  using assms
proof (induction ns obj key c rule: addToIndices.induct)
  case (1 newObj key c)
  then show ?case by simp
next
  case (2 n ns obj key c)
  show ?case
  proof (cases "indexers c n")
    case None
    with 2 show ?thesis by (auto simp: indexes_def)
  next
    case (Some f)
    with 2(3) obtain vs where vs: "f obj = Inr vs"
      by (auto simp: index_total_def)
    let ?c = "c\<lparr>indices := (indices c)(n \<mapsto> insert_values key vs (map_get Map.empty (indices c) n))\<rparr>"
    have "index_total ?c obj"
      using 2(3) by (simp add: index_total_def)
    note IH = 2(2) [OF Some vs this]
    have "indexes ?c = indexes c" by (rule indexes_cong) simp
    moreover have "indexes c n obj v \<longleftrightarrow> v \<in> set vs"
      using Some vs by (simp add: indexes_def)
    ultimately show ?thesis
      using IH Some vs
      by (auto simp: index_keys_upd map_get_insert_values) (auto simp: index_keys_def)
  qed
qed

lemma deleteFromIndices_keys:
  assumes "index_total c obj"
  shows "fst (deleteFromIndices ns obj key c) = None \<and>
         index_keys (snd (deleteFromIndices ns obj key c)) name v =
           (if name \<in> set ns \<and> indexes c name obj v then index_keys c name v - {key}
            else index_keys c name v)"
  using assms
proof (induction ns obj key c rule: deleteFromIndices.induct)
  case (1 obj key c)
  then show ?case by simp
next
  case (2 n ns obj key c)
  show ?case
  proof (cases "indexers c n")
    case None
    with 2 show ?thesis by (auto simp: indexes_def)
  next
    case (Some f)
    with 2(3) obtain vs where vs: "f obj = Inr vs"
      by (auto simp: index_total_def)
    let ?c = "case indices c n of None \<Rightarrow> c
              | Some index \<Rightarrow> c\<lparr>indices := (indices c)(n \<mapsto> delete_values key vs index)\<rparr>"
    have ix: "indexers ?c = indexers c" by (simp split: option.splits)
    have "index_total ?c obj"
      using 2(3) index_total_cong [OF ix] by simp
    note IH = 2(2) [OF Some vs this]
    have "indexes ?c = indexes c" by (rule indexes_cong [OF ix])
    moreover have "indexes c n obj v \<longleftrightarrow> v \<in> set vs"
      using Some vs by (simp add: indexes_def)
    moreover have "index_keys ?c name v =
        (if name = n \<and> v \<in> set vs then index_keys c name v - {key} else index_keys c name v)"
      by (auto split: option.splits simp: index_keys_upd map_get_delete_values)
         (auto simp: index_keys_def)
    ultimately show ?thesis
      using IH Some vs by auto
  qed
qed

lemma updateIndices_frame [simp]:
  "items (snd (updateIndices nd na old new key c)) = items c"
  "indexers (snd (updateIndices nd na old new key c)) = indexers c"
  by (simp_all add: updateIndices_def)

lemma updateIndices_keys:
  assumes "index_total c new" and "old \<noteq> NilI \<Longrightarrow> index_total c old"
  shows "index_keys (snd (updateIndices nd na old new key c)) name v =
    (let K = (if old \<noteq> NilI \<and> name \<in> set nd \<and> indexes c name old v
              then index_keys c name v - {key} else index_keys c name v)
     in if name \<in> set na \<and> indexes c name new v then insert key K else K)"
proof -
  let ?c = "if old \<noteq> NilI then snd (deleteFromIndices nd old key c) else c"
  have ix: "indexers ?c = indexers c" by simp
  have K: "index_keys ?c name v =
      (if old \<noteq> NilI \<and> name \<in> set nd \<and> indexes c name old v
       then index_keys c name v - {key} else index_keys c name v)"
    using deleteFromIndices_keys [OF assms(2)] by auto
  have "index_total ?c new"
    using assms(1) index_total_cong [OF ix] by simp
  from addToIndices_keys [OF this, of na key name v]
  show ?thesis
    by (simp only: updateIndices_def Let_def indexes_cong [OF ix] K)
qed


section \<open>Every operation keeps the indices exact\<close>

lemma index_inv_new: "index_inv (NewThreadSafeStore ixs Map.empty)"
  by (auto simp: index_inv_def NewThreadSafeStore_def index_keys_def matching_keys_def)

lemma index_inv_finite_keys:
  assumes "index_inv c" and "name \<in> dom (indexers c)"
  shows "finite (index_keys c name v)"
proof -
  have "index_keys c name v \<subseteq> dom (items c)"
    using assms by (auto simp: index_inv_def matching_keys_def)
  then show ?thesis
    using assms(1) finite_subset by (auto simp: index_inv_def)
qed

lemma threadSafeMap_Add_frame [simp]:
  "items (threadSafeMap_Add nd na key obj c) = (items c)(key \<mapsto> obj)"
  "indexers (threadSafeMap_Add nd na key obj c) = indexers c"
  by (simp_all add: threadSafeMap_Add_def Let_def)

lemma threadSafeMap_Delete_frame [simp]:
  "items (threadSafeMap_Delete ns key c) = map_delete key (items c)"
  "indexers (threadSafeMap_Delete ns key c) = indexers c"
  by (auto simp: threadSafeMap_Delete_def Let_def fun_eq_iff split: option.splits)

lemma threadSafeMap_Update_Add: "threadSafeMap_Update = threadSafeMap_Add"
  by (intro ext) (simp add: threadSafeMap_Update_def threadSafeMap_Add_def)

lemma index_inv_Add [inv_intros]:
  assumes inv: "index_inv c" and obj: "obj \<noteq> NilI" "index_total c obj"
    and nd: "set nd = dom (indexers c)" and na: "set na = dom (indexers c)"
  shows "index_inv (threadSafeMap_Add nd na key obj c)"
proof -
  let ?c = "threadSafeMap_Add nd na key obj c"
  let ?old = "map_get NilI (items c) key"
  have ix: "indexers ?c = indexers c" by simp
  have old: "index_total (c\<lparr>items := (items c)(key \<mapsto> obj)\<rparr>) ?old" if "?old \<noteq> NilI"
    using inv that by (cases "items c key") (auto simp: index_inv_def)
  have keys: "index_keys ?c name v = matching_keys ?c name v" if n: "name \<in> dom (indexers c)" for name v
  proof -
    have before: "index_keys c name v = matching_keys c name v"
      using inv n by (simp add: index_inv_def)
    have nil: "?old = NilI \<Longrightarrow> items c key = None"
      using inv by (cases "items c key") (auto simp: index_inv_def)
    have "index_keys ?c name v =
      (let K = (if ?old \<noteq> NilI \<and> indexes c name ?old v then index_keys c name v - {key}
                else index_keys c name v)
       in if indexes c name obj v then insert key K else K)"
      using n nd na obj(2) updateIndices_keys [OF _ old, of obj nd na key name v]
      by (simp add: threadSafeMap_Add_def Let_def)
    also have "\<dots> = matching_keys ?c name v"
      using before nil unfolding matching_keys_def indexes_cong [OF ix]
      by (cases "items c key") (auto simp: Let_def)
    finally show ?thesis .
  qed
  show ?thesis
    using inv obj keys by (auto simp: index_inv_def index_total_cong [OF ix])
qed

lemma index_inv_Delete [inv_intros]:
  assumes inv: "index_inv c" and ns: "set ns = dom (indexers c)"
  shows "index_inv (threadSafeMap_Delete ns key c)"
proof (cases "items c key")
  case None
  with inv show ?thesis by (simp add: threadSafeMap_Delete_def)
next
  case (Some obj)
  let ?c = "threadSafeMap_Delete ns key c"
  have ix: "indexers ?c = indexers c" by simp
  have tot: "index_total c obj"
    using inv Some by (auto simp: index_inv_def)
  have keys: "index_keys ?c name v = matching_keys ?c name v" if n: "name \<in> dom (indexers c)" for name v
  proof -
    have "index_keys ?c name v =
      (if indexes c name obj v then index_keys c name v - {key} else index_keys c name v)"
      using n ns Some deleteFromIndices_keys [OF tot, of ns key name v]
      by (simp add: threadSafeMap_Delete_def Let_def)
    also have "\<dots> = matching_keys ?c name v"
      using inv n Some unfolding matching_keys_def indexes_cong [OF ix]
      by (auto simp: index_inv_def matching_keys_def)
    finally show ?thesis .
  qed
  show ?thesis
    using inv keys by (auto simp: index_inv_def index_total_cong [OF ix] split: if_splits)
qed

lemma rebuild_indices_frame [simp]:
  "items (rebuild_indices ks nss c) = items c"
  "indexers (rebuild_indices ks nss c) = indexers c"
  by (induction ks nss c rule: rebuild_indices.induct) auto

lemma rebuild_indices_keys:
  assumes "\<And>k. k \<in> set ks \<Longrightarrow> index_total c (map_get NilI (items c) k)"
    and "\<And>k. k \<in> set ks \<Longrightarrow> set (nss k) = dom (indexers c)"
    and "set ks \<subseteq> dom (items c)" and "name \<in> dom (indexers c)"
  shows "index_keys (rebuild_indices ks nss c) name v =
         index_keys c name v \<union> (set ks \<inter> matching_keys c name v)"
  using assms
proof (induction ks nss c rule: rebuild_indices.induct)
  case (1 nss c)
  then show ?case by simp
next
  case (2 key ks nss c)
  let ?o = "map_get NilI (items c) key"
  let ?c = "snd (updateIndices [] (nss key) NilI ?o key c)"
  have ix: "indexers ?c = indexers c" by simp
  have tot: "index_total ?c = index_total c" by (rule index_total_cong [OF ix])
  have mat: "matching_keys ?c = matching_keys c"
    by (intro ext) (simp add: matching_keys_def indexes_cong [OF ix])
  have "index_keys (rebuild_indices ks nss ?c) name v =
        index_keys ?c name v \<union> (set ks \<inter> matching_keys ?c name v)"
    using 2(2-5) by (intro 2(1)) (auto simp: tot)
  moreover have "index_keys ?c name v =
      (if indexes c name ?o v then insert key (index_keys c name v) else index_keys c name v)"
    using 2(2) [of key] 2(3) [of key] 2(5)
    by (subst updateIndices_keys) (auto simp: Let_def)
  moreover have "key \<in> matching_keys c name v \<longleftrightarrow> indexes c name ?o v"
    using 2(4) by (auto simp: matching_keys_def)
  ultimately show ?case
    by (auto simp: mat)
qed

lemma index_inv_Replace [inv_intros]:
  assumes ks: "range_of its ks"
    and nss: "\<And>k. k \<in> set ks \<Longrightarrow> set (nss k) = dom (indexers c)"
    and ok: "\<And>k obj. its k = Some obj \<Longrightarrow> obj \<noteq> NilI \<and> index_total c obj"
  shows "index_inv (threadSafeMap_Replace ks nss its c)"
proof -
  let ?b = "c\<lparr>items := its, indices := Map.empty\<rparr>"
  let ?c = "threadSafeMap_Replace ks nss its c"
  have ix: "indexers ?c = indexers c" and it: "items ?c = its"
    by (simp_all add: threadSafeMap_Replace_def)
  have b: "index_total ?b = index_total c" "indexes ?b = indexes c"
    by (simp_all add: index_total_def indexes_def fun_eq_iff)
  have keys: "index_keys ?c name v = matching_keys ?c name v" if "name \<in> dom (indexers c)" for name v
  proof -
    have "index_keys ?c name v = set ks \<inter> matching_keys ?b name v"
      unfolding threadSafeMap_Replace_def
      using ks nss ok that
      by (subst rebuild_indices_keys) (auto simp: b range_of_def index_keys_def)
    also have "\<dots> = matching_keys ?c name v"
      using ks it by (auto simp: matching_keys_def b indexes_cong [OF ix] range_of_def)
    finally show ?thesis .
  qed
  show ?thesis
    unfolding index_inv_def it index_total_cong [OF ix]
    using keys ok range_of_finite [OF ks] ix by auto
qed

section \<open>Properties of the store\<close>


text \<open>Replace rebuilds the indices from nothing: whatever the store held before, the
  result holds the given items and its indices are exact.\<close>

theorem store_replace_rebuilds_indices:
  assumes "range_of its ks"
    and "\<And>k. k \<in> set ks \<Longrightarrow> range_of (indexers c) (nss k)"
    and "\<And>k obj. its k = Some obj \<Longrightarrow> obj \<noteq> NilI \<and> index_total c obj"
  shows "index_inv (threadSafeMap_Replace ks nss its c) \<and>
         items (threadSafeMap_Replace ks nss its c) = its"
proof
  show "index_inv (threadSafeMap_Replace ks nss its c)"
    using assms by (intro index_inv_Replace) (auto simp: range_of_def)
  show "items (threadSafeMap_Replace ks nss its c) = its"
    by (simp add: threadSafeMap_Replace_def)
qed

lemma map_get_items_image:
  assumes "K \<subseteq> dom (items c)"
  shows "map_get NilI (items c) ` K = {obj. \<exists>k \<in> K. items c k = Some obj}"
  using assms by (force simp: image_iff)

text \<open>ByIndex returns every stored object that has the given index value, and no other,
  each of its keys once and in key order; an unregistered index name is an error.\<close>

theorem byIndex_returns_matching:
  assumes inv: "index_inv c" and n: "name \<in> dom (indexers c)"
  shows "\<exists>ks. threadSafeMap_ByIndex name v c = Inr (map (map_get NilI (items c)) ks) \<and>
              sorted ks \<and> distinct ks \<and> set ks = matching_keys c name v \<and>
              set (map (map_get NilI (items c)) ks) =
                {obj. \<exists>k. items c k = Some obj \<and> indexes c name obj v}"
proof -
  let ?ks = "sorted_list_of_set (index_keys c name v)"
  have fin: "finite (index_keys c name v)"
    using inv n by (rule index_inv_finite_keys)
  have set: "set ?ks = matching_keys c name v"
    using inv n fin by (simp add: index_inv_def)
  have "map_get NilI (items c) ` set ?ks =
      {obj. \<exists>k. items c k = Some obj \<and> indexes c name obj v}"
    using map_get_items_image [of "set ?ks" c] unfolding set
    by (fastforce simp: matching_keys_def)
  then show ?thesis
    using n fin set by (intro exI [of _ ?ks]) (auto simp: threadSafeMap_ByIndex_def)
qed

text \<open>Splitting the key of an object gives its namespace and name back, for every namespace
  (the empty one too) and name without a slash.\<close>

theorem split_key_roundtrip:
  assumes "accessor x = Some (ns, name)" and "CHR ''/'' \<notin> set ns" and "CHR ''/'' \<notin> set name"
  shows "\<exists>key. MetaNamespaceKeyFunc accessor (Obj x) = Inr key \<and>
               SplitMetaNamespaceKey key = Inr (ns, name)"
  using assms
  by (auto simp: MetaNamespaceKeyFunc_def SplitMetaNamespaceKey_def meta_of_def
      split_on_sep split_on_no_sep)


text \<open>An index function that fails on an object makes the store lose track of it: the error
  ends the loop over the indexers, every caller drops it, and when the loop of Delete meets
  the failing indexer first the other index keeps the key of an object that is gone, so
  ByIndex returns a nil object.\<close>

theorem failing_indexer_leaves_stale_key:
  "let ixs = [''parity'' \<mapsto> (\<lambda>_. Inr [''odd'']), ''strict'' \<mapsto> (\<lambda>_. Inl (CallerError ''no''))];
       c0 = NewThreadSafeStore ixs Map.empty;
       c1 = threadSafeMap_Add [] [''parity'', ''strict''] ''a'' (Obj (1::nat)) c0;
       c2 = threadSafeMap_Delete [''strict'', ''parity''] ''a'' c1
   in range_of ixs [''parity'', ''strict''] \<and> range_of ixs [''strict'', ''parity''] \<and>
      items c2 = Map.empty \<and> threadSafeMap_ByIndex ''parity'' ''odd'' c2 = Inr [NilI]"
  by (auto simp: NewThreadSafeStore_def threadSafeMap_Add_def threadSafeMap_Delete_def updateIndices_def
      threadSafeMap_ByIndex_def index_keys_def range_of_def Let_def fun_eq_iff map_delete_def)

section \<open>The Store interface\<close>

text \<open>
  The Go interface \<^verbatim>\<open>cache.Store\<close>, as far as its clients in the informer use it: a
  dictionary of operations over some state. The locale states the contract; \<open>contents\<close> is
  what the store holds, \<open>storable\<close> which objects it accepts.
\<close>

record ('s, 'o) Store_ops =
  Store_Add :: "orders \<Rightarrow> 'o iface \<Rightarrow> 's \<Rightarrow> ('o cache_error, 's) result"
  Store_Update :: "orders \<Rightarrow> 'o iface \<Rightarrow> 's \<Rightarrow> ('o cache_error, 's) result"
  Store_Delete :: "orders \<Rightarrow> 'o iface \<Rightarrow> 's \<Rightarrow> ('o cache_error, 's) result"
  Store_Get :: "'o iface \<Rightarrow> 's \<Rightarrow> ('o cache_error, 'o iface \<times> bool) result"

locale object_store =
  fixes ops :: "('s, 'o) Store_ops"
    and contents :: "'s \<Rightarrow> string \<rightharpoonup> 'o iface"
    and key :: "'o KeyFunc"
    and invar :: "'s \<Rightarrow> bool"
    and storable :: "'o iface \<Rightarrow> bool"
    and visits :: "orders \<Rightarrow> bool"
  assumes add_key: "invar s \<Longrightarrow> visits ord \<Longrightarrow> storable x \<Longrightarrow> key x = Inr k \<Longrightarrow>
      \<exists>s'. Store_Add ops ord x s = Inr s' \<and> invar s' \<and> contents s' = (contents s)(k \<mapsto> x)"
    and update_key: "invar s \<Longrightarrow> visits ord \<Longrightarrow> storable x \<Longrightarrow> key x = Inr k \<Longrightarrow>
      \<exists>s'. Store_Update ops ord x s = Inr s' \<and> invar s' \<and> contents s' = (contents s)(k \<mapsto> x)"
    and delete_key: "invar s \<Longrightarrow> visits ord \<Longrightarrow> key x = Inr k \<Longrightarrow>
      \<exists>s'. Store_Delete ops ord x s = Inr s' \<and> invar s' \<and> contents s' = map_delete k (contents s)"
    and get_key: "invar s \<Longrightarrow> key x = Inr k \<Longrightarrow>
      Store_Get ops x s = Inr (map_get NilI (contents s) k, contents s k \<noteq> None)"
    and add_err: "invar s \<Longrightarrow> key x = Inl e \<Longrightarrow> Store_Add ops ord x s = Inl (KeyError x e)"
    and delete_err: "invar s \<Longrightarrow> key x = Inl e \<Longrightarrow> Store_Delete ops ord x s = Inl (KeyError x e)"
    and get_err: "invar s \<Longrightarrow> key x = Inl e \<Longrightarrow> Store_Get ops x s = Inl (KeyError x e)"

definition cache_ops :: "('o cache, 'o) Store_ops" where
  "cache_ops = \<lparr>Store_Add = cache_Add, Store_Update = cache_Update, Store_Delete = cache_Delete,
                Store_Get = cache_Get\<rparr>"

definition cache_contents :: "'o cache \<Rightarrow> string \<rightharpoonup> 'o iface" where
  "cache_contents c = items (cacheStorage c)"

definition cache_inv :: "'o KeyFunc \<Rightarrow> (string \<rightharpoonup> 'o IndexFunc) \<Rightarrow> 'o cache \<Rightarrow> bool" where
  "cache_inv kf ixs c \<longleftrightarrow>
     keyFunc c = kf \<and> indexers (cacheStorage c) = ixs \<and> index_inv (cacheStorage c)"

definition cache_storable :: "(string \<rightharpoonup> 'o IndexFunc) \<Rightarrow> 'o iface \<Rightarrow> bool" where
  "cache_storable ixs x \<longleftrightarrow>
     x \<noteq> NilI \<and> (\<forall>name f. ixs name = Some f \<longrightarrow> (\<exists>vs. f x = Inr vs))"

definition cache_visits :: "(string \<rightharpoonup> 'o IndexFunc) \<Rightarrow> orders \<Rightarrow> bool" where
  "cache_visits ixs ord \<longleftrightarrow> range_of ixs (fst ord) \<and> range_of ixs (snd ord)"

lemmas cache_defs = cache_ops_def cache_contents_def cache_inv_def cache_storable_def
  cache_visits_def cache_Add_def cache_Update_def cache_Delete_def cache_Get_def cache_GetByKey_def

interpretation cs: object_store cache_ops cache_contents kf "cache_inv kf ixs" "cache_storable ixs"
  "cache_visits ixs" for kf :: "'o KeyFunc" and ixs
  by unfold_locales
    (auto simp: cache_defs threadSafeMap_Update_Add threadSafeMap_Get_def range_of_def index_total_def
      intro!: inv_intros)

lemma cache_inv_NewIndexer: "cache_inv kf ixs (NewIndexer kf ixs)"
  using index_inv_new by (simp add: cache_inv_def NewIndexer_def NewThreadSafeStore_def)

lemma NewStore_NewIndexer: "NewStore kf = NewIndexer kf Map.empty"
  by (simp add: NewStore_def NewIndexer_def)

section \<open>UndeltaStore\<close>

text \<open>
  A store that pushes its complete state after every change: an operation returns the new
  store and the list handed to \<^verbatim>\<open>PushFunc\<close>. \<open>ks\<close> is the order \<open>List\<close> visits the items.
\<close>

definition push_after ::
  "string list \<Rightarrow> ('o cache_error, 'o cache) result \<Rightarrow> ('o cache_error, 'o cache \<times> 'o iface list) result" where
  "push_after ks r = (case r of Inl err \<Rightarrow> Inl err | Inr c \<Rightarrow> Inr (c, cache_List ks c))"

definition UndeltaStore_Add where
  "UndeltaStore_Add ks ord obj c = push_after ks (cache_Add ord obj c)"

definition UndeltaStore_Update where
  "UndeltaStore_Update ks ord obj c = push_after ks (cache_Update ord obj c)"

definition UndeltaStore_Delete where
  "UndeltaStore_Delete ks ord obj c = push_after ks (cache_Delete ord obj c)"

definition UndeltaStore_Replace where
  "UndeltaStore_Replace ks ord nss objs c = push_after ks (cache_Replace ord nss objs c)"

section \<open>Witnesses\<close>

definition parity_index :: "nat IndexFunc" where
  "parity_index obj =
     (case obj of
        Obj n \<Rightarrow> Inr [if even n then ''even'' else ''odd'']
      | _ \<Rightarrow> Inl (CallerError ''not a number''))"

definition parity_store :: "nat threadSafeMap" where
  "parity_store = NewThreadSafeStore [''parity'' \<mapsto> parity_index] Map.empty"

lemma parity_store_simps [simp]:
  "indexers parity_store = [''parity'' \<mapsto> parity_index]"
  "items parity_store = Map.empty"
  "index_inv parity_store"
  by (simp_all add: parity_store_def index_inv_new) (simp_all add: NewThreadSafeStore_def)

lemma index_total_parity [simp]:
  "indexers c = [''parity'' \<mapsto> parity_index] \<Longrightarrow> index_total c (Obj n)"
  by (auto simp: index_total_def parity_index_def split: if_splits)


theorem store_replace_rebuilds_indices_witness:
  "index_inv (threadSafeMap_Replace [''a''] (\<lambda>_. [''parity'']) [''a'' \<mapsto> Obj 1] parity_store) \<and>
   items (threadSafeMap_Replace [''a''] (\<lambda>_. [''parity'']) [''a'' \<mapsto> Obj 1] parity_store) =
     [''a'' \<mapsto> Obj (1 :: nat)]"
  by (rule store_replace_rebuilds_indices) (auto simp: range_of_def split: if_splits)

theorem byIndex_returns_matching_witness:
  "let c = threadSafeMap_Add [''parity''] [''parity''] ''a'' (Obj 1) parity_store in
   \<exists>ks. threadSafeMap_ByIndex ''parity'' ''odd'' c = Inr (map (map_get NilI (items c)) ks) \<and>
        sorted ks \<and> distinct ks \<and> set ks = matching_keys c ''parity'' ''odd'' \<and>
        set (map (map_get NilI (items c)) ks) =
          {obj. \<exists>k. items c k = Some obj \<and> indexes c ''parity'' obj ''odd''}"
  unfolding Let_def
  by (rule byIndex_returns_matching) (auto intro!: inv_intros split: if_splits)

theorem split_key_roundtrip_witness:
  "\<exists>key. MetaNamespaceKeyFunc (\<lambda>x::string. Some (''kube-system'', x)) (Obj ''dns'') = Inr key \<and>
         SplitMetaNamespaceKey key = Inr (''kube-system'', ''dns'')"
  by (rule split_key_roundtrip) simp_all

end
