(* ===== verification/Cache_FIFO.thy ===== *)
theory Cache_FIFO
  imports Cache_Store
begin

text \<open>
  The producer-consumer queue \<^verbatim>\<open>pkg/client/cache/fifo.go\<close>: the latest version of each
  object by key, and the keys in the order of their first addition. The locale \<open>keyed_queue\<close>
  is the part of the \<^verbatim>\<open>cache.Queue\<close> contract a consumer relies on; \<open>FIFO\<close> satisfies it
  here and \<open>DeltaFIFO\<close> in its own theory.

  A wait on the condition variable is the result \<open>None\<close> of \<open>Pop\<close>; the error \<open>Pop\<close> passes
  on from the process function does not change the queue, so it is left to the caller.
\<close>

section \<open>State and operations\<close>

record 'o FIFO =
  fifo_items :: "string \<rightharpoonup> 'o iface"
  fifo_queue :: "string list"
  fifo_populated :: bool
  fifo_initialPopulationCount :: int
  fifo_keyFunc :: "'o KeyFunc"

definition NewFIFO :: "'o KeyFunc \<Rightarrow> 'o FIFO" where
  "NewFIFO kf = \<lparr>fifo_items = Map.empty, fifo_queue = [], fifo_populated = False,
                 fifo_initialPopulationCount = 0, fifo_keyFunc = kf\<rparr>"

definition FIFO_HasSynced :: "'o FIFO \<Rightarrow> bool" where
  "FIFO_HasSynced f \<longleftrightarrow> fifo_populated f \<and> fifo_initialPopulationCount f = 0"

definition FIFO_Add :: "'o iface \<Rightarrow> 'o FIFO \<Rightarrow> ('o cache_error, 'o FIFO) result" where
  "FIFO_Add obj f =
     (case fifo_keyFunc f obj of
        Inl err \<Rightarrow> Inl (KeyError obj err)
      | Inr key \<Rightarrow>
          Inr (f\<lparr>fifo_populated := True,
                 fifo_queue := (if fifo_items f key = None then fifo_queue f @ [key] else fifo_queue f),
                 fifo_items := (fifo_items f)(key \<mapsto> obj)\<rparr>))"

definition FIFO_AddIfNotPresent :: "'o iface \<Rightarrow> 'o FIFO \<Rightarrow> ('o cache_error, 'o FIFO) result" where
  "FIFO_AddIfNotPresent obj f =
     (case fifo_keyFunc f obj of
        Inl err \<Rightarrow> Inl (KeyError obj err)
      | Inr key \<Rightarrow>
          let f1 = f\<lparr>fifo_populated := True\<rparr>
          in if fifo_items f1 key \<noteq> None then Inr f1
             else Inr (f1\<lparr>fifo_queue := fifo_queue f1 @ [key], fifo_items := (fifo_items f1)(key \<mapsto> obj)\<rparr>))"

definition FIFO_Update :: "'o iface \<Rightarrow> 'o FIFO \<Rightarrow> ('o cache_error, 'o FIFO) result" where
  "FIFO_Update obj f = FIFO_Add obj f"

definition FIFO_Delete :: "'o iface \<Rightarrow> 'o FIFO \<Rightarrow> ('o cache_error, 'o FIFO) result" where
  "FIFO_Delete obj f =
     (case fifo_keyFunc f obj of
        Inl err \<Rightarrow> Inl (KeyError obj err)
      | Inr key \<Rightarrow> Inr (f\<lparr>fifo_populated := True, fifo_items := map_delete key (fifo_items f)\<rparr>))"

definition FIFO_List :: "string list \<Rightarrow> 'o FIFO \<Rightarrow> 'o iface list" where
  "FIFO_List ks f = map (map_get NilI (fifo_items f)) ks"

definition FIFO_GetByKey :: "string \<Rightarrow> 'o FIFO \<Rightarrow> 'o iface \<times> bool" where
  "FIFO_GetByKey key f = (map_get NilI (fifo_items f) key, fifo_items f key \<noteq> None)"

definition FIFO_Get :: "'o iface \<Rightarrow> 'o FIFO \<Rightarrow> ('o cache_error, 'o iface \<times> bool) result" where
  "FIFO_Get obj f =
     (case fifo_keyFunc f obj of
        Inl err \<Rightarrow> Inl (KeyError obj err)
      | Inr key \<Rightarrow> Inr (FIFO_GetByKey key f))"

text \<open>The loop of Pop runs over the queue and stops at the first key that still has an item.\<close>

fun pop_loop :: "string list \<Rightarrow> (string \<rightharpoonup> 'v) \<Rightarrow> int \<Rightarrow> (string \<times> 'v) option \<times> string list \<times> int" where
  "pop_loop [] its n = (None, [], n)"
| "pop_loop (key # q) its n =
     (let n' = (if n > 0 then n - 1 else n)
      in case its key of
           None \<Rightarrow> pop_loop q its n'
         | Some item \<Rightarrow> (Some (key, item), q, n'))"

definition FIFO_Pop :: "'o FIFO \<Rightarrow> 'o iface option \<times> 'o FIFO" where
  "FIFO_Pop f =
     (case pop_loop (fifo_queue f) (fifo_items f) (fifo_initialPopulationCount f) of
        (None, q, n) \<Rightarrow> (None, f\<lparr>fifo_queue := q, fifo_initialPopulationCount := n\<rparr>)
      | (Some (key, item), q, n) \<Rightarrow>
          (Some item, f\<lparr>fifo_queue := q, fifo_initialPopulationCount := n,
                        fifo_items := map_delete key (fifo_items f)\<rparr>))"

text \<open>\<open>ks\<close> visits the new items.\<close>

definition FIFO_Replace :: "string list \<Rightarrow> 'o iface list \<Rightarrow> 'o FIFO \<Rightarrow> ('o cache_error, 'o FIFO) result" where
  "FIFO_Replace ks xs f =
     (case key_items (fifo_keyFunc f) xs Map.empty of
        Inl err \<Rightarrow> Inl err
      | Inr its \<Rightarrow>
          let f1 = (if fifo_populated f then f
                    else f\<lparr>fifo_populated := True, fifo_initialPopulationCount := int (map_len its)\<rparr>)
          in Inr (f1\<lparr>fifo_items := its, fifo_queue := ks\<rparr>))"

text \<open>\<open>ks\<close> visits the items.\<close>

definition FIFO_Resync :: "string list \<Rightarrow> 'o FIFO \<Rightarrow> 'o FIFO" where
  "FIFO_Resync ks f =
     f\<lparr>fifo_queue := fifo_queue f @ filter (\<lambda>key. key \<notin> set (fifo_queue f)) ks\<rparr>"

section \<open>The loop of Pop\<close>

lemma pop_loop_Some:
  assumes "pop_loop q its n = (Some (key, item), q', n')"
  shows "\<exists>skipped. q = skipped @ key # q' \<and> (\<forall>k \<in> set skipped. its k = None) \<and> its key = Some item \<and>
                   n' = (if n > 0 then max 0 (n - int (Suc (length skipped))) else n)"
  using assms
proof (induction q its n rule: pop_loop.induct)
  case (2 k q its n)
  show ?case
  proof (cases "its k")
    case None
    with 2 obtain sk where "q = sk @ key # q'" "\<forall>k \<in> set sk. its k = None" "its key = Some item"
      "n' = (if (if n > 0 then n - 1 else n) > 0
             then max 0 ((if n > 0 then n - 1 else n) - int (Suc (length sk)))
             else (if n > 0 then n - 1 else n))"
      by (auto simp: Let_def)
    with None show ?thesis
      by (intro exI [of _ "k # sk"]) auto
  next
    case (Some v)
    with 2(2) show ?thesis by (auto simp: Let_def)
  qed
qed simp

lemma pop_loop_None:
  "fst (pop_loop q its n) = None \<longleftrightarrow> (\<forall>k \<in> set q. its k = None)"
  by (induction q its n rule: pop_loop.induct) (auto simp: Let_def split: option.splits)

lemma pop_loop_None_queue:
  "fst (pop_loop q its n) = None \<Longrightarrow> fst (snd (pop_loop q its n)) = []"
  by (induction q its n rule: pop_loop.induct) (auto simp: Let_def split: option.splits)

lemma pop_loop_count: "0 \<le> n \<Longrightarrow> 0 \<le> snd (snd (pop_loop q its n))"
  by (induction q its n rule: pop_loop.induct) (auto simp: Let_def split: option.splits)

section \<open>The Queue contract\<close>

text \<open>
  What a consumer of a \<^verbatim>\<open>cache.Queue\<close> relies on: \<open>pending\<close> is what the queue holds by key;
  a pop takes one pending entry out and leaves the others, and blocks only when nothing is
  pending. \<open>drain pop n\<close> pops up to \<open>n\<close> times, stopping when the queue blocks.
\<close>

primrec drain :: "('q \<Rightarrow> 'v option \<times> 'q) \<Rightarrow> nat \<Rightarrow> 'q \<Rightarrow> 'v list \<times> 'q" where
  "drain pop 0 q = ([], q)"
| "drain pop (Suc n) q =
     (case pop q of
        (None, q') \<Rightarrow> ([], q')
      | (Some v, q') \<Rightarrow> (let (vs, q'') = drain pop n q' in (v # vs, q'')))"

locale keyed_queue =
  fixes pop :: "'q \<Rightarrow> 'v option \<times> 'q"
    and pending :: "'q \<Rightarrow> string \<rightharpoonup> 'v"
    and invar :: "'q \<Rightarrow> bool"
  assumes pop_blocks: "invar q \<Longrightarrow> fst (pop q) = None \<longleftrightarrow> pending q = Map.empty"
    and pop_takes: "invar q \<Longrightarrow> pop q = (Some v, q') \<Longrightarrow>
      \<exists>k. pending q k = Some v \<and> pending q' = map_delete k (pending q)"
    and pop_invar: "invar q \<Longrightarrow> invar (snd (pop q))"
    and finite_pending: "invar q \<Longrightarrow> finite (dom (pending q))"
begin

lemma pop_Some_pending: "invar q \<Longrightarrow> pending q \<noteq> Map.empty \<Longrightarrow> \<exists>v q'. pop q = (Some v, q')"
  using pop_blocks [of q] by (cases "pop q"; cases "fst (pop q)") auto

text \<open>As many pops as there are pending entries empty the queue and return each entry once.\<close>

lemma drain_all:
  assumes "invar q" and "n = map_len (pending q)"
  shows "invar (snd (drain pop n q)) \<and> pending (snd (drain pop n q)) = Map.empty \<and>
         length (fst (drain pop n q)) = n \<and> set (fst (drain pop n q)) = ran (pending q)"
  using assms
proof (induction n arbitrary: q)
  case 0
  then show ?case using finite_pending map_len_zero by fastforce
next
  case (Suc n)
  then have "pending q \<noteq> Map.empty" by auto
  then obtain v q' where p: "pop q = (Some v, q')"
    using Suc.prems pop_Some_pending by blast
  then obtain k where k: "pending q k = Some v" and q': "pending q' = map_delete k (pending q)"
    using pop_takes Suc.prems by blast
  have "invar q'" using pop_invar [OF Suc.prems(1)] p by simp
  moreover have "n = map_len (pending q')"
    using Suc.prems k finite_pending [of q] by (auto simp: q' map_len_delete)
  ultimately have IH: "invar (snd (drain pop n q'))" "pending (snd (drain pop n q')) = Map.empty"
      "length (fst (drain pop n q')) = n" "set (fst (drain pop n q')) = ran (pending q')"
    using Suc.IH by blast+
  have "ran (pending q) = insert v (ran (pending q'))"
    using k by (auto simp: ran_def q') (metis option.inject)
  with IH p show ?case
    by (simp add: case_prod_beta)
qed

end

text \<open>
  The part of the contract behind \<^verbatim>\<open>HasSynced\<close>: while the queue holds exactly the keys of
  the stored objects (\<open>strict\<close>), a pop takes the head and counts it.
\<close>

locale counted_queue =
  fixes pop :: "'q \<Rightarrow> 'v option \<times> 'q"
    and waiting :: "'q \<Rightarrow> string list"
    and remaining :: "'q \<Rightarrow> int"
    and strict :: "'q \<Rightarrow> bool"
  assumes pop_head: "strict q \<Longrightarrow> waiting q = k # ks \<Longrightarrow>
      \<exists>v q'. pop q = (Some v, q') \<and> strict q' \<and> waiting q' = ks \<and>
        remaining q' = (if remaining q > 0 then remaining q - 1 else remaining q)"
    and pop_nothing: "waiting q = [] \<Longrightarrow> pop q = (None, q)"
begin

lemma remaining_after_drain:
  assumes "strict q" and "remaining q = int (length (waiting q))"
  shows "remaining (snd (drain pop m q)) = int (length (waiting q) - m)"
  using assms
proof (induction m arbitrary: q)
  case 0
  then show ?case by simp
next
  case (Suc m)
  show ?case
  proof (cases "waiting q")
    case Nil
    with Suc.prems show ?thesis by (simp add: pop_nothing)
  next
    case (Cons k ks)
    with pop_head [OF Suc.prems(1) Cons] Suc.prems(2)
    obtain v q' where q': "pop q = (Some v, q')" "strict q'" "waiting q' = ks" "remaining q' = int (length ks)"
      by auto
    with Suc.IH [of q'] Cons show ?thesis by (simp add: case_prod_beta)
  qed
qed

end

section \<open>FIFO keeps every item queued\<close>

definition fifo_inv :: "'o FIFO \<Rightarrow> bool" where
  "fifo_inv f \<longleftrightarrow> finite (dom (fifo_items f)) \<and>
     (\<forall>k. fifo_items f k \<noteq> None \<longrightarrow> k \<in> set (fifo_queue f)) \<and> 0 \<le> fifo_initialPopulationCount f"

lemma fifo_inv_New [inv_intros]: "fifo_inv (NewFIFO kf)"
  by (simp add: fifo_inv_def NewFIFO_def)

lemma fifo_inv_Add [inv_intros]: "fifo_inv f \<Longrightarrow> FIFO_Add obj f = Inr f' \<Longrightarrow> fifo_inv f'"
  by (auto simp: fifo_inv_def FIFO_Add_def split: sum.splits if_splits)

lemma fifo_inv_AddIfNotPresent [inv_intros]:
  "fifo_inv f \<Longrightarrow> FIFO_AddIfNotPresent obj f = Inr f' \<Longrightarrow> fifo_inv f'"
  by (auto simp: fifo_inv_def FIFO_AddIfNotPresent_def Let_def split: sum.splits if_splits)

lemma fifo_inv_Delete [inv_intros]: "fifo_inv f \<Longrightarrow> FIFO_Delete obj f = Inr f' \<Longrightarrow> fifo_inv f'"
  by (auto simp: fifo_inv_def FIFO_Delete_def split: sum.splits if_splits)

lemma key_items_finite: "key_items kf xs m = Inr its \<Longrightarrow> finite (dom m) \<Longrightarrow> finite (dom its)"
  by (induction kf xs m rule: key_items.induct) (auto split: sum.splits)

lemma fifo_inv_Replace [inv_intros]:
  assumes "fifo_inv f" and "FIFO_Replace ks xs f = Inr f'" and "range_of (fifo_items f') ks"
  shows "fifo_inv f'"
  using assms range_of_finite [OF assms(3)]
  by (auto simp: fifo_inv_def FIFO_Replace_def Let_def range_of_def split: sum.splits if_splits)

lemma fifo_inv_Resync [inv_intros]: "fifo_inv f \<Longrightarrow> fifo_inv (FIFO_Resync ks f)"
  by (auto simp: fifo_inv_def FIFO_Resync_def)

lemma FIFO_Pop_Some:
  assumes "FIFO_Pop f = (Some item, f')"
  shows "\<exists>skipped key. fifo_queue f = skipped @ key # fifo_queue f' \<and>
           (\<forall>k \<in> set skipped. fifo_items f k = None) \<and> fifo_items f key = Some item \<and>
           fifo_items f' = map_delete key (fifo_items f) \<and>
           fifo_initialPopulationCount f' =
             (if fifo_initialPopulationCount f > 0
              then max 0 (fifo_initialPopulationCount f - int (Suc (length skipped)))
              else fifo_initialPopulationCount f)"
proof -
  obtain r q n where pl: "pop_loop (fifo_queue f) (fifo_items f) (fifo_initialPopulationCount f) = (r, q, n)"
    by (metis prod_cases3)
  with assms obtain key where "r = Some (key, item)"
    by (auto simp: FIFO_Pop_def split: option.splits)
  with pl have pl': "pop_loop (fifo_queue f) (fifo_items f) (fifo_initialPopulationCount f) =
      (Some (key, item), q, n)" by simp
  with assms have "fifo_queue f' = q" "fifo_items f' = map_delete key (fifo_items f)"
      "fifo_initialPopulationCount f' = n"
    by (auto simp: FIFO_Pop_def)
  with pop_loop_Some [OF pl'] show ?thesis by auto
qed

lemma FIFO_Pop_None:
  assumes "FIFO_Pop f = (None, f')"
  shows "(\<forall>k \<in> set (fifo_queue f). fifo_items f k = None) \<and> fifo_items f' = fifo_items f \<and>
         fifo_queue f' = []"
  using assms pop_loop_None [of "fifo_queue f" "fifo_items f" "fifo_initialPopulationCount f"]
    pop_loop_None_queue [of "fifo_queue f" "fifo_items f" "fifo_initialPopulationCount f"]
  by (auto simp: FIFO_Pop_def split: prod.splits option.splits)


lemma fifo_inv_Pop [inv_intros]: "fifo_inv f \<Longrightarrow> fifo_inv (snd (FIFO_Pop f))"
proof (cases "FIFO_Pop f")
  case (Pair r f')
  assume inv: "fifo_inv f"
  show ?thesis
  proof (cases r)
    case None
    with Pair inv FIFO_Pop_None [of f f'] show ?thesis
      using pop_loop_count [of "fifo_initialPopulationCount f" "fifo_queue f" "fifo_items f"]
      by (auto simp: fifo_inv_def FIFO_Pop_def split: prod.splits option.splits)
  next
    case (Some item)
    with Pair FIFO_Pop_Some [of f item f'] inv show ?thesis
      by (fastforce simp: fifo_inv_def split: if_splits)
  qed
qed

interpretation fq: keyed_queue FIFO_Pop fifo_items fifo_inv
proof (unfold_locales, goal_cases)
  case (1 f)
  then show ?case
    using pop_loop_None [of "fifo_queue f" "fifo_items f" "fifo_initialPopulationCount f"]
    by (auto simp: FIFO_Pop_def fifo_inv_def fun_eq_iff split: prod.splits option.splits)
next
  case (2 f v f')
  then show ?case using FIFO_Pop_Some by blast
next
  case (3 f)
  then show ?case by (rule fifo_inv_Pop)
next
  case (4 f)
  then show ?case by (simp add: fifo_inv_def)
qed

section \<open>Reachable queues\<close>

inductive fifo_step :: "'o FIFO \<Rightarrow> 'o FIFO \<Rightarrow> bool" where
  step_Add: "FIFO_Add obj f = Inr f' \<Longrightarrow> fifo_step f f'"
| step_Update: "FIFO_Update obj f = Inr f' \<Longrightarrow> fifo_step f f'"
| step_AddIfNotPresent: "FIFO_AddIfNotPresent obj f = Inr f' \<Longrightarrow> fifo_step f f'"
| step_Delete: "FIFO_Delete obj f = Inr f' \<Longrightarrow> fifo_step f f'"
| step_Pop: "fifo_step f (snd (FIFO_Pop f))"
| step_Replace: "FIFO_Replace ks xs f = Inr f' \<Longrightarrow> range_of (fifo_items f') ks \<Longrightarrow> fifo_step f f'"
| step_Resync: "range_of (fifo_items f) ks \<Longrightarrow> fifo_step f (FIFO_Resync ks f)"

inductive fifo_reachable :: "'o KeyFunc \<Rightarrow> 'o FIFO \<Rightarrow> bool" for kf where
  reach_New: "fifo_reachable kf (NewFIFO kf)"
| reach_step: "fifo_reachable kf f \<Longrightarrow> fifo_step f f' \<Longrightarrow> fifo_reachable kf f'"

lemma fifo_step_inv: "fifo_step f f' \<Longrightarrow> fifo_inv f \<Longrightarrow> fifo_inv f'"
  by (induction rule: fifo_step.induct) (auto simp: FIFO_Update_def intro: inv_intros)

lemma fifo_reachable_inv: "fifo_reachable kf f \<Longrightarrow> fifo_inv f"
  by (induction rule: fifo_reachable.induct) (auto intro: inv_intros fifo_step_inv)

section \<open>The strict invariant and what Delete does to it\<close>

text \<open>The comment on \<^verbatim>\<open>items\<close> says: items in the set are in the queue and vice versa.\<close>

definition fifo_strict :: "'o FIFO \<Rightarrow> bool" where
  "fifo_strict f \<longleftrightarrow> distinct (fifo_queue f) \<and> set (fifo_queue f) = dom (fifo_items f)"

lemma fifo_strict_Add:
  "fifo_strict f \<Longrightarrow> FIFO_Add obj f = Inr f' \<Longrightarrow> fifo_strict f'"
  by (auto simp: fifo_strict_def FIFO_Add_def domIff split: sum.splits if_splits)

lemma fifo_strict_AddIfNotPresent:
  "fifo_strict f \<Longrightarrow> FIFO_AddIfNotPresent obj f = Inr f' \<Longrightarrow> fifo_strict f'"
  by (auto simp: fifo_strict_def FIFO_AddIfNotPresent_def Let_def domIff split: sum.splits if_splits)

lemma fifo_strict_Replace:
  "FIFO_Replace ks xs f = Inr f' \<Longrightarrow> range_of (fifo_items f') ks \<Longrightarrow> fifo_strict f'"
  by (auto simp: fifo_strict_def FIFO_Replace_def range_of_def Let_def split: sum.splits if_splits)

lemma fifo_strict_Resync: "fifo_strict f \<Longrightarrow> range_of (fifo_items f) ks \<Longrightarrow> FIFO_Resync ks f = f"
  by (auto simp: fifo_strict_def FIFO_Resync_def range_of_def filter_empty_conv)

text \<open>Under the strict invariant a pop takes the head of the queue.\<close>

lemma FIFO_Pop_strict:
  assumes "fifo_strict f" and "fifo_queue f = key # q"
  shows "\<exists>item. fifo_items f key = Some item \<and>
     FIFO_Pop f = (Some item, f\<lparr>fifo_queue := q,
        fifo_initialPopulationCount := (if fifo_initialPopulationCount f > 0
          then fifo_initialPopulationCount f - 1 else fifo_initialPopulationCount f),
        fifo_items := map_delete key (fifo_items f)\<rparr>) \<and>
     fifo_strict (snd (FIFO_Pop f))"
proof -
  have "key \<in> dom (fifo_items f)" using assms by (auto simp: fifo_strict_def)
  then obtain item where "fifo_items f key = Some item" by blast
  with assms show ?thesis
    by (auto simp: FIFO_Pop_def fifo_strict_def Let_def)
qed

lemma FIFO_Pop_strict_empty:
  "fifo_queue f = [] \<Longrightarrow> FIFO_Pop f = (None, f)"
  by (simp add: FIFO_Pop_def)


lemma drain_strict:
  assumes "fifo_strict f" and "n = length (fifo_queue f)"
  shows "fst (drain FIFO_Pop n f) = map (map_get NilI (fifo_items f)) (fifo_queue f)"
  using assms
proof (induction n arbitrary: f)
  case 0
  then show ?case by simp
next
  case (Suc n)
  then obtain key q where q: "fifo_queue f = key # q"
    by (cases "fifo_queue f") auto
  then obtain item where item: "fifo_items f key = Some item"
    and pop: "fst (FIFO_Pop f) = Some item" and strict: "fifo_strict (snd (FIFO_Pop f))"
    and q': "fifo_queue (snd (FIFO_Pop f)) = q"
    and items': "fifo_items (snd (FIFO_Pop f)) = map_delete key (fifo_items f)"
    using FIFO_Pop_strict [OF Suc.prems(1) q] by auto
  have "key \<notin> set q" using Suc.prems(1) q by (auto simp: fifo_strict_def)
  then have "map (map_get NilI (map_delete key (fifo_items f))) q = map (map_get NilI (fifo_items f)) q"
    by (intro map_cong) auto
  with Suc.IH [OF strict] Suc.prems(2) q q' items'
  have "fst (drain FIFO_Pop n (snd (FIFO_Pop f))) = map (map_get NilI (fifo_items f)) q"
    by (metis Suc_inject length_Cons)
  with q item pop show ?case
    by (cases "FIFO_Pop f") (simp add: case_prod_beta)
qed

interpretation fcq: counted_queue FIFO_Pop fifo_queue fifo_initialPopulationCount fifo_strict
proof (unfold_locales, goal_cases)
  case (1 f k ks)
  then show ?case using FIFO_Pop_strict [of f k ks] by auto
next
  case (2 f)
  then show ?case by (rule FIFO_Pop_strict_empty)
qed

lemma FIFO_Pop_populated [simp]: "fifo_populated (snd (FIFO_Pop f)) = fifo_populated f"
  by (auto simp: FIFO_Pop_def split: prod.splits option.splits)

lemma drain_populated [simp]: "fifo_populated (snd (drain FIFO_Pop m f)) = fifo_populated f"
proof (induction m arbitrary: f)
  case (Suc m)
  then show ?case
    using FIFO_Pop_populated [of f]
    by (cases "FIFO_Pop f") (auto simp: case_prod_beta split: option.splits)
qed simp

section \<open>Properties of the queue\<close>

text \<open>In every queue that can be reached from a new one, whatever the interleaving of the
  operations, every stored object has its key in the queue, so a Pop blocks exactly when
  nothing is stored.\<close>

theorem fifo_pop_blocks_iff_empty:
  assumes "fifo_reachable kf f"
  shows "(\<forall>k. fifo_items f k \<noteq> None \<longrightarrow> k \<in> set (fifo_queue f)) \<and>
         (fst (FIFO_Pop f) = None \<longleftrightarrow> fifo_items f = Map.empty)"
  using fifo_reachable_inv [OF assms] fq.pop_blocks by (auto simp: fifo_inv_def)

text \<open>As many Pops as there are stored objects never block, return every stored object and
  leave the store empty.\<close>

theorem fifo_drain_returns_everything:
  assumes "fifo_reachable kf f"
  shows "length (fst (drain FIFO_Pop (map_len (fifo_items f)) f)) = map_len (fifo_items f) \<and>
         set (fst (drain FIFO_Pop (map_len (fifo_items f)) f)) = ran (fifo_items f) \<and>
         fifo_items (snd (drain FIFO_Pop (map_len (fifo_items f)) f)) = Map.empty"
  using fq.drain_all [OF fifo_reachable_inv [OF assms] refl] by blast

text \<open>After the first Replace of a new queue HasSynced turns true with the last of the
  replaced objects popped, and not earlier.\<close>

theorem fifo_synced_after_initial_batch:
  assumes "FIFO_Replace ks xs (NewFIFO kf) = Inr f" and "range_of (fifo_items f) ks"
  shows "FIFO_HasSynced (snd (drain FIFO_Pop m f)) \<longleftrightarrow> map_len (fifo_items f) \<le> m"
proof -
  have "fifo_populated f" "fifo_queue f = ks" "fifo_initialPopulationCount f = int (map_len (fifo_items f))"
    using assms(1) by (auto simp: FIFO_Replace_def NewFIFO_def split: sum.splits)
  then show ?thesis
    using fcq.remaining_after_drain [OF fifo_strict_Replace [OF assms]] range_of_length [OF assms(2)]
    by (simp add: FIFO_HasSynced_def)
qed

text \<open>While no Delete has happened (the queue and the items agree, which every other operation
  keeps), the objects come out in queue order, each in the version stored last.\<close>

theorem fifo_pops_in_queue_order:
  assumes "fifo_strict f"
  shows "fst (drain FIFO_Pop (length (fifo_queue f)) f) = map (map_get NilI (fifo_items f)) (fifo_queue f) \<and>
         (fifo_keyFunc f obj = Inr key \<longrightarrow> (\<exists>f'. FIFO_Add obj f = Inr f' \<and> fifo_strict f' \<and>
            fifo_items f' = (fifo_items f)(key \<mapsto> obj) \<and>
            fifo_queue f' = (if fifo_items f key = None then fifo_queue f @ [key] else fifo_queue f)))"
proof (intro conjI impI)
  assume "fifo_keyFunc f obj = Inr key"
  then obtain f' where "FIFO_Add obj f = Inr f'" "fifo_items f' = (fifo_items f)(key \<mapsto> obj)"
    "fifo_queue f' = (if fifo_items f key = None then fifo_queue f @ [key] else fifo_queue f)"
    by (simp add: FIFO_Add_def)
  with fifo_strict_Add [OF assms] show "\<exists>f'. FIFO_Add obj f = Inr f' \<and> fifo_strict f' \<and>
      fifo_items f' = (fifo_items f)(key \<mapsto> obj) \<and>
      fifo_queue f' = (if fifo_items f key = None then fifo_queue f @ [key] else fifo_queue f)"
    by blast
qed (rule drain_strict [OF assms refl])

text \<open>Delete removes the object and leaves its key queued. An object that is deleted and
  added again is then queued twice and overtakes objects that were added before it, so Pop
  does not return objects in the order they were added.\<close>

theorem fifo_readded_object_overtakes:
  "let kf = (\<lambda>obj. case obj of Obj n \<Rightarrow> Inr n | _ \<Rightarrow> Inl ObjectHasNoMeta);
       f1 = projr (FIFO_Add (Obj ''a'') (NewFIFO kf));
       f2 = projr (FIFO_Delete (Obj ''a'') f1);
       f3 = projr (FIFO_Add (Obj ''b'') f2);
       f4 = projr (FIFO_Add (Obj ''a'') f3)
   in fifo_queue f4 = [''a'', ''b'', ''a''] \<and> \<not> fifo_strict f4 \<and>
      fst (drain FIFO_Pop 2 f4) = [Obj ''a'', Obj ''b'']"
  by (simp add: Let_def FIFO_Add_def FIFO_Delete_def NewFIFO_def FIFO_Pop_def fifo_strict_def
      numeral_2_eq_2)

section \<open>Witnesses\<close>

definition name_key :: "string KeyFunc" where
  "name_key obj = (case obj of Obj n \<Rightarrow> Inr n | _ \<Rightarrow> Inl ObjectHasNoMeta)"

definition fifo_ab :: "string FIFO" where
  "fifo_ab = projr (FIFO_Add (Obj ''b'') (projr (FIFO_Add (Obj ''a'') (NewFIFO name_key))))"

lemma fifo_ab_simps:
  "fifo_items fifo_ab = [''a'' \<mapsto> Obj ''a'', ''b'' \<mapsto> Obj ''b'']"
  "fifo_queue fifo_ab = [''a'', ''b'']" "fifo_keyFunc fifo_ab = name_key"
  by (simp_all add: fifo_ab_def FIFO_Add_def NewFIFO_def name_key_def)

lemma fifo_ab_reachable: "fifo_reachable name_key fifo_ab"
proof -
  let ?a = "projr (FIFO_Add (Obj ''a'') (NewFIFO name_key))"
  have "FIFO_Add (Obj ''a'') (NewFIFO name_key) = Inr ?a" "FIFO_Add (Obj ''b'') ?a = Inr fifo_ab"
    by (simp_all add: fifo_ab_def FIFO_Add_def NewFIFO_def name_key_def)
  then show ?thesis
    by (meson reach_New reach_step step_Add)
qed

theorem fifo_pop_blocks_iff_empty_witness:
  "''b'' \<in> set (fifo_queue fifo_ab) \<and> fst (FIFO_Pop fifo_ab) \<noteq> None"
  using fifo_pop_blocks_iff_empty [OF fifo_ab_reachable]
  by (auto simp: fifo_ab_simps fun_eq_iff split: if_splits)

theorem fifo_drain_returns_everything_witness:
  "set (fst (drain FIFO_Pop (map_len (fifo_items fifo_ab)) fifo_ab)) = {Obj ''a'', Obj ''b''}"
  using fifo_drain_returns_everything [OF fifo_ab_reachable] by (auto simp: fifo_ab_simps)

theorem fifo_synced_after_initial_batch_witness:
  "FIFO_HasSynced (snd (drain FIFO_Pop 1
     (projr (FIFO_Replace [''a''] [Obj ''a''] (NewFIFO name_key)))))"
proof -
  have r: "FIFO_Replace [''a''] [Obj ''a''] (NewFIFO name_key) =
      Inr (projr (FIFO_Replace [''a''] [Obj ''a''] (NewFIFO name_key)))"
    and d: "fifo_items (projr (FIFO_Replace [''a''] [Obj ''a''] (NewFIFO name_key))) = [''a'' \<mapsto> Obj ''a'']"
    by (simp_all add: FIFO_Replace_def NewFIFO_def name_key_def)
  show ?thesis
    using fifo_synced_after_initial_batch [OF r, of 1] by (simp add: d range_of_def map_len_def)
qed

theorem fifo_pops_in_queue_order_witness:
  "fst (drain FIFO_Pop (length (fifo_queue fifo_ab)) fifo_ab) = [Obj ''a'', Obj ''b'']"
proof -
  have "fifo_strict fifo_ab" by (auto simp: fifo_strict_def fifo_ab_simps)
  from fifo_pops_in_queue_order [OF this] show ?thesis by (simp add: fifo_ab_simps)
qed

end
