(* ===== verification/Cache_DeltaFIFO.thy ===== *)
theory Cache_DeltaFIFO
  imports Cache_FIFO
begin

text \<open>
  \<^verbatim>\<open>pkg/client/cache/delta_fifo.go\<close>: a queue of the changes of each object since it was
  last popped. The lemmas show that every stored object stays queued with at least one
  delta, that all the deltas stored under a key belong to that key, that a deletion is never
  recorded twice in a row, and what each operation does to the final state that the pending
  deltas lead to (\<open>eventual\<close>), which is what the informer relies on.

  \<^verbatim>\<open>knownObjects\<close> is another store; an operation that reads it takes what it sees as an
  argument: \<open>None\<close> for the nil interface, else the keys \<^verbatim>\<open>ListKeys\<close> returns and the
  results of \<^verbatim>\<open>GetByKey\<close>.
\<close>

section \<open>State and operations\<close>

type_synonym 'o Deltas = "'o Delta list"
type_synonym 'o known = "string list \<times> (string \<Rightarrow> ('o cache_error, 'o iface \<times> bool) result)"

record 'o DeltaFIFO =
  df_items :: "string \<rightharpoonup> 'o Deltas"
  df_queue :: "string list"
  df_populated :: bool
  df_initialPopulationCount :: int
  df_keyFunc :: "'o KeyFunc"
  df_compressor :: "('o Deltas \<Rightarrow> 'o Deltas) option"

definition NewDeltaFIFO :: "'o KeyFunc \<Rightarrow> ('o Deltas \<Rightarrow> 'o Deltas) option \<Rightarrow> 'o DeltaFIFO" where
  "NewDeltaFIFO kf compress =
     \<lparr>df_items = Map.empty, df_queue = [], df_populated = False, df_initialPopulationCount = 0,
      df_keyFunc = kf, df_compressor = compress\<rparr>"

definition Oldest :: "'o Deltas \<Rightarrow> 'o Delta option" where
  "Oldest d = (case d of [] \<Rightarrow> None | x # _ \<Rightarrow> Some x)"

definition Newest :: "'o Deltas \<Rightarrow> 'o Delta option" where
  "Newest d = (if d = [] then None else Some (last d))"

definition object_key :: "'o KeyFunc \<Rightarrow> 'o iface \<Rightarrow> ('o cache_error, string) result" where
  "object_key kf obj =
     (case obj of DeletedFinalStateUnknown key _ \<Rightarrow> Inr key | _ \<Rightarrow> kf obj)"

definition KeyOf :: "'o KeyFunc \<Rightarrow> 'o iface \<Rightarrow> ('o cache_error, string) result" where
  "KeyOf kf obj =
     (case obj of
        DeltasI d \<Rightarrow>
          (case Newest d of
             None \<Rightarrow> Inl (KeyError obj ErrZeroLengthDeltasObject)
           | Some n \<Rightarrow> object_key kf (delta_Object n))
      | _ \<Rightarrow> object_key kf obj)"

definition DeltaFIFO_HasSynced :: "'o DeltaFIFO \<Rightarrow> bool" where
  "DeltaFIFO_HasSynced f \<longleftrightarrow> df_populated f \<and> df_initialPopulationCount f = 0"

definition isDeletionDup :: "'o Delta \<Rightarrow> 'o Delta \<Rightarrow> 'o Delta option" where
  "isDeletionDup a b =
     (if delta_Type b \<noteq> Deleted \<or> delta_Type a \<noteq> Deleted then None
      else (case delta_Object b of DeletedFinalStateUnknown _ _ \<Rightarrow> Some a | _ \<Rightarrow> Some b))"

definition isDup :: "'o Delta \<Rightarrow> 'o Delta \<Rightarrow> 'o Delta option" where
  "isDup a b = (case isDeletionDup a b of Some out \<Rightarrow> Some out | None \<Rightarrow> None)"

definition dedupDeltas :: "'o Deltas \<Rightarrow> 'o Deltas" where
  "dedupDeltas deltas =
     (let n = length deltas
      in if n < 2 then deltas
         else (case isDup (deltas ! (n - 1)) (deltas ! (n - 2)) of
                 Some out \<Rightarrow> take (n - 2) deltas @ [out]
               | None \<Rightarrow> deltas))"

definition willObjectBeDeletedLocked :: "string \<Rightarrow> 'o DeltaFIFO \<Rightarrow> bool" where
  "willObjectBeDeletedLocked key f =
     (let deltas = map_get [] (df_items f) key
      in length deltas > 0 \<and> delta_Type (deltas ! (length deltas - 1)) = Deleted)"

definition queueActionLocked ::
  "DeltaType \<Rightarrow> 'o iface \<Rightarrow> 'o DeltaFIFO \<Rightarrow> 'o cache_error option \<times> 'o DeltaFIFO" where
  "queueActionLocked actionType obj f =
     (case KeyOf (df_keyFunc f) obj of
        Inl err \<Rightarrow> (Some (KeyError obj err), f)
      | Inr key \<Rightarrow>
          if actionType = Sync \<and> willObjectBeDeletedLocked key f then (None, f)
          else
            let newDeltas = dedupDeltas (map_get [] (df_items f) key @ [Delta actionType obj]);
                newDeltas = (case df_compressor f of None \<Rightarrow> newDeltas | Some compress \<Rightarrow> compress newDeltas);
                exists = (df_items f key \<noteq> None)
            in if length newDeltas > 0
               then (None, f\<lparr>df_queue := (if exists then df_queue f else df_queue f @ [key]),
                             df_items := (df_items f)(key \<mapsto> newDeltas)\<rparr>)
               else if exists then (None, f\<lparr>df_items := map_delete key (df_items f)\<rparr>)
               else (None, f))"

definition DeltaFIFO_Add :: "'o iface \<Rightarrow> 'o DeltaFIFO \<Rightarrow> 'o cache_error option \<times> 'o DeltaFIFO" where
  "DeltaFIFO_Add obj f = queueActionLocked Added obj (f\<lparr>df_populated := True\<rparr>)"

definition DeltaFIFO_Update :: "'o iface \<Rightarrow> 'o DeltaFIFO \<Rightarrow> 'o cache_error option \<times> 'o DeltaFIFO" where
  "DeltaFIFO_Update obj f = queueActionLocked Updated obj (f\<lparr>df_populated := True\<rparr>)"

definition DeltaFIFO_Delete ::
  "'o known option \<Rightarrow> 'o iface \<Rightarrow> 'o DeltaFIFO \<Rightarrow> 'o cache_error option \<times> 'o DeltaFIFO" where
  "DeltaFIFO_Delete kn obj f =
     (case KeyOf (df_keyFunc f) obj of
        Inl err \<Rightarrow> (Some (KeyError obj err), f)
      | Inr key \<Rightarrow>
          let f1 = f\<lparr>df_populated := True\<rparr>;
              itemsExist = (df_items f key \<noteq> None)
          in case kn of
               None \<Rightarrow> if \<not> itemsExist then (None, f1) else queueActionLocked Deleted obj f1
             | Some (_, getByKey) \<Rightarrow>
                 (case getByKey key of
                    Inr (_, exists) \<Rightarrow>
                      if \<not> exists \<and> \<not> itemsExist then (None, f1)
                      else queueActionLocked Deleted obj f1
                  | Inl _ \<Rightarrow> queueActionLocked Deleted obj f1))"

text \<open>\<^verbatim>\<open>deltas.Newest().Object\<close> dereferences nil for an empty slice: the outer \<open>None\<close> is the panic.\<close>

definition DeltaFIFO_AddIfNotPresent ::
  "'o iface \<Rightarrow> 'o DeltaFIFO \<Rightarrow> ('o cache_error option \<times> 'o DeltaFIFO) option" where
  "DeltaFIFO_AddIfNotPresent obj f =
     (case obj of
        DeltasI deltas \<Rightarrow>
          (case Newest deltas of
             None \<Rightarrow> None
           | Some n \<Rightarrow>
               (case KeyOf (df_keyFunc f) (delta_Object n) of
                  Inl err \<Rightarrow> Some (Some (KeyError obj err), f)
                | Inr key \<Rightarrow>
                    let f1 = f\<lparr>df_populated := True\<rparr>
                    in if df_items f1 key \<noteq> None then Some (None, f1)
                       else Some (None, f1\<lparr>df_queue := df_queue f1 @ [key],
                                           df_items := (df_items f1)(key \<mapsto> deltas)\<rparr>)))
      | _ \<Rightarrow> Some (Some (NotDeltas obj), f))"

text \<open>An entry without deltas would be a nil dereference: \<open>None\<close>.\<close>

definition DeltaFIFO_List :: "string list \<Rightarrow> 'o DeltaFIFO \<Rightarrow> 'o iface list option" where
  "DeltaFIFO_List ks f = those (map (\<lambda>k. map_option delta_Object (Newest (map_get [] (df_items f) k))) ks)"

definition DeltaFIFO_GetByKey :: "string \<Rightarrow> 'o DeltaFIFO \<Rightarrow> 'o Deltas \<times> bool" where
  "DeltaFIFO_GetByKey key f = (map_get [] (df_items f) key, df_items f key \<noteq> None)"

definition DeltaFIFO_Get :: "'o iface \<Rightarrow> 'o DeltaFIFO \<Rightarrow> ('o cache_error, 'o Deltas \<times> bool) result" where
  "DeltaFIFO_Get obj f =
     (case KeyOf (df_keyFunc f) obj of
        Inl err \<Rightarrow> Inl (KeyError obj err)
      | Inr key \<Rightarrow> Inr (DeltaFIFO_GetByKey key f))"

definition DeltaFIFO_Pop :: "'o DeltaFIFO \<Rightarrow> 'o Deltas option \<times> 'o DeltaFIFO" where
  "DeltaFIFO_Pop f =
     (case pop_loop (df_queue f) (df_items f) (df_initialPopulationCount f) of
        (None, q, n) \<Rightarrow> (None, f\<lparr>df_queue := q, df_initialPopulationCount := n\<rparr>)
      | (Some (key, item), q, n) \<Rightarrow>
          (Some item, f\<lparr>df_queue := q, df_initialPopulationCount := n,
                        df_items := map_delete key (df_items f)\<rparr>))"

text \<open>The loops of Replace: a Sync for each listed object, then a Deleted for each missing key.\<close>

fun replace_sync ::
  "'o iface list \<Rightarrow> string set \<Rightarrow> 'o DeltaFIFO \<Rightarrow> 'o cache_error option \<times> string set \<times> 'o DeltaFIFO" where
  "replace_sync [] keys f = (None, keys, f)"
| "replace_sync (item # xs) keys f =
     (case KeyOf (df_keyFunc f) item of
        Inl err \<Rightarrow> (Some (KeyError item err), keys, f)
      | Inr key \<Rightarrow>
          (case queueActionLocked Sync item f of
             (Some err, f') \<Rightarrow> (Some (CouldntQueue err), insert key keys, f')
           | (None, f') \<Rightarrow> replace_sync xs (insert key keys) f'))"

fun replace_delete_own ::
  "string list \<Rightarrow> string set \<Rightarrow> 'o DeltaFIFO \<Rightarrow> 'o cache_error option \<times> 'o DeltaFIFO" where
  "replace_delete_own [] keys f = (None, f)"
| "replace_delete_own (k # ks) keys f =
     (case df_items f k of
        None \<Rightarrow> replace_delete_own ks keys f
      | Some oldItem \<Rightarrow>
          if k \<in> keys then replace_delete_own ks keys f
          else
            let deletedObj = (case Newest oldItem of Some n \<Rightarrow> delta_Object n | None \<Rightarrow> NilI)
            in case queueActionLocked Deleted (DeletedFinalStateUnknown k deletedObj) f of
                 (Some err, f') \<Rightarrow> (Some err, f')
               | (None, f') \<Rightarrow> replace_delete_own ks keys f')"

fun replace_delete_known ::
  "string list \<Rightarrow> (string \<Rightarrow> ('o cache_error, 'o iface \<times> bool) result) \<Rightarrow> string set \<Rightarrow> 'o DeltaFIFO
     \<Rightarrow> 'o cache_error option \<times> 'o DeltaFIFO" where
  "replace_delete_known [] getByKey keys f = (None, f)"
| "replace_delete_known (k # ks) getByKey keys f =
     (if k \<in> keys then replace_delete_known ks getByKey keys f
      else
        let deletedObj = (case getByKey k of
                            Inl _ \<Rightarrow> NilI
                          | Inr (obj, exists) \<Rightarrow> if \<not> exists then NilI else obj)
        in case queueActionLocked Deleted (DeletedFinalStateUnknown k deletedObj) f of
             (Some err, f') \<Rightarrow> (Some err, f')
           | (None, f') \<Rightarrow> replace_delete_known ks getByKey keys f')"

text \<open>\<open>ks\<close> visits \<^verbatim>\<open>f.items\<close> when the queue detects deletions against its own items.\<close>

definition DeltaFIFO_Replace ::
  "string list \<Rightarrow> 'o known option \<Rightarrow> 'o iface list \<Rightarrow> 'o DeltaFIFO \<Rightarrow> 'o cache_error option \<times> 'o DeltaFIFO" where
  "DeltaFIFO_Replace ks kn xs f =
     (let f1 = (if df_populated f then f
                else f\<lparr>df_populated := True, df_initialPopulationCount := int (length xs)\<rparr>)
      in case replace_sync xs {} f1 of
           (Some err, _, f2) \<Rightarrow> (Some err, f2)
         | (None, keys, f2) \<Rightarrow>
             (case kn of
                None \<Rightarrow> replace_delete_own ks keys f2
              | Some (knownKeys, getByKey) \<Rightarrow> replace_delete_known knownKeys getByKey keys f2))"

fun resync_loop ::
  "string list \<Rightarrow> (string \<Rightarrow> ('o cache_error, 'o iface \<times> bool) result) \<Rightarrow> 'o DeltaFIFO
     \<Rightarrow> 'o cache_error option \<times> 'o DeltaFIFO" where
  "resync_loop [] getByKey f = (None, f)"
| "resync_loop (k # ks) getByKey f =
     (case getByKey k of
        Inl _ \<Rightarrow> resync_loop ks getByKey f
      | Inr (obj, exists) \<Rightarrow>
          if \<not> exists then resync_loop ks getByKey f
          else (case queueActionLocked Sync obj f of
                  (Some err, f') \<Rightarrow> (Some (CouldntQueue err), f')
                | (None, f') \<Rightarrow> resync_loop ks getByKey f'))"

text \<open>With a nil \<^verbatim>\<open>knownObjects\<close> the call of \<^verbatim>\<open>ListKeys\<close> panics: \<open>None\<close>.\<close>

definition DeltaFIFO_Resync ::
  "'o known option \<Rightarrow> 'o DeltaFIFO \<Rightarrow> ('o cache_error option \<times> 'o DeltaFIFO) option" where
  "DeltaFIFO_Resync kn f =
     (case kn of None \<Rightarrow> None | Some (knownKeys, getByKey) \<Rightarrow> Some (resync_loop knownKeys getByKey f))"


section \<open>Deduplication and single actions\<close>

lemma isDup_iff:
  "isDup a b = None \<longleftrightarrow> \<not> (delta_Type a = Deleted \<and> delta_Type b = Deleted)"
  "isDup a b = Some out \<Longrightarrow> (out = a \<or> out = b) \<and> delta_Type out = Deleted"
  by (auto simp: isDup_def isDeletionDup_def split: if_splits iface.splits)

lemma dedupDeltas_single [simp]: "dedupDeltas [d] = [d]"
  by (simp add: dedupDeltas_def)

lemma dedupDeltas_snoc:
  "dedupDeltas (ds @ [d]) =
     (if ds = [] then [d]
      else (case isDup d (last ds) of None \<Rightarrow> ds @ [d] | Some out \<Rightarrow> butlast ds @ [out]))"
proof (cases ds rule: rev_cases)
  case Nil
  then show ?thesis by (simp add: dedupDeltas_def)
next
  case (snoc es e)
  then show ?thesis
    by (auto simp: dedupDeltas_def Let_def nth_append split: option.splits)
qed

lemma dedupDeltas_nonempty: "dedupDeltas (ds @ [d]) \<noteq> []"
  by (auto simp: dedupDeltas_snoc split: option.splits)

lemma set_dedupDeltas: "set (dedupDeltas (ds @ [d])) \<subseteq> insert d (set ds)"
  using isDup_iff(2) [of d "last ds"] last_in_set [of ds]
  by (auto simp: dedupDeltas_snoc split: option.splits if_splits dest: in_set_butlastD)

text \<open>No deletion directly follows another one.\<close>

definition single_deletes :: "'o Deltas \<Rightarrow> bool" where
  "single_deletes ds \<longleftrightarrow> successively (\<lambda>a b. \<not> (delta_Type a = Deleted \<and> delta_Type b = Deleted)) ds"

lemma single_deletes_dedup:
  assumes "single_deletes ds"
  shows "single_deletes (dedupDeltas (ds @ [d]))"
proof (cases ds rule: rev_cases)
  case Nil
  then show ?thesis by (simp add: dedupDeltas_snoc single_deletes_def)
next
  case (snoc es e)
  have "dedupDeltas (ds @ [d]) = (case isDup d e of None \<Rightarrow> es @ [e, d] | Some out \<Rightarrow> es @ [out])"
    unfolding dedupDeltas_snoc by (simp add: snoc split: option.splits)
  then show ?thesis
    using assms isDup_iff(1) [of d e] isDup_iff(2) [of d e] snoc
    by (cases "isDup d e") (auto simp: single_deletes_def successively_append_iff)
qed

text \<open>The state of an object after its deltas.\<close>

definition final_of :: "'o Deltas \<Rightarrow> 'o iface option" where
  "final_of ds = (if delta_Type (last ds) = Deleted then None else Some (delta_Object (last ds)))"

lemma final_of_snoc: "final_of (ds @ [Delta t obj]) = (if t = Deleted then None else Some obj)"
  by (simp add: final_of_def)

lemma final_of_dedup: "final_of (dedupDeltas (ds @ [d])) = final_of (ds @ [d])"
  using isDup_iff(1) [of d "last ds"] isDup_iff(2) [of d "last ds"]
  by (auto simp: dedupDeltas_snoc final_of_def split: option.splits)

lemma willObjectBeDeleted_final:
  "willObjectBeDeletedLocked key f \<longleftrightarrow>
     (\<exists>ds. df_items f key = Some ds \<and> ds \<noteq> [] \<and> final_of ds = None)"
  by (cases "df_items f key")
     (auto simp: willObjectBeDeletedLocked_def final_of_def last_conv_nth)

lemma queueAction_frame [simp]:
  "df_keyFunc (snd (queueActionLocked t obj f)) = df_keyFunc f"
  "df_compressor (snd (queueActionLocked t obj f)) = df_compressor f"
  "df_populated (snd (queueActionLocked t obj f)) = df_populated f"
  "df_initialPopulationCount (snd (queueActionLocked t obj f)) = df_initialPopulationCount f"
  by (auto simp: queueActionLocked_def Let_def split: sum.splits)

lemma queueAction_error:
  "fst (queueActionLocked t obj f) =
     (case KeyOf (df_keyFunc f) obj of Inl err \<Rightarrow> Some (KeyError obj err) | Inr _ \<Rightarrow> None)"
  by (auto simp: queueActionLocked_def Let_def split: sum.splits)

lemma queueAction_key_error:
  "KeyOf (df_keyFunc f) obj = Inl err \<Longrightarrow> queueActionLocked t obj f = (Some (KeyError obj err), f)"
  by (simp add: queueActionLocked_def)

lemma queueAction_skip:
  "KeyOf (df_keyFunc f) obj = Inr key \<Longrightarrow> willObjectBeDeletedLocked key f \<Longrightarrow>
   queueActionLocked Sync obj f = (None, f)"
  by (simp add: queueActionLocked_def)

text \<open>Without a compressor an action that is not skipped appends one delta, deduplicated.\<close>

lemma queueAction_append:
  assumes "df_compressor f = None" and "KeyOf (df_keyFunc f) obj = Inr key"
    and "\<not> (t = Sync \<and> willObjectBeDeletedLocked key f)"
  shows "queueActionLocked t obj f =
    (None, f\<lparr>df_queue := (if df_items f key = None then df_queue f @ [key] else df_queue f),
             df_items := (df_items f)(key \<mapsto> dedupDeltas (map_get [] (df_items f) key @ [Delta t obj]))\<rparr>)"
  using assms dedupDeltas_nonempty by (auto simp: queueActionLocked_def Let_def)

section \<open>Predicates every producer operation keeps\<close>

text \<open>
  Add, Update, Delete, Replace and Resync change the queue through \<^verbatim>\<open>queueActionLocked\<close>
  only, so a predicate that one action keeps is kept by all of them, as long as the objects
  the caller passes are \<open>good\<close>; the tombstones that Replace makes up are always good.
\<close>

locale action_closed =
  fixes P :: "'o DeltaFIFO \<Rightarrow> bool"
    and good :: "DeltaType \<Rightarrow> 'o iface \<Rightarrow> bool"
  assumes action: "P f \<Longrightarrow> good t obj \<Longrightarrow> P (snd (queueActionLocked t obj f))"
    and tombstone: "good Deleted (DeletedFinalStateUnknown k obj)"
    and populated: "P f \<Longrightarrow> P (f\<lparr>df_populated := b\<rparr>)"
    and count: "P f \<Longrightarrow> 0 \<le> n \<Longrightarrow> P (f\<lparr>df_initialPopulationCount := n\<rparr>)"
begin

lemma add_keeps: "P f \<Longrightarrow> good Added obj \<Longrightarrow> P (snd (DeltaFIFO_Add obj f))"
  by (simp add: DeltaFIFO_Add_def action populated)

lemma update_keeps: "P f \<Longrightarrow> good Updated obj \<Longrightarrow> P (snd (DeltaFIFO_Update obj f))"
  by (simp add: DeltaFIFO_Update_def action populated)

lemma delete_keeps: "P f \<Longrightarrow> good Deleted obj \<Longrightarrow> P (snd (DeltaFIFO_Delete kn obj f))"
  by (auto simp: DeltaFIFO_Delete_def Let_def split: sum.splits option.splits prod.splits
      intro: action populated)

lemma replace_sync_keeps:
  "P f \<Longrightarrow> (\<And>x. x \<in> set xs \<Longrightarrow> good Sync x) \<Longrightarrow> P (snd (snd (replace_sync xs keys f)))"
proof (induction xs keys f rule: replace_sync.induct)
  case (2 item xs keys f)
  then show ?case
    using action [of f Sync item] by (auto split: sum.splits prod.splits option.splits)
qed simp

lemma replace_delete_own_keeps: "P f \<Longrightarrow> P (snd (replace_delete_own ks keys f))"
proof (induction ks keys f rule: replace_delete_own.induct)
  case (2 k ks keys f)
  show ?case
  proof (cases "df_items f k")
    case None
    with 2 show ?thesis by simp
  next
    case (Some old)
    let ?o = "DeletedFinalStateUnknown k (case Newest old of Some n \<Rightarrow> delta_Object n | None \<Rightarrow> NilI)"
    obtain e f' where q: "queueActionLocked Deleted ?o f = (e, f')" by fastforce
    have "P f'" using action [OF 2(4) tombstone, of k] q by (metis snd_conv)
    with 2 Some q show ?thesis by (cases e) auto
  qed
qed simp

lemma replace_delete_known_keeps: "P f \<Longrightarrow> P (snd (replace_delete_known ks get keys f))"
proof (induction ks get keys f rule: replace_delete_known.induct)
  case (2 k ks get keys f)
  let ?o = "DeletedFinalStateUnknown k
    (case get k of Inl _ \<Rightarrow> NilI | Inr (obj, exists) \<Rightarrow> if \<not> exists then NilI else obj)"
  obtain e f' where q: "queueActionLocked Deleted ?o f = (e, f')" by fastforce
  have "P f'" using action [OF 2(3) tombstone, of k] q by (metis snd_conv)
  with 2 q show ?case by (cases e) auto
qed simp

lemma replace_keeps:
  assumes "P f" and good: "\<And>x. x \<in> set xs \<Longrightarrow> good Sync x"
  shows "P (snd (DeltaFIFO_Replace ks kn xs f))"
proof -
  note assms(1)
  then have "P (if df_populated f then f
      else f\<lparr>df_populated := True, df_initialPopulationCount := int (length xs)\<rparr>)" (is "P ?f")
    by (auto intro: count populated)
  then have "P (snd (snd (replace_sync xs {} ?f)))" using good by (rule replace_sync_keeps)
  then show ?thesis
    by (auto simp: DeltaFIFO_Replace_def Let_def split: prod.splits option.splits
        intro!: replace_delete_own_keeps replace_delete_known_keeps)
qed

lemma resync_loop_keeps:
  "P f \<Longrightarrow> (\<And>k obj. get k = Inr (obj, True) \<Longrightarrow> good Sync obj) \<Longrightarrow> P (snd (resync_loop ks get f))"
proof (induction ks get f rule: resync_loop.induct)
  case (2 k ks get f)
  show ?case
  proof (cases "get k")
    case (Inl e)
    with 2 show ?thesis by simp
  next
    case (Inr r)
    obtain obj ex where r: "r = (obj, ex)" by fastforce
    obtain e f' where q: "queueActionLocked Sync obj f = (e, f')" by fastforce
    have "P f'" if ex using action [OF 2(4), of Sync obj] 2(5) [of k obj] q Inr r that by simp
    with 2 Inr r q show ?thesis by (cases e) auto
  qed
qed simp

lemma resync_keeps:
  assumes "P f" and "DeltaFIFO_Resync kn f = Some (e, f')"
    and "\<And>ks get k obj. kn = Some (ks, get) \<Longrightarrow> get k = Inr (obj, True) \<Longrightarrow> good Sync obj"
  shows "P f'"
proof -
  obtain ks get where kn: "kn = Some (ks, get)" and r: "resync_loop ks get f = (e, f')"
    using assms(2) by (auto simp: DeltaFIFO_Resync_def split: option.splits)
  show ?thesis
    using resync_loop_keeps [OF assms(1), of get ks] assms(3) [OF kn] r by simp
qed

end

section \<open>The invariant\<close>

definition df_inv :: "'o DeltaFIFO \<Rightarrow> bool" where
  "df_inv f \<longleftrightarrow>
     finite (dom (df_items f)) \<and>
     (\<forall>k. df_items f k \<noteq> None \<longrightarrow> k \<in> set (df_queue f)) \<and>
     (\<forall>k. df_items f k \<noteq> Some []) \<and>
     0 \<le> df_initialPopulationCount f"

lemma df_inv_New [inv_intros]: "df_inv (NewDeltaFIFO kf c)"
  by (simp add: df_inv_def NewDeltaFIFO_def)

lemma df_inv_queueAction: "df_inv f \<Longrightarrow> df_inv (snd (queueActionLocked t obj f))"
  by (auto simp: df_inv_def queueActionLocked_def Let_def split: sum.splits if_splits)

interpretation dfi: action_closed df_inv "\<lambda>_ _. True"
  by (unfold_locales, rule df_inv_queueAction) (simp_all add: df_inv_def)

lemmas df_inv_keeps = dfi.add_keeps [OF _ TrueI] dfi.update_keeps [OF _ TrueI]
  dfi.delete_keeps [OF _ TrueI] dfi.replace_keeps [OF _ TrueI]

lemma df_inv_AddIfNotPresent:
  "df_inv f \<Longrightarrow> DeltaFIFO_AddIfNotPresent obj f = Some (e, f') \<Longrightarrow> df_inv f'"
  by (auto simp: df_inv_def DeltaFIFO_AddIfNotPresent_def Newest_def Let_def
      split: iface.splits sum.splits if_splits)

text \<open>
  Without a compressor the deltas of a key all belong to it and no deletion follows another.
\<close>

definition df_clean :: "'o DeltaFIFO \<Rightarrow> bool" where
  "df_clean f \<longleftrightarrow> df_compressor f = None \<and>
     (\<forall>k ds. df_items f k = Some ds \<longrightarrow>
        single_deletes ds \<and> (\<forall>d \<in> set ds. KeyOf (df_keyFunc f) (delta_Object d) = Inr k))"

lemma df_clean_New [inv_intros]: "df_clean (NewDeltaFIFO kf None)"
  by (simp add: df_clean_def NewDeltaFIFO_def)

lemma df_clean_queueAction:
  assumes "df_clean f"
  shows "df_clean (snd (queueActionLocked t obj f))"
proof (cases "KeyOf (df_keyFunc f) obj")
  case (Inl e)
  with assms show ?thesis by (simp add: queueAction_key_error)
next
  case (Inr key)
  show ?thesis
  proof (cases "t = Sync \<and> willObjectBeDeletedLocked key f")
    case True
    with assms Inr show ?thesis by (simp add: queueAction_skip)
  next
    case False
    let ?old = "map_get [] (df_items f) key"
    have "single_deletes ?old \<and> (\<forall>d \<in> set ?old. KeyOf (df_keyFunc f) (delta_Object d) = Inr key)"
      using assms by (cases "df_items f key") (auto simp: df_clean_def single_deletes_def)
    then have "single_deletes (dedupDeltas (?old @ [Delta t obj]))"
      "\<forall>d \<in> set (dedupDeltas (?old @ [Delta t obj])). KeyOf (df_keyFunc f) (delta_Object d) = Inr key"
      using single_deletes_dedup set_dedupDeltas [of ?old "Delta t obj"] Inr by auto
    with assms False Inr queueAction_append [of f obj key t] show ?thesis
      by (auto simp: df_clean_def)
  qed
qed

interpretation dfc: action_closed df_clean "\<lambda>_ _. True"
  by (unfold_locales, rule df_clean_queueAction) (simp_all add: df_clean_def)

lemmas df_clean_keeps = dfc.add_keeps [OF _ TrueI] dfc.update_keeps [OF _ TrueI]
  dfc.delete_keeps [OF _ TrueI] dfc.replace_keeps [OF _ TrueI]

lemma DeltaFIFO_Pop_Some:
  assumes "DeltaFIFO_Pop f = (Some ds, f')"
  shows "\<exists>skipped key q n. df_queue f = skipped @ key # q \<and>
           (\<forall>k \<in> set skipped. df_items f k = None) \<and> df_items f key = Some ds \<and>
           n = (if df_initialPopulationCount f > 0
                then max 0 (df_initialPopulationCount f - int (Suc (length skipped)))
                else df_initialPopulationCount f) \<and>
           f' = f\<lparr>df_queue := q, df_initialPopulationCount := n, df_items := map_delete key (df_items f)\<rparr>"
proof -
  obtain r q n where pl: "pop_loop (df_queue f) (df_items f) (df_initialPopulationCount f) = (r, q, n)"
    by (metis prod_cases3)
  with assms obtain key where "r = Some (key, ds)"
    by (auto simp: DeltaFIFO_Pop_def split: option.splits)
  with pl have pl': "pop_loop (df_queue f) (df_items f) (df_initialPopulationCount f) =
      (Some (key, ds), q, n)" by simp
  with assms have "f' = f\<lparr>df_queue := q, df_initialPopulationCount := n,
                          df_items := map_delete key (df_items f)\<rparr>"
    by (auto simp: DeltaFIFO_Pop_def)
  with pop_loop_Some [OF pl'] show ?thesis by blast
qed

lemma df_inv_Pop: "df_inv f \<Longrightarrow> df_inv (snd (DeltaFIFO_Pop f))"
proof (cases "DeltaFIFO_Pop f")
  case (Pair r f')
  assume inv: "df_inv f"
  show ?thesis
  proof (cases r)
    case None
    with Pair inv show ?thesis
      using pop_loop_count [of "df_initialPopulationCount f" "df_queue f" "df_items f"]
        pop_loop_None [of "df_queue f" "df_items f" "df_initialPopulationCount f"]
        pop_loop_None_queue [of "df_queue f" "df_items f" "df_initialPopulationCount f"]
      by (force simp: df_inv_def DeltaFIFO_Pop_def split: prod.splits option.splits)
  next
    case (Some ds)
    with Pair DeltaFIFO_Pop_Some [of f ds f'] obtain sk key q n
      where f: "df_queue f = sk @ key # q" "\<forall>k \<in> set sk. df_items f k = None"
      and n: "n = (if df_initialPopulationCount f > 0
                then max 0 (df_initialPopulationCount f - int (Suc (length sk)))
                else df_initialPopulationCount f)"
      and f': "f' = f\<lparr>df_queue := q, df_initialPopulationCount := n, df_items := map_delete key (df_items f)\<rparr>"
      by blast
    with inv have "0 \<le> n" by (auto simp: df_inv_def)
    moreover have "k \<in> set q" if "k \<noteq> key" "df_items f k \<noteq> None" for k
      using inv f that by (fastforce simp: df_inv_def)
    ultimately show ?thesis
      using inv Pair by (auto simp: df_inv_def f' split: if_splits)
  qed
qed

interpretation dfq: keyed_queue DeltaFIFO_Pop df_items df_inv
proof (unfold_locales, goal_cases)
  case (1 f)
  then show ?case
    using pop_loop_None [of "df_queue f" "df_items f" "df_initialPopulationCount f"]
    by (auto simp: DeltaFIFO_Pop_def df_inv_def fun_eq_iff split: prod.splits option.splits)
next
  case (2 f v f')
  then obtain key where "df_items f key = Some v" "df_items f' = map_delete key (df_items f)"
    using DeltaFIFO_Pop_Some [of f v f'] by auto
  then show ?case by blast
next
  case (3 f)
  then show ?case by (rule df_inv_Pop)
next
  case (4 f)
  then show ?case by (simp add: df_inv_def)
qed

section \<open>Reachable queues\<close>

inductive df_step :: "'o DeltaFIFO \<Rightarrow> 'o DeltaFIFO \<Rightarrow> bool" where
  df_Add: "df_step f (snd (DeltaFIFO_Add obj f))"
| df_Update: "df_step f (snd (DeltaFIFO_Update obj f))"
| df_Delete: "df_step f (snd (DeltaFIFO_Delete kn obj f))"
| df_AddIfNotPresent: "DeltaFIFO_AddIfNotPresent obj f = Some (e, f') \<Longrightarrow> df_step f f'"
| df_Pop: "df_step f (snd (DeltaFIFO_Pop f))"
| df_Replace: "df_step f (snd (DeltaFIFO_Replace ks kn xs f))"
| df_Resync: "DeltaFIFO_Resync kn f = Some (e, f') \<Longrightarrow> df_step f f'"

inductive df_reachable :: "'o KeyFunc \<Rightarrow> ('o Deltas \<Rightarrow> 'o Deltas) option \<Rightarrow> 'o DeltaFIFO \<Rightarrow> bool"
  for kf c where
  df_reach_New: "df_reachable kf c (NewDeltaFIFO kf c)"
| df_reach_step: "df_reachable kf c f \<Longrightarrow> df_step f f' \<Longrightarrow> df_reachable kf c f'"

lemma df_step_inv: "df_step f f' \<Longrightarrow> df_inv f \<Longrightarrow> df_inv f'"
  by (induction rule: df_step.induct)
     (simp_all add: df_inv_keeps df_inv_Pop, (metis df_inv_AddIfNotPresent dfi.resync_keeps)+)

lemma df_reachable_inv: "df_reachable kf c f \<Longrightarrow> df_inv f"
  by (induction rule: df_reachable.induct) (auto intro: df_inv_New df_step_inv)


section \<open>The state the pending deltas lead to\<close>

text \<open>
  \<open>st\<close> is what the consumer has seen so far. \<open>eventual f st\<close> is what it will hold once it has
  processed everything that is pending in \<open>f\<close>: the last delta of each key decides.
\<close>

definition eventual :: "'o DeltaFIFO \<Rightarrow> (string \<rightharpoonup> 'o iface) \<Rightarrow> (string \<rightharpoonup> 'o iface)" where
  "eventual f st = (\<lambda>k. case df_items f k of None \<Rightarrow> st k | Some ds \<Rightarrow> final_of ds)"

text \<open>What \<^verbatim>\<open>knownObjects\<close> shows of a store that holds \<open>st\<close>, keys listed in the order \<open>ks\<close>.\<close>

definition known_store :: "(string \<rightharpoonup> 'o iface) \<Rightarrow> string list \<Rightarrow> 'o known" where
  "known_store st ks = (ks, \<lambda>k. Inr (map_get NilI st k, st k \<noteq> None))"

fun listed :: "'o KeyFunc \<Rightarrow> 'o iface list \<Rightarrow> (string \<rightharpoonup> 'o iface)" where
  "listed kf [] = Map.empty"
| "listed kf (x # xs) = (case KeyOf kf x of Inl _ \<Rightarrow> Map.empty | Inr k \<Rightarrow> [k \<mapsto> x]) ++ listed kf xs"

lemma eventual_populated [simp]: "eventual (f\<lparr>df_populated := b\<rparr>) = eventual f"
  by (intro ext) (simp add: eventual_def)

lemma eventual_count [simp]: "eventual (f\<lparr>df_initialPopulationCount := n\<rparr>) = eventual f"
  by (intro ext) (simp add: eventual_def)

lemma will_frame [simp]:
  "willObjectBeDeletedLocked k (f\<lparr>df_populated := b\<rparr>) = willObjectBeDeletedLocked k f"
  "willObjectBeDeletedLocked k (f\<lparr>df_initialPopulationCount := n\<rparr>) = willObjectBeDeletedLocked k f"
  by (simp_all add: willObjectBeDeletedLocked_def)

lemma eventual_will: "willObjectBeDeletedLocked k f \<Longrightarrow> eventual f st k = None"
  by (auto simp: willObjectBeDeleted_final eventual_def)

lemma eventual_queueAction:
  assumes "df_compressor f = None" and "KeyOf (df_keyFunc f) obj = Inr key"
  shows "eventual (snd (queueActionLocked t obj f)) st =
    (if t = Sync \<and> willObjectBeDeletedLocked key f then eventual f st
     else (eventual f st)(key := if t = Deleted then None else Some obj))"
proof (cases "t = Sync \<and> willObjectBeDeletedLocked key f")
  case True
  with assms show ?thesis by (simp add: queueAction_skip)
next
  case False
  then show ?thesis
    unfolding queueAction_append [OF assms False]
    by (auto simp: eventual_def fun_eq_iff final_of_dedup final_of_snoc)
qed

lemma will_queueAction_Sync:
  assumes "df_compressor f = None" and "KeyOf (df_keyFunc f) obj = Inr key"
  shows "willObjectBeDeletedLocked k (snd (queueActionLocked Sync obj f)) \<longleftrightarrow> willObjectBeDeletedLocked k f"
proof (cases "willObjectBeDeletedLocked key f")
  case True
  with assms show ?thesis by (simp add: queueAction_skip)
next
  case False
  with queueAction_append [OF assms, of Sync] show ?thesis
    by (auto simp: willObjectBeDeleted_final final_of_dedup final_of_snoc)
qed

lemma replace_sync_ok:
  assumes "df_compressor f = None" and "df_keyFunc f = kf"
    and "\<And>x. x \<in> set xs \<Longrightarrow> \<exists>k. KeyOf kf x = Inr k"
  shows "\<exists>f'. replace_sync xs keys f = (None, keys \<union> dom (listed kf xs), f') \<and>
     df_keyFunc f' = kf \<and> df_compressor f' = None \<and>
     eventual f' st = (\<lambda>k. if willObjectBeDeletedLocked k f then None
        else case listed kf xs k of Some x \<Rightarrow> Some x | None \<Rightarrow> eventual f st k)"
  using assms
proof (induction xs arbitrary: keys f)
  case Nil
  then show ?case by (auto simp: fun_eq_iff eventual_will)
next
  case (Cons x xs)
  from Cons.prems(3) [of x] obtain key where key: "KeyOf kf x = Inr key" by auto
  obtain e f1 where q: "queueActionLocked Sync x f = (e, f1)" by fastforce
  have [simp]: "e = None" "df_keyFunc f1 = kf" "df_compressor f1 = None"
    using queueAction_error [of Sync x f] queueAction_frame [of Sync x f] key q Cons.prems by auto
  have will: "willObjectBeDeletedLocked k f1 = willObjectBeDeletedLocked k f" for k
    using will_queueAction_Sync [of f x key k] Cons.prems key q by simp
  have ev: "eventual f1 st = (if willObjectBeDeletedLocked key f then eventual f st
      else (eventual f st)(key \<mapsto> x))"
    using eventual_queueAction [of f x key Sync st] Cons.prems key q by simp
  obtain f' where f': "replace_sync xs (insert key keys) f1 = (None, insert key keys \<union> dom (listed kf xs), f')"
    "df_keyFunc f' = kf" "df_compressor f' = None"
    "eventual f' st = (\<lambda>k. if willObjectBeDeletedLocked k f1 then None
        else case listed kf xs k of Some x \<Rightarrow> Some x | None \<Rightarrow> eventual f1 st k)"
    using Cons.IH [of f1 "insert key keys"] Cons.prems(3) by auto
  have "eventual f' st = (\<lambda>k. if willObjectBeDeletedLocked k f then None
        else case listed kf (x # xs) k of Some x \<Rightarrow> Some x | None \<Rightarrow> eventual f st k)"
    using key by (auto simp: f'(4) will ev fun_eq_iff map_add_def split: option.splits)
  moreover have "replace_sync (x # xs) keys f = (None, keys \<union> dom (listed kf (x # xs)), f')"
    using key Cons.prems(2) f'(1) q by auto
  ultimately show ?case using f'(2,3) by blast
qed

lemma queueAction_tombstone:
  assumes "df_compressor f = None"
  shows "\<exists>f'. queueActionLocked Deleted (DeletedFinalStateUnknown k obj) f = (None, f') \<and>
     df_keyFunc f' = df_keyFunc f \<and> df_compressor f' = None \<and>
     eventual f' st = (eventual f st)(k := None) \<and>
     (\<forall>k'. k' \<noteq> k \<longrightarrow> df_items f' k' = df_items f k')"
proof -
  have key: "KeyOf (df_keyFunc f) (DeletedFinalStateUnknown k obj) = Inr k"
    by (simp add: KeyOf_def object_key_def)
  let ?q = "queueActionLocked Deleted (DeletedFinalStateUnknown k obj) f"
  have "fst ?q = None" using queueAction_error key by (metis sum.case(2))
  moreover have "eventual (snd ?q) st = (eventual f st)(k := None)"
    using eventual_queueAction [OF assms key, of Deleted st] by simp
  moreover have "\<forall>k'. k' \<noteq> k \<longrightarrow> df_items (snd ?q) k' = df_items f k'"
    using queueAction_append [OF assms key, of Deleted] by simp
  ultimately show ?thesis
    using assms by (intro exI [of _ "snd ?q"]) (simp add: prod_eq_iff)
qed

lemma replace_delete_known_ok:
  assumes "df_compressor f = None"
  shows "\<exists>f'. replace_delete_known ks get keys f = (None, f') \<and>
     eventual f' st = (\<lambda>k. if k \<in> set ks \<and> k \<notin> keys then None else eventual f st k)"
  using assms
proof (induction ks get keys f rule: replace_delete_known.induct)
  case (1 get keys f)
  then show ?case by simp
next
  case (2 k ks get keys f)
  show ?case
  proof (cases "k \<in> keys")
    case True
    with 2 show ?thesis by (auto simp: fun_eq_iff)
  next
    case False
    let ?o = "case get k of Inl _ \<Rightarrow> NilI | Inr (obj, exists) \<Rightarrow> if \<not> exists then NilI else obj"
    obtain f1 where f1: "queueActionLocked Deleted (DeletedFinalStateUnknown k ?o) f = (None, f1)"
      "df_compressor f1 = None" "eventual f1 st = (eventual f st)(k := None)"
      using queueAction_tombstone [OF 2(3), of k ?o st] by blast
    obtain f' where "replace_delete_known ks get keys f1 = (None, f')"
      "eventual f' st = (\<lambda>k. if k \<in> set ks \<and> k \<notin> keys then None else eventual f1 st k)"
      using 2(2) [OF False refl f1(1) [symmetric] refl f1(2)] by blast
    with False f1 show ?thesis
      by (intro exI [of _ f']) (auto simp: fun_eq_iff)
  qed
qed

lemma replace_delete_own_ok:
  assumes "df_compressor f = None"
  shows "\<exists>f'. replace_delete_own ks keys f = (None, f') \<and>
     eventual f' st = (\<lambda>k. if k \<in> set ks \<and> df_items f k \<noteq> None \<and> k \<notin> keys then None
                           else eventual f st k)"
  using assms
proof (induction ks keys f rule: replace_delete_own.induct)
  case (1 keys f)
  then show ?case by simp
next
  case (2 k ks keys f)
  show ?case
  proof (cases "df_items f k = None \<or> k \<in> keys")
    case True
    with 2 show ?thesis by (auto simp: fun_eq_iff split: option.splits)
  next
    case False
    then obtain old where old: "df_items f k = Some old" and k: "k \<notin> keys" by auto
    let ?o = "case Newest old of Some n \<Rightarrow> delta_Object n | None \<Rightarrow> NilI"
    obtain f1 where f1: "queueActionLocked Deleted (DeletedFinalStateUnknown k ?o) f = (None, f1)"
      "df_compressor f1 = None" "eventual f1 st = (eventual f st)(k := None)"
      "\<forall>k'. k' \<noteq> k \<longrightarrow> df_items f1 k' = df_items f k'"
      using queueAction_tombstone [OF 2(4), of k ?o st] by blast
    obtain f' where "replace_delete_own ks keys f1 = (None, f')"
      "eventual f' st = (\<lambda>k. if k \<in> set ks \<and> df_items f1 k \<noteq> None \<and> k \<notin> keys then None
                             else eventual f1 st k)"
      using 2(3) [OF old k refl f1(1) [symmetric] refl f1(2)] by blast
    with k old f1 show ?thesis
      by (intro exI [of _ f']) (auto simp: fun_eq_iff)
  qed
qed


section \<open>Counting the initial batch\<close>

definition df_strict :: "'o DeltaFIFO \<Rightarrow> bool" where
  "df_strict f \<longleftrightarrow> distinct (df_queue f) \<and> set (df_queue f) = dom (df_items f)"

interpretation dcq: counted_queue DeltaFIFO_Pop df_queue df_initialPopulationCount df_strict
proof (unfold_locales, goal_cases)
  case (1 f k ks)
  then have "k \<in> dom (df_items f)" and ks: "set ks = dom (df_items f) - {k}" "distinct ks"
    unfolding df_strict_def by (metis list.set_intros(1), metis Diff_insert_absorb distinct.simps(2) list.simps(15), simp)
  with 1(2) show ?case by (auto simp: DeltaFIFO_Pop_def df_strict_def Let_def)
next
  case (2 f)
  then show ?case by (simp add: DeltaFIFO_Pop_def)
qed

lemma DeltaFIFO_Pop_populated [simp]: "df_populated (snd (DeltaFIFO_Pop f)) = df_populated f"
  by (auto simp: DeltaFIFO_Pop_def split: prod.splits option.splits)

lemma drain_df_populated [simp]: "df_populated (snd (drain DeltaFIFO_Pop m f)) = df_populated f"
proof (induction m arbitrary: f)
  case (Suc m)
  then show ?case
    using DeltaFIFO_Pop_populated [of f]
    by (cases "DeltaFIFO_Pop f") (auto simp: case_prod_beta split: option.splits)
qed simp

lemma replace_sync_fresh:
  assumes "df_compressor f = None" and "map (KeyOf (df_keyFunc f)) xs = map Inr ks" and "distinct ks"
    and "set ks \<inter> dom (df_items f) = {}" and "df_strict f"
  shows "\<exists>K f'. replace_sync xs keys f = (None, K, f') \<and> df_strict f' \<and> df_queue f' = df_queue f @ ks \<and>
     df_populated f' = df_populated f \<and>
     df_initialPopulationCount f' = df_initialPopulationCount f"
  using assms
proof (induction xs arbitrary: ks keys f)
  case Nil
  then show ?case by simp
next
  case (Cons x xs)
  then obtain k ks' where ks: "ks = k # ks'" and key: "KeyOf (df_keyFunc f) x = Inr k" by auto
  have k: "df_items f k = None" using Cons.prems(4) ks by auto
  then have "\<not> willObjectBeDeletedLocked k f" by (simp add: willObjectBeDeletedLocked_def)
  then obtain f1 where q: "queueActionLocked Sync x f = (None, f1)"
    and f1: "f1 = f\<lparr>df_queue := df_queue f @ [k], df_items := (df_items f)(k \<mapsto> [Delta Sync x])\<rparr>"
    using queueAction_append [OF Cons.prems(1) key, of Sync] k by simp
  have "df_strict f1" using Cons.prems(5) k by (auto simp: df_strict_def f1 domIff)
  moreover have "set ks' \<inter> dom (df_items f1) = {}" using Cons.prems(3,4) ks by (simp add: f1)
  moreover have "df_compressor f1 = None" "map (KeyOf (df_keyFunc f1)) xs = map Inr ks'" "distinct ks'"
    using Cons.prems ks by (simp_all add: f1)
  ultimately obtain K f' where "replace_sync xs (insert k keys) f1 = (None, K, f')" "df_strict f'"
    "df_queue f' = df_queue f1 @ ks'" "df_populated f' = df_populated f1"
    "df_initialPopulationCount f' = df_initialPopulationCount f1"
    using Cons.IH [of f1 ks' "insert k keys"] by blast
  then show ?case using key q f1 ks by auto
qed

lemma deltafifo_replace_eventual:
  assumes "df_compressor f = None" and "\<And>x. x \<in> set xs \<Longrightarrow> \<exists>k. KeyOf (df_keyFunc f) x = Inr k"
    and "range_of st known"
  shows "\<exists>f'. DeltaFIFO_Replace ks (Some (known_store st known)) xs f = (None, f') \<and>
     eventual f' st = (\<lambda>k.
       case listed (df_keyFunc f) xs k of
         Some x \<Rightarrow> if willObjectBeDeletedLocked k f then None else Some x
       | None \<Rightarrow> if st k \<noteq> None then None else eventual f st k)"
proof -
  let ?f = "if df_populated f then f
            else f\<lparr>df_populated := True, df_initialPopulationCount := int (length xs)\<rparr>"
  let ?L = "listed (df_keyFunc f) xs"
  have f: "df_compressor ?f = None" "df_keyFunc ?f = df_keyFunc f" "eventual ?f = eventual f"
    "\<And>k. willObjectBeDeletedLocked k ?f = willObjectBeDeletedLocked k f"
    using assms(1) by simp_all
  obtain f1 where f1: "replace_sync xs {} ?f = (None, {} \<union> dom ?L, f1)" "df_compressor f1 = None"
    "eventual f1 st = (\<lambda>k. if willObjectBeDeletedLocked k f then None
        else case ?L k of Some x \<Rightarrow> Some x | None \<Rightarrow> eventual f st k)"
    using replace_sync_ok [OF f(1,2), of xs "{}" st] assms(2) unfolding f(3,4) by blast
  obtain f' where f': "replace_delete_known known (\<lambda>k. Inr (map_get NilI st k, st k \<noteq> None)) (dom ?L) f1 = (None, f')"
    "eventual f' st = (\<lambda>k. if k \<in> set known \<and> k \<notin> dom ?L then None else eventual f1 st k)"
    using replace_delete_known_ok [OF f1(2)] by blast
  have "DeltaFIFO_Replace ks (Some (known_store st known)) xs f = (None, f')"
    using f1(1) f'(1) by (simp add: DeltaFIFO_Replace_def known_store_def Let_def)
  moreover have "eventual f' st = (\<lambda>k. case ?L k of
         Some x \<Rightarrow> if willObjectBeDeletedLocked k f then None else Some x
       | None \<Rightarrow> if st k \<noteq> None then None else eventual f st k)"
    using assms(3) eventual_will [of _ f st]
    by (auto simp: f'(2) f1(3) fun_eq_iff range_of_mem split: option.splits)
  ultimately show ?thesis by blast
qed

section \<open>Properties of the delta queue\<close>

text \<open>In every reachable queue, for any compressor and any behaviour of the known-objects store,
  every stored object has its key in the queue and at least one delta, and a Pop blocks
  exactly when nothing is stored.\<close>

theorem deltafifo_items_queued:
  assumes "df_reachable kf c f"
  shows "(\<forall>k ds. df_items f k = Some ds \<longrightarrow> ds \<noteq> [] \<and> k \<in> set (df_queue f)) \<and>
         (fst (DeltaFIFO_Pop f) = None \<longleftrightarrow> df_items f = Map.empty)"
  using df_reachable_inv [OF assms] dfq.pop_blocks by (auto simp: df_inv_def)

text \<open>Without a compressor every producer operation keeps the stored histories clean: all deltas
  under a key are about that key, and no deletion directly follows another.\<close>

theorem deltafifo_histories_clean:
  assumes "df_clean f"
  shows "df_clean (snd (DeltaFIFO_Add obj f)) \<and> df_clean (snd (DeltaFIFO_Update obj f)) \<and>
         df_clean (snd (DeltaFIFO_Delete kn obj f)) \<and> df_clean (snd (DeltaFIFO_Replace ks kn xs f)) \<and>
         (\<forall>e f'. DeltaFIFO_Resync kn f = Some (e, f') \<longrightarrow> df_clean f')"
  using assms by (auto intro: df_clean_keeps dfc.resync_keeps)



text \<open>A relist can keep an object that is gone. Replace looks for deletions among the objects the
  consumer already holds, not among those still queued: an object that was added and popped
  by nobody before the relist, and is no longer listed, stays pending as added.\<close>

theorem deltafifo_replace_keeps_vanished_object:
  "let kf = (\<lambda>obj. case obj of Obj n \<Rightarrow> Inr n | _ \<Rightarrow> Inl ObjectHasNoMeta);
       kn = Some (known_store Map.empty []);
       f1 = snd (DeltaFIFO_Add (Obj ''a'') (NewDeltaFIFO kf None));
       (err, f2) = DeltaFIFO_Replace [''a''] kn [] f1
   in err = None \<and> eventual f2 Map.empty ''a'' = Some (Obj ''a'')"
  by (simp add: Let_def DeltaFIFO_Add_def known_store_def NewDeltaFIFO_def KeyOf_def object_key_def
      queueActionLocked_def DeltaFIFO_Replace_def eventual_def final_of_def)

text \<open>After the first relist of a new queue with distinct keys HasSynced turns true with the last of
  the listed objects popped, and not earlier.\<close>

theorem deltafifo_synced_after_initial_batch:
  assumes "map (KeyOf kf) xs = map Inr ks" and "distinct ks"
  shows "\<exists>f. DeltaFIFO_Replace [] (Some (known_store Map.empty [])) xs (NewDeltaFIFO kf None) = (None, f) \<and>
     (DeltaFIFO_HasSynced (snd (drain DeltaFIFO_Pop m f)) \<longleftrightarrow> length xs \<le> m)"
proof -
  let ?f = "(NewDeltaFIFO kf None)\<lparr>df_populated := True, df_initialPopulationCount := int (length xs)\<rparr>"
  obtain K f where f: "replace_sync xs {} ?f = (None, K, f)" "df_strict f" "df_queue f = ks"
    "df_populated f" "df_initialPopulationCount f = int (length xs)"
    using replace_sync_fresh [of ?f xs ks "{}"] assms by (auto simp: NewDeltaFIFO_def df_strict_def)
  have len: "length xs = length ks" using assms(1) map_eq_imp_length_eq by blast
  have "DeltaFIFO_Replace [] (Some (known_store Map.empty [])) xs (NewDeltaFIFO kf None) = (None, f)"
    using f(1) by (simp add: DeltaFIFO_Replace_def known_store_def NewDeltaFIFO_def)
  moreover have "DeltaFIFO_HasSynced (snd (drain DeltaFIFO_Pop m f)) \<longleftrightarrow> length xs \<le> m"
    using dcq.remaining_after_drain [OF f(2)] f(3-5) len by (simp add: DeltaFIFO_HasSynced_def)
  ultimately show ?thesis by blast
qed

text \<open>The count is the length of the list, not the number of keys: if two listed objects share a
  key, HasSynced stays false when everything has been popped and Pop blocks.\<close>

theorem deltafifo_duplicate_keys_never_synced:
  "let kf = (\<lambda>obj. case obj of Obj (n, v) \<Rightarrow> Inr n | _ \<Rightarrow> Inl ObjectHasNoMeta);
       f = snd (DeltaFIFO_Replace [] (Some (known_store Map.empty []))
             [Obj (''a'', 1 :: nat), Obj (''a'', 2)] (NewDeltaFIFO kf None));
       f' = snd (drain DeltaFIFO_Pop 1 f)
   in df_items f' = Map.empty \<and> DeltaFIFO_Pop f' = (None, f') \<and> \<not> DeltaFIFO_HasSynced f'"
  by (simp add: Let_def known_store_def NewDeltaFIFO_def KeyOf_def object_key_def
      queueActionLocked_def DeltaFIFO_Replace_def willObjectBeDeletedLocked_def dedupDeltas_def
      isDup_def isDeletionDup_def DeltaFIFO_Pop_def DeltaFIFO_HasSynced_def map_delete_def)

section \<open>Witnesses\<close>

lemma deltafifo_items_queued_witness:
  "let f = snd (DeltaFIFO_Add (Obj ''a'') (NewDeltaFIFO name_key None)) in
   (\<forall>k ds. df_items f k = Some ds \<longrightarrow> ds \<noteq> [] \<and> k \<in> set (df_queue f)) \<and>
   (fst (DeltaFIFO_Pop f) = None \<longleftrightarrow> df_items f = Map.empty)"
  unfolding Let_def
  by (rule deltafifo_items_queued [OF df_reach_step [OF df_reach_New df_Add]])

lemma deltafifo_histories_clean_witness:
  "df_clean (snd (DeltaFIFO_Add (Obj ''a'') (NewDeltaFIFO name_key None)))"
  using deltafifo_histories_clean [OF df_clean_New] by blast


lemma deltafifo_synced_after_initial_batch_witness:
  "\<exists>f. DeltaFIFO_Replace [] (Some (known_store Map.empty [])) [Obj ''a'', Obj ''b'']
         (NewDeltaFIFO name_key None) = (None, f) \<and>
       DeltaFIFO_HasSynced (snd (drain DeltaFIFO_Pop 2 f))"
  using deltafifo_synced_after_initial_batch [of name_key "[Obj ''a'', Obj ''b'']" "[''a'', ''b'']" 2]
  by (auto simp: KeyOf_def object_key_def name_key_def)

end
