(* ===== verification/Informer.thy ===== *)
theory Informer
  imports Cache_DeltaFIFO
begin

text \<open>
  The informer: \<^verbatim>\<open>pkg/controller/framework/controller.go\<close>, \<^verbatim>\<open>shared_informer.go\<close> and the
  event handling of \<^verbatim>\<open>pkg/client/cache/reflector.go\<close>. A reflector feeds the changes of the
  API server into a delta queue; the process loop pops the deltas of one object after the
  other, applies them to the local store and distributes notifications. The main result is
  that the store converges to the server's state, whatever the interleaving.
\<close>

section \<open>Applying deltas\<close>

datatype 'o notification =
    updateNotification "'o iface" "'o iface"
  | addNotification "'o iface"
  | deleteNotification "'o iface"

text \<open>
  The body of \<^verbatim>\<open>HandleDeltas\<close> over any store; \<open>ords i\<close> are the visiting orders the store
  uses for the \<open>i\<close>-th delta. The result: the error that ended the loop, the store, and what was
  distributed.
\<close>

fun HandleDeltas ::
  "('s, 'o) Store_ops \<Rightarrow> (nat \<Rightarrow> orders) \<Rightarrow> 'o Deltas \<Rightarrow> 's
     \<Rightarrow> 'o cache_error option \<times> 's \<times> 'o notification list" where
  "HandleDeltas ops ords [] s = (None, s, [])"
| "HandleDeltas ops ords (d # ds) s =
     (let rest = (\<lambda>n s'. let (err, s'', ns) = HandleDeltas ops (\<lambda>i. ords (Suc i)) ds s'
                         in (err, s'', n # ns))
      in if delta_Type d = Deleted
         then (case Store_Delete ops (ords 0) (delta_Object d) s of
                 Inl err \<Rightarrow> (Some err, s, [])
               | Inr s' \<Rightarrow> rest (deleteNotification (delta_Object d)) s')
         else (case Store_Get ops (delta_Object d) s of
                 Inr (old, True) \<Rightarrow>
                   (case Store_Update ops (ords 0) (delta_Object d) s of
                      Inl err \<Rightarrow> (Some err, s, [])
                    | Inr s' \<Rightarrow> rest (updateNotification old (delta_Object d)) s')
               | _ \<Rightarrow>
                   (case Store_Add ops (ords 0) (delta_Object d) s of
                      Inl err \<Rightarrow> (Some err, s, [])
                    | Inr s' \<Rightarrow> rest (addNotification (delta_Object d)) s')))"

text \<open>
  A handler call is a notification. \<^verbatim>\<open>NewInformer\<close> and \<^verbatim>\<open>NewIndexerInformer\<close> call their
  handler directly where the shared informer distributes.
\<close>

definition NewInformer_Process where
  "NewInformer_Process = HandleDeltas (cache_ops :: ('o cache, 'o) Store_ops)"

definition NewIndexerInformer_Process where
  "NewIndexerInformer_Process = HandleDeltas (cache_ops :: ('o cache, 'o) Store_ops)"

definition DeletionHandlingMetaNamespaceKeyFunc :: "('o \<Rightarrow> (string \<times> string) option) \<Rightarrow> 'o KeyFunc" where
  "DeletionHandlingMetaNamespaceKeyFunc accessor obj =
     (case obj of
        DeletedFinalStateUnknown key _ \<Rightarrow> Inr key
      | _ \<Rightarrow> MetaNamespaceKeyFunc accessor obj)"

section \<open>The shared informer\<close>

type_synonym 'o processorListener = "'o notification list"

definition processorListener_add :: "'o notification \<Rightarrow> 'o processorListener \<Rightarrow> 'o processorListener" where
  "processorListener_add n pendingNotifications = pendingNotifications @ [n]"

text \<open>\<open>blockingGet\<close> of \<^verbatim>\<open>processorListener.pop\<close>: the next notification, or \<open>None\<close> while it waits.\<close>

definition processorListener_pop ::
  "'o processorListener \<Rightarrow> 'o notification option \<times> 'o processorListener" where
  "processorListener_pop pendingNotifications =
     (case pendingNotifications of [] \<Rightarrow> (None, []) | nt # ns \<Rightarrow> (Some nt, ns))"

definition sharedProcessor_distribute ::
  "'o notification \<Rightarrow> 'o processorListener list \<Rightarrow> 'o processorListener list" where
  "sharedProcessor_distribute n listeners = map (processorListener_add n) listeners"

record 'o sharedIndexInformer =
  inf_queue :: "'o DeltaFIFO"
  inf_indexer :: "'o cache"
  inf_listeners :: "'o processorListener list"
  inf_started :: bool

datatype 'o informer_error = AlreadyStarted | IndexerError "'o cache_error"

definition sharedIndexInformer_AddIndexers ::
  "(string \<rightharpoonup> 'o IndexFunc) \<Rightarrow> 'o sharedIndexInformer \<Rightarrow> ('o informer_error, 'o sharedIndexInformer) result" where
  "sharedIndexInformer_AddIndexers ixs s =
     (if inf_started s then Inl AlreadyStarted
      else (case threadSafeMap_AddIndexers ixs (cacheStorage (inf_indexer s)) of
              Inl err \<Rightarrow> Inl (IndexerError err)
            | Inr st \<Rightarrow> Inr (s\<lparr>inf_indexer := (inf_indexer s)\<lparr>cacheStorage := st\<rparr>\<rparr>)))"

definition sharedIndexInformer_AddEventHandler ::
  "'o sharedIndexInformer \<Rightarrow> ('o informer_error, 'o sharedIndexInformer) result" where
  "sharedIndexInformer_AddEventHandler s =
     (if inf_started s then Inl AlreadyStarted
      else Inr (s\<lparr>inf_listeners := inf_listeners s @ [[]]\<rparr>))"

definition sharedIndexInformer_HasSynced :: "'o sharedIndexInformer \<Rightarrow> bool" where
  "sharedIndexInformer_HasSynced s \<longleftrightarrow> inf_started s \<and> DeltaFIFO_HasSynced (inf_queue s)"

text \<open>\<^verbatim>\<open>Run\<close> creates the queue and marks the informer started.\<close>

definition sharedIndexInformer_Run ::
  "'o KeyFunc \<Rightarrow> 'o sharedIndexInformer \<Rightarrow> 'o sharedIndexInformer" where
  "sharedIndexInformer_Run kf s = s\<lparr>inf_queue := NewDeltaFIFO kf None, inf_started := True\<rparr>"

text \<open>One turn of \<^verbatim>\<open>Controller.processLoop\<close>: pop, process under the queue's lock, retry on an error
  if the configuration says so. \<open>None\<close> while Pop waits.\<close>

definition processLoop_turn ::
  "bool \<Rightarrow> (nat \<Rightarrow> orders) \<Rightarrow> 'o sharedIndexInformer \<Rightarrow> 'o sharedIndexInformer option" where
  "processLoop_turn retryOnError ords s =
     (case DeltaFIFO_Pop (inf_queue s) of
        (None, q) \<Rightarrow> None
      | (Some ds, q) \<Rightarrow>
          (case HandleDeltas cache_ops ords ds (inf_indexer s) of
             (err, ix, ns) \<Rightarrow>
               let s1 = s\<lparr>inf_queue := q, inf_indexer := ix,
                          inf_listeners := foldl (\<lambda>ls n. sharedProcessor_distribute n ls) (inf_listeners s) ns\<rparr>
               in if err \<noteq> None \<and> retryOnError
                  then (case DeltaFIFO_AddIfNotPresent (DeltasI ds) q of
                          None \<Rightarrow> None
                        | Some (_, q') \<Rightarrow> Some (s1\<lparr>inf_queue := q'\<rparr>))
                  else Some s1))"

definition Controller_Requeue ::
  "'o iface \<Rightarrow> 'o DeltaFIFO \<Rightarrow> ('o cache_error option \<times> 'o DeltaFIFO) option" where
  "Controller_Requeue obj f = DeltaFIFO_AddIfNotPresent (DeltasI [Delta Sync obj]) f"

section \<open>The reflector\<close>

datatype EventType = EvAdded | EvModified | EvDeleted | EvError | EvOther

datatype 'o reflector_error = errorStopRequested | ResyncFailed "'o cache_error" | StatusError "'o iface"

text \<open>What the select of \<^verbatim>\<open>watchHandler\<close> can receive (a closed channel ends the list of inputs).\<close>

datatype 'o select_input =
  StopCh | ErrCh "'o cache_error" | ResultChan EventType "'o iface"

record 'o reflector =
  r_store :: "'o DeltaFIFO"
  r_resourceVersion :: string
  r_eventCount :: nat

text \<open>
  One round of the loop. \<open>expected\<close> is the check of the object's type, \<open>rv\<close> the resource version
  that \<^verbatim>\<open>meta.Accessor\<close> finds, \<open>kn\<close> what the queue sees of the known objects.
\<close>

definition watchHandler_round ::
  "('o iface \<Rightarrow> bool) \<Rightarrow> ('o iface \<Rightarrow> string option) \<Rightarrow> 'o known option \<Rightarrow> 'o select_input
     \<Rightarrow> 'o reflector \<Rightarrow> ('o reflector_error, 'o reflector) result" where
  "watchHandler_round expected rv kn inp r =
     (case inp of
        StopCh \<Rightarrow> Inl errorStopRequested
      | ErrCh err \<Rightarrow> Inl (ResyncFailed err)
      | ResultChan t obj \<Rightarrow>
          if t = EvError then Inl (StatusError obj)
          else if \<not> expected obj then Inr r
          else (case rv obj of
                  None \<Rightarrow> Inr r
                | Some newResourceVersion \<Rightarrow>
                    let st = (case t of
                                EvAdded \<Rightarrow> snd (DeltaFIFO_Add obj (r_store r))
                              | EvModified \<Rightarrow> snd (DeltaFIFO_Update obj (r_store r))
                              | EvDeleted \<Rightarrow> snd (DeltaFIFO_Delete kn obj (r_store r))
                              | _ \<Rightarrow> r_store r)
                    in Inr (r\<lparr>r_store := st, r_resourceVersion := newResourceVersion,
                              r_eventCount := Suc (r_eventCount r)\<rparr>)))"

definition syncWith ::
  "string list \<Rightarrow> 'o known option \<Rightarrow> 'o list \<Rightarrow> 'o DeltaFIFO \<Rightarrow> 'o cache_error option \<times> 'o DeltaFIFO" where
  "syncWith ks kn its f = DeltaFIFO_Replace ks kn (map Obj its) f"

section \<open>Deltas over any store\<close>

context object_store
begin

lemma HandleDeltas_contents:
  assumes "invar s" and "\<And>i. visits (ords i)"
    and "\<And>d. d \<in> set ds \<Longrightarrow> key (delta_Object d) = Inr k"
    and "\<And>d. d \<in> set ds \<Longrightarrow> delta_Type d \<noteq> Deleted \<Longrightarrow> storable (delta_Object d)"
  shows "\<exists>s' ns. HandleDeltas ops ords ds s = (None, s', ns) \<and> invar s' \<and> length ns = length ds \<and>
     contents s' = (if ds = [] then contents s else (contents s)(k := final_of ds))"
  using assms
proof (induction ds arbitrary: s ords)
  case Nil
  then show ?case by simp
next
  case (Cons d ds)
  let ?o = "delta_Object d"
  have key: "key ?o = Inr k" using Cons.prems(3) by simp
  have "\<exists>s1 n. invar s1 \<and> contents s1 = (contents s)(k := final_of [d]) \<and>
    HandleDeltas ops ords (d # ds) s =
      (let (err, s'', ns) = HandleDeltas ops (\<lambda>i. ords (Suc i)) ds s1 in (err, s'', n # ns))"
  proof (cases "delta_Type d = Deleted")
    case True
    with delete_key [OF Cons.prems(1,2) key, of 0] obtain s1
      where "Store_Delete ops (ords 0) ?o s = Inr s1" "invar s1" "contents s1 = map_delete k (contents s)"
      by blast
    with True show ?thesis
      by (intro exI [of _ s1] exI [of _ "deleteNotification ?o"]) (simp add: final_of_def map_delete_def)
  next
    case False
    have st: "storable ?o" using Cons.prems(4) False by simp
    show ?thesis
    proof (cases "contents s k")
      case None
      obtain s1 where "Store_Add ops (ords 0) ?o s = Inr s1" "invar s1" "contents s1 = (contents s)(k \<mapsto> ?o)"
        using add_key [OF Cons.prems(1,2) st key, of 0] by blast
      with None get_key [OF Cons.prems(1) key] False show ?thesis
        by (intro exI [of _ s1] exI [of _ "addNotification ?o"]) (simp add: final_of_def)
    next
      case (Some old)
      obtain s1 where "Store_Update ops (ords 0) ?o s = Inr s1" "invar s1" "contents s1 = (contents s)(k \<mapsto> ?o)"
        using update_key [OF Cons.prems(1,2) st key, of 0] by blast
      with Some get_key [OF Cons.prems(1) key] False show ?thesis
        by (intro exI [of _ s1] exI [of _ "updateNotification old ?o"]) (simp add: final_of_def)
    qed
  qed
  then obtain s1 n where s1: "invar s1" "contents s1 = (contents s)(k := final_of [d])"
    and step: "HandleDeltas ops ords (d # ds) s =
      (let (err, s'', ns) = HandleDeltas ops (\<lambda>i. ords (Suc i)) ds s1 in (err, s'', n # ns))"
    by blast
  obtain s' ns where "HandleDeltas ops (\<lambda>i. ords (Suc i)) ds s1 = (None, s', ns)" "invar s'"
    "length ns = length ds" "contents s' = (if ds = [] then contents s1 else (contents s1)(k := final_of ds))"
    using Cons.IH [OF s1(1), of "\<lambda>i. ords (Suc i)"] Cons.prems by auto
  then show ?case
    using step s1(2) by (auto simp: final_of_def)
qed

end


section \<open>The objects in the queue\<close>

text \<open>The reflector queues API objects the local store can index; only deletions may be tombstones.\<close>

definition obj_good :: "(string \<rightharpoonup> 'o IndexFunc) \<Rightarrow> DeltaType \<Rightarrow> 'o iface \<Rightarrow> bool" where
  "obj_good ixs t obj \<longleftrightarrow> (\<forall>ds. obj \<noteq> DeltasI ds) \<and> (t \<noteq> Deleted \<longrightarrow> cache_storable ixs obj)"

definition df_objects :: "(string \<rightharpoonup> 'o IndexFunc) \<Rightarrow> 'o DeltaFIFO \<Rightarrow> bool" where
  "df_objects ixs f \<longleftrightarrow> df_compressor f = None \<and>
     (\<forall>k ds d. df_items f k = Some ds \<longrightarrow> d \<in> set ds \<longrightarrow> obj_good ixs (delta_Type d) (delta_Object d))"

lemma df_objects_queueAction:
  assumes "df_objects ixs f" and "obj_good ixs t obj"
  shows "df_objects ixs (snd (queueActionLocked t obj f))"
proof (cases "KeyOf (df_keyFunc f) obj")
  case (Inl e)
  with assms show ?thesis by (simp add: queueAction_key_error)
next
  case (Inr key)
  show ?thesis
  proof (cases "t = Sync \<and> willObjectBeDeletedLocked key f")
    case True
    with assms Inr show ?thesis by (simp add: queueAction_skip)
  next
    case False
    let ?old = "map_get [] (df_items f) key"
    have "\<forall>d \<in> set ?old. obj_good ixs (delta_Type d) (delta_Object d)"
      using assms by (cases "df_items f key") (auto simp: df_objects_def)
    then have "\<forall>d \<in> set (dedupDeltas (?old @ [Delta t obj])). obj_good ixs (delta_Type d) (delta_Object d)"
      using set_dedupDeltas [of ?old "Delta t obj"] assms(2) by auto
    with assms(1) False Inr queueAction_append [of f obj key t] show ?thesis
      by (auto simp: df_objects_def)
  qed
qed

interpretation dfo: action_closed "df_objects ixs" "obj_good ixs" for ixs
  by (unfold_locales, rule df_objects_queueAction) (simp_all add: df_objects_def obj_good_def)

section \<open>The informer and the server\<close>

text \<open>
  A state is the informer and, beside it, what the API server holds. A server change reaches
  the informer as a watch event; a relist happens when the queue has nothing pending; the
  process loop turns at any time.
\<close>

definition reflector_of :: "'o sharedIndexInformer \<Rightarrow> string \<Rightarrow> nat \<Rightarrow> 'o reflector" where
  "reflector_of s v n = \<lparr>r_store = inf_queue s, r_resourceVersion = v, r_eventCount = n\<rparr>"

definition accepts :: "('o iface \<Rightarrow> bool) \<Rightarrow> ('o iface \<Rightarrow> string option) \<Rightarrow> 'o iface \<Rightarrow> bool" where
  "accepts expected rv obj \<longleftrightarrow> expected obj \<and> rv obj \<noteq> None"

definition visits_all :: "(string \<rightharpoonup> 'o IndexFunc) \<Rightarrow> (nat \<Rightarrow> orders) \<Rightarrow> bool" where
  "visits_all ixs ords \<longleftrightarrow> (\<forall>i. cache_visits ixs (ords i))"

abbreviation local_store :: "'o sharedIndexInformer \<Rightarrow> string \<rightharpoonup> 'o iface" where
  "local_store s \<equiv> cache_contents (inf_indexer s)"

inductive inf_step ::
  "'o KeyFunc \<Rightarrow> (string \<rightharpoonup> 'o IndexFunc) \<Rightarrow> 'o sharedIndexInformer \<times> (string \<rightharpoonup> 'o iface)
     \<Rightarrow> 'o sharedIndexInformer \<times> (string \<rightharpoonup> 'o iface) \<Rightarrow> bool" for kf ixs where
  inf_watch:
    "t \<in> {EvAdded, EvModified, EvDeleted} \<Longrightarrow> cache_storable ixs (Obj x) \<Longrightarrow> kf (Obj x) = Inr k \<Longrightarrow>
     accepts expected rv (Obj x) \<Longrightarrow> range_of (local_store s) ks \<Longrightarrow>
     watchHandler_round expected rv (Some (known_store (local_store s) ks)) (ResultChan t (Obj x))
       (reflector_of s v n) = Inr r \<Longrightarrow>
     inf_step kf ixs (s, srv)
       (s\<lparr>inf_queue := r_store r\<rparr>, srv(k := if t = EvDeleted then None else Some (Obj x)))"
| inf_relist:
    "df_items (inf_queue s) = Map.empty \<Longrightarrow>
     \<forall>x \<in> set xs. cache_storable ixs (Obj x) \<and> (\<exists>k. kf (Obj x) = Inr k) \<Longrightarrow>
     range_of (local_store s) ks \<Longrightarrow>
     syncWith [] (Some (known_store (local_store s) ks)) xs (inf_queue s) = (None, q) \<Longrightarrow>
     inf_step kf ixs (s, srv) (s\<lparr>inf_queue := q\<rparr>, listed kf (map Obj xs))"
| inf_process:
    "visits_all ixs ords \<Longrightarrow> processLoop_turn False ords s = Some s' \<Longrightarrow>
     inf_step kf ixs (s, srv) (s', srv)"

inductive inf_reachable ::
  "'o KeyFunc \<Rightarrow> (string \<rightharpoonup> 'o IndexFunc) \<Rightarrow> 'o sharedIndexInformer \<times> (string \<rightharpoonup> 'o iface) \<Rightarrow> bool"
  for kf ixs where
  inf_start: "inf_indexer s = NewIndexer (object_key kf) ixs \<Longrightarrow>
     inf_reachable kf ixs (sharedIndexInformer_Run kf s, Map.empty)"
| inf_next: "inf_reachable kf ixs c \<Longrightarrow> inf_step kf ixs c c' \<Longrightarrow> inf_reachable kf ixs c'"

definition inf_inv ::
  "'o KeyFunc \<Rightarrow> (string \<rightharpoonup> 'o IndexFunc) \<Rightarrow> 'o sharedIndexInformer \<Rightarrow> (string \<rightharpoonup> 'o iface) \<Rightarrow> bool" where
  "inf_inv kf ixs s srv \<longleftrightarrow>
     df_inv (inf_queue s) \<and> df_clean (inf_queue s) \<and> df_objects ixs (inf_queue s) \<and>
     df_keyFunc (inf_queue s) = kf \<and> cache_inv (object_key kf) ixs (inf_indexer s) \<and>
     eventual (inf_queue s) (local_store s) = srv"

lemma KeyOf_Obj [simp]: "KeyOf kf (Obj x) = kf (Obj x)"
  by (simp add: KeyOf_def object_key_def)

lemma inf_inv_Run:
  "inf_indexer s = NewIndexer (object_key kf) ixs \<Longrightarrow> inf_inv kf ixs (sharedIndexInformer_Run kf s) Map.empty"
  using cache_inv_NewIndexer df_inv_New df_clean_New
  by (auto simp: inf_inv_def sharedIndexInformer_Run_def df_objects_def eventual_def cache_contents_def
      NewIndexer_def NewThreadSafeStore_def NewDeltaFIFO_def)

text \<open>What a watch event does to the queue.\<close>

lemma DeltaFIFO_Delete_eventual:
  assumes "df_compressor f = None" and "KeyOf (df_keyFunc f) obj = Inr k" and "df_inv f"
  shows "eventual (snd (DeltaFIFO_Delete (Some (known_store st ks)) obj f)) st = (eventual f st)(k := None)"
proof (cases "st k = None \<and> df_items f k = None")
  case True
  with assms show ?thesis
    by (auto simp: DeltaFIFO_Delete_def known_store_def eventual_def fun_eq_iff)
next
  case False
  with assms have "DeltaFIFO_Delete (Some (known_store st ks)) obj f =
      queueActionLocked Deleted obj (f\<lparr>df_populated := True\<rparr>)"
    by (auto simp: DeltaFIFO_Delete_def known_store_def)
  with assms eventual_queueAction [of "f\<lparr>df_populated := True\<rparr>" obj k Deleted st] show ?thesis
    by simp
qed

lemma DeltaFIFO_frame [simp]:
  "df_keyFunc (snd (DeltaFIFO_Add obj f)) = df_keyFunc f"
  "df_keyFunc (snd (DeltaFIFO_Update obj f)) = df_keyFunc f"
  "df_keyFunc (snd (DeltaFIFO_Delete kn obj f)) = df_keyFunc f"
  by (auto simp: DeltaFIFO_Add_def DeltaFIFO_Update_def DeltaFIFO_Delete_def Let_def
      split: sum.splits option.splits)

lemma inf_inv_watch:
  assumes inv: "inf_inv kf ixs s srv" and t: "t \<in> {EvAdded, EvModified, EvDeleted}"
    and st: "cache_storable ixs (Obj x)" and k: "kf (Obj x) = Inr k"
    and ok: "accepts expected rv (Obj x)"
    and r: "watchHandler_round expected rv (Some (known_store (local_store s) ks)) (ResultChan t (Obj x))
        (reflector_of s v n) = Inr r"
  shows "inf_inv kf ixs (s\<lparr>inf_queue := r_store r\<rparr>) (srv(k := if t = EvDeleted then None else Some (Obj x)))"
proof -
  let ?q = "inf_queue s"
  have q: "df_inv ?q" "df_clean ?q" "df_objects ixs ?q" "df_compressor ?q = None"
      "KeyOf (df_keyFunc ?q) (Obj x) = Inr k" "eventual ?q (local_store s) = srv"
    using inv k by (auto simp: inf_inv_def df_clean_def)
  have good: "obj_good ixs t' (Obj x)" for t' using st by (simp add: obj_good_def)
  consider (add) "t = EvAdded" "r_store r = snd (DeltaFIFO_Add (Obj x) ?q)"
    | (upd) "t = EvModified" "r_store r = snd (DeltaFIFO_Update (Obj x) ?q)"
    | (del) "t = EvDeleted" "r_store r = snd (DeltaFIFO_Delete (Some (known_store (local_store s) ks)) (Obj x) ?q)"
    using t r ok by (auto simp: watchHandler_round_def reflector_of_def accepts_def Let_def)
  then show ?thesis
  proof cases
    case add
    moreover have "eventual (snd (DeltaFIFO_Add (Obj x) ?q)) (local_store s) = srv(k \<mapsto> Obj x)"
      using q(4-6) eventual_queueAction [of "?q\<lparr>df_populated := True\<rparr>"] by (simp add: DeltaFIFO_Add_def)
    ultimately show ?thesis
      using inv q(1-3) good by (simp add: inf_inv_def df_inv_keeps df_clean_keeps dfo.add_keeps)
  next
    case upd
    moreover have "eventual (snd (DeltaFIFO_Update (Obj x) ?q)) (local_store s) = srv(k \<mapsto> Obj x)"
      using q(4-6) eventual_queueAction [of "?q\<lparr>df_populated := True\<rparr>"] by (simp add: DeltaFIFO_Update_def)
    ultimately show ?thesis
      using inv q(1-3) good by (simp add: inf_inv_def df_inv_keeps df_clean_keeps dfo.update_keeps)
  next
    case del
    with inv q good DeltaFIFO_Delete_eventual [OF q(4,5,1), of "local_store s" ks] show ?thesis
      by (simp add: inf_inv_def df_inv_keeps df_clean_keeps dfo.delete_keeps)
  qed
qed


lemma DeltaFIFO_Replace_keyFunc:
  assumes "df_keyFunc f = kf"
  shows "df_keyFunc (snd (DeltaFIFO_Replace ks kn xs f)) = kf"
proof -
  have "action_closed (\<lambda>f. df_keyFunc f = kf) (\<lambda>_ _. True)"
    by unfold_locales simp_all
  from action_closed.replace_keeps [OF this assms] show ?thesis by simp
qed

lemma inf_inv_relist:
  assumes inv: "inf_inv kf ixs s srv" and empty: "df_items (inf_queue s) = Map.empty"
    and xs: "\<forall>x \<in> set xs. cache_storable ixs (Obj x) \<and> (\<exists>k. kf (Obj x) = Inr k)"
    and ks: "range_of (local_store s) ks"
    and q: "syncWith [] (Some (known_store (local_store s) ks)) xs (inf_queue s) = (None, q)"
  shows "inf_inv kf ixs (s\<lparr>inf_queue := q\<rparr>) (listed kf (map Obj xs))"
proof -
  let ?q = "inf_queue s"
  have f: "df_compressor ?q = None" "df_keyFunc ?q = kf"
    using inv by (auto simp: inf_inv_def df_clean_def)
  have xs': "\<And>x. x \<in> set (map Obj xs) \<Longrightarrow> \<exists>k. KeyOf (df_keyFunc ?q) x = Inr k"
    using xs f(2) by auto
  have r: "DeltaFIFO_Replace [] (Some (known_store (local_store s) ks)) (map Obj xs) ?q = (None, q)"
    using q by (simp add: syncWith_def)
  have e: "eventual q (local_store s) = (\<lambda>k. case listed kf (map Obj xs) k of
         Some x \<Rightarrow> if willObjectBeDeletedLocked k ?q then None else Some x
       | None \<Rightarrow> if local_store s k \<noteq> None then None else eventual ?q (local_store s) k)"
    using deltafifo_replace_eventual [where xs = "map Obj xs" and ks = "[]", OF f(1) xs' ks] r f(2) by auto
  have "eventual ?q (local_store s) = local_store s" "\<And>k. \<not> willObjectBeDeletedLocked k ?q"
    using empty by (simp_all add: eventual_def willObjectBeDeletedLocked_def)
  with e have ev: "eventual q (local_store s) = listed kf (map Obj xs)"
    by (auto simp: fun_eq_iff split: option.splits)
  have q: "q = snd (DeltaFIFO_Replace [] (Some (known_store (local_store s) ks)) (map Obj xs) ?q)"
    by (simp add: r)
  have "df_objects ixs q"
    unfolding q using inv xs by (intro dfo.replace_keeps) (auto simp: inf_inv_def obj_good_def)
  moreover have "df_inv q" "df_clean q" "df_keyFunc q = kf"
    unfolding q using inv f(2)
    by (simp_all add: inf_inv_def df_inv_keeps df_clean_keeps DeltaFIFO_Replace_keyFunc)
  ultimately show ?thesis using inv ev by (simp add: inf_inv_def)
qed

text \<open>A turn of the process loop moves one entry from the queue into the store.\<close>

lemma inf_inv_process:
  assumes inv: "inf_inv kf ixs s srv" and ords: "visits_all ixs ords"
    and pending: "df_items (inf_queue s) \<noteq> Map.empty"
  shows "\<exists>s' k. processLoop_turn False ords s = Some s' \<and> inf_inv kf ixs s' srv \<and>
     k \<in> dom (df_items (inf_queue s)) \<and>
     df_items (inf_queue s') = map_delete k (df_items (inf_queue s))"
proof -
  let ?q = "inf_queue s"
  have q: "df_inv ?q" "df_clean ?q" "df_objects ixs ?q" using inv by (auto simp: inf_inv_def)
  obtain ds q' where pop: "DeltaFIFO_Pop ?q = (Some ds, q')"
    using dfq.pop_Some_pending [OF q(1) pending] by blast
  then obtain sk k qs n where k: "df_items ?q k = Some ds"
    and q': "q' = ?q\<lparr>df_queue := qs, df_initialPopulationCount := n, df_items := map_delete k (df_items ?q)\<rparr>"
    using DeltaFIFO_Pop_Some by blast
  have ds: "ds \<noteq> []" using q(1) k by (auto simp: df_inv_def)
  have kd: "KeyOf kf (delta_Object d) = Inr k" and gd: "obj_good ixs (delta_Type d) (delta_Object d)"
    if "d \<in> set ds" for d
    using inv k that unfolding inf_inv_def df_clean_def df_objects_def by blast+
  have key: "object_key kf (delta_Object d) = Inr k" if "d \<in> set ds" for d
    using kd [OF that] gd [OF that] by (cases "delta_Object d") (simp_all add: KeyOf_def obj_good_def)
  have st: "cache_storable ixs (delta_Object d)" if "d \<in> set ds" "delta_Type d \<noteq> Deleted" for d
    using gd [OF that(1)] that(2) by (simp add: obj_good_def)
  obtain ix ns where h: "HandleDeltas cache_ops ords ds (inf_indexer s) = (None, ix, ns)"
    "cache_inv (object_key kf) ixs ix" "cache_contents ix = (local_store s)(k := final_of ds)"
    using cs.HandleDeltas_contents [of "object_key kf" ixs "inf_indexer s" ords ds k] inv ords key st ds
    by (auto simp: inf_inv_def visits_all_def)
  let ?s = "s\<lparr>inf_queue := q', inf_indexer := ix,
      inf_listeners := foldl (\<lambda>ls n. sharedProcessor_distribute n ls) (inf_listeners s) ns\<rparr>"
  have "processLoop_turn False ords s = Some ?s"
    using pop h(1) by (simp add: processLoop_turn_def Let_def)
  moreover have "eventual q' (cache_contents ix) = eventual ?q (local_store s)"
    using k by (auto simp: q' h(3) eventual_def fun_eq_iff split: option.splits)
  then have "inf_inv kf ixs ?s srv"
    using inv h(2) df_inv_Pop [OF q(1)] pop q(2,3)
    by (auto simp: inf_inv_def df_clean_def df_objects_def q')
  ultimately show ?thesis using k by (auto simp: q')
qed

lemma processLoop_turn_blocks:
  "df_inv (inf_queue s) \<Longrightarrow> df_items (inf_queue s) = Map.empty \<Longrightarrow> processLoop_turn b ords s = None"
  using dfq.pop_blocks [of "inf_queue s"]
  by (auto simp: processLoop_turn_def split: prod.splits option.splits)

lemma inf_reachable_inv: "inf_reachable kf ixs (s, srv) \<Longrightarrow> inf_inv kf ixs s srv"
proof (induction "(s, srv)" arbitrary: s srv rule: inf_reachable.induct)
  case (inf_start s)
  then show ?case by (rule inf_inv_Run)
next
  case (inf_next c s' srv')
  obtain s srv where c: "c = (s, srv)" by fastforce
  with inf_next have inv: "inf_inv kf ixs s srv" by simp
  from inf_next(3) [unfolded c] show ?case
  proof cases
    case (inf_watch t x k expected rv ks v n r)
    with inf_inv_watch [OF inv] show ?thesis by simp
  next
    case (inf_relist xs ks q)
    with inf_inv_relist [OF inv] show ?thesis by simp
  next
    case (inf_process ords)
    show ?thesis
    proof (cases "df_items (inf_queue s) = Map.empty")
      case True
      with processLoop_turn_blocks inf_process inv show ?thesis by (fastforce simp: inf_inv_def)
    next
      case False
      with inf_inv_process [OF inv inf_process(2)] inf_process show ?thesis by auto
    qed
  qed
qed

text \<open>\<open>n\<close> turns of the process loop.\<close>

primrec process_turns :: "nat \<Rightarrow> (nat \<Rightarrow> orders) \<Rightarrow> 'o sharedIndexInformer \<Rightarrow> 'o sharedIndexInformer option" where
  "process_turns 0 ords s = Some s"
| "process_turns (Suc n) ords s =
     (case processLoop_turn False ords s of None \<Rightarrow> None | Some s' \<Rightarrow> process_turns n ords s')"

lemma process_turns_converge:
  assumes "inf_inv kf ixs s srv" and "visits_all ixs ords"
    and "n = map_len (df_items (inf_queue s))"
  shows "\<exists>s'. process_turns n ords s = Some s' \<and> local_store s' = srv \<and>
              df_items (inf_queue s') = Map.empty"
  using assms
proof (induction n arbitrary: s)
  case 0
  then have "df_items (inf_queue s) = Map.empty"
    using map_len_zero [of "df_items (inf_queue s)"] by (auto simp: inf_inv_def df_inv_def)
  with 0 show ?case by (auto simp: inf_inv_def eventual_def fun_eq_iff)
next
  case (Suc n)
  then have "df_items (inf_queue s) \<noteq> Map.empty" by auto
  with inf_inv_process [OF Suc.prems(1,2)] obtain s' k where s': "processLoop_turn False ords s = Some s'"
    "inf_inv kf ixs s' srv" "k \<in> dom (df_items (inf_queue s))"
    "df_items (inf_queue s') = map_delete k (df_items (inf_queue s))" by blast
  moreover have "finite (dom (df_items (inf_queue s)))"
    using Suc.prems(1) by (auto simp: inf_inv_def df_inv_def)
  ultimately have "n = map_len (df_items (inf_queue s'))"
    using Suc.prems(3) map_len_delete [of "df_items (inf_queue s)" k] by simp
  with Suc.IH [OF s'(2) Suc.prems(2)] s'(1) show ?case by auto
qed

section \<open>Properties of the informer\<close>



text \<open>Resync can undo an update. It queues the stored version of every known object behind whatever
  is pending, so a newer version that is still pending is overwritten by the older one.\<close>

theorem resync_reverts_pending_update:
  "let kf = (\<lambda>obj. case obj of Obj (n, v) \<Rightarrow> Inr n | _ \<Rightarrow> Inl ObjectHasNoMeta);
       st = [''a'' \<mapsto> Obj (''a'', 1 :: nat)];
       f1 = snd (DeltaFIFO_Update (Obj (''a'', 2)) (NewDeltaFIFO kf None));
       f2 = snd (the (DeltaFIFO_Resync (Some (known_store st [''a''])) f1))
   in eventual f1 st ''a'' = Some (Obj (''a'', 2)) \<and> eventual f2 st ''a'' = Some (Obj (''a'', 1))"
  by (simp add: Let_def DeltaFIFO_Update_def DeltaFIFO_Resync_def known_store_def NewDeltaFIFO_def KeyOf_def
      object_key_def queueActionLocked_def willObjectBeDeletedLocked_def eventual_def final_of_def
      dedupDeltas_def isDup_def isDeletionDup_def)

section \<open>Witnesses\<close>

definition example_informer :: "string sharedIndexInformer" where
  "example_informer = sharedIndexInformer_Run name_key
     \<lparr>inf_queue = NewDeltaFIFO name_key None, inf_indexer = NewIndexer (object_key name_key) Map.empty,
      inf_listeners = [], inf_started = False\<rparr>"

definition example_reflector :: "string reflector" where
  "example_reflector = projr (watchHandler_round (\<lambda>_. True) (\<lambda>_. Some ''2'') (Some (known_store Map.empty []))
     (ResultChan EvAdded (Obj ''a'')) (reflector_of example_informer ''1'' 0))"

lemma example_informer_reachable:
  "inf_reachable name_key Map.empty
     (example_informer\<lparr>inf_queue := r_store example_reflector\<rparr>, [''a'' \<mapsto> Obj ''a''])"
proof -
  have start: "inf_reachable name_key Map.empty (example_informer, Map.empty)"
    unfolding example_informer_def by (rule inf_start) simp
  have store: "local_store example_informer = Map.empty"
    by (simp add: example_informer_def sharedIndexInformer_Run_def cache_contents_def NewIndexer_def
        NewThreadSafeStore_def)
  have "inf_step name_key Map.empty (example_informer, Map.empty)
     (example_informer\<lparr>inf_queue := r_store example_reflector\<rparr>,
      Map.empty(''a'' := if EvAdded = EvDeleted then None else Some (Obj ''a'')))"
    by (rule inf_watch [where ks = "[]" and expected = "\<lambda>_. True" and rv = "\<lambda>_. Some ''2''"])
       (auto simp: cache_storable_def name_key_def accepts_def store example_reflector_def
         watchHandler_round_def Let_def)
  with inf_next [OF start] show ?thesis by simp
qed



end
