(* ===== verification/Work_Queue.thy ===== *)
theory Work_Queue
  imports Go_Prelude
begin

text \<open>
  The work queue every controller takes its keys from: src/pkg/util/workqueue/queue.go (the
  queue with its dirty and processing sets), delaying_queue.go (additions after a delay) and
  parallelizer.go.

  A \<^verbatim>\<open>Get\<close> that would wait on the condition variable is the result \<^term>\<open>None\<close>. Behaviour
  over time is a list of events: \<open>wq_trace evs q\<close> runs the operations of all goroutines in the
  order in which they take the lock, and is \<^term>\<open>None\<close> where an event cannot happen.
  The delaying queue is written over a dictionary of the operations of the interface
  \<^verbatim>\<open>workqueue.Interface\<close> it embeds; the locale \<open>workqueue_interface\<close> has the laws it relies
  on, and the queue of this theory is an instance. Times are integers (nanoseconds).
\<close>

section \<open>The queue\<close>

record 'a Type =
  wq_queue :: "'a list"
  wq_dirty :: "'a set"
  wq_processing :: "'a set"
  wq_shuttingDown :: bool

definition New :: "'a Type" where
  "New = \<lparr>wq_queue = [], wq_dirty = {}, wq_processing = {}, wq_shuttingDown = False\<rparr>"

definition Type_Add :: "'a \<Rightarrow> 'a Type \<Rightarrow> 'a Type" where
  "Type_Add item q =
     (if wq_shuttingDown q then q
      else if item \<in> wq_dirty q then q
      else
        let q' = q\<lparr>wq_dirty := insert item (wq_dirty q)\<rparr>
        in if item \<in> wq_processing q' then q'
           else q'\<lparr>wq_queue := wq_queue q' @ [item]\<rparr>)"

definition Type_Len :: "'a Type \<Rightarrow> nat" where
  "Type_Len q = length (wq_queue q)"

text \<open>The item is \<^term>\<open>None\<close> for the nil of a shut down queue; the flag is \<^verbatim>\<open>shutdown\<close>.\<close>

definition Type_Get :: "'a Type \<Rightarrow> (('a option \<times> bool) \<times> 'a Type) option" where
  "Type_Get q =
     (if wq_queue q = [] \<and> \<not> wq_shuttingDown q then None
      else
        case wq_queue q of
          [] \<Rightarrow> Some ((None, True), q)
        | item # rest \<Rightarrow>
            Some ((Some item, False),
                  q\<lparr>wq_queue := rest, wq_processing := insert item (wq_processing q),
                    wq_dirty := wq_dirty q - {item}\<rparr>))"

definition Type_Done :: "'a \<Rightarrow> 'a Type \<Rightarrow> 'a Type" where
  "Type_Done item q =
     (let q' = q\<lparr>wq_processing := wq_processing q - {item}\<rparr>
      in if item \<in> wq_dirty q' then q'\<lparr>wq_queue := wq_queue q' @ [item]\<rparr> else q')"

definition Type_ShutDown :: "'a Type \<Rightarrow> 'a Type" where
  "Type_ShutDown q = q\<lparr>wq_shuttingDown := True\<rparr>"

definition Type_ShuttingDown :: "'a Type \<Rightarrow> bool" where
  "Type_ShuttingDown q = wq_shuttingDown q"

lemmas Type_defs = Type_Add_def Type_Get_def Type_Done_def Type_ShutDown_def Type_ShuttingDown_def

section \<open>The delaying queue\<close>

record ('q, 'a) Interface_ops =
  If_Add :: "'a \<Rightarrow> 'q \<Rightarrow> 'q"
  If_Get :: "'q \<Rightarrow> (('a option \<times> bool) \<times> 'q) option"
  If_Done :: "'a \<Rightarrow> 'q \<Rightarrow> 'q"
  If_ShutDown :: "'q \<Rightarrow> 'q"
  If_ShuttingDown :: "'q \<Rightarrow> bool"

definition Type_ops :: "('a Type, 'a) Interface_ops" where
  "Type_ops = \<lparr>If_Add = Type_Add, If_Get = Type_Get, If_Done = Type_Done,
               If_ShutDown = Type_ShutDown, If_ShuttingDown = Type_ShuttingDown\<rparr>"

datatype 'a waitFor = waitFor (wf_data: 'a) (wf_readyAt: int)

text \<open>
  \<open>dq_stopCh\<close> says that the channel is closed, \<open>dq_waitingForAddCh\<close> is what the buffered
  channel holds, and \<open>dq_loop\<close> where the goroutine of \<^verbatim>\<open>waitingLoop\<close> is: at the head of the loop,
  waiting in its \<^verbatim>\<open>select\<close>, or returned.
\<close>

datatype loop_pc = AtTop | AtSelect | Returned

record ('q, 'a) delayingType =
  dq_Interface :: 'q
  dq_stopCh :: bool
  dq_waitingForAdd :: "'a waitFor list"
  dq_waitingForAddCh :: "'a waitFor list"
  dq_loop :: loop_pc

definition newDelayingQueue :: "'q \<Rightarrow> ('q, 'a) delayingType" where
  "newDelayingQueue new =
     \<lparr>dq_Interface = new, dq_stopCh = False, dq_waitingForAdd = [], dq_waitingForAddCh = [],
      dq_loop = AtTop\<rparr>"

text \<open>\<^verbatim>\<open>close\<close> of a closed channel panics (\<^term>\<open>None\<close>).\<close>

definition delayingType_ShutDown ::
  "('q, 'a) Interface_ops \<Rightarrow> ('q, 'a) delayingType \<Rightarrow> ('q, 'a) delayingType option" where
  "delayingType_ShutDown ops q =
     (let q' = q\<lparr>dq_Interface := If_ShutDown ops (dq_Interface q)\<rparr>
      in if dq_stopCh q' then None else Some (q'\<lparr>dq_stopCh := True\<rparr>))"

text \<open>
  The final \<^verbatim>\<open>select\<close> takes a ready case. \<open>pick_stop\<close> is the choice of the runtime when both
  are ready; with neither ready the call blocks (\<^term>\<open>None\<close>). The channel holds 1000 entries.
\<close>

definition delayingType_AddAfter ::
  "('q, 'a) Interface_ops \<Rightarrow> int \<Rightarrow> bool \<Rightarrow> 'a \<Rightarrow> int \<Rightarrow> ('q, 'a) delayingType
     \<Rightarrow> ('q, 'a) delayingType option" where
  "delayingType_AddAfter ops now pick_stop item duration q =
     (if If_ShuttingDown ops (dq_Interface q) then Some q
      else if duration \<le> 0 then Some (q\<lparr>dq_Interface := If_Add ops item (dq_Interface q)\<rparr>)
      else
        let can_send = length (dq_waitingForAddCh q) < 1000
        in if dq_stopCh q \<and> (pick_stop \<or> \<not> can_send) then Some q
           else if can_send
           then Some (q\<lparr>dq_waitingForAddCh := dq_waitingForAddCh q @ [waitFor item (now + duration)]\<rparr>)
           else None)"

text \<open>The function \<^verbatim>\<open>insert\<close>: find the place by binary search, shift the rest, store.\<close>

definition insert_waitFor :: "'a waitFor list \<Rightarrow> 'a waitFor \<Rightarrow> 'a waitFor list" where
  "insert_waitFor entries entry =
     (let insertionIndex = sort_Search (length entries) (\<lambda>i. wf_readyAt entry < wf_readyAt (entries ! i))
      in take insertionIndex entries @ entry # drop insertionIndex entries)"

text \<open>The loop that adds the ready entries, with the rest of the slice as its second result.\<close>

fun add_ready ::
  "('q, 'a) Interface_ops \<Rightarrow> int \<Rightarrow> 'a waitFor list \<Rightarrow> 'q \<Rightarrow> 'q \<times> 'a waitFor list" where
  "add_ready ops now [] w = (w, [])"
| "add_ready ops now (entry # es) w =
     (if wf_readyAt entry > now then (w, entry # es)
      else add_ready ops now es (If_Add ops (wf_data entry) w))"

text \<open>One entry received from the channel, with the clock read at that moment.\<close>

definition receive_entry ::
  "('q, 'a) Interface_ops \<Rightarrow> int \<Rightarrow> 'a waitFor \<Rightarrow> ('q, 'a) delayingType \<Rightarrow> ('q, 'a) delayingType" where
  "receive_entry ops now waitEntry q =
     (if wf_readyAt waitEntry > now
      then q\<lparr>dq_waitingForAdd := insert_waitFor (dq_waitingForAdd q) waitEntry\<rparr>
      else q\<lparr>dq_Interface := If_Add ops (wf_data waitEntry) (dq_Interface q)\<rparr>)"

fun receive_entries ::
  "('q, 'a) Interface_ops \<Rightarrow> (nat \<Rightarrow> int) \<Rightarrow> 'a waitFor list \<Rightarrow> ('q, 'a) delayingType
     \<Rightarrow> ('q, 'a) delayingType" where
  "receive_entries ops clk [] q = q"
| "receive_entries ops clk (e # es) q =
     receive_entries ops (\<lambda>i. clk (Suc i)) es (receive_entry ops (clk 0) e q)"

datatype wait_case = Case_stopCh | Case_heartbeat | Case_nextReadyAt | Case_waitingForAddCh

text \<open>
  A turn of \<^verbatim>\<open>waitingLoop\<close> is the part before the \<^verbatim>\<open>select\<close>, at time \<open>now\<close>, and the case the
  runtime takes, with the operations of other goroutines in between. A case that is not ready is
  \<^term>\<open>None\<close>. Entries that arrive while the channel is drained are among those it holds, so
  draining takes all of them; \<open>clk i\<close> is the clock when the \<open>i\<close>-th entry is received.
\<close>

definition waitingLoop_top ::
  "('q, 'a) Interface_ops \<Rightarrow> int \<Rightarrow> ('q, 'a) delayingType \<Rightarrow> ('q, 'a) delayingType option" where
  "waitingLoop_top ops now q =
     (if dq_loop q \<noteq> AtTop then None
      else if If_ShuttingDown ops (dq_Interface q)
      then Some (q\<lparr>dq_waitingForAdd := [], dq_loop := Returned\<rparr>)
      else
        let (w, rest) = add_ready ops now (dq_waitingForAdd q) (dq_Interface q)
        in Some (q\<lparr>dq_Interface := w, dq_waitingForAdd := rest, dq_loop := AtSelect\<rparr>))"

definition waitingLoop_select ::
  "('q, 'a) Interface_ops \<Rightarrow> wait_case \<Rightarrow> (nat \<Rightarrow> int) \<Rightarrow> ('q, 'a) delayingType
     \<Rightarrow> ('q, 'a) delayingType option" where
  "waitingLoop_select ops c clk q =
     (if dq_loop q \<noteq> AtSelect then None
      else
        case c of
          Case_stopCh \<Rightarrow> if dq_stopCh q then Some (q\<lparr>dq_loop := Returned\<rparr>) else None
        | Case_heartbeat \<Rightarrow> Some (q\<lparr>dq_loop := AtTop\<rparr>)
        | Case_nextReadyAt \<Rightarrow> if dq_waitingForAdd q = [] then None else Some (q\<lparr>dq_loop := AtTop\<rparr>)
        | Case_waitingForAddCh \<Rightarrow>
            if dq_waitingForAddCh q = [] then None
            else Some (receive_entries ops clk (dq_waitingForAddCh q)
                         (q\<lparr>dq_waitingForAddCh := [], dq_loop := AtTop\<rparr>)))"

section \<open>Traces of the queue\<close>

text \<open>
  The events of all producers and workers. A worker calls \<^verbatim>\<open>Done\<close> for an item that is being
  processed, as the comment of \<^verbatim>\<open>Get\<close> demands. \<open>GetEv x\<close> is a \<^verbatim>\<open>Get\<close> that returned \<open>x\<close>.
\<close>

datatype 'a wq_event = AddEv 'a | GetEv 'a | DoneEv 'a | ShutDownEv

definition wq_do :: "'a wq_event \<Rightarrow> 'a Type \<Rightarrow> 'a Type option" where
  "wq_do e q =
     (case e of
        AddEv x \<Rightarrow> Some (Type_Add x q)
      | GetEv x \<Rightarrow> (case Type_Get q of
                     Some ((Some y, _), q') \<Rightarrow> if y = x then Some q' else None
                   | _ \<Rightarrow> None)
      | DoneEv x \<Rightarrow> if x \<in> wq_processing q then Some (Type_Done x q) else None
      | ShutDownEv \<Rightarrow> Some (Type_ShutDown q))"

fun wq_trace :: "'a wq_event list \<Rightarrow> 'a Type \<Rightarrow> 'a Type option" where
  "wq_trace [] q = Some q"
| "wq_trace (e # es) q = (case wq_do e q of None \<Rightarrow> None | Some q' \<Rightarrow> wq_trace es q')"

fun gets :: "'a wq_event list \<Rightarrow> 'a list" where
  "gets [] = []"
| "gets (GetEv x # es) = x # gets es"
| "gets (_ # es) = gets es"

definition wq_reachable :: "'a Type \<Rightarrow> bool" where
  "wq_reachable q \<longleftrightarrow> (\<exists>evs. wq_trace evs New = Some q)"

definition wq_inv :: "'a Type \<Rightarrow> bool" where
  "wq_inv q \<longleftrightarrow>
     distinct (wq_queue q) \<and> set (wq_queue q) = wq_dirty q - wq_processing q \<and> finite (wq_dirty q)"

lemma wq_inv_New: "wq_inv New"
  by (simp add: wq_inv_def New_def)

lemma wq_inv_Add [inv_intros]: "wq_inv q \<Longrightarrow> wq_inv (Type_Add x q)"
  by (auto simp: wq_inv_def Type_Add_def Let_def)

lemma wq_inv_Done [inv_intros]: "wq_inv q \<Longrightarrow> x \<in> wq_processing q \<Longrightarrow> wq_inv (Type_Done x q)"
  by (auto simp: wq_inv_def Type_Done_def Let_def)

lemma wq_inv_Get [inv_intros]: "wq_inv q \<Longrightarrow> Type_Get q = Some (r, q') \<Longrightarrow> wq_inv q'"
  by (auto simp: wq_inv_def Type_Get_def split: list.splits if_splits)

lemma wq_inv_ShutDown [inv_intros]: "wq_inv q \<Longrightarrow> wq_inv (Type_ShutDown q)"
  by (simp add: wq_inv_def Type_ShutDown_def)

lemma wq_inv_do: "wq_inv q \<Longrightarrow> wq_do e q = Some q' \<Longrightarrow> wq_inv q'"
  by (cases e) (auto simp: wq_do_def intro: inv_intros split: option.splits if_splits)

lemma wq_inv_trace: "wq_inv q \<Longrightarrow> wq_trace evs q = Some q' \<Longrightarrow> wq_inv q'"
  by (induction evs arbitrary: q) (auto intro: wq_inv_do split: option.splits)

lemma wq_reachable_inv: "wq_reachable q \<Longrightarrow> wq_inv q"
  using wq_inv_trace [OF wq_inv_New] by (auto simp: wq_reachable_def)

lemma wq_do_GetEv:
  "wq_do (GetEv x) q = Some q' \<longleftrightarrow>
     (\<exists>rest. wq_queue q = x # rest \<and>
        q' = q\<lparr>wq_queue := rest, wq_processing := insert x (wq_processing q), wq_dirty := wq_dirty q - {x}\<rparr>)"
  by (auto simp: wq_do_def Type_Get_def split: list.splits)

text \<open>Every other event only appends to the queue, and never clears a dirty mark.\<close>

lemma wq_do_appends:
  assumes "wq_do e q = Some q'" and "\<forall>x. e \<noteq> GetEv x"
  shows "\<exists>new. wq_queue q' = wq_queue q @ new"
  using assms by (cases e) (auto simp: wq_do_def Type_defs Let_def split: if_splits)

lemma wq_do_keeps_dirty:
  assumes "wq_do e q = Some q'" and "x \<in> wq_dirty q" and "e \<noteq> GetEv x"
  shows "x \<in> wq_dirty q'"
  using assms by (cases e) (auto simp: wq_do_GetEv, auto simp: wq_do_def Type_defs Let_def split: if_splits)

lemma gets_or_dirty:
  "wq_trace evs q = Some q' \<Longrightarrow> x \<in> wq_dirty q \<Longrightarrow> x \<in> set (gets evs) \<or> x \<in> wq_dirty q'"
proof (induction evs arbitrary: q)
  case (Cons e es)
  then obtain q1 where e: "wq_do e q = Some q1" and t: "wq_trace es q1 = Some q'"
    by (auto split: option.splits)
  show ?case
  proof (cases "e = GetEv x")
    case False
    then have "set (gets es) \<subseteq> set (gets (e # es))" by (cases e) auto
    with Cons.IH [OF t] wq_do_keeps_dirty [OF e Cons.prems(2) False] show ?thesis by blast
  qed simp
qed simp

text \<open>After a shutdown each event hands out at most one dirty item and marks none.\<close>

lemma wq_do_shutdown:
  assumes "wq_do e q = Some q'" and "wq_shuttingDown q" and "wq_inv q"
  shows "wq_shuttingDown q' \<and> mset (gets [e]) + mset_set (wq_dirty q') = mset_set (wq_dirty q)"
proof (cases e)
  case (GetEv x)
  with assms obtain rest where q: "wq_queue q = x # rest"
    "q' = q\<lparr>wq_queue := rest, wq_processing := insert x (wq_processing q), wq_dirty := wq_dirty q - {x}\<rparr>"
    by (auto simp: wq_do_GetEv)
  with assms(3) have "x \<in> wq_dirty q" "finite (wq_dirty q)" by (auto simp: wq_inv_def)
  then have "add_mset x (mset_set (wq_dirty q - {x})) = mset_set (wq_dirty q)"
    by (metis finite_Diff insert_Diff mset_set.insert Diff_iff singletonI)
  with GetEv q assms(2) show ?thesis by simp
qed (use assms in \<open>auto simp: wq_do_def Type_defs Let_def split: if_splits\<close>)

lemma wq_trace_shutdown:
  "wq_trace evs q = Some q' \<Longrightarrow> wq_shuttingDown q \<Longrightarrow> wq_inv q \<Longrightarrow>
     wq_shuttingDown q' \<and> mset (gets evs) + mset_set (wq_dirty q') = mset_set (wq_dirty q)"
proof (induction evs arbitrary: q)
  case (Cons e es)
  then obtain q1 where e: "wq_do e q = Some q1" and t: "wq_trace es q1 = Some q'"
    by (auto split: option.splits)
  have "gets (e # es) = gets [e] @ gets es" by (cases e) auto
  then have g: "mset (gets (e # es)) = mset (gets [e]) + mset (gets es)" by (simp only: mset_append)
  from wq_do_shutdown [OF e Cons.prems(2,3)]
  have 1: "wq_shuttingDown q1" "mset (gets [e]) + mset_set (wq_dirty q1) = mset_set (wq_dirty q)"
    by blast+
  from Cons.IH [OF t 1(1) wq_inv_do [OF Cons.prems(3) e]]
  have 2: "wq_shuttingDown q'" "mset (gets es) + mset_set (wq_dirty q') = mset_set (wq_dirty q1)"
    by blast+
  show ?case by (simp only: g union_assoc 1(2) 2)
qed simp

section \<open>Properties of the queue\<close>

text \<open>C26. However producers and workers interleave, an item a worker is given is one that was
  marked dirty and that no other worker is processing, and the queue holds each dirty item that
  is not being processed exactly once.\<close>

theorem workqueue_never_processed_twice_at_once:
  assumes "wq_reachable q"
  shows "distinct (wq_queue q) \<and> set (wq_queue q) = wq_dirty q - wq_processing q \<and>
         (Type_Get q = Some ((Some x, b), q') \<longrightarrow>
            x \<in> wq_dirty q \<and> x \<notin> wq_processing q \<and> wq_processing q' = insert x (wq_processing q) \<and>
            x \<notin> wq_dirty q' \<and> \<not> b)"
proof -
  from wq_reachable_inv [OF assms]
  have inv: "distinct (wq_queue q)" "set (wq_queue q) = wq_dirty q - wq_processing q"
    by (auto simp: wq_inv_def)
  have "x \<in> wq_dirty q \<and> x \<notin> wq_processing q \<and> wq_processing q' = insert x (wq_processing q) \<and>
        x \<notin> wq_dirty q' \<and> \<not> b" if get: "Type_Get q = Some ((Some x, b), q')"
  proof (cases "wq_queue q")
    case (Cons y ys)
    with inv(2) have "y \<in> wq_dirty q - wq_processing q" by (metis list.set_intros(1))
    with Cons get show ?thesis by (auto simp: Type_Get_def)
  qed (use get in \<open>simp add: Type_Get_def split: if_splits\<close>)
  with inv show ?thesis by blast
qed

text \<open>C11. No work is lost: if an item is added while the queue is not shutting down, then in every
  continuation that ends with an empty queue and nothing being processed, the item has been
  handed to a worker after the addition, also if it was being processed when it was added.\<close>

theorem workqueue_no_work_lost:
  assumes "wq_reachable q" and "\<not> wq_shuttingDown q"
    and "wq_trace evs (Type_Add x q) = Some q'" and "wq_queue q' = []" and "wq_processing q' = {}"
  shows "x \<in> set (gets evs)"
proof -
  have "x \<in> wq_dirty (Type_Add x q)" using assms(2) by (simp add: Type_Add_def Let_def)
  from gets_or_dirty [OF assms(3) this] have "x \<in> set (gets evs) \<or> x \<in> wq_dirty q'" .
  moreover have "wq_inv q'"
    using assms(3) wq_inv_Add [OF wq_reachable_inv [OF assms(1)]] by (rule wq_inv_trace [rotated])
  ultimately show ?thesis using assms(4,5) by (simp add: wq_inv_def)
qed

text \<open>Items are handed out in queue order whatever else happens: in every trace the first items
  returned are those that were queued at its start, in order, so a queued item waits for exactly
  the items in front of it.\<close>

theorem workqueue_fifo:
  "wq_trace evs q = Some q' \<Longrightarrow>
     take (length (wq_queue q)) (gets evs) = take (length (gets evs)) (wq_queue q)"
proof (induction evs arbitrary: q)
  case (Cons e es)
  then obtain q1 where e: "wq_do e q = Some q1" and t: "wq_trace es q1 = Some q'"
    by (auto split: option.splits)
  show ?case
  proof (cases "\<exists>x. e = GetEv x")
    case True
    with e Cons.IH [OF t] show ?thesis by (auto simp: wq_do_GetEv)
  next
    case False
    then have g: "gets (e # es) = gets es" by (cases e) auto
    from wq_do_appends [OF e] False obtain new where n: "wq_queue q1 = wq_queue q @ new" by blast
    have "take (length (wq_queue q)) (take (length (wq_queue q1)) (gets es)) =
          take (length (wq_queue q)) (take (length (gets es)) (wq_queue q1))"
      by (simp only: Cons.IH [OF t])
    then show ?thesis by (simp add: g n min.commute min_def split: if_splits)
  qed
qed simp

text \<open>After ShutDown the workers are handed each dirty item exactly once, additions are
  ignored, and when the queue is empty Get tells the worker to exit instead of blocking.\<close>

theorem workqueue_shutdown_drains:
  assumes "wq_reachable q" and "wq_trace evs (Type_ShutDown q) = Some q'"
  shows "mset (gets evs) + mset_set (wq_dirty q') = mset_set (wq_dirty q) \<and>
         (Type_Get q' = Some ((None, True), q') \<longleftrightarrow> wq_queue q' = []) \<and> Type_Get q' \<noteq> None"
proof -
  have "wq_shuttingDown q' \<and> mset (gets evs) + mset_set (wq_dirty q') = mset_set (wq_dirty (Type_ShutDown q))"
    using wq_trace_shutdown [OF assms(2) _ wq_inv_ShutDown [OF wq_reachable_inv [OF assms(1)]]]
    by (simp add: Type_ShutDown_def)
  then show ?thesis by (auto simp: Type_ShutDown_def Type_Get_def split: list.splits)
qed

section \<open>The delaying queue over any queue\<close>

text \<open>Binary search finds the place after the entries that are due no later.\<close>

lemma insert_waitFor_stable:
  assumes "sorted (map wf_readyAt es)"
  shows "insert_waitFor es e =
     takeWhile (\<lambda>x. wf_readyAt x \<le> wf_readyAt e) es @ e # dropWhile (\<lambda>x. wf_readyAt x \<le> wf_readyAt e) es"
proof -
  define k where "k = sort_Search (length es) (\<lambda>i. wf_readyAt e < wf_readyAt (es ! i))"
  have mono: "wf_readyAt (es ! a) \<le> wf_readyAt (es ! b)" if "a \<le> b" "b < length es" for a b
    using sorted_nth_mono [OF assms, of a b] that by simp
  have k: "k \<le> length es \<and> (\<forall>h < k. \<not> wf_readyAt e < wf_readyAt (es ! h)) \<and>
           (\<forall>h. k \<le> h \<and> h < length es \<longrightarrow> wf_readyAt e < wf_readyAt (es ! h))"
    unfolding k_def by (rule sort_Search_boundary) (use mono in fastforce)
  then have t: "takeWhile (\<lambda>x. wf_readyAt x \<le> wf_readyAt e) es = take k es"
    by (intro takeWhile_eq_take_P_nth) (auto simp: not_less not_le)
  with k have "dropWhile (\<lambda>x. wf_readyAt x \<le> wf_readyAt e) es = drop k es"
    by (simp add: dropWhile_eq_drop)
  with t show ?thesis by (simp add: insert_waitFor_def Let_def k_def [symmetric])
qed

lemma sorted_insert_waitFor:
  assumes "sorted (map wf_readyAt es)"
  shows "sorted (map wf_readyAt (insert_waitFor es e))"
proof -
  let ?P = "\<lambda>x. wf_readyAt x \<le> wf_readyAt e"
  have parts: "sorted (map wf_readyAt (takeWhile ?P es))" "sorted (map wf_readyAt (dropWhile ?P es))"
    "\<forall>x \<in> set (takeWhile ?P es). \<forall>y \<in> set (dropWhile ?P es). wf_readyAt x \<le> wf_readyAt y"
    using assms sorted_append [of "map wf_readyAt (takeWhile ?P es)" "map wf_readyAt (dropWhile ?P es)"]
    by (auto simp flip: map_append)
  have "\<forall>y \<in> set (dropWhile ?P es). wf_readyAt e \<le> wf_readyAt y"
  proof (cases "dropWhile ?P es")
    case (Cons y ys)
    then have "\<not> ?P y" by (metis hd_dropWhile list.sel(1) list.distinct(1))
    with parts(2) Cons show ?thesis by auto
  qed (simp only: list.set ball_empty)
  with parts show ?thesis
    by (auto simp: insert_waitFor_stable [OF assms] sorted_append dest: set_takeWhileD intro: order.trans)
qed

lemma set_insert_waitFor [simp]:
  "sorted (map wf_readyAt es) \<Longrightarrow> set (insert_waitFor es e) = insert e (set es)"
  by (simp add: insert_waitFor_stable)
     (metis set_append takeWhile_dropWhile_id)

text \<open>What the delaying queue needs of the queue it embeds.\<close>

locale workqueue_interface =
  fixes ops :: "('q, 'a) Interface_ops"
    and invar :: "'q \<Rightarrow> bool"
    and pending :: "'q \<Rightarrow> 'a set"
  assumes add_invar: "invar w \<Longrightarrow> invar (If_Add ops x w)"
    and add_pending: "invar w \<Longrightarrow> \<not> If_ShuttingDown ops w \<Longrightarrow> pending (If_Add ops x w) = insert x (pending w)"
    and add_down: "If_ShuttingDown ops (If_Add ops x w) = If_ShuttingDown ops w"
    and add_ignored: "If_ShuttingDown ops w \<Longrightarrow> If_Add ops x w = w"
begin

lemma add_ready_spec:
  "invar w \<Longrightarrow> \<not> If_ShuttingDown ops w \<Longrightarrow> sorted (map wf_readyAt es) \<Longrightarrow> add_ready ops now es w = (w', rest) \<Longrightarrow>
     invar w' \<and> \<not> If_ShuttingDown ops w' \<and> rest = filter (\<lambda>e. now < wf_readyAt e) es \<and>
     pending w' = pending w \<union> wf_data ` {e \<in> set es. wf_readyAt e \<le> now}"
proof (induction es arbitrary: w)
  case (Cons e es)
  show ?case
  proof (cases "now < wf_readyAt e")
    case True
    with Cons.prems have "\<forall>x \<in> set es. now < wf_readyAt x" by auto
    with True have "{x \<in> set (e # es). wf_readyAt x \<le> now} = {}"
      and "filter (\<lambda>x. now < wf_readyAt x) (e # es) = e # es"
      by (force, simp add: filter_id_conv)
    moreover have "w' = w" "rest = e # es" using True Cons.prems(4) by auto
    ultimately show ?thesis using Cons.prems(1,2) by (metis image_empty sup_bot.right_neutral)
  next
    case False
    with Cons.prems Cons.IH [of "If_Add ops (wf_data e) w"]
    show ?thesis by (auto simp: add_invar add_down add_pending)
  qed
qed simp

lemma receive_entries_fixed:
  "dq_stopCh (receive_entries ops clk es q) = dq_stopCh q \<and>
   dq_waitingForAddCh (receive_entries ops clk es q) = dq_waitingForAddCh q \<and>
   dq_loop (receive_entries ops clk es q) = dq_loop q"
  by (induction es arbitrary: clk q) (auto simp: receive_entry_def)

lemma receive_entries_down:
  "If_ShuttingDown ops (dq_Interface (receive_entries ops clk es q)) = If_ShuttingDown ops (dq_Interface q)"
  by (induction es arbitrary: clk q) (auto simp: receive_entry_def add_down)

lemma receive_entries_sorted:
  "sorted (map wf_readyAt (dq_waitingForAdd q)) \<Longrightarrow>
     sorted (map wf_readyAt (dq_waitingForAdd (receive_entries ops clk es q)))"
  by (induction es arbitrary: clk q) (auto simp: receive_entry_def sorted_insert_waitFor)

lemma receive_entries_spec:
  "invar (dq_Interface q) \<Longrightarrow> \<not> If_ShuttingDown ops (dq_Interface q) \<Longrightarrow>
   sorted (map wf_readyAt (dq_waitingForAdd q)) \<Longrightarrow>
     invar (dq_Interface (receive_entries ops clk es q)) \<and>
     set (dq_waitingForAdd (receive_entries ops clk es q)) =
       set (dq_waitingForAdd q) \<union> {x. \<exists>i < length es. x = es ! i \<and> clk i < wf_readyAt x} \<and>
     pending (dq_Interface (receive_entries ops clk es q)) =
       pending (dq_Interface q) \<union> wf_data ` {x. \<exists>i < length es. x = es ! i \<and> wf_readyAt x \<le> clk i}"
proof (induction es arbitrary: clk q)
  case (Cons e es)
  let ?q = "receive_entry ops (clk 0) e q"
  have prem: "invar (dq_Interface ?q)" "\<not> If_ShuttingDown ops (dq_Interface ?q)"
    "sorted (map wf_readyAt (dq_waitingForAdd ?q))"
    using Cons.prems by (auto simp: receive_entry_def add_invar add_down sorted_insert_waitFor)
  show ?case
    using Cons.IH [OF prem, of "\<lambda>i. clk (Suc i)"] Cons.prems
    by (auto simp: receive_entry_def add_pending Ex_less_Suc2)
qed simp

end

lemmas Type_ops_simps = Type_ops_def Interface_ops.simps

interpretation twq: workqueue_interface Type_ops wq_inv wq_dirty
  by unfold_locales
    (simp_all add: Type_ops_simps wq_inv_Add,
     simp_all add: Type_ShuttingDown_def Type_Add_def Let_def insert_absorb)

section \<open>Traces of the delaying queue\<close>

text \<open>Producers and workers use the embedded operations; the other events are those of delaying_queue.go.\<close>

datatype 'a dq_event =
    InnerEv "'a wq_event"
  | AddAfterEv int bool 'a int
  | DelayingShutDownEv
  | TopEv int
  | SelectEv wait_case "nat \<Rightarrow> int"

type_synonym 'a dq = "('a Type, 'a) delayingType"

definition dq_do :: "'a dq_event \<Rightarrow> 'a dq \<Rightarrow> 'a dq option" where
  "dq_do e q =
     (case e of
        InnerEv w \<Rightarrow>
          if w = ShutDownEv then None
          else map_option (\<lambda>i. q\<lparr>dq_Interface := i\<rparr>) (wq_do w (dq_Interface q))
      | AddAfterEv now pick item duration \<Rightarrow> delayingType_AddAfter Type_ops now pick item duration q
      | DelayingShutDownEv \<Rightarrow> delayingType_ShutDown Type_ops q
      | TopEv now \<Rightarrow> waitingLoop_top Type_ops now q
      | SelectEv c clk \<Rightarrow> waitingLoop_select Type_ops c clk q)"

fun dq_trace :: "'a dq_event list \<Rightarrow> 'a dq \<Rightarrow> 'a dq option" where
  "dq_trace [] q = Some q"
| "dq_trace (e # es) q = (case dq_do e q of None \<Rightarrow> None | Some q' \<Rightarrow> dq_trace es q')"

fun dq_gets :: "'a dq_event list \<Rightarrow> 'a list" where
  "dq_gets [] = []"
| "dq_gets (InnerEv (GetEv x) # es) = x # dq_gets es"
| "dq_gets (_ # es) = dq_gets es"

definition dq_reachable :: "'a dq \<Rightarrow> bool" where
  "dq_reachable q \<longleftrightarrow> (\<exists>evs. dq_trace evs (newDelayingQueue New) = Some q)"

definition dq_inv :: "'a dq \<Rightarrow> bool" where
  "dq_inv q \<longleftrightarrow> wq_inv (dq_Interface q) \<and> sorted (map wf_readyAt (dq_waitingForAdd q))"

lemma dq_shuttingDown [simp]: "If_ShuttingDown Type_ops w = wq_shuttingDown w"
  by (simp add: Type_ops_simps Type_ShuttingDown_def)

lemma top_effect:
  assumes "dq_inv q" and "\<not> wq_shuttingDown (dq_Interface q)" and "waitingLoop_top Type_ops now q = Some q'"
  shows "dq_inv q' \<and> dq_waitingForAddCh q' = dq_waitingForAddCh q \<and>
         dq_waitingForAdd q' = filter (\<lambda>e. now < wf_readyAt e) (dq_waitingForAdd q) \<and>
         wq_dirty (dq_Interface q') =
           wq_dirty (dq_Interface q) \<union> wf_data ` {e \<in> set (dq_waitingForAdd q). wf_readyAt e \<le> now}"
proof -
  obtain w rest where r: "add_ready Type_ops now (dq_waitingForAdd q) (dq_Interface q) = (w, rest)"
    by fastforce
  have "wq_inv (dq_Interface q)" "sorted (map wf_readyAt (dq_waitingForAdd q))"
    using assms(1) by (auto simp: dq_inv_def)
  from twq.add_ready_spec [OF this(1) _ this(2) r] assms(2)
  have "wq_inv w" "rest = filter (\<lambda>e. now < wf_readyAt e) (dq_waitingForAdd q)"
    "wq_dirty w = wq_dirty (dq_Interface q) \<union> wf_data ` {e \<in> set (dq_waitingForAdd q). wf_readyAt e \<le> now}"
    by auto
  moreover have "q' = q\<lparr>dq_Interface := w, dq_waitingForAdd := rest, dq_loop := AtSelect\<rparr>"
    using assms(2,3) r by (simp add: waitingLoop_top_def split: if_splits)
  ultimately show ?thesis using assms(1) by (simp add: dq_inv_def sorted_filter)
qed

lemma receive_effect:
  assumes "dq_inv q" and "\<not> wq_shuttingDown (dq_Interface q)"
    and "waitingLoop_select Type_ops Case_waitingForAddCh clk q = Some q'"
  shows "dq_waitingForAddCh q' = [] \<and>
         set (dq_waitingForAdd q') = set (dq_waitingForAdd q) \<union>
           {x. \<exists>i < length (dq_waitingForAddCh q). x = dq_waitingForAddCh q ! i \<and> clk i < wf_readyAt x} \<and>
         wq_dirty (dq_Interface q') = wq_dirty (dq_Interface q) \<union>
           wf_data ` {x. \<exists>i < length (dq_waitingForAddCh q). x = dq_waitingForAddCh q ! i \<and> wf_readyAt x \<le> clk i}"
proof -
  let ?q = "q\<lparr>dq_waitingForAddCh := [], dq_loop := AtTop\<rparr>"
  have "q' = receive_entries Type_ops clk (dq_waitingForAddCh q) ?q"
    using assms(3) by (simp add: waitingLoop_select_def split: if_splits)
  with twq.receive_entries_spec [of ?q clk "dq_waitingForAddCh q"]
    twq.receive_entries_fixed [of clk "dq_waitingForAddCh q" ?q] assms(1,2)
  show ?thesis by (simp add: dq_inv_def)
qed

lemma dq_inv_top_down:
  "wq_shuttingDown (dq_Interface q) \<Longrightarrow> dq_inv q \<Longrightarrow> waitingLoop_top Type_ops now q = Some q' \<Longrightarrow> dq_inv q'"
  by (auto simp: waitingLoop_top_def dq_inv_def split: if_splits)

lemma receive_entries_inv: "dq_inv q \<Longrightarrow> dq_inv (receive_entries Type_ops clk es q)"
proof (induction es arbitrary: clk q)
  case (Cons e es)
  have "dq_inv (receive_entry Type_ops (clk 0) e q)"
    using Cons.prems by (auto simp: dq_inv_def receive_entry_def sorted_insert_waitFor twq.add_invar)
  then show ?case by (simp add: Cons.IH)
qed simp

lemma dq_inv_select: "dq_inv q \<Longrightarrow> waitingLoop_select Type_ops c clk q = Some q' \<Longrightarrow> dq_inv q'"
  by (cases c)
    (auto simp: waitingLoop_select_def intro: receive_entries_inv split: if_splits, auto simp: dq_inv_def intro!: receive_entries_inv [unfolded dq_inv_def])

lemma dq_inv_do:
  assumes "dq_inv q" and "dq_do e q = Some q'"
  shows "dq_inv q'"
proof (cases e)
  case (InnerEv w)
  with assms show ?thesis by (auto simp: dq_do_def dq_inv_def intro: wq_inv_do split: if_splits)
next
  case (TopEv now)
  with assms show ?thesis
    using top_effect dq_inv_top_down by (cases "wq_shuttingDown (dq_Interface q)") (auto simp: dq_do_def)
next
  case (SelectEv c clk)
  with assms show ?thesis by (simp add: dq_do_def dq_inv_select)
qed (use assms in \<open>auto simp: dq_do_def dq_inv_def delayingType_AddAfter_def delayingType_ShutDown_def
       Type_ops_simps Let_def intro: inv_intros split: if_splits\<close>)

lemma dq_inv_trace: "dq_trace evs q = Some q' \<Longrightarrow> dq_inv q \<Longrightarrow> dq_inv q'"
  by (induction evs arbitrary: q) (auto intro: dq_inv_do split: option.splits)

lemma dq_inv_new: "dq_inv (newDelayingQueue New)"
  by (simp add: dq_inv_def newDelayingQueue_def wq_inv_New)

lemma dq_reachable_inv: "dq_reachable q \<Longrightarrow> dq_inv q"
  using dq_inv_trace [OF _ dq_inv_new] by (auto simp: dq_reachable_def)

text \<open>An item is owed if it is dirty or an entry for it is waiting.\<close>

definition owed :: "'a dq \<Rightarrow> 'a \<Rightarrow> bool" where
  "owed q x \<longleftrightarrow>
     x \<in> wq_dirty (dq_Interface q) \<or>
     x \<in> wf_data ` (set (dq_waitingForAdd q) \<union> set (dq_waitingForAddCh q))"

lemma owed_top:
  assumes "dq_inv q" and "\<not> wq_shuttingDown (dq_Interface q)" and "owed q x"
    and "waitingLoop_top Type_ops now q = Some q'"
  shows "owed q' x"
proof (cases "x \<in> wf_data ` set (dq_waitingForAdd q)")
  case True
  then obtain e where "e \<in> set (dq_waitingForAdd q)" "x = wf_data e" by blast
  with top_effect [OF assms(1,2,4)] show ?thesis
    by (cases "wf_readyAt e \<le> now") (auto simp: owed_def not_le)
next
  case False
  with top_effect [OF assms(1,2,4)] assms(3) show ?thesis by (auto simp: owed_def)
qed

lemma owed_receive:
  assumes "dq_inv q" and "\<not> wq_shuttingDown (dq_Interface q)" and "owed q x"
    and "waitingLoop_select Type_ops Case_waitingForAddCh clk q = Some q'"
  shows "owed q' x"
proof (cases "x \<in> wf_data ` set (dq_waitingForAddCh q)")
  case True
  then obtain i where "i < length (dq_waitingForAddCh q)" "x = wf_data (dq_waitingForAddCh q ! i)"
    by (auto simp: in_set_conv_nth)
  with receive_effect [OF assms(1,2,4)] show ?thesis
    by (cases "wf_readyAt (dq_waitingForAddCh q ! i) \<le> clk i") (auto simp: owed_def not_le)
next
  case False
  with receive_effect [OF assms(1,2,4)] assms(3) show ?thesis by (auto simp: owed_def)
qed

lemma wq_down_stays:
  assumes "wq_do e q = Some q'" and "wq_shuttingDown q"
  shows "wq_shuttingDown q'"
proof (cases e)
  case (GetEv x)
  with assms show ?thesis by (auto simp: wq_do_GetEv)
qed (use assms in \<open>auto simp: wq_do_def Type_defs Let_def split: if_splits\<close>)

lemma dq_down_stays:
  assumes "dq_do e q = Some q'" and "wq_shuttingDown (dq_Interface q)"
  shows "wq_shuttingDown (dq_Interface q')"
proof (cases e)
  case (InnerEv w)
  with assms(1) obtain i where i: "wq_do w (dq_Interface q) = Some i" "q' = q\<lparr>dq_Interface := i\<rparr>"
    by (auto simp: dq_do_def split: if_splits)
  show ?thesis using wq_down_stays [OF i(1) assms(2)] i(2) by simp
next
  case (SelectEv c clk)
  have r: "wq_shuttingDown (dq_Interface (receive_entries Type_ops clk es p)) = wq_shuttingDown (dq_Interface p)"
    for es p using twq.receive_entries_down [of clk es p] by simp
  show ?thesis
    using assms SelectEv by (cases c) (auto simp: dq_do_def waitingLoop_select_def r split: if_splits)
next
  case (AddAfterEv now pick item duration)
  with assms show ?thesis by (simp add: dq_do_def delayingType_AddAfter_def)
next
  case (TopEv now)
  with assms show ?thesis by (auto simp: dq_do_def waitingLoop_top_def split: if_splits)
next
  case DelayingShutDownEv
  with assms show ?thesis
    by (auto simp: dq_do_def delayingType_ShutDown_def Type_ops_simps Type_ShutDown_def Let_def split: if_splits)
qed

lemma owed_step:
  assumes "dq_inv q" and "\<not> wq_shuttingDown (dq_Interface q)" and "owed q x"
    and "dq_do e q = Some q'" and "e \<noteq> InnerEv (GetEv x)"
  shows "owed q' x"
proof (cases e)
  case (InnerEv w)
  with assms(4) obtain i where i: "wq_do w (dq_Interface q) = Some i" "q' = q\<lparr>dq_Interface := i\<rparr>"
    by (auto simp: dq_do_def split: if_splits)
  show ?thesis
    using wq_do_keeps_dirty [OF i(1), of x] InnerEv assms(3,5) i(2) by (auto simp: owed_def)
next
  case (TopEv now)
  with assms show ?thesis using owed_top by (auto simp: dq_do_def)
next
  case (SelectEv c clk)
  show ?thesis
  proof (cases "c = Case_waitingForAddCh")
    case True
    with SelectEv assms show ?thesis using owed_receive by (auto simp: dq_do_def)
  next
    case False
    with SelectEv assms(3,4) show ?thesis
      by (cases c) (auto simp: dq_do_def waitingLoop_select_def owed_def split: if_splits)
  qed
qed (use assms(3,4) in \<open>auto simp: dq_do_def delayingType_AddAfter_def delayingType_ShutDown_def owed_def
       Type_ops_simps Type_defs Let_def split: if_splits\<close>)

lemma dq_trace_down_stays:
  "dq_trace evs q = Some q' \<Longrightarrow> wq_shuttingDown (dq_Interface q) \<Longrightarrow> wq_shuttingDown (dq_Interface q')"
proof (induction evs arbitrary: q)
  case (Cons e es)
  then obtain q1 where "dq_do e q = Some q1" and "dq_trace es q1 = Some q'"
    by (auto split: option.splits)
  with Cons show ?case using dq_down_stays by blast
qed simp

lemma owed_trace:
  "dq_trace evs q = Some q' \<Longrightarrow> dq_inv q \<Longrightarrow> owed q x \<Longrightarrow> \<not> wq_shuttingDown (dq_Interface q') \<Longrightarrow>
     x \<in> set (dq_gets evs) \<or> owed q' x"
proof (induction evs arbitrary: q)
  case (Cons e es)
  then obtain q1 where e: "dq_do e q = Some q1" and t: "dq_trace es q1 = Some q'"
    by (auto split: option.splits)
  have up: "\<not> wq_shuttingDown (dq_Interface q)"
    using dq_trace_down_stays [OF Cons.prems(1)] Cons.prems(4) by blast
  show ?case
  proof (cases "e = InnerEv (GetEv x)")
    case False
    have "set (dq_gets es) \<subseteq> set (dq_gets (e # es))" by (cases "e # es" rule: dq_gets.cases) auto
    with Cons.IH [OF t dq_inv_do [OF Cons.prems(2) e] owed_step [OF Cons.prems(2) up Cons.prems(3) e False]
        Cons.prems(4)]
    show ?thesis by blast
  qed simp
qed simp

section \<open>Properties of the delaying queue\<close>

text \<open>The waiting loop adds entries exactly when they are due: before it waits it adds precisely
  the waiting entries with readyAt not after the clock and keeps the others, and from the channel
  it adds the entries that are due when received and keeps the others waiting, sorted by time.\<close>

theorem delaying_queue_adds_when_due:
  assumes "dq_reachable q" and "\<not> wq_shuttingDown (dq_Interface q)"
  shows "(waitingLoop_top Type_ops now q = Some q1 \<longrightarrow>
            dq_waitingForAdd q1 = filter (\<lambda>e. now < wf_readyAt e) (dq_waitingForAdd q) \<and>
            wq_dirty (dq_Interface q1) = wq_dirty (dq_Interface q) \<union>
              wf_data ` {e \<in> set (dq_waitingForAdd q). wf_readyAt e \<le> now}) \<and>
         (waitingLoop_select Type_ops Case_waitingForAddCh clk q = Some q2 \<longrightarrow>
            dq_waitingForAddCh q2 = [] \<and> sorted (map wf_readyAt (dq_waitingForAdd q2)) \<and>
            set (dq_waitingForAdd q2) = set (dq_waitingForAdd q) \<union>
              {x. \<exists>i < length (dq_waitingForAddCh q). x = dq_waitingForAddCh q ! i \<and> clk i < wf_readyAt x} \<and>
            wq_dirty (dq_Interface q2) = wq_dirty (dq_Interface q) \<union>
              wf_data ` {x. \<exists>i < length (dq_waitingForAddCh q). x = dq_waitingForAddCh q ! i \<and> wf_readyAt x \<le> clk i})"
proof -
  have inv: "dq_inv q" by (rule dq_reachable_inv [OF assms(1)])
  have "sorted (map wf_readyAt (dq_waitingForAdd q2))"
    if "waitingLoop_select Type_ops Case_waitingForAddCh clk q = Some q2"
    using dq_inv_select [OF inv that] by (simp add: dq_inv_def)
  with top_effect [OF inv assms(2), of now q1] receive_effect [OF inv assms(2), of clk q2]
  show ?thesis by simp
qed

text \<open>C32. No delayed work is lost: an item given to AddAfter has been handed to a worker in every
  continuation without shutdown that ends with nothing waiting, queued or being processed.\<close>

theorem delaying_queue_no_work_lost:
  assumes "dq_reachable q" and "delayingType_AddAfter Type_ops now pick item duration q = Some q1"
    and "dq_trace evs q1 = Some q2" and "\<not> wq_shuttingDown (dq_Interface q2)"
    and "dq_waitingForAdd q2 = []" and "dq_waitingForAddCh q2 = []"
    and "wq_queue (dq_Interface q2) = []" and "wq_processing (dq_Interface q2) = {}"
    and "\<not> dq_stopCh q"
  shows "item \<in> set (dq_gets evs)"
proof -
  have add: "dq_do (AddAfterEv now pick item duration) q = Some q1" using assms(2) by (simp add: dq_do_def)
  have inv: "dq_inv q1" by (rule dq_inv_do [OF dq_reachable_inv [OF assms(1)] add])
  have up1: "\<not> wq_shuttingDown (dq_Interface q1)"
    using dq_trace_down_stays [OF assms(3)] assms(4) by blast
  then have "\<not> wq_shuttingDown (dq_Interface q)" using dq_down_stays [OF add] by blast
  then have "owed q1 item"
    using assms(2,9)
    by (auto simp: delayingType_AddAfter_def owed_def Let_def Type_ops_simps Type_ShuttingDown_def
        Type_Add_def split: if_splits)
  from owed_trace [OF assms(3) inv this assms(4)] have "item \<in> set (dq_gets evs) \<or> owed q2 item" .
  moreover have "wq_dirty (dq_Interface q2) = {}"
    using dq_inv_trace [OF assms(3) inv] assms(7,8) by (simp add: dq_inv_def wq_inv_def)
  ultimately show ?thesis using assms(5,6) by (simp add: owed_def)
qed

section \<open>Parallelize\<close>

text \<open>
  parallelizer.go: the pieces still in the channel, the workers (identical goroutines, so a
  multiset) and the pieces processed so far, in order of completion. The steps are those of the
  goroutines: receive a piece, return from \<^verbatim>\<open>doWorkPiece\<close> (which does not panic), leave the loop
  when the closed channel is empty. \<^verbatim>\<open>wg.Wait\<close> returns when every worker has exited.
\<close>

datatype worker = Idle | Busy nat | Exited

type_synonym par_state = "nat list \<times> worker multiset \<times> nat list"

definition Parallelize :: "nat \<Rightarrow> nat \<Rightarrow> par_state" where
  "Parallelize workers pieces = ([0..<pieces], replicate_mset workers Idle, [])"

inductive par_step :: "par_state \<Rightarrow> par_state \<Rightarrow> bool" where
  par_receive: "par_step (p # ps, add_mset Idle ws, log) (ps, add_mset (Busy p) ws, log)"
| par_return: "par_step (ps, add_mset (Busy p) ws, log) (ps, add_mset Idle ws, log @ [p])"
| par_exit: "par_step ([], add_mset Idle ws, log) ([], add_mset Exited ws, log)"

definition wait_returns :: "par_state \<Rightarrow> bool" where
  "wait_returns s = (case s of (ps, ws, log) \<Rightarrow> \<forall>w \<in># ws. w = Exited)"

definition in_work :: "worker multiset \<Rightarrow> nat multiset" where
  "in_work ws = (\<Sum>w \<in># ws. case w of Busy p \<Rightarrow> {#p#} | _ \<Rightarrow> {#})"

definition par_measure :: "par_state \<Rightarrow> nat" where
  "par_measure s = (case s of (ps, ws, log) \<Rightarrow>
     3 * length ps + (\<Sum>w \<in># ws. case w of Idle \<Rightarrow> 1 | Busy _ \<Rightarrow> 2 | Exited \<Rightarrow> 0))"

lemma par_step_decreases: "par_step s s' \<Longrightarrow> par_measure s' < par_measure s"
  by (induction rule: par_step.induct) (simp_all add: par_measure_def)

lemma par_terminates: "wfP (\<lambda>s' s. par_step s s')"
  by (rule wfp_subset [OF wfp_if_convertible_to_nat [of "\<lambda>x y. par_measure x < par_measure y" par_measure]])
    (auto simp: par_step_decreases)

lemma par_conserves:
  assumes "par_step\<^sup>*\<^sup>* (Parallelize w n) (ps, ws, log)"
  shows "mset log + in_work ws + mset ps = mset [0..<n] \<and> size ws = w \<and>
         (Exited \<in># ws \<longrightarrow> ps = [])"
proof -
  have "case s of (ps, ws, log) \<Rightarrow> mset log + in_work ws + mset ps = mset [0..<n] \<and> size ws = w \<and>
          (Exited \<in># ws \<longrightarrow> ps = [])"
    if "par_step\<^sup>*\<^sup>* (Parallelize w n) s" for s
    using that
  proof induction
    case base
    have "in_work (replicate_mset w Idle) = {#}" by (induction w) (simp_all add: in_work_def)
    then show ?case by (simp add: Parallelize_def)
  next
    case (step s s')
    from step.hyps(2) step.IH show ?case
      by (induction rule: par_step.induct) (simp_all add: in_work_def ac_simps)
  qed
  from this [OF assms] show ?thesis by simp
qed

lemma par_progress:
  assumes "\<not> wait_returns (ps, ws, log)"
  shows "\<exists>s'. par_step (ps, ws, log) s'"
proof -
  from assms obtain w ws' where w: "w \<noteq> Exited" "ws = add_mset w ws'"
    by (auto simp: wait_returns_def dest: multi_member_split)
  show ?thesis
  proof (cases w)
    case Idle
    with w show ?thesis by (cases ps) (auto intro: par_receive par_exit)
  next
    case (Busy p)
    with w show ?thesis by (auto intro: par_return)
  qed (use w in simp)
qed

text \<open>C33. Parallelize with at least one worker processes every piece exactly once before it
  returns, whatever the schedule: every run ends, only in a state where Wait returns, and then
  the processed pieces are 0 to n-1, each once.\<close>

theorem parallelize_exactly_once:
  assumes "0 < w" and "par_step\<^sup>*\<^sup>* (Parallelize w n) (ps, ws, log)"
  shows "wfP (\<lambda>s' s. par_step s s') \<and>
         ((\<nexists>s'. par_step (ps, ws, log) s') \<longrightarrow> wait_returns (ps, ws, log)) \<and>
         (wait_returns (ps, ws, log) \<longrightarrow> mset log = mset [0..<n])"
proof -
  have "mset log = mset [0..<n]" if ret: "wait_returns (ps, ws, log)"
  proof -
    have none: "(\<forall>x \<in># us. x = Exited) \<Longrightarrow> in_work us = {#}" for us
      by (induction us) (auto simp: in_work_def)
    have all: "\<forall>x \<in># ws. x = Exited" using ret by (simp add: wait_returns_def)
    obtain x where "x \<in># ws"
      using assms(1) par_conserves [OF assms(2)] by (metis multiset_nonemptyE nonempty_has_size)
    with all have "Exited \<in># ws" by auto
    with par_conserves [OF assms(2)] have "ps = []" by blast
    with par_conserves [OF assms(2)] none [OF all] show ?thesis by simp
  qed
  with par_terminates par_progress show ?thesis by blast
qed

section \<open>Witnesses\<close>

text \<open>Item 1 is being processed and is added again, item 2 is queued.\<close>

definition wq_example :: "nat Type" where
  "wq_example = \<lparr>wq_queue = [2], wq_dirty = {1, 2}, wq_processing = {1}, wq_shuttingDown = False\<rparr>"

lemma wq_example_reachable: "wq_reachable wq_example"
  unfolding wq_reachable_def
  by (rule exI [of _ "[AddEv 1, AddEv 2, GetEv 1, AddEv 1]"])
    (auto simp: wq_do_def Type_defs New_def wq_example_def)

theorem workqueue_never_processed_twice_at_once_witness:
  "fst (the (Type_Get wq_example)) = (Some 2, False) \<and> 2 \<notin> wq_processing wq_example"
  using workqueue_never_processed_twice_at_once [OF wq_example_reachable, of 2 False "snd (the (Type_Get wq_example))"]
  by (simp add: Type_Get_def wq_example_def)

theorem workqueue_no_work_lost_witness:
  "1 \<in> set (gets [GetEv 2, DoneEv 1, DoneEv 2, GetEv 1, DoneEv (1::nat)])"
proof -
  define q where "q = (\<lparr>wq_queue = [2], wq_dirty = {2}, wq_processing = {1}, wq_shuttingDown = False\<rparr> :: nat Type)"
  have "wq_reachable q"
    unfolding wq_reachable_def
    by (rule exI [of _ "[AddEv 1, AddEv 2, GetEv 1]"]) (auto simp: wq_do_def Type_defs New_def q_def)
  moreover have "wq_trace [GetEv 2, DoneEv 1, DoneEv 2, GetEv 1, DoneEv 1] (Type_Add 1 q) =
      Some \<lparr>wq_queue = [], wq_dirty = {}, wq_processing = {}, wq_shuttingDown = False\<rparr>"
    by (auto simp: wq_do_def Type_defs q_def)
  ultimately show ?thesis
    using workqueue_no_work_lost [of q "[GetEv 2, DoneEv 1, DoneEv 2, GetEv 1, DoneEv 1]" 1]
    by (simp add: q_def)
qed

theorem workqueue_fifo_witness:
  "take 1 (gets [DoneEv 1, GetEv 2, GetEv (1::nat)]) = wq_queue wq_example"
proof -
  have "\<exists>q'. wq_trace [DoneEv 1, GetEv 2, GetEv 1] wq_example = Some q'"
    by (auto simp: wq_do_def Type_defs wq_example_def)
  then show ?thesis
    using workqueue_fifo [of "[DoneEv 1, GetEv 2, GetEv 1]" wq_example] by (auto simp: wq_example_def)
qed

theorem workqueue_shutdown_drains_witness:
  "mset (gets [AddEv 3, GetEv 2, DoneEv 1, GetEv (1::nat)]) = {#1, 2#}"
proof -
  let ?evs = "[AddEv 3, GetEv 2, DoneEv 1, GetEv (1::nat)]"
  have "wq_trace ?evs (Type_ShutDown wq_example) =
      Some \<lparr>wq_queue = [], wq_dirty = {}, wq_processing = {1, 2}, wq_shuttingDown = True\<rparr>"
    by (auto simp: wq_do_def Type_defs wq_example_def)
  from workqueue_shutdown_drains [OF wq_example_reachable this] show ?thesis
    by (simp add: wq_example_def)
qed

text \<open>An entry that waits until time 5.\<close>

definition dq_example :: "nat dq" where
  "dq_example = \<lparr>dq_Interface = New, dq_stopCh = False, dq_waitingForAdd = [waitFor 7 5],
                 dq_waitingForAddCh = [], dq_loop = AtTop\<rparr>"

lemmas dq_eval = dq_do_def delayingType_AddAfter_def waitingLoop_top_def waitingLoop_select_def
  newDelayingQueue_def receive_entry_def insert_waitFor_def sort_Search_def search_loop_done
  Type_ops_simps wq_do_def Type_defs New_def

lemma dq_example_reachable: "dq_reachable dq_example"
  unfolding dq_reachable_def
  by (rule exI [of _ "[TopEv 0, AddAfterEv 0 False 7 5, SelectEv Case_waitingForAddCh (\<lambda>_. 1)]"])
    (simp add: dq_eval dq_example_def)

theorem delaying_queue_adds_when_due_witness:
  "wq_dirty (dq_Interface (the (waitingLoop_top Type_ops 5 dq_example))) = {7}"
proof -
  have "waitingLoop_top Type_ops 5 dq_example = Some (the (waitingLoop_top Type_ops 5 dq_example))"
    by (simp add: dq_eval dq_example_def)
  with delaying_queue_adds_when_due [OF dq_example_reachable, of 5 "the (waitingLoop_top Type_ops 5 dq_example)"]
  show ?thesis by (simp add: dq_example_def New_def) (auto simp: image_iff)
qed

theorem delaying_queue_no_work_lost_witness:
  "9 \<in> set (dq_gets [TopEv 5, SelectEv Case_waitingForAddCh (\<lambda>_. 20), InnerEv (GetEv 7), InnerEv (GetEv (9::nat)),
                      InnerEv (DoneEv 7), InnerEv (DoneEv 9)])"
    (is "_ \<in> set (dq_gets ?evs)")
proof -
  let ?q1 = "dq_example\<lparr>dq_waitingForAddCh := [waitFor 9 11]\<rparr>"
  have 1: "delayingType_AddAfter Type_ops 1 False 9 10 dq_example = Some ?q1"
    by (simp add: dq_eval dq_example_def)
  have 2: "dq_trace ?evs ?q1 = Some (dq_example\<lparr>dq_waitingForAdd := [], dq_loop := AtTop\<rparr>)"
    by (auto simp: dq_eval dq_example_def)
  show ?thesis
    by (rule delaying_queue_no_work_lost [OF dq_example_reachable 1 2]) (simp_all add: dq_example_def New_def)
qed

theorem parallelize_exactly_once_witness:
  "par_step\<^sup>*\<^sup>* (Parallelize 1 2) ([], {#Exited#}, [0, 1]) \<and> mset [0, 1] = mset [0..<2]"
proof -
  have start: "Parallelize 1 2 = ([0, 1], {#Idle#}, [])" by (simp add: Parallelize_def upt_rec)
  have s1: "par_step ([0, 1], {#Idle#}, []) ([1], {#Busy 0#}, [])" by (rule par_receive)
  have s2: "par_step ([1], {#Busy 0#}, []) ([1], {#Idle#}, [0])"
    using par_return [of "[1]" 0 "{#}" "[]"] by simp
  have s3: "par_step ([1], {#Idle#}, [0]) ([], {#Busy 1#}, [0])" by (rule par_receive)
  have s4: "par_step ([], {#Busy 1#}, [0]) ([], {#Idle#}, [0, 1])"
    using par_return [of "[]" 1 "{#}" "[0]"] by simp
  have s5: "par_step ([], {#Idle#}, [0, 1]) ([], {#Exited#}, [0, 1])" by (rule par_exit)
  note path = converse_rtranclp_into_rtranclp [of par_step]
  have "par_step\<^sup>*\<^sup>* (Parallelize 1 2) ([], {#Exited#}, [0, 1])"
    unfolding start by (rule path [OF s1 path [OF s2 path [OF s3 path [OF s4 r_into_rtranclp [of par_step, OF s5]]]]])
  then show ?thesis
    using parallelize_exactly_once [of 1 2 "[]" "{#Exited#}" "[0, 1]"] by (simp add: wait_returns_def)
qed

end
