(* ===== verification/Rate_Limiters.thy ===== *)
theory Rate_Limiters
  imports Work_Queue "HOL-Library.Word"
begin

text \<open>
  Retry delays of the work queues: src/pkg/util/workqueue/default_rate_limiters.go and
  rate_limitting_queue.go. \<^verbatim>\<open>time.Duration\<close> is a signed 64-bit integer, so durations are 64-bit
  words read with \<^const>\<open>sint\<close>, and the multiplication of the exponential limiter wraps as it does
  in Go. The token bucket (github.com/juju/ratelimit) is a parameter \<open>take_bucket\<close>: the result of
  \<^verbatim>\<open>Take(1)\<close> and the bucket after it. Converting a float that does not fit into an integer has
  an implementation-specific result in Go, so it is a parameter \<open>oor\<close> of the exponent.
\<close>

type_synonym Duration = "64 word"

definition Millisecond :: Duration where "Millisecond = 1000000"
definition Second :: Duration where "Second = 1000000000"

section \<open>The limiters\<close>

record 'i ItemExponentialFailureRateLimiter =
  ie_failures :: "'i \<rightharpoonup> int"
  ie_baseDelay :: Duration
  ie_maxDelay :: Duration

record 'i ItemFastSlowRateLimiter =
  fs_failures :: "'i \<rightharpoonup> int"
  fs_maxFastAttempts :: int
  fs_fastDelay :: Duration
  fs_slowDelay :: Duration

text \<open>The implementations of the interface \<^verbatim>\<open>RateLimiter\<close>.\<close>

datatype ('i, 'b) RateLimiter =
    BucketRateLimiter 'b
  | ItemExponential "'i ItemExponentialFailureRateLimiter"
  | ItemFastSlow "'i ItemFastSlowRateLimiter"
  | MaxOfRateLimiter "('i, 'b) RateLimiter list"

definition NewItemExponentialFailureRateLimiter :: "Duration \<Rightarrow> Duration \<Rightarrow> ('i, 'b) RateLimiter" where
  "NewItemExponentialFailureRateLimiter baseDelay maxDelay =
     ItemExponential \<lparr>ie_failures = Map.empty, ie_baseDelay = baseDelay, ie_maxDelay = maxDelay\<rparr>"

definition DefaultItemBasedRateLimiter :: "('i, 'b) RateLimiter" where
  "DefaultItemBasedRateLimiter = NewItemExponentialFailureRateLimiter (1 * Millisecond) (1000 * Second)"

definition NewItemFastSlowRateLimiter :: "Duration \<Rightarrow> Duration \<Rightarrow> int \<Rightarrow> ('i, 'b) RateLimiter" where
  "NewItemFastSlowRateLimiter fastDelay slowDelay maxFastAttempts =
     ItemFastSlow \<lparr>fs_failures = Map.empty, fs_maxFastAttempts = maxFastAttempts,
                   fs_fastDelay = fastDelay, fs_slowDelay = slowDelay\<rparr>"

definition DefaultControllerRateLimiter :: "'b \<Rightarrow> ('i, 'b) RateLimiter" where
  "DefaultControllerRateLimiter bucket =
     MaxOfRateLimiter [DefaultItemBasedRateLimiter, BucketRateLimiter bucket]"

text \<open>\<^verbatim>\<open>time.Duration(math.Pow10(e))\<close>: exact up to 10 to the 18th, 0 for negative exponents.\<close>

definition duration_Pow10 :: "(int \<Rightarrow> Duration) \<Rightarrow> int \<Rightarrow> Duration" where
  "duration_Pow10 oor e = (if e < 0 then 0 else if e \<le> 18 then word_of_int (10 ^ nat e) else oor e)"

definition ItemExponential_When ::
  "(int \<Rightarrow> Duration) \<Rightarrow> 'i \<Rightarrow> 'i ItemExponentialFailureRateLimiter
     \<Rightarrow> Duration \<times> 'i ItemExponentialFailureRateLimiter" where
  "ItemExponential_When oor item r =
     (let r' = r\<lparr>ie_failures := (ie_failures r)(item \<mapsto> map_get 0 (ie_failures r) item + 1)\<rparr>;
          calculated = ie_baseDelay r' * duration_Pow10 oor (map_get 0 (ie_failures r') item - 1)
      in if ie_maxDelay r' <s calculated then (ie_maxDelay r', r') else (calculated, r'))"

definition ItemFastSlow_When ::
  "'i \<Rightarrow> 'i ItemFastSlowRateLimiter \<Rightarrow> Duration \<times> 'i ItemFastSlowRateLimiter" where
  "ItemFastSlow_When item r =
     (let r' = r\<lparr>fs_failures := (fs_failures r)(item \<mapsto> map_get 0 (fs_failures r) item + 1)\<rparr>
      in if map_get 0 (fs_failures r') item \<le> fs_maxFastAttempts r' then (fs_fastDelay r', r')
         else (fs_slowDelay r', r'))"

text \<open>\<open>MaxOf_When\<close> is the loop of \<^verbatim>\<open>MaxOfRateLimiter.When\<close>, with \<open>ret\<close> its accumulator.\<close>

fun RateLimiter_When ::
    "('b \<Rightarrow> Duration \<times> 'b) \<Rightarrow> (int \<Rightarrow> Duration) \<Rightarrow> 'i \<Rightarrow> ('i, 'b) RateLimiter
       \<Rightarrow> Duration \<times> ('i, 'b) RateLimiter"
  and MaxOf_When ::
    "('b \<Rightarrow> Duration \<times> 'b) \<Rightarrow> (int \<Rightarrow> Duration) \<Rightarrow> 'i \<Rightarrow> Duration \<Rightarrow> ('i, 'b) RateLimiter list
       \<Rightarrow> Duration \<times> ('i, 'b) RateLimiter list" where
  "RateLimiter_When take_bucket oor item (BucketRateLimiter b) =
     (let (d, b') = take_bucket b in (d, BucketRateLimiter b'))"
| "RateLimiter_When take_bucket oor item (ItemExponential r) =
     (let (d, r') = ItemExponential_When oor item r in (d, ItemExponential r'))"
| "RateLimiter_When take_bucket oor item (ItemFastSlow r) =
     (let (d, r') = ItemFastSlow_When item r in (d, ItemFastSlow r'))"
| "RateLimiter_When take_bucket oor item (MaxOfRateLimiter limiters) =
     (let (ret, limiters') = MaxOf_When take_bucket oor item 0 limiters
      in (ret, MaxOfRateLimiter limiters'))"
| "MaxOf_When take_bucket oor item ret [] = (ret, [])"
| "MaxOf_When take_bucket oor item ret (limiter # limiters) =
     (let (curr, limiter') = RateLimiter_When take_bucket oor item limiter;
          (ret', limiters') = MaxOf_When take_bucket oor item (if ret <s curr then curr else ret) limiters
      in (ret', limiter' # limiters'))"

fun RateLimiter_NumRequeues :: "'i \<Rightarrow> ('i, 'b) RateLimiter \<Rightarrow> int"
  and MaxOf_NumRequeues :: "'i \<Rightarrow> int \<Rightarrow> ('i, 'b) RateLimiter list \<Rightarrow> int" where
  "RateLimiter_NumRequeues item (BucketRateLimiter b) = 0"
| "RateLimiter_NumRequeues item (ItemExponential r) = map_get 0 (ie_failures r) item"
| "RateLimiter_NumRequeues item (ItemFastSlow r) = map_get 0 (fs_failures r) item"
| "RateLimiter_NumRequeues item (MaxOfRateLimiter limiters) = MaxOf_NumRequeues item 0 limiters"
| "MaxOf_NumRequeues item ret [] = ret"
| "MaxOf_NumRequeues item ret (limiter # limiters) =
     (let curr = RateLimiter_NumRequeues item limiter
      in MaxOf_NumRequeues item (if curr > ret then curr else ret) limiters)"

fun RateLimiter_Forget :: "'i \<Rightarrow> ('i, 'b) RateLimiter \<Rightarrow> ('i, 'b) RateLimiter" where
  "RateLimiter_Forget item (BucketRateLimiter b) = BucketRateLimiter b"
| "RateLimiter_Forget item (ItemExponential r) =
     ItemExponential (r\<lparr>ie_failures := map_delete item (ie_failures r)\<rparr>)"
| "RateLimiter_Forget item (ItemFastSlow r) =
     ItemFastSlow (r\<lparr>fs_failures := map_delete item (fs_failures r)\<rparr>)"
| "RateLimiter_Forget item (MaxOfRateLimiter limiters) =
     MaxOfRateLimiter (map (RateLimiter_Forget item) limiters)"

section \<open>The rate limiting queue\<close>

record ('q, 'i, 'b) rateLimitingType =
  rl_DelayingInterface :: "('q, 'i) delayingType"
  rl_rateLimiter :: "('i, 'b) RateLimiter"

definition NewRateLimitingQueue :: "'q \<Rightarrow> ('i, 'b) RateLimiter \<Rightarrow> ('q, 'i, 'b) rateLimitingType" where
  "NewRateLimitingQueue new rateLimiter =
     \<lparr>rl_DelayingInterface = newDelayingQueue new, rl_rateLimiter = rateLimiter\<rparr>"

definition AddRateLimited ::
  "('b \<Rightarrow> Duration \<times> 'b) \<Rightarrow> (int \<Rightarrow> Duration) \<Rightarrow> ('q, 'i) Interface_ops \<Rightarrow> int \<Rightarrow> bool \<Rightarrow> 'i
     \<Rightarrow> ('q, 'i, 'b) rateLimitingType \<Rightarrow> ('q, 'i, 'b) rateLimitingType option" where
  "AddRateLimited take_bucket oor ops now pick item q =
     (let (d, l) = RateLimiter_When take_bucket oor item (rl_rateLimiter q)
      in map_option (\<lambda>dq. q\<lparr>rl_DelayingInterface := dq, rl_rateLimiter := l\<rparr>)
           (delayingType_AddAfter ops now pick item (sint d) (rl_DelayingInterface q)))"

definition rateLimitingType_NumRequeues :: "'i \<Rightarrow> ('q, 'i, 'b) rateLimitingType \<Rightarrow> int" where
  "rateLimitingType_NumRequeues item q = RateLimiter_NumRequeues item (rl_rateLimiter q)"

definition rateLimitingType_Forget ::
  "'i \<Rightarrow> ('q, 'i, 'b) rateLimitingType \<Rightarrow> ('q, 'i, 'b) rateLimitingType" where
  "rateLimitingType_Forget item q = q\<lparr>rl_rateLimiter := RateLimiter_Forget item (rl_rateLimiter q)\<rparr>"

section \<open>Failure counts\<close>

fun counts_ok :: "('i, 'b) RateLimiter \<Rightarrow> bool" where
  "counts_ok (BucketRateLimiter b) = True"
| "counts_ok (ItemExponential r) = (\<forall>i. 0 \<le> map_get 0 (ie_failures r) i)"
| "counts_ok (ItemFastSlow r) = (\<forall>i. 0 \<le> map_get 0 (fs_failures r) i)"
| "counts_ok (MaxOfRateLimiter ls) = (\<forall>l \<in> set ls. counts_ok l)"

text \<open>Whether a limiter tracks failures at all: a token bucket does not.\<close>

fun counting :: "('i, 'b) RateLimiter \<Rightarrow> bool" where
  "counting (BucketRateLimiter b) = False"
| "counting (ItemExponential r) = True"
| "counting (ItemFastSlow r) = True"
| "counting (MaxOfRateLimiter ls) = (\<exists>l \<in> set ls. counting l)"

lemma MaxOf_NumRequeues_Max:
  "MaxOf_NumRequeues item ret ls = Max (insert ret (RateLimiter_NumRequeues item ` set ls))"
proof (induction ls arbitrary: ret)
  case (Cons l ls)
  let ?S = "RateLimiter_NumRequeues item ` set ls" and ?c = "RateLimiter_NumRequeues item l"
  have "Max (insert (max ret ?c) ?S) = Max (insert ret (insert ?c ?S))"
    by (cases "?S = {}") (auto simp: max.assoc)
  moreover have "(if ?c > ret then ?c else ret) = max ret ?c" by auto
  ultimately show ?case by (simp add: Cons.IH Let_def)
qed simp

lemma MaxOf_When_snd:
  "snd (MaxOf_When tb oor item ret ls) = map (\<lambda>l. snd (RateLimiter_When tb oor item l)) ls"
  by (induction ls arbitrary: ret) (auto simp: split_beta)

lemma MaxOf_When_fst:
  "sint (fst (MaxOf_When tb oor item ret ls)) =
     Max (insert (sint ret) ((\<lambda>l. sint (fst (RateLimiter_When tb oor item l))) ` set ls))"
proof (induction ls arbitrary: ret)
  case (Cons l ls)
  let ?S = "(\<lambda>l. sint (fst (RateLimiter_When tb oor item l))) ` set ls"
    and ?c = "fst (RateLimiter_When tb oor item l)"
  have "Max (insert (max (sint ret) (sint ?c)) ?S) = Max (insert (sint ret) (insert (sint ?c) ?S))"
    by (cases "?S = {}") (auto simp: max.assoc)
  moreover have "sint (if ret <s ?c then ?c else ret) = max (sint ret) (sint ?c)"
    by (auto simp: word_sless_alt max_def)
  ultimately show ?case by (simp add: Cons.IH split_beta)
qed simp

lemma RateLimiter_When_MaxOf_snd [simp]:
  "snd (RateLimiter_When tb oor item (MaxOfRateLimiter ls)) =
     MaxOfRateLimiter (map (\<lambda>l. snd (RateLimiter_When tb oor item l)) ls)"
  by (simp add: split_beta MaxOf_When_snd)

lemma NumRequeues_nonneg: "counts_ok l \<Longrightarrow> 0 \<le> RateLimiter_NumRequeues item l"
  by (induction l) (auto simp: MaxOf_NumRequeues_Max)

lemma NumRequeues_not_counting: "\<not> counting l \<Longrightarrow> RateLimiter_NumRequeues item l = 0"
proof (induction l)
  case (MaxOfRateLimiter ls)
  then have "RateLimiter_NumRequeues item ` set ls \<subseteq> {0}" by auto
  then show ?case by (auto simp: MaxOf_NumRequeues_Max subset_singleton_iff)
qed auto

lemma counts_ok_When: "counts_ok l \<Longrightarrow> counts_ok (snd (RateLimiter_When tb oor item l))"
  by (induction l)
    (auto simp: split_beta ItemExponential_When_def ItemFastSlow_When_def Let_def MaxOf_When_snd)

lemma counting_When [simp]: "counting (snd (RateLimiter_When tb oor item l)) = counting l"
  by (induction l) (auto simp: split_beta MaxOf_When_snd)

lemma Max_shift:
  fixes f g :: "'z \<Rightarrow> int"
  assumes "finite S" and "\<And>x. x \<in> S \<Longrightarrow> 0 \<le> f x" and "\<And>x. x \<in> S \<Longrightarrow> P x \<Longrightarrow> g x = f x + 1"
    and "\<And>x. x \<in> S \<Longrightarrow> \<not> P x \<Longrightarrow> f x = 0 \<and> g x = 0" and "z \<in> S" and "P z"
  shows "Max (insert 0 (g ` S)) = Max (insert 0 (f ` S)) + 1"
proof (rule Max_eqI)
  let ?M = "Max (insert 0 (f ` S))"
  have le: "f x \<le> ?M" if "x \<in> S" for x using assms(1) that by simp
  have M0: "0 \<le> ?M" using assms(1) by simp
  show "y \<le> ?M + 1" if "y \<in> insert 0 (g ` S)" for y
    using that assms(3,4) le M0 by fastforce
  have "?M \<in> insert 0 (f ` S)" using assms(1) by (intro Max_in) auto
  then consider x where "x \<in> S" "P x" "f x = ?M" | "?M = 0" using assms(4) by fastforce
  then show "?M + 1 \<in> insert 0 (g ` S)"
  proof cases
    case 1
    then have "g x = ?M + 1" by (simp add: assms(3))
    with 1(1) show ?thesis by (metis image_eqI insertCI)
  next
    case 2
    with le [OF assms(5)] assms(2) [OF assms(5)] have "f z = 0" by simp
    with 2 assms(3,5,6) show ?thesis by (metis add.left_neutral image_eqI insertCI)
  qed
qed (use assms(1) in simp)

lemma When_counts:
  "counts_ok l \<Longrightarrow> counting l \<Longrightarrow>
     RateLimiter_NumRequeues item (snd (RateLimiter_When tb oor item l)) = RateLimiter_NumRequeues item l + 1"
proof (induction l)
  case (MaxOfRateLimiter ls)
  then obtain l0 where "l0 \<in> set ls" "counting l0" by auto
  with MaxOfRateLimiter show ?case
    by (simp add: MaxOf_NumRequeues_Max image_image del: RateLimiter_When.simps Max_insert)
      (rule Max_shift [where P = counting and z = l0],
       auto simp: NumRequeues_nonneg NumRequeues_not_counting simp del: RateLimiter_When.simps)
qed (auto simp: split_beta ItemExponential_When_def ItemFastSlow_When_def Let_def)

lemma When_other_item:
  "i \<noteq> item \<Longrightarrow> RateLimiter_NumRequeues i (snd (RateLimiter_When tb oor item l)) = RateLimiter_NumRequeues i l"
proof (induction l)
  case (MaxOfRateLimiter ls)
  then have "(\<lambda>l. RateLimiter_NumRequeues i (snd (RateLimiter_When tb oor item l))) ` set ls =
      RateLimiter_NumRequeues i ` set ls"
    by (intro image_cong) auto
  then show ?case by (simp add: MaxOf_NumRequeues_Max image_image del: RateLimiter_When.simps)
qed (auto simp: split_beta ItemExponential_When_def ItemFastSlow_When_def Let_def)

lemma Forget_counts:
  "RateLimiter_NumRequeues i (RateLimiter_Forget item l) = (if i = item then 0 else RateLimiter_NumRequeues i l)"
proof (induction l)
  case (MaxOfRateLimiter ls)
  then have "RateLimiter_NumRequeues i ` RateLimiter_Forget item ` set ls =
      (if i = item then (\<lambda>_. 0) ` set ls else RateLimiter_NumRequeues i ` set ls)"
    by (auto simp: image_image)
  then show ?case by (auto simp: MaxOf_NumRequeues_Max image_constant_conv)
qed auto

section \<open>Delays\<close>

lemma Duration_mult:
  assumes "0 \<le> a" and "0 \<le> b" and "a * b < 2 ^ 63"
  shows "sint (word_of_int a * word_of_int b :: Duration) = a * b"
proof -
  have "word_of_int a * word_of_int b = (word_of_int (a * b) :: Duration)" by (rule wi_hom_mult)
  moreover have "- (2 ^ 63) \<le> a * b" using mult_nonneg_nonneg [OF assms(1,2)] by simp
  ultimately show ?thesis
    using assms(3) by (simp only: sint_sbintrunc') (simp add: signed_take_bit_int_eq_self)
qed

lemma default_after_failures:
  "((\<lambda>l. snd (RateLimiter_When tb oor item l)) ^^ Suc n) DefaultItemBasedRateLimiter =
     ItemExponential \<lparr>ie_failures = [item \<mapsto> int (Suc n)], ie_baseDelay = 1 * Millisecond,
                      ie_maxDelay = 1000 * Second\<rparr>"
proof (induction n)
  case 0
  show ?case
    by (simp add: DefaultItemBasedRateLimiter_def NewItemExponentialFailureRateLimiter_def
        ItemExponential_When_def Let_def split_beta fun_eq_iff)
next
  case (Suc n)
  show ?case
    by (subst funpow.simps(2), simp only: comp_apply Suc.IH)
      (simp add: ItemExponential_When_def Let_def split_beta fun_eq_iff)
qed

text \<open>Failures are tracked per item by every limiter, also a nested one: each When adds one to
  the item's count and leaves other items alone, Forget resets it, and the combined limiter
  answers the largest delay of its parts (at least 0).\<close>

theorem limiter_tracks_failures:
  assumes "counts_ok l" and "counting l"
  shows "RateLimiter_NumRequeues item (snd (RateLimiter_When tb oor item l)) = RateLimiter_NumRequeues item l + 1 \<and>
         (i \<noteq> item \<longrightarrow>
            RateLimiter_NumRequeues i (snd (RateLimiter_When tb oor item l)) = RateLimiter_NumRequeues i l \<and>
            RateLimiter_NumRequeues i (RateLimiter_Forget item l) = RateLimiter_NumRequeues i l) \<and>
         RateLimiter_NumRequeues item (RateLimiter_Forget item l) = 0 \<and>
         sint (fst (RateLimiter_When tb oor item (MaxOfRateLimiter ls))) =
           Max (insert 0 ((\<lambda>l. sint (fst (RateLimiter_When tb oor item l))) ` set ls))"
  by (simp add: When_counts [OF assms] When_other_item Forget_counts split_beta MaxOf_When_fst)

text \<open>While baseDelay * 10^n fits into a Duration, the delay of an item with n failures is
  baseDelay * 10^n, cut off at maxDelay.\<close>

theorem exponential_delay:
  assumes "map_get 0 (ie_failures r) item = int n" and "n \<le> 18"
    and "0 \<le> sint (ie_baseDelay r)" and "sint (ie_baseDelay r) * 10 ^ n < 2 ^ 63"
  shows "sint (fst (ItemExponential_When oor item r)) =
         min (sint (ie_baseDelay r) * 10 ^ n) (sint (ie_maxDelay r))"
proof -
  have "sint (ie_baseDelay r * word_of_int (10 ^ n)) = sint (ie_baseDelay r) * 10 ^ n"
    using Duration_mult [OF assms(3) _ assms(4)] by simp
  then show ?thesis
    using assms(1,2)
    by (auto simp: ItemExponential_When_def duration_Pow10_def Let_def word_sless_alt min_def)
qed

text \<open>C37. The multiplication is not checked for overflow: with the default limiter (1ms, at most
  1000s) the fourteenth consecutive failure of an item yields a negative duration, so
  AddRateLimited puts the item back into the queue at once, without any delay.\<close>

theorem exponential_delay_overflows:
  assumes "rl_rateLimiter q = ((\<lambda>l. snd (RateLimiter_When tb oor item l)) ^^ 13) DefaultItemBasedRateLimiter"
    and "\<not> If_ShuttingDown ops (dq_Interface (rl_DelayingInterface q))"
  shows "sint (fst (RateLimiter_When tb oor item (rl_rateLimiter q))) = - 8446744073709551616 \<and>
         map_option (dq_Interface \<circ> rl_DelayingInterface) (AddRateLimited tb oor ops now pick item q) =
           Some (If_Add ops item (dq_Interface (rl_DelayingInterface q)))"
proof -
  let ?r = "\<lparr>ie_failures = [item \<mapsto> 13], ie_baseDelay = 1 * Millisecond, ie_maxDelay = 1000 * Second\<rparr>"
  have r: "rl_rateLimiter q = ItemExponential ?r"
    using default_after_failures [where n = 12 and item = item and tb = tb and oor = oor] assms(1) by simp
  have m: "Millisecond * 10000000000000 = (10000000000000000000 :: Duration)"
    by (simp add: Millisecond_def)
  have s: "sint (10000000000000000000 :: Duration) = - 8446744073709551616" by simp
  have "\<not> 1000 * Second <s (10000000000000000000 :: Duration)" by (simp add: word_sless_alt Second_def)
  then have "fst (RateLimiter_When tb oor item (rl_rateLimiter q)) = 10000000000000000000"
    using m by (simp add: r ItemExponential_When_def duration_Pow10_def Let_def split_beta)
  with s assms(2) show ?thesis
    by (simp add: AddRateLimited_def split_beta delayingType_AddAfter_def)
qed

section \<open>Witnesses\<close>

theorem limiter_tracks_failures_witness:
  "RateLimiter_NumRequeues (1::nat)
     (snd (RateLimiter_When (\<lambda>b. (5, b)) (\<lambda>_. 0) 1 (DefaultControllerRateLimiter ()))) = 1"
proof -
  have "counts_ok (DefaultControllerRateLimiter () :: (nat, unit) RateLimiter)"
    "counting (DefaultControllerRateLimiter () :: (nat, unit) RateLimiter)"
    "RateLimiter_NumRequeues (1::nat) (DefaultControllerRateLimiter ()) = 0"
    by (simp_all add: DefaultControllerRateLimiter_def DefaultItemBasedRateLimiter_def
        NewItemExponentialFailureRateLimiter_def)
  with limiter_tracks_failures [of "DefaultControllerRateLimiter ()" "1::nat" "\<lambda>b. (5, b)" "\<lambda>_. 0" 1 "[]"]
  show ?thesis by simp
qed

theorem exponential_delay_witness:
  "sint (fst (ItemExponential_When (\<lambda>_. 0) (1::nat)
     \<lparr>ie_failures = [1 \<mapsto> 2], ie_baseDelay = Millisecond, ie_maxDelay = Second\<rparr>)) = 100000000"
  using exponential_delay [of "\<lparr>ie_failures = [1 \<mapsto> 2], ie_baseDelay = Millisecond, ie_maxDelay = Second\<rparr>"
      "1::nat" 2 "\<lambda>_. 0"]
  by (simp add: Millisecond_def Second_def)

theorem exponential_delay_overflows_witness:
  "map_option (dq_Interface \<circ> rl_DelayingInterface)
     (AddRateLimited (\<lambda>b. (0, b)) (\<lambda>_. 0) Type_ops 0 False (1::nat)
        (NewRateLimitingQueue (New :: nat Type)
           (((\<lambda>l. snd (RateLimiter_When (\<lambda>b::unit. (0, b)) (\<lambda>_. 0) 1 l)) ^^ 13) DefaultItemBasedRateLimiter))) =
   Some (Type_Add 1 New)"
proof -
  define q where "q = NewRateLimitingQueue (New :: nat Type)
     (((\<lambda>l. snd (RateLimiter_When (\<lambda>b::unit. (0, b)) (\<lambda>_. 0) (1::nat) l)) ^^ 13) DefaultItemBasedRateLimiter)"
  have 1: "rl_rateLimiter q =
      ((\<lambda>l. snd (RateLimiter_When (\<lambda>b::unit. (0, b)) (\<lambda>_. 0) 1 l)) ^^ 13) DefaultItemBasedRateLimiter"
    by (simp add: q_def NewRateLimitingQueue_def)
  have 2: "dq_Interface (rl_DelayingInterface q) = New"
    by (simp add: q_def NewRateLimitingQueue_def newDelayingQueue_def)
  have 3: "\<not> If_ShuttingDown Type_ops (New :: nat Type)" "If_Add Type_ops = (Type_Add :: nat \<Rightarrow> _)"
    by (simp_all add: New_def Type_ops_simps Type_ShuttingDown_def)
  show ?thesis
    unfolding q_def [symmetric]
    using exponential_delay_overflows [of q, OF 1, where ops = Type_ops and now = 0 and pick = False] 2 3
    by simp
qed

end
