(* ===== verification/Allocator_Bitmap.thy ===== *)
theory Allocator_Bitmap
  imports Go_Prelude "HOL-Library.Word"
begin

text \<open>
  The bitmap that records which cluster IPs and node ports are in use:
  src/pkg/registry/service/allocator (bitmap.go, utils.go, interfaces.go).

  A \<^verbatim>\<open>*big.Int\<close> is a natural number, \<^verbatim>\<open>Bit\<close> and \<^verbatim>\<open>SetBit\<close> the bit operations on it, \<^verbatim>\<open>Bytes\<close> and
  \<^verbatim>\<open>SetBytes\<close> its big-endian bytes. Offsets are naturals: \<^verbatim>\<open>big.Int\<close> panics on a negative index, and
  the allocators built on the bitmap check the sign before they call it. A random draw is a
  parameter \<open>rnd\<close>. The locale \<open>offset_allocator\<close> is the contract of \<^verbatim>\<open>allocator.Interface\<close> that the
  IP and port allocators use, in terms of the set of offsets taken; the bitmap is its instance.
\<close>

section \<open>Big integers\<close>

type_synonym byte = "8 word"

fun le_bytes :: "nat \<Rightarrow> byte list" where
  "le_bytes n = (if n = 0 then [] else word_of_nat (n mod 256) # le_bytes (n div 256))"

declare le_bytes.simps [simp del]

definition big_Bytes :: "nat \<Rightarrow> byte list" where
  "big_Bytes n = rev (le_bytes n)"

definition big_SetBytes :: "byte list \<Rightarrow> nat" where
  "big_SetBytes bs = foldl (\<lambda>a b. a * 256 + unat b) 0 bs"

section \<open>utils.go\<close>

text \<open>The table of set bits for each value of a byte.\<close>

definition bitCounts :: "nat list" where
  "bitCounts =
    [0, 1, 1, 2, 1, 2, 2, 3, 1, 2, 2, 3, 2, 3, 3, 4,
     1, 2, 2, 3, 2, 3, 3, 4, 2, 3, 3, 4, 3, 4, 4, 5,
     1, 2, 2, 3, 2, 3, 3, 4, 2, 3, 3, 4, 3, 4, 4, 5,
     2, 3, 3, 4, 3, 4, 4, 5, 3, 4, 4, 5, 4, 5, 5, 6,
     1, 2, 2, 3, 2, 3, 3, 4, 2, 3, 3, 4, 3, 4, 4, 5,
     2, 3, 3, 4, 3, 4, 4, 5, 3, 4, 4, 5, 4, 5, 5, 6,
     2, 3, 3, 4, 3, 4, 4, 5, 3, 4, 4, 5, 4, 5, 5, 6,
     3, 4, 4, 5, 4, 5, 5, 6, 4, 5, 5, 6, 5, 6, 6, 7,
     1, 2, 2, 3, 2, 3, 3, 4, 2, 3, 3, 4, 3, 4, 4, 5,
     2, 3, 3, 4, 3, 4, 4, 5, 3, 4, 4, 5, 4, 5, 5, 6,
     2, 3, 3, 4, 3, 4, 4, 5, 3, 4, 4, 5, 4, 5, 5, 6,
     3, 4, 4, 5, 4, 5, 5, 6, 4, 5, 5, 6, 5, 6, 6, 7,
     2, 3, 3, 4, 3, 4, 4, 5, 3, 4, 4, 5, 4, 5, 5, 6,
     3, 4, 4, 5, 4, 5, 5, 6, 4, 5, 5, 6, 5, 6, 6, 7,
     3, 4, 4, 5, 4, 5, 5, 6, 4, 5, 5, 6, 5, 6, 6, 7,
     4, 5, 5, 6, 5, 6, 6, 7, 5, 6, 6, 7, 6, 7, 7, 8]"

definition countBits :: "nat \<Rightarrow> int" where
  "countBits n = foldl (\<lambda>count b. count + int (bitCounts ! unat b)) 0 (big_Bytes n)"

section \<open>bitmap.go\<close>

datatype alloc_error =
    ErrFull
  | ErrNotInRange
  | ErrAllocated
  | ErrMismatchedNetwork
  | ErrProvidedRange

text \<open>The first argument of a strategy is the random number it may draw.\<close>

type_synonym allocateStrategy = "nat \<Rightarrow> nat \<Rightarrow> nat \<Rightarrow> int \<Rightarrow> nat \<times> bool"

record AllocationBitmap =
  ab_strategy :: allocateStrategy
  ab_max :: nat
  ab_rangeSpec :: string
  ab_count :: int
  ab_allocated :: nat

text \<open>\<^verbatim>\<open>rand.Intn(max)\<close> is \<open>rnd mod mx\<close>; it is reached only with a positive maximum.\<close>

definition randomScanStrategy :: allocateStrategy where
  "randomScanStrategy rnd allocated mx cnt =
     (if cnt \<ge> int mx then (0, False)
      else
        let offset = rnd mod mx
        in case List.find (\<lambda>i. \<not> bit allocated ((offset + i) mod mx)) [0..<mx] of
             None \<Rightarrow> (0, False)
           | Some i \<Rightarrow> ((offset + i) mod mx, True))"

definition contiguousScanStrategy :: allocateStrategy where
  "contiguousScanStrategy rnd allocated mx cnt =
     (if cnt \<ge> int mx then (0, False)
      else case List.find (\<lambda>i. \<not> bit allocated i) [0..<mx] of
             None \<Rightarrow> (0, False)
           | Some i \<Rightarrow> (i, True))"

definition NewAllocationMap :: "nat \<Rightarrow> string \<Rightarrow> AllocationBitmap" where
  "NewAllocationMap mx rangeSpec =
     \<lparr>ab_strategy = randomScanStrategy, ab_max = mx, ab_rangeSpec = rangeSpec, ab_count = 0,
      ab_allocated = 0\<rparr>"

definition NewContiguousAllocationMap :: "nat \<Rightarrow> string \<Rightarrow> AllocationBitmap" where
  "NewContiguousAllocationMap mx rangeSpec =
     \<lparr>ab_strategy = contiguousScanStrategy, ab_max = mx, ab_rangeSpec = rangeSpec, ab_count = 0,
      ab_allocated = 0\<rparr>"

definition AllocationBitmap_Allocate ::
  "nat \<Rightarrow> AllocationBitmap \<Rightarrow> (alloc_error, bool) result \<times> AllocationBitmap" where
  "AllocationBitmap_Allocate offset r =
     (if bit (ab_allocated r) offset then (Inr False, r)
      else (Inr True, r\<lparr>ab_allocated := set_bit offset (ab_allocated r), ab_count := ab_count r + 1\<rparr>))"

definition AllocationBitmap_AllocateNext ::
  "nat \<Rightarrow> AllocationBitmap \<Rightarrow> (alloc_error, nat \<times> bool) result \<times> AllocationBitmap" where
  "AllocationBitmap_AllocateNext rnd r =
     (let (next, ok) = ab_strategy r rnd (ab_allocated r) (ab_max r) (ab_count r)
      in if \<not> ok then (Inr (0, False), r)
         else (Inr (next, True),
               r\<lparr>ab_count := ab_count r + 1, ab_allocated := set_bit next (ab_allocated r)\<rparr>))"

definition AllocationBitmap_Release ::
  "nat \<Rightarrow> AllocationBitmap \<Rightarrow> alloc_error option \<times> AllocationBitmap" where
  "AllocationBitmap_Release offset r =
     (if \<not> bit (ab_allocated r) offset then (None, r)
      else (None, r\<lparr>ab_allocated := unset_bit offset (ab_allocated r), ab_count := ab_count r - 1\<rparr>))"

definition AllocationBitmap_Has :: "nat \<Rightarrow> AllocationBitmap \<Rightarrow> bool" where
  "AllocationBitmap_Has offset r = bit (ab_allocated r) offset"

definition AllocationBitmap_Free :: "AllocationBitmap \<Rightarrow> int" where
  "AllocationBitmap_Free r = int (ab_max r) - ab_count r"

definition AllocationBitmap_Snapshot :: "AllocationBitmap \<Rightarrow> string \<times> byte list" where
  "AllocationBitmap_Snapshot r = (ab_rangeSpec r, big_Bytes (ab_allocated r))"

definition AllocationBitmap_Restore ::
  "string \<Rightarrow> byte list \<Rightarrow> AllocationBitmap \<Rightarrow> alloc_error option \<times> AllocationBitmap" where
  "AllocationBitmap_Restore rangeSpec data r =
     (if ab_rangeSpec r \<noteq> rangeSpec then (Some ErrProvidedRange, r)
      else
        let allocated = big_SetBytes data
        in (None, r\<lparr>ab_allocated := allocated, ab_count := countBits allocated\<rparr>))"

section \<open>Bytes and bits\<close>

lemma SetBytes_rev: "big_SetBytes (rev bs) = foldr (\<lambda>b a. a * 256 + unat b) bs 0"
  by (simp add: big_SetBytes_def foldl_conv_foldr)

lemma SetBytes_Bytes [simp]: "big_SetBytes (big_Bytes n) = n"
proof -
  have "foldr (\<lambda>b a. a * 256 + unat b) (le_bytes n) 0 = n"
  proof (induction n rule: le_bytes.induct)
    case (1 n)
    show ?case
    proof (cases "n = 0")
      case False
      have "unat (word_of_nat (n mod 256) :: byte) = n mod 256"
        by (simp add: unat_of_nat take_bit_nat_eq_self_iff)
      with 1 [OF False] False show ?thesis by (subst le_bytes.simps) (simp add: mod_mult_div_eq mult.commute)
    qed (simp add: le_bytes.simps)
  qed
  then show ?thesis by (simp add: big_Bytes_def SetBytes_rev)
qed

lemma byte_less: "unat (b :: byte) < 256"
proof -
  have "unat b < 2 ^ LENGTH(8)" by (rule unsigned_less)
  then show ?thesis by simp
qed

lemma SetBytes_less: "big_SetBytes bs < 256 ^ length bs"
proof (induction bs rule: rev_induct)
  case (snoc b bs)
  have "unat b < 256" by (rule byte_less)
  moreover have "big_SetBytes bs * 256 + 256 \<le> 256 ^ length bs * 256" using snoc by simp
  ultimately show ?case by (simp add: big_SetBytes_def)
qed (simp add: big_SetBytes_def)

lemma SetBytes_snoc: "big_SetBytes (bs @ [b]) = big_SetBytes bs * 256 + unat b"
  by (simp add: big_SetBytes_def)

lemma SetBytes_inj: "length bs = length cs \<Longrightarrow> big_SetBytes bs = big_SetBytes cs \<Longrightarrow> bs = cs"
proof (induction bs arbitrary: cs rule: rev_induct)
  case (snoc b bs)
  then obtain c ds where cs: "cs = ds @ [c]" "length ds = length bs"
    by (cases cs rule: rev_cases) auto
  have lt: "unat b < 256" "unat c < 256" by (rule byte_less)+
  have "big_SetBytes bs * 256 + unat b = big_SetBytes ds * 256 + unat c"
    using snoc.prems(2) cs(1) by (simp add: SetBytes_snoc)
  then have "(big_SetBytes bs * 256 + unat b) mod 256 = (big_SetBytes ds * 256 + unat c) mod 256"
    "(big_SetBytes bs * 256 + unat b) div 256 = (big_SetBytes ds * 256 + unat c) div 256" by simp_all
  then have "unat b = unat c" "big_SetBytes bs = big_SetBytes ds" using lt by simp_all
  with snoc.IH [of ds] cs show ?case by (simp add: word_unat_eq_iff)
qed simp

lemma length_Bytes:
  assumes "256 ^ (l - 1) \<le> n" and "n < 256 ^ l" and "0 < l"
  shows "length (big_Bytes n) = l"
proof -
  have "0 < l \<Longrightarrow> 256 ^ (l - 1) \<le> n \<Longrightarrow> n < 256 ^ l \<Longrightarrow> length (le_bytes n) = l" for l
  proof (induction n arbitrary: l rule: le_bytes.induct)
    case (1 n)
    have "n \<noteq> 0" using "1.prems"(2) by (metis not_le zero_less_numeral zero_less_power)
    show ?case
    proof (cases "l = 1")
      case True
      with "1.prems" \<open>n \<noteq> 0\<close> show ?thesis by (simp add: le_bytes.simps [of n] le_bytes.simps [of 0])
    next
      case False
      with "1.prems"(1) obtain m where m: "l = Suc (Suc m)" by (cases l; cases "l - 1") auto
      have "256 ^ (Suc m - 1) \<le> n div 256" "n div 256 < 256 ^ Suc m"
        using "1.prems"(2,3) m by (simp_all add: less_eq_div_iff_mult_less_eq mult.commute div_less_iff_less_mult)
      with "1.IH" [OF \<open>n \<noteq> 0\<close>, of "Suc m"] \<open>n \<noteq> 0\<close> m show ?thesis by (simp add: le_bytes.simps [of n])
    qed
  qed
  with assms show ?thesis by (simp add: big_Bytes_def)
qed

definition bits :: "nat \<Rightarrow> nat set" where
  "bits n = {i. bit n i}"

lemma bit_bits: "bit n i \<longleftrightarrow> i \<in> bits n"
  by (simp add: bits_def)

lemma bit_nat_less: "bit (n :: nat) i \<Longrightarrow> i < n"
proof -
  assume "bit n i"
  then have "2 ^ i \<le> n" by (metis bit_iff_odd div_less dvd_0_right even_zero not_le)
  then show "i < n" by (meson less_exp order_less_le_trans)
qed

lemma finite_bits [simp]: "finite (bits n)"
  by (rule finite_subset [of _ "{..<n}"]) (auto simp: bits_def bit_nat_less)

lemma bits_zero [simp]: "bits 0 = {}"
  by (simp add: bits_def)

lemma bits_set_bit [simp]: "bits (set_bit i n) = insert i (bits n)"
  by (auto simp: bits_def bit_set_bit_iff)

lemma bits_unset_bit [simp]: "bits (unset_bit i n) = bits n - {i}"
  by (auto simp: bits_def bit_unset_bit_iff)

lemma card_bits_byte: "card (bits n) = card (bits (n mod 256)) + card (bits (n div 256))"
proof -
  have hi: "bit (n div 256) i = bit n (i + 8)" for i
    using bit_drop_bit_eq [of 8 n] by (simp add: drop_bit_eq_div add.commute fun_eq_iff)
  have lo: "bit (n mod 256) i = (i < 8 \<and> bit n i)" for i
    using bit_take_bit_iff [of 8 n i] by (simp add: take_bit_eq_mod)
  have "i \<in> bits n \<longleftrightarrow> i \<in> bits (n mod 256) \<union> (\<lambda>i. i + 8) ` bits (n div 256)" for i
  proof (cases "i < 8")
    case True
    then show ?thesis by (auto simp: bits_def lo)
  next
    case False
    then have "i = (i - 8) + 8" by simp
    then have "i \<in> (\<lambda>i. i + 8) ` bits (n div 256) \<longleftrightarrow> bit n i"
      by (auto simp: bits_def hi image_iff) metis
    with False show ?thesis by (simp add: bits_def lo)
  qed
  then have "bits n = bits (n mod 256) \<union> (\<lambda>i. i + 8) ` bits (n div 256)" by blast
  moreover have "bits (n mod 256) \<inter> (\<lambda>i. i + 8) ` bits (n div 256) = {}" by (auto simp: bits_def lo)
  moreover have "card ((\<lambda>i. i + 8) ` bits (n div 256)) = card (bits (n div 256))"
    by (intro card_image) (simp add: inj_on_def)
  ultimately show ?thesis by (simp add: card_Un_disjoint)
qed

text \<open>The table doubles from one power of two to the next.\<close>

fun bit_table :: "nat \<Rightarrow> nat list" where
  "bit_table 0 = [0]"
| "bit_table (Suc k) = bit_table k @ map Suc (bit_table k)"

lemma length_bit_table [simp]: "length (bit_table k) = 2 ^ k"
  by (induction k) auto

lemma bit_table_nth: "m < 2 ^ k \<Longrightarrow> bit_table k ! m = card (bits m)"
proof (induction k arbitrary: m)
  case (Suc k)
  show ?case
  proof (cases "m < 2 ^ k")
    case True
    then show ?thesis by (simp add: nth_append Suc.IH)
  next
    case False
    define l where "l = m - 2 ^ k"
    have l: "l < 2 ^ k" "m = l + 2 ^ k" using False Suc.prems by (auto simp: l_def)
    then have "k \<notin> bits l" by (auto simp: bits_def bit_iff_odd)
    moreover from this have "m = set_bit k l" by (simp add: set_bit_eq l(2) bits_def)
    ultimately have "card (bits m) = Suc (card (bits l))" by simp
    moreover have "bit_table (Suc k) ! m = Suc (bit_table k ! l)"
      using False l(1) by (simp add: nth_append l_def)
    ultimately show ?thesis by (simp only: Suc.IH [OF l(1)])
  qed
qed simp

lemma bitCounts_table: "bitCounts = bit_table 8"
  by (simp add: bitCounts_def numeral_nat)

lemma bitCounts_byte: "bitCounts ! unat (word_of_nat (n mod 256) :: byte) = card (bits (n mod 256))"
proof -
  have "unat (word_of_nat (n mod 256) :: byte) = n mod 256"
    by (simp add: unat_of_nat take_bit_nat_eq_self_iff)
  then show ?thesis by (simp add: bitCounts_table bit_table_nth)
qed

text \<open>The table lookup per byte counts the bits of the whole number.\<close>

lemma countBits_card: "countBits n = int (card (bits n))"
proof -
  have "foldr (\<lambda>b count. count + int (bitCounts ! unat b)) (le_bytes n) 0 = int (card (bits n))"
  proof (induction n rule: le_bytes.induct)
    case (1 n)
    show ?case
    proof (cases "n = 0")
      case False
      with 1 [OF False] show ?thesis
        by (subst le_bytes.simps) (simp add: bitCounts_byte card_bits_byte [of n])
    qed (simp add: le_bytes.simps)
  qed
  then show ?thesis by (simp add: countBits_def big_Bytes_def foldl_conv_foldr)
qed

section \<open>The contract of an allocator\<close>

record 's Alloc_ops =
  al_Allocate :: "nat \<Rightarrow> 's \<Rightarrow> (alloc_error, bool) result \<times> 's"
  al_AllocateNext :: "nat \<Rightarrow> 's \<Rightarrow> (alloc_error, nat \<times> bool) result \<times> 's"
  al_Release :: "nat \<Rightarrow> 's \<Rightarrow> alloc_error option \<times> 's"
  al_Has :: "nat \<Rightarrow> 's \<Rightarrow> bool"
  al_Free :: "'s \<Rightarrow> int"

locale offset_allocator =
  fixes ops :: "'s Alloc_ops"
    and invar :: "'s \<Rightarrow> bool"
    and taken :: "'s \<Rightarrow> nat set"
    and capacity :: "'s \<Rightarrow> nat"
  assumes taken_bounded: "invar s \<Longrightarrow> taken s \<subseteq> {..<capacity s}"
    and allocate_new: "invar s \<Longrightarrow> k < capacity s \<Longrightarrow> k \<notin> taken s \<Longrightarrow>
      \<exists>s'. al_Allocate ops k s = (Inr True, s') \<and> invar s' \<and> taken s' = insert k (taken s) \<and>
           capacity s' = capacity s"
    and allocate_taken: "invar s \<Longrightarrow> k \<in> taken s \<Longrightarrow> al_Allocate ops k s = (Inr False, s)"
    and next_free: "invar s \<Longrightarrow> \<not> {..<capacity s} \<subseteq> taken s \<Longrightarrow>
      \<exists>s' k. al_AllocateNext ops rnd s = (Inr (k, True), s') \<and> invar s' \<and> k < capacity s \<and> k \<notin> taken s \<and>
             taken s' = insert k (taken s) \<and> capacity s' = capacity s"
    and next_full: "invar s \<Longrightarrow> {..<capacity s} \<subseteq> taken s \<Longrightarrow> al_AllocateNext ops rnd s = (Inr (0, False), s)"
    and release: "invar s \<Longrightarrow>
      \<exists>s'. al_Release ops k s = (None, s') \<and> invar s' \<and> taken s' = taken s - {k} \<and> capacity s' = capacity s"
    and has: "invar s \<Longrightarrow> al_Has ops k s \<longleftrightarrow> k \<in> taken s"
    and free_count: "invar s \<Longrightarrow> al_Free ops s = int (capacity s) - int (card (taken s))"

text \<open>A strategy is sound if it finds a free offset of the range exactly when there is one.\<close>

definition sound_strategy :: "allocateStrategy \<Rightarrow> bool" where
  "sound_strategy st \<longleftrightarrow>
     (\<forall>rnd allocated mx. bits allocated \<subseteq> {..<mx} \<longrightarrow>
        (if bits allocated = {..<mx} then st rnd allocated mx (int (card (bits allocated))) = (0, False)
         else \<exists>k. st rnd allocated mx (int (card (bits allocated))) = (k, True) \<and> k < mx \<and> k \<notin> bits allocated))"

lemma card_bits_less:
  assumes "bits n \<subseteq> {..<mx}"
  shows "int (card (bits n)) < int mx \<longleftrightarrow> bits n \<noteq> {..<mx}"
proof -
  have "card (bits n) \<le> mx" using card_mono [OF finite_lessThan assms] by simp
  moreover have "card (bits n) = mx \<longleftrightarrow> bits n = {..<mx}"
    using card_subset_eq [OF finite_lessThan assms] by (metis card_lessThan)
  ultimately show ?thesis by linarith
qed

lemma find_upt:
  assumes "\<exists>i < n. P i"
  obtains i where "List.find P [0..<n] = Some i" and "i < n" and "P i"
  using assms that by (cases "List.find P [0..<n]") (auto simp: find_None_iff find_Some_iff)

lemma sound_randomScan: "sound_strategy randomScanStrategy"
  unfolding sound_strategy_def
proof (intro allI impI)
  fix rnd allocated mx :: nat
  assume sub: "bits allocated \<subseteq> {..<mx}"
  let ?free = "\<lambda>i. \<not> bit allocated ((rnd mod mx + i) mod mx)" and ?n = "int (card (bits allocated))"
  show "if bits allocated = {..<mx} then randomScanStrategy rnd allocated mx ?n = (0, False)
        else \<exists>k. randomScanStrategy rnd allocated mx ?n = (k, True) \<and> k < mx \<and> k \<notin> bits allocated"
  proof (cases "bits allocated = {..<mx}")
    case True
    then show ?thesis by (simp add: randomScanStrategy_def)
  next
    case False
    with sub obtain k where k: "k < mx" "\<not> bit allocated k" by (auto simp: bits_def)
    define i where "i = (k + mx - rnd mod mx) mod mx"
    have "rnd mod mx < mx" using k(1) by simp
    then have "rnd mod mx + (k + mx - rnd mod mx) = k + mx" by simp
    then have "(rnd mod mx + i) mod mx = k" using k(1) by (simp add: i_def mod_add_right_eq)
    then have "\<exists>i < mx. ?free i" using k by (intro exI [of _ i]) (auto simp: i_def)
    then obtain j where "List.find ?free [0..<mx] = Some j" "j < mx" "?free j" by (rule find_upt)
    moreover have "\<not> ?n \<ge> int mx" using card_bits_less [OF sub] False by simp
    ultimately show ?thesis using False k(1) by (simp add: randomScanStrategy_def Let_def bits_def)
  qed
qed

lemma sound_contiguousScan: "sound_strategy contiguousScanStrategy"
  unfolding sound_strategy_def
proof (intro allI impI)
  fix rnd allocated mx :: nat
  assume sub: "bits allocated \<subseteq> {..<mx}"
  let ?n = "int (card (bits allocated))"
  show "if bits allocated = {..<mx} then contiguousScanStrategy rnd allocated mx ?n = (0, False)
        else \<exists>k. contiguousScanStrategy rnd allocated mx ?n = (k, True) \<and> k < mx \<and> k \<notin> bits allocated"
  proof (cases "bits allocated = {..<mx}")
    case True
    then show ?thesis by (simp add: contiguousScanStrategy_def)
  next
    case False
    with sub have "\<exists>i < mx. \<not> bit allocated i" by (auto simp: bits_def)
    then obtain j where "List.find (\<lambda>i. \<not> bit allocated i) [0..<mx] = Some j" "j < mx" "\<not> bit allocated j"
      by (rule find_upt)
    moreover have "\<not> ?n \<ge> int mx" using card_bits_less [OF sub] False by simp
    ultimately show ?thesis using False by (simp add: contiguousScanStrategy_def bits_def)
  qed
qed

definition bitmap_inv :: "AllocationBitmap \<Rightarrow> bool" where
  "bitmap_inv r \<longleftrightarrow>
     sound_strategy (ab_strategy r) \<and> ab_count r = int (card (bits (ab_allocated r))) \<and>
     bits (ab_allocated r) \<subseteq> {..<ab_max r}"

definition bitmap_taken :: "AllocationBitmap \<Rightarrow> nat set" where
  "bitmap_taken r = bits (ab_allocated r)"

definition bitmap_ops :: "AllocationBitmap Alloc_ops" where
  "bitmap_ops = \<lparr>al_Allocate = AllocationBitmap_Allocate, al_AllocateNext = AllocationBitmap_AllocateNext,
                 al_Release = AllocationBitmap_Release, al_Has = AllocationBitmap_Has,
                 al_Free = AllocationBitmap_Free\<rparr>"

lemma bitmap_next:
  assumes "bitmap_inv r"
  shows "if bits (ab_allocated r) = {..<ab_max r}
         then AllocationBitmap_AllocateNext rnd r = (Inr (0, False), r)
         else \<exists>k. AllocationBitmap_AllocateNext rnd r =
                (Inr (k, True), r\<lparr>ab_count := ab_count r + 1, ab_allocated := set_bit k (ab_allocated r)\<rparr>) \<and>
              k < ab_max r \<and> k \<notin> bits (ab_allocated r)"
proof -
  have "if bits (ab_allocated r) = {..<ab_max r}
        then ab_strategy r rnd (ab_allocated r) (ab_max r) (ab_count r) = (0, False)
        else \<exists>k. ab_strategy r rnd (ab_allocated r) (ab_max r) (ab_count r) = (k, True) \<and>
               k < ab_max r \<and> k \<notin> bits (ab_allocated r)"
    using assms unfolding bitmap_inv_def sound_strategy_def by metis
  then show ?thesis
    by (auto simp: AllocationBitmap_AllocateNext_def split: if_splits)
qed

lemma bitmap_inv_set:
  "bitmap_inv r \<Longrightarrow> k < ab_max r \<Longrightarrow> k \<notin> bits (ab_allocated r) \<Longrightarrow>
     bitmap_inv (r\<lparr>ab_allocated := set_bit k (ab_allocated r), ab_count := ab_count r + 1\<rparr>)"
  by (simp add: bitmap_inv_def)

lemma bitmap_inv_unset:
  "bitmap_inv r \<Longrightarrow> k \<in> bits (ab_allocated r) \<Longrightarrow>
     bitmap_inv (r\<lparr>ab_allocated := unset_bit k (ab_allocated r), ab_count := ab_count r - 1\<rparr>)"
  using card_Suc_Diff1 [of "bits (ab_allocated r)" k] by (auto simp: bitmap_inv_def)

lemmas bitmap_op_defs = bitmap_ops_def bitmap_taken_def AllocationBitmap_Allocate_def
  AllocationBitmap_Release_def AllocationBitmap_Has_def AllocationBitmap_Free_def

interpretation bma: offset_allocator bitmap_ops bitmap_inv bitmap_taken ab_max
proof (unfold_locales, goal_cases)
  case (2 s k)
  then show ?case by (simp add: bitmap_op_defs bit_bits bitmap_inv_set)
next
  case (4 s rnd)
  then have "bits (ab_allocated s) \<noteq> {..<ab_max s}" by (auto simp: bitmap_taken_def)
  with bitmap_next [OF 4(1), of rnd] obtain k where
    "AllocationBitmap_AllocateNext rnd s =
       (Inr (k, True), s\<lparr>ab_count := ab_count s + 1, ab_allocated := set_bit k (ab_allocated s)\<rparr>)"
    "k < ab_max s" "k \<notin> bits (ab_allocated s)" by auto
  with 4(1) show ?case by (simp add: bitmap_ops_def bitmap_taken_def bitmap_inv_def)
next
  case (5 s rnd)
  then have "bits (ab_allocated s) = {..<ab_max s}" by (auto simp: bitmap_taken_def bitmap_inv_def)
  with bitmap_next [OF 5(1), of rnd] show ?case by (simp add: bitmap_ops_def)
next
  case (6 s k)
  then show ?case
    using bitmap_inv_unset [OF 6, of k]
    by (cases "k \<in> bits (ab_allocated s)") (simp_all add: bitmap_op_defs bit_bits)
qed (simp_all add: bitmap_op_defs bit_bits, simp_all add: bitmap_inv_def)

lemma bitmap_inv_new: "bitmap_inv (NewAllocationMap mx spec)" "bitmap_inv (NewContiguousAllocationMap mx spec)"
  by (simp_all add: bitmap_inv_def NewAllocationMap_def NewContiguousAllocationMap_def sound_randomScan
      sound_contiguousScan)

section \<open>Properties of the bitmap\<close>

text \<open>The bitmap implements a set of offsets below its size, with every strategy of the package
  and every random draw: Allocate succeeds exactly on free offsets, AllocateNext returns a free
  offset as long as there is one, Release frees, and Free is the number of free offsets.\<close>

theorem bitmap_implements_set:
  assumes "bitmap_inv r" and "k < ab_max r"
  shows "fst (AllocationBitmap_Allocate k r) = Inr (k \<notin> bitmap_taken r) \<and>
         bitmap_taken (snd (AllocationBitmap_Allocate k r)) = insert k (bitmap_taken r) \<and>
         bitmap_taken (snd (AllocationBitmap_Release k r)) = bitmap_taken r - {k} \<and>
         AllocationBitmap_Free r = int (card ({..<ab_max r} - bitmap_taken r)) \<and>
         (case AllocationBitmap_AllocateNext rnd r of
            (Inr (j, True), r') \<Rightarrow> j \<in> {..<ab_max r} - bitmap_taken r \<and> bitmap_taken r' = insert j (bitmap_taken r)
          | (Inr (j, False), r') \<Rightarrow> {..<ab_max r} \<subseteq> bitmap_taken r \<and> r' = r
          | _ \<Rightarrow> False)"
proof -
  have sub: "bits (ab_allocated r) \<subseteq> {..<ab_max r}" using assms(1) by (simp add: bitmap_inv_def)
  have "AllocationBitmap_Free r = int (card ({..<ab_max r} - bitmap_taken r))"
    using card_mono [OF finite_lessThan sub] assms(1)
    by (simp add: AllocationBitmap_Free_def bitmap_taken_def bitmap_inv_def card_Diff_subset [OF _ sub] of_nat_diff)
  moreover have "case AllocationBitmap_AllocateNext rnd r of
            (Inr (j, True), r') \<Rightarrow> j \<in> {..<ab_max r} - bitmap_taken r \<and> bitmap_taken r' = insert j (bitmap_taken r)
          | (Inr (j, False), r') \<Rightarrow> {..<ab_max r} \<subseteq> bitmap_taken r \<and> r' = r
          | _ \<Rightarrow> False"
    using bitmap_next [OF assms(1), of rnd]
    by (cases "bits (ab_allocated r) = {..<ab_max r}") (auto simp: bitmap_taken_def)
  ultimately show ?thesis
    by (auto simp: AllocationBitmap_Allocate_def AllocationBitmap_Release_def bitmap_taken_def bit_bits)
qed

text \<open>A snapshot restores exactly: Restore of a snapshot into a bitmap with the same range
  specification succeeds with the same offsets taken and the count recomputed to their number,
  and a snapshot of another range is refused without a change.\<close>

theorem bitmap_snapshot_roundtrip:
  shows "case AllocationBitmap_Restore (fst (AllocationBitmap_Snapshot r)) (snd (AllocationBitmap_Snapshot r)) r0 of
           (None, r1) \<Rightarrow> ab_rangeSpec r0 = ab_rangeSpec r \<and> bitmap_taken r1 = bitmap_taken r \<and>
                        ab_count r1 = int (card (bitmap_taken r))
         | (Some e, r1) \<Rightarrow> ab_rangeSpec r0 \<noteq> ab_rangeSpec r \<and> e = ErrProvidedRange \<and> r1 = r0"
  by (simp add: AllocationBitmap_Restore_def AllocationBitmap_Snapshot_def bitmap_taken_def countBits_card Let_def)

theorem bitmap_implements_set_witness:
  "fst (AllocationBitmap_Allocate 2 (snd (AllocationBitmap_Allocate 1 (NewAllocationMap 4 ''r'')))) = Inr True \<and>
   AllocationBitmap_Free (snd (AllocationBitmap_Allocate 1 (NewAllocationMap 4 ''r''))) = 3"
proof -
  define r where "r = snd (AllocationBitmap_Allocate 1 (NewAllocationMap 4 ''r''))"
  have r: "bitmap_taken r = {1}" "ab_max r = 4" "bitmap_inv r"
    using bma.allocate_new [OF bitmap_inv_new(1) [of 4 "''r''"], of 1]
    by (auto simp: r_def bitmap_op_defs NewAllocationMap_def split: if_splits)
  have "card ({..<4} - {1::nat}) = 3" by simp
  with bitmap_implements_set [OF r(3), of 2] show ?thesis unfolding r_def [symmetric] by (simp add: r(1,2))
qed

end
