(* ===== verification/Go_Strconv.thy ===== *)
theory Go_Strconv
  imports Go_Prelude
begin

text \<open>
  Decimal integers as the Go standard library prints and parses them (\<^verbatim>\<open>fmt\<close>'s \<^verbatim>\<open>%d\<close>,
  \<^verbatim>\<open>strconv.Atoi\<close>), \<^verbatim>\<open>strings.TrimSpace\<close> on ASCII text, and src/pkg/util/net/port_range.go, which
  reads and prints ranges of ports with them.
\<close>

section \<open>Decimal notation\<close>

definition digit_char :: "nat \<Rightarrow> char" where
  "digit_char n = char_of (48 + n)"

definition is_digit :: "char \<Rightarrow> bool" where
  "is_digit c \<longleftrightarrow> 48 \<le> (of_char c :: nat) \<and> (of_char c :: nat) \<le> 57"

definition digit_val :: "char \<Rightarrow> nat" where
  "digit_val c = of_char c - 48"

fun show_nat :: "nat \<Rightarrow> string" where
  "show_nat n = (if n < 10 then [digit_char n] else show_nat (n div 10) @ [digit_char (n mod 10)])"

declare show_nat.simps [simp del]

definition read_nat :: "string \<Rightarrow> nat" where
  "read_nat s = foldl (\<lambda>a c. a * 10 + digit_val c) 0 s"

definition fmt_d :: "int \<Rightarrow> string" where
  "fmt_d i = (if i < 0 then CHR ''-'' # show_nat (nat (- i)) else show_nat (nat i))"

text \<open>\<^verbatim>\<open>strconv.Atoi\<close> on a 64-bit platform; a syntax or range error is \<^term>\<open>None\<close>.\<close>

definition Atoi :: "string \<Rightarrow> int option" where
  "Atoi s =
     (let neg = (s \<noteq> [] \<and> hd s = CHR ''-'');
          ds = (if s \<noteq> [] \<and> (hd s = CHR ''-'' \<or> hd s = CHR ''+'') then tl s else s)
      in if ds = [] \<or> \<not> list_all is_digit ds then None
         else
           let n = int (read_nat ds)
           in if \<not> neg \<and> n \<ge> 2 ^ 63 then None
              else if neg \<and> n > 2 ^ 63 then None
              else Some (if neg then - n else n))"

definition is_space :: "char \<Rightarrow> bool" where
  "is_space c \<longleftrightarrow> (of_char c :: nat) \<in> {9, 10, 11, 12, 13, 32}"

definition TrimSpace :: "string \<Rightarrow> string" where
  "TrimSpace s = rev (dropWhile is_space (rev (dropWhile is_space s)))"

lemma is_digit_digit_char [simp]: "n < 10 \<Longrightarrow> is_digit (digit_char n)"
  by (simp add: is_digit_def digit_char_def of_char_of)

lemma digit_val_digit_char [simp]: "n < 10 \<Longrightarrow> digit_val (digit_char n) = n"
  by (simp add: digit_val_def digit_char_def of_char_of)

lemma is_digit_not_space: "is_digit c \<Longrightarrow> \<not> is_space c"
  by (auto simp: is_digit_def is_space_def)

lemma is_digit_not_sign: "is_digit c \<Longrightarrow> c \<noteq> CHR ''-'' \<and> c \<noteq> CHR ''+''"
  by (auto simp: is_digit_def)

lemma read_nat_snoc [simp]: "read_nat (s @ [c]) = read_nat s * 10 + digit_val c"
  by (simp add: read_nat_def)

lemma show_nat_digits: "list_all is_digit (show_nat n)"
proof (induction n rule: show_nat.induct)
  case (1 n)
  then show ?case by (cases "n < 10") (simp_all add: show_nat.simps [of n])
qed

lemma show_nat_nonempty [simp]: "show_nat n \<noteq> []"
  by (subst show_nat.simps) simp

lemma read_show_nat [simp]: "read_nat (show_nat n) = n"
proof (induction n rule: show_nat.induct)
  case (1 n)
  show ?case
  proof (cases "n < 10")
    case True
    then show ?thesis by (simp add: show_nat.simps [of n] read_nat_def)
  next
    case False
    with 1 show ?thesis by (simp add: show_nat.simps [of n])
  qed
qed

lemma hd_show_nat: "hd (show_nat n) \<noteq> CHR ''-'' \<and> hd (show_nat n) \<noteq> CHR ''+''"
  using show_nat_digits [of n] is_digit_not_sign by (cases "show_nat n") auto

lemma Atoi_fmt_d:
  assumes "- (2 ^ 63) \<le> i" and "i < 2 ^ 63"
  shows "Atoi (fmt_d i) = Some i"
  using assms hd_show_nat [of "nat i"] show_nat_digits
  by (cases "i < 0") (simp_all add: Atoi_def fmt_d_def Let_def)

lemma fmt_d_no_space: "c \<in> set (fmt_d i) \<Longrightarrow> \<not> is_space c"
  using show_nat_digits [of "nat i"] show_nat_digits [of "nat (- i)"] is_digit_not_space
  by (auto simp: fmt_d_def list_all_iff split: if_splits) (auto simp: is_space_def)

lemma TrimSpace_id: "(\<And>c. c \<in> set s \<Longrightarrow> \<not> is_space c) \<Longrightarrow> TrimSpace s = s"
proof -
  assume s: "\<And>c. c \<in> set s \<Longrightarrow> \<not> is_space c"
  then have "dropWhile is_space s = s" by (metis dropWhile_eq_self_iff hd_in_set)
  moreover have "dropWhile is_space (rev s) = rev s"
    using s by (metis dropWhile_eq_self_iff hd_in_set set_rev)
  ultimately show ?thesis by (simp add: TrimSpace_def)
qed

section \<open>Port ranges\<close>

record PortRange =
  pr_Base :: int
  pr_Size :: int

definition PortRange_Contains :: "int \<Rightarrow> PortRange \<Rightarrow> bool" where
  "PortRange_Contains p pr \<longleftrightarrow> p \<ge> pr_Base pr \<and> p - pr_Base pr < pr_Size pr"

definition PortRange_String :: "PortRange \<Rightarrow> string" where
  "PortRange_String pr =
     (if pr_Size pr = 0 then ''''
      else fmt_d (pr_Base pr) @ ''-'' @ fmt_d (pr_Base pr + pr_Size pr - 1))"

datatype port_range_error = ExpectedHyphen | UnableToParse | EndBeforeStart

definition PortRange_Set :: "string \<Rightarrow> (port_range_error, PortRange) result" where
  "PortRange_Set v =
     (let value = TrimSpace v
      in if value = '''' then Inr \<lparr>pr_Base = 0, pr_Size = 0\<rparr>
         else if CHR ''-'' \<notin> set value then Inl ExpectedHyphen
         else
           let low = takeWhile (\<lambda>c. c \<noteq> CHR ''-'') value;
               high = tl (dropWhile (\<lambda>c. c \<noteq> CHR ''-'') value)
           in case Atoi low of
                None \<Rightarrow> Inl UnableToParse
              | Some l \<Rightarrow>
                  (case Atoi high of
                     None \<Rightarrow> Inl UnableToParse
                   | Some h \<Rightarrow>
                       if h < l then Inl EndBeforeStart
                       else Inr \<lparr>pr_Base = l, pr_Size = 1 + h - l\<rparr>))"

lemma show_nat_no_hyphen: "CHR ''-'' \<notin> set (show_nat n)"
  using show_nat_digits [of n] is_digit_not_sign by (auto simp: list_all_iff)

text \<open>A range of ports is read back from its printed form.\<close>

theorem port_range_roundtrip:
  assumes "0 \<le> pr_Base pr" and "0 < pr_Size pr" and "pr_Base pr + pr_Size pr \<le> 2 ^ 63"
  shows "PortRange_Set (PortRange_String pr) = Inr pr"
proof -
  let ?l = "fmt_d (pr_Base pr)" and ?h = "fmt_d (pr_Base pr + pr_Size pr - 1)"
  have str: "PortRange_String pr = ?l @ CHR ''-'' # ?h" using assms(2) by (simp add: PortRange_String_def)
  have nospace: "c \<in> set (?l @ CHR ''-'' # ?h) \<Longrightarrow> \<not> is_space c" for c
    using fmt_d_no_space by (auto simp: is_space_def)
  have l: "CHR ''-'' \<notin> set ?l" using assms(1) by (simp add: fmt_d_def show_nat_no_hyphen)
  then have "takeWhile (\<lambda>c. c \<noteq> CHR ''-'') (?l @ CHR ''-'' # ?h) = ?l"
    "dropWhile (\<lambda>c. c \<noteq> CHR ''-'') (?l @ CHR ''-'' # ?h) = CHR ''-'' # ?h"
    by (induction ?l) (auto simp: takeWhile_append dropWhile_append)
  moreover have "Atoi ?l = Some (pr_Base pr)" "Atoi ?h = Some (pr_Base pr + pr_Size pr - 1)"
    using assms by (simp_all add: Atoi_fmt_d)
  moreover have "TrimSpace (?l @ CHR ''-'' # ?h) = ?l @ CHR ''-'' # ?h" by (rule TrimSpace_id) (rule nospace)
  ultimately show ?thesis using assms by (simp add: PortRange_Set_def str Let_def)
qed

theorem port_range_roundtrip_witness:
  "PortRange_Set (PortRange_String \<lparr>pr_Base = 30000, pr_Size = 2768\<rparr>) = Inr \<lparr>pr_Base = 30000, pr_Size = 2768\<rparr>"
  using port_range_roundtrip [of "\<lparr>pr_Base = 30000, pr_Size = 2768\<rparr>"] by simp

end
