(* ===== verification/Service_Allocators.thy ===== *)
theory Service_Allocators
  imports Allocator_Bitmap Go_Strconv
begin

text \<open>
  The allocators of node ports and of cluster IPs
  (src/pkg/registry/service/portallocator/allocator.go, ipallocator/allocator.go) over any
  \<^verbatim>\<open>allocator.Interface\<close>, and the port allocation transaction (portallocator/operation.go).

  Both allocators meet the same contract, the locale \<open>resource_allocator\<close>: they hold a set of
  resources out of a pool. It is proved once for every offset allocator (two sublocale
  declarations) and so for the bitmap. The transaction is verified against the contract.

  A \<^verbatim>\<open>net.IP\<close> is its slice of bytes; a mask is given by its number of leading ones and its length
  in bits, as \<^verbatim>\<open>Mask.Size\<close> returns them for every mask that comes from a CIDR.
\<close>

section \<open>Node ports\<close>

record 's PortAllocator =
  pa_portRange :: PortRange
  pa_alloc :: 's

definition NewPortAllocatorCustom :: "PortRange \<Rightarrow> (nat \<Rightarrow> string \<Rightarrow> 's) \<Rightarrow> 's PortAllocator" where
  "NewPortAllocatorCustom pr allocatorFactory =
     \<lparr>pa_portRange = pr, pa_alloc = allocatorFactory (nat (pr_Size pr)) (PortRange_String pr)\<rparr>"

definition NewPortAllocator :: "PortRange \<Rightarrow> AllocationBitmap PortAllocator" where
  "NewPortAllocator pr = NewPortAllocatorCustom pr NewAllocationMap"

definition PortAllocator_contains :: "int \<Rightarrow> 's PortAllocator \<Rightarrow> bool \<times> int" where
  "PortAllocator_contains port r =
     (if \<not> PortRange_Contains port (pa_portRange r) then (False, 0)
      else (True, port - pr_Base (pa_portRange r)))"

definition PortAllocator_Allocate ::
  "'s Alloc_ops \<Rightarrow> int \<Rightarrow> 's PortAllocator \<Rightarrow> alloc_error option \<times> 's PortAllocator" where
  "PortAllocator_Allocate ops port r =
     (case PortAllocator_contains port r of
        (False, _) \<Rightarrow> (Some ErrNotInRange, r)
      | (True, offset) \<Rightarrow>
          (case al_Allocate ops (nat offset) (pa_alloc r) of
             (Inl err, a) \<Rightarrow> (Some err, r\<lparr>pa_alloc := a\<rparr>)
           | (Inr allocated, a) \<Rightarrow>
               (if \<not> allocated then Some ErrAllocated else None, r\<lparr>pa_alloc := a\<rparr>)))"

definition PortAllocator_AllocateNext ::
  "'s Alloc_ops \<Rightarrow> nat \<Rightarrow> 's PortAllocator \<Rightarrow> (alloc_error, int) result \<times> 's PortAllocator" where
  "PortAllocator_AllocateNext ops rnd r =
     (case al_AllocateNext ops rnd (pa_alloc r) of
        (Inl err, a) \<Rightarrow> (Inl err, r\<lparr>pa_alloc := a\<rparr>)
      | (Inr (offset, ok), a) \<Rightarrow>
          (if \<not> ok then Inl ErrFull else Inr (pr_Base (pa_portRange r) + int offset), r\<lparr>pa_alloc := a\<rparr>))"

definition PortAllocator_Release ::
  "'s Alloc_ops \<Rightarrow> int \<Rightarrow> 's PortAllocator \<Rightarrow> alloc_error option \<times> 's PortAllocator" where
  "PortAllocator_Release ops port r =
     (case PortAllocator_contains port r of
        (False, _) \<Rightarrow> (None, r)
      | (True, offset) \<Rightarrow>
          (case al_Release ops (nat offset) (pa_alloc r) of (err, a) \<Rightarrow> (err, r\<lparr>pa_alloc := a\<rparr>)))"

definition PortAllocator_Has :: "'s Alloc_ops \<Rightarrow> int \<Rightarrow> 's PortAllocator \<Rightarrow> bool" where
  "PortAllocator_Has ops port r =
     (case PortAllocator_contains port r of
        (False, _) \<Rightarrow> False
      | (True, offset) \<Rightarrow> al_Has ops (nat offset) (pa_alloc r))"

definition PortAllocator_Free :: "'s Alloc_ops \<Rightarrow> 's PortAllocator \<Rightarrow> int" where
  "PortAllocator_Free ops r = al_Free ops (pa_alloc r)"

text \<open>A \<^verbatim>\<open>RangeAllocation\<close> is a range and its data. The bitmap is snapshottable.\<close>

definition PortAllocator_Snapshot :: "AllocationBitmap PortAllocator \<Rightarrow> string \<times> byte list" where
  "PortAllocator_Snapshot r = AllocationBitmap_Snapshot (pa_alloc r)"

definition PortAllocator_Restore ::
  "PortRange \<Rightarrow> byte list \<Rightarrow> AllocationBitmap PortAllocator
     \<Rightarrow> alloc_error option \<times> AllocationBitmap PortAllocator" where
  "PortAllocator_Restore pr data r =
     (if PortRange_String pr \<noteq> PortRange_String (pa_portRange r) then (Some ErrMismatchedNetwork, r)
      else case AllocationBitmap_Restore (PortRange_String pr) data (pa_alloc r) of
             (err, a) \<Rightarrow> (err, r\<lparr>pa_alloc := a\<rparr>))"

section \<open>Cluster IPs\<close>

type_synonym IP = "byte list"

definition v4InV6Prefix :: IP where
  "v4InV6Prefix = replicate 10 0 @ [255, 255]"

definition To4 :: "IP \<Rightarrow> IP option" where
  "To4 ip =
     (if length ip = 4 then Some ip
      else if length ip = 16 \<and> take 12 ip = v4InV6Prefix then Some (drop 12 ip)
      else None)"

definition To16 :: "IP \<Rightarrow> IP option" where
  "To16 ip =
     (if length ip = 4 then Some (v4InV6Prefix @ ip)
      else if length ip = 16 then Some ip
      else None)"

text \<open>The four bytes of an IPv4 address in either form, any other slice as it is.\<close>

definition norm_ip :: "IP \<Rightarrow> IP" where
  "norm_ip ip = (case To4 ip of Some x \<Rightarrow> x | None \<Rightarrow> ip)"

record IPNet =
  net_IP :: IP
  net_ones :: nat
  net_bits :: nat

text \<open>\<^verbatim>\<open>IPNet.Contains\<close>: both have the same length and agree on the bits of the mask.\<close>

definition IPNet_Contains :: "IP \<Rightarrow> IPNet \<Rightarrow> bool" where
  "IPNet_Contains ip n =
     (let nn = norm_ip (net_IP n); x = norm_ip ip; host = net_bits n - net_ones n
      in length x = length nn \<and> net_bits n = 8 * length nn \<and>
         big_SetBytes x div 2 ^ host = big_SetBytes nn div 2 ^ host)"

definition bigForIP :: "IP \<Rightarrow> nat" where
  "bigForIP ip =
     (let b = (case To4 ip of Some x \<Rightarrow> Some x | None \<Rightarrow> To16 ip)
      in big_SetBytes (case b of Some x \<Rightarrow> x | None \<Rightarrow> []))"

definition addIPOffset :: "nat \<Rightarrow> int \<Rightarrow> IP" where
  "addIPOffset base offset = big_Bytes (nat \<bar>int base + offset\<bar>)"

text \<open>\<^verbatim>\<open>Int64\<close> takes the low 64 bits of the difference.\<close>

definition calculateIPOffset :: "nat \<Rightarrow> IP \<Rightarrow> int" where
  "calculateIPOffset base ip = sint (word_of_int (int (bigForIP ip) - int base) :: 64 word)"

text \<open>The panic on masks of more than 30 host bits is \<^term>\<open>None\<close>.\<close>

definition RangeSize :: "IPNet \<Rightarrow> int option" where
  "RangeSize subnet =
     (if int (net_bits subnet) - int (net_ones subnet) \<ge> 31 then None
      else Some (2 ^ (net_bits subnet - net_ones subnet)))"

record 's Range =
  rg_net :: IPNet
  rg_base :: nat
  rg_max :: int
  rg_alloc :: 's

text \<open>\<open>cidr_String\<close> is \<^verbatim>\<open>IPNet.String\<close>, whose value only tags the persisted range.\<close>

definition NewAllocatorCIDRRange ::
  "(IPNet \<Rightarrow> string) \<Rightarrow> IPNet \<Rightarrow> (nat \<Rightarrow> string \<Rightarrow> 's) \<Rightarrow> 's Range option" where
  "NewAllocatorCIDRRange cidr_String cidr allocatorFactory =
     (case RangeSize cidr of
        None \<Rightarrow> None
      | Some mx \<Rightarrow>
          let m = max 0 (mx - 2)
          in Some \<lparr>rg_net = cidr, rg_base = bigForIP (net_IP cidr) + 1, rg_max = m,
                   rg_alloc = allocatorFactory (nat m) (cidr_String cidr)\<rparr>)"

definition NewCIDRRange :: "(IPNet \<Rightarrow> string) \<Rightarrow> IPNet \<Rightarrow> AllocationBitmap Range option" where
  "NewCIDRRange cidr_String cidr = NewAllocatorCIDRRange cidr_String cidr NewAllocationMap"

definition Range_contains :: "IP \<Rightarrow> 's Range \<Rightarrow> bool \<times> int" where
  "Range_contains ip r =
     (if \<not> IPNet_Contains ip (rg_net r) then (False, 0)
      else
        let offset = calculateIPOffset (rg_base r) ip
        in if offset < 0 \<or> offset \<ge> rg_max r then (False, 0) else (True, offset))"

definition Range_Allocate :: "'s Alloc_ops \<Rightarrow> IP \<Rightarrow> 's Range \<Rightarrow> alloc_error option \<times> 's Range" where
  "Range_Allocate ops ip r =
     (case Range_contains ip r of
        (False, _) \<Rightarrow> (Some ErrNotInRange, r)
      | (True, offset) \<Rightarrow>
          (case al_Allocate ops (nat offset) (rg_alloc r) of
             (Inl err, a) \<Rightarrow> (Some err, r\<lparr>rg_alloc := a\<rparr>)
           | (Inr allocated, a) \<Rightarrow>
               (if \<not> allocated then Some ErrAllocated else None, r\<lparr>rg_alloc := a\<rparr>)))"

definition Range_AllocateNext :: "'s Alloc_ops \<Rightarrow> nat \<Rightarrow> 's Range \<Rightarrow> (alloc_error, IP) result \<times> 's Range" where
  "Range_AllocateNext ops rnd r =
     (case al_AllocateNext ops rnd (rg_alloc r) of
        (Inl err, a) \<Rightarrow> (Inl err, r\<lparr>rg_alloc := a\<rparr>)
      | (Inr (offset, ok), a) \<Rightarrow>
          (if \<not> ok then Inl ErrFull else Inr (addIPOffset (rg_base r) (int offset)), r\<lparr>rg_alloc := a\<rparr>))"

definition Range_Release :: "'s Alloc_ops \<Rightarrow> IP \<Rightarrow> 's Range \<Rightarrow> alloc_error option \<times> 's Range" where
  "Range_Release ops ip r =
     (case Range_contains ip r of
        (False, _) \<Rightarrow> (None, r)
      | (True, offset) \<Rightarrow>
          (case al_Release ops (nat offset) (rg_alloc r) of (err, a) \<Rightarrow> (err, r\<lparr>rg_alloc := a\<rparr>)))"

definition Range_Has :: "'s Alloc_ops \<Rightarrow> IP \<Rightarrow> 's Range \<Rightarrow> bool" where
  "Range_Has ops ip r =
     (case Range_contains ip r of
        (False, _) \<Rightarrow> False
      | (True, offset) \<Rightarrow> al_Has ops (nat offset) (rg_alloc r))"

definition Range_Free :: "'s Alloc_ops \<Rightarrow> 's Range \<Rightarrow> int" where
  "Range_Free ops r = al_Free ops (rg_alloc r)"

definition Range_Snapshot :: "AllocationBitmap Range \<Rightarrow> string \<times> byte list" where
  "Range_Snapshot r = AllocationBitmap_Snapshot (rg_alloc r)"

text \<open>The error of the bitmap's \<^verbatim>\<open>Restore\<close> is dropped, as in the source.\<close>

definition Range_Restore ::
  "(IPNet \<Rightarrow> string) \<Rightarrow> IPNet \<Rightarrow> byte list \<Rightarrow> AllocationBitmap Range
     \<Rightarrow> alloc_error option \<times> AllocationBitmap Range" where
  "Range_Restore cidr_String net data r =
     (if norm_ip (net_IP net) \<noteq> norm_ip (net_IP (rg_net r)) \<or>
         (net_ones net, net_bits net) \<noteq> (net_ones (rg_net r), net_bits (rg_net r))
      then (Some ErrMismatchedNetwork, r)
      else (None, r\<lparr>rg_alloc := snd (AllocationBitmap_Restore (cidr_String net) data (rg_alloc r))\<rparr>))"

datatype ip_error = SubnetTooSmall

definition GetIndexedIP :: "IPNet \<Rightarrow> int \<Rightarrow> (ip_error, IP) result" where
  "GetIndexedIP subnet index =
     (let ip = addIPOffset (bigForIP (net_IP subnet)) index
      in if \<not> IPNet_Contains ip subnet then Inl SubnetTooSmall else Inr ip)"

section \<open>The allocation transaction\<close>

text \<open>The operations of \<^verbatim>\<open>portallocator.Interface\<close> and \<^verbatim>\<open>ipallocator.Interface\<close>.\<close>

record ('r, 's) ResourceInterface =
  ri_Allocate :: "'r \<Rightarrow> 's \<Rightarrow> alloc_error option \<times> 's"
  ri_AllocateNext :: "nat \<Rightarrow> 's \<Rightarrow> (alloc_error, 'r) result \<times> 's"
  ri_Release :: "'r \<Rightarrow> 's \<Rightarrow> alloc_error option \<times> 's"

record 'r portAllocationOperation =
  op_allocated :: "'r list"
  op_releaseDeferred :: "'r list"
  op_shouldRollback :: bool

definition StartOperation :: "'r portAllocationOperation" where
  "StartOperation = \<lparr>op_allocated = [], op_releaseDeferred = [], op_shouldRollback = True\<rparr>"

text \<open>The loop that releases every element of a list and collects the errors.\<close>

fun release_all :: "('r, 's) ResourceInterface \<Rightarrow> 'r list \<Rightarrow> 's \<Rightarrow> alloc_error list \<times> 's" where
  "release_all I [] s = ([], s)"
| "release_all I (x # xs) s =
     (let (err, s') = ri_Release I x s;
          (errs, s'') = release_all I xs s'
      in (case err of None \<Rightarrow> errs | Some e \<Rightarrow> e # errs, s''))"

definition Operation_Rollback ::
  "('r, 's) ResourceInterface \<Rightarrow> 'r portAllocationOperation \<Rightarrow> 's \<Rightarrow> alloc_error list \<times> 's" where
  "Operation_Rollback I op s = release_all I (op_allocated op) s"

definition Operation_Commit ::
  "('r, 's) ResourceInterface \<Rightarrow> 'r portAllocationOperation \<Rightarrow> 's
     \<Rightarrow> alloc_error list \<times> 'r portAllocationOperation \<times> 's" where
  "Operation_Commit I op s =
     (let (errs, s') = release_all I (op_releaseDeferred op) s
      in (errs, op\<lparr>op_shouldRollback := False\<rparr>, s'))"

definition Operation_Finish :: "('r, 's) ResourceInterface \<Rightarrow> 'r portAllocationOperation \<Rightarrow> 's \<Rightarrow> 's" where
  "Operation_Finish I op s = (if op_shouldRollback op then snd (Operation_Rollback I op s) else s)"

definition Operation_Allocate ::
  "('r, 's) ResourceInterface \<Rightarrow> 'r \<Rightarrow> 'r portAllocationOperation \<Rightarrow> 's
     \<Rightarrow> alloc_error option \<times> 'r portAllocationOperation \<times> 's" where
  "Operation_Allocate I port op s =
     (let (err, s') = ri_Allocate I port s
      in (err, if err = None then op\<lparr>op_allocated := op_allocated op @ [port]\<rparr> else op, s'))"

definition Operation_AllocateNext ::
  "('r, 's) ResourceInterface \<Rightarrow> nat \<Rightarrow> 'r portAllocationOperation \<Rightarrow> 's
     \<Rightarrow> (alloc_error, 'r) result \<times> 'r portAllocationOperation \<times> 's" where
  "Operation_AllocateNext I rnd op s =
     (case ri_AllocateNext I rnd s of
        (Inl err, s') \<Rightarrow> (Inl err, op, s')
      | (Inr port, s') \<Rightarrow> (Inr port, op\<lparr>op_allocated := op_allocated op @ [port]\<rparr>, s'))"

definition Operation_ReleaseDeferred :: "'r \<Rightarrow> 'r portAllocationOperation \<Rightarrow> 'r portAllocationOperation" where
  "Operation_ReleaseDeferred port op = op\<lparr>op_releaseDeferred := op_releaseDeferred op @ [port]\<rparr>"

text \<open>The calls a user makes between \<^verbatim>\<open>StartOperation\<close> and \<^verbatim>\<open>Commit\<close> or \<^verbatim>\<open>Finish\<close>.\<close>

datatype 'r op_call = CallAllocate 'r | CallAllocateNext nat | CallReleaseDeferred 'r

fun op_calls ::
  "('r, 's) ResourceInterface \<Rightarrow> 'r op_call list \<Rightarrow> 'r portAllocationOperation \<Rightarrow> 's
     \<Rightarrow> 'r portAllocationOperation \<times> 's" where
  "op_calls I [] op s = (op, s)"
| "op_calls I (CallAllocate x # cs) op s =
     (let (err, op', s') = Operation_Allocate I x op s in op_calls I cs op' s')"
| "op_calls I (CallAllocateNext rnd # cs) op s =
     (let (res, op', s') = Operation_AllocateNext I rnd op s in op_calls I cs op' s')"
| "op_calls I (CallReleaseDeferred x # cs) op s = op_calls I cs (Operation_ReleaseDeferred x op) s"

section \<open>The contract of an allocator of resources\<close>

text \<open>
  \<open>canon\<close> maps a resource to its canonical form: the four- and the sixteen-byte form of an IPv4
  address are the same address.
\<close>

locale resource_allocator =
  fixes I :: "('r, 's) ResourceInterface"
    and invar :: "'s \<Rightarrow> bool"
    and canon :: "'r \<Rightarrow> 'c"
    and held :: "'s \<Rightarrow> 'c set"
    and pool :: "'s \<Rightarrow> 'c set"
  assumes held_in_pool: "invar s \<Longrightarrow> held s \<subseteq> pool s"
    and allocate_free: "invar s \<Longrightarrow> canon x \<in> pool s \<Longrightarrow> canon x \<notin> held s \<Longrightarrow>
      \<exists>s'. ri_Allocate I x s = (None, s') \<and> invar s' \<and> held s' = insert (canon x) (held s) \<and> pool s' = pool s"
    and allocate_held: "invar s \<Longrightarrow> canon x \<in> held s \<Longrightarrow> ri_Allocate I x s = (Some ErrAllocated, s)"
    and allocate_outside: "invar s \<Longrightarrow> canon x \<notin> pool s \<Longrightarrow> ri_Allocate I x s = (Some ErrNotInRange, s)"
    and next_some: "invar s \<Longrightarrow> \<not> pool s \<subseteq> held s \<Longrightarrow>
      \<exists>x s'. ri_AllocateNext I rnd s = (Inr x, s') \<and> invar s' \<and> canon x \<in> pool s - held s \<and>
             held s' = insert (canon x) (held s) \<and> pool s' = pool s"
    and next_none: "invar s \<Longrightarrow> pool s \<subseteq> held s \<Longrightarrow> ri_AllocateNext I rnd s = (Inl ErrFull, s)"
    and release_one: "invar s \<Longrightarrow>
      \<exists>s'. ri_Release I x s = (None, s') \<and> invar s' \<and> held s' = held s - {canon x} \<and> pool s' = pool s"
begin

lemma allocate_ok:
  assumes "invar s" and "ri_Allocate I x s = (None, s')"
  shows "invar s' \<and> canon x \<in> pool s - held s \<and> held s' = insert (canon x) (held s) \<and> pool s' = pool s"
  using assms allocate_free [OF assms(1), of x] allocate_held [OF assms(1), of x] allocate_outside [OF assms(1), of x]
  by (cases "canon x \<in> held s"; cases "canon x \<in> pool s") auto

lemma allocate_fails:
  assumes "invar s" and "ri_Allocate I x s = (Some e, s')"
  shows "s' = s \<and> (canon x \<in> held s \<and> e = ErrAllocated \<or> canon x \<notin> pool s \<and> e = ErrNotInRange)"
  using assms allocate_free [OF assms(1), of x] allocate_held [OF assms(1), of x] allocate_outside [OF assms(1), of x]
  by (cases "canon x \<in> held s"; cases "canon x \<in> pool s") auto

lemma next_ok:
  assumes "invar s" and "ri_AllocateNext I rnd s = (Inr x, s')"
  shows "invar s' \<and> canon x \<in> pool s - held s \<and> held s' = insert (canon x) (held s) \<and> pool s' = pool s"
  using assms next_some [OF assms(1), of rnd] next_none [OF assms(1), of rnd]
  by (cases "pool s \<subseteq> held s") auto

lemma next_fails:
  assumes "invar s" and "ri_AllocateNext I rnd s = (Inl e, s')"
  shows "s' = s \<and> e = ErrFull \<and> pool s \<subseteq> held s"
  using assms next_some [OF assms(1), of rnd] next_none [OF assms(1), of rnd]
  by (cases "pool s \<subseteq> held s") auto

lemma release_all_spec:
  "invar s \<Longrightarrow> \<exists>s'. release_all I xs s = ([], s') \<and> invar s' \<and> held s' = held s - canon ` set xs \<and> pool s' = pool s"
proof (induction xs arbitrary: s)
  case (Cons x xs)
  obtain s1 where 1: "ri_Release I x s = (None, s1)" "invar s1" "held s1 = held s - {canon x}" "pool s1 = pool s"
    using release_one [OF Cons.prems] by blast
  obtain s2 where 2: "release_all I xs s1 = ([], s2)" "invar s2" "held s2 = held s1 - canon ` set xs" "pool s2 = pool s1"
    using Cons.IH [OF 1(2)] by blast
  show ?case using 1 2 by auto
qed simp

text \<open>What a transaction that started with \<open>h\<close> held maintains.\<close>

definition op_inv :: "'c set \<Rightarrow> 'r portAllocationOperation \<Rightarrow> 's \<Rightarrow> bool" where
  "op_inv h op s \<longleftrightarrow> invar s \<and> held s = h \<union> canon ` set (op_allocated op) \<and>
     (\<forall>x \<in> set (op_allocated op). canon x \<notin> h)"

lemma op_inv_start: "invar s \<Longrightarrow> op_inv (held s) StartOperation s"
  by (simp add: op_inv_def StartOperation_def)

lemma op_inv_allocate:
  assumes "op_inv h op s" and "Operation_Allocate I x op s = (err, op', s')"
  shows "op_inv h op' s' \<and> pool s' = pool s \<and> op_releaseDeferred op' = op_releaseDeferred op \<and>
         op_shouldRollback op' = op_shouldRollback op \<and>
         op_allocated op' = op_allocated op @ (if err = None then [x] else [])"
proof -
  obtain err' s1 where a: "ri_Allocate I x s = (err', s1)" by fastforce
  have inv: "invar s" using assms(1) by (simp add: op_inv_def)
  show ?thesis
  proof (cases err')
    case None
    with allocate_ok [OF inv, of x s1] a assms show ?thesis by (auto simp: op_inv_def Operation_Allocate_def)
  next
    case (Some e)
    with allocate_fails [OF inv, of x e s1] a assms show ?thesis by (auto simp: op_inv_def Operation_Allocate_def)
  qed
qed

lemma op_inv_next:
  assumes "op_inv h op s" and "Operation_AllocateNext I rnd op s = (res, op', s')"
  shows "op_inv h op' s' \<and> pool s' = pool s \<and> op_releaseDeferred op' = op_releaseDeferred op \<and>
         op_shouldRollback op' = op_shouldRollback op \<and>
         op_allocated op' = op_allocated op @ (case res of Inl _ \<Rightarrow> [] | Inr x \<Rightarrow> [x])"
proof -
  obtain r s1 where a: "ri_AllocateNext I rnd s = (r, s1)" by fastforce
  have inv: "invar s" using assms(1) by (simp add: op_inv_def)
  show ?thesis
  proof (cases r)
    case (Inl e)
    with next_fails [OF inv, of rnd e s1] a assms show ?thesis by (auto simp: op_inv_def Operation_AllocateNext_def)
  next
    case (Inr x)
    with next_ok [OF inv, of rnd x s1] a assms show ?thesis by (auto simp: op_inv_def Operation_AllocateNext_def)
  qed
qed

lemma op_inv_calls:
  "op_inv h op s \<Longrightarrow> op_calls I cs op s = (op', s') \<Longrightarrow>
     op_inv h op' s' \<and> pool s' = pool s \<and> op_shouldRollback op' = op_shouldRollback op"
proof (induction cs arbitrary: op s)
  case (Cons c cs)
  show ?case
  proof (cases c)
    case (CallAllocate x)
    obtain err op1 s1 where a: "Operation_Allocate I x op s = (err, op1, s1)" by (metis prod_cases3)
    with op_inv_allocate [OF Cons.prems(1) a] Cons.IH [of op1 s1] Cons.prems CallAllocate
    show ?thesis by simp
  next
    case (CallAllocateNext rnd)
    obtain res op1 s1 where a: "Operation_AllocateNext I rnd op s = (res, op1, s1)" by (metis prod_cases3)
    with op_inv_next [OF Cons.prems(1) a] Cons.IH [of op1 s1] Cons.prems CallAllocateNext
    show ?thesis by simp
  next
    case (CallReleaseDeferred x)
    have "op_inv h (Operation_ReleaseDeferred x op) s"
      using Cons.prems(1) by (simp add: op_inv_def Operation_ReleaseDeferred_def)
    from Cons.IH [OF this] Cons.prems(2) CallReleaseDeferred show ?thesis
      by (simp add: Operation_ReleaseDeferred_def)
  qed
qed simp

lemma rollback_restores:
  assumes "op_inv h op s"
  shows "\<exists>s'. Operation_Rollback I op s = ([], s') \<and> invar s' \<and> held s' = h \<and> pool s' = pool s"
  using release_all_spec [of s "op_allocated op"] assms by (auto simp: op_inv_def Operation_Rollback_def)

lemma commit_releases:
  assumes "op_inv h op s"
  shows "\<exists>s'. Operation_Commit I op s = ([], op\<lparr>op_shouldRollback := False\<rparr>, s') \<and> invar s' \<and>
              held s' = h \<union> canon ` set (op_allocated op) - canon ` set (op_releaseDeferred op) \<and> pool s' = pool s"
  using release_all_spec [of s "op_releaseDeferred op"] assms by (auto simp: op_inv_def Operation_Commit_def)

end

section \<open>Node ports meet the contract\<close>

definition port_interface :: "'s Alloc_ops \<Rightarrow> (int, 's PortAllocator) ResourceInterface" where
  "port_interface ops =
     \<lparr>ri_Allocate = PortAllocator_Allocate ops, ri_AllocateNext = PortAllocator_AllocateNext ops,
      ri_Release = PortAllocator_Release ops\<rparr>"

definition ports_inv :: "('s \<Rightarrow> bool) \<Rightarrow> ('s \<Rightarrow> nat) \<Rightarrow> 's PortAllocator \<Rightarrow> bool" where
  "ports_inv invar capacity r \<longleftrightarrow>
     invar (pa_alloc r) \<and> int (capacity (pa_alloc r)) = pr_Size (pa_portRange r)"

definition ports_held :: "('s \<Rightarrow> nat set) \<Rightarrow> 's PortAllocator \<Rightarrow> int set" where
  "ports_held taken r = (\<lambda>k. pr_Base (pa_portRange r) + int k) ` taken (pa_alloc r)"

definition ports_pool :: "'s PortAllocator \<Rightarrow> int set" where
  "ports_pool r = {p. PortRange_Contains p (pa_portRange r)}"

lemma port_offset:
  assumes "p \<in> ports_pool r"
  obtains k where "p = pr_Base (pa_portRange r) + int k" and "int k < pr_Size (pa_portRange r)"
    and "PortAllocator_contains p r = (True, int k)"
proof -
  have "pr_Base (pa_portRange r) \<le> p" "p - pr_Base (pa_portRange r) < pr_Size (pa_portRange r)"
    using assms by (auto simp: ports_pool_def PortRange_Contains_def)
  with assms that [of "nat (p - pr_Base (pa_portRange r))"] show ?thesis
    by (simp add: ports_pool_def PortAllocator_contains_def)
qed

lemma port_not_contained: "p \<notin> ports_pool r \<Longrightarrow> PortAllocator_contains p r = (False, 0)"
  by (simp add: ports_pool_def PortAllocator_contains_def)

lemma mem_ports_held: "pr_Base (pa_portRange r) + int k \<in> ports_held taken r \<longleftrightarrow> k \<in> taken (pa_alloc r)"
  by (auto simp: ports_held_def)

sublocale offset_allocator \<subseteq> ports: resource_allocator "port_interface ops" "ports_inv invar capacity"
    "\<lambda>p. p" "ports_held taken" ports_pool
proof (unfold_locales, goal_cases)
  case (1 s)
  then show ?case
    using taken_bounded [of "pa_alloc s"]
    by (force simp: ports_inv_def ports_held_def ports_pool_def PortRange_Contains_def)
next
  case (2 s x)
  from 2(2) obtain k where k: "x = pr_Base (pa_portRange s) + int k" "int k < pr_Size (pa_portRange s)"
    "PortAllocator_contains x s = (True, int k)" by (rule port_offset)
  then have "k < capacity (pa_alloc s)" "k \<notin> taken (pa_alloc s)"
    using 2 by (auto simp: ports_inv_def mem_ports_held)
  with allocate_new [of "pa_alloc s" k] 2(1) obtain a where "al_Allocate ops k (pa_alloc s) = (Inr True, a)" "invar a"
    "taken a = insert k (taken (pa_alloc s))" "capacity a = capacity (pa_alloc s)"
    by (auto simp: ports_inv_def)
  with k 2(1) show ?case
    by (simp add: port_interface_def PortAllocator_Allocate_def ports_inv_def ports_held_def ports_pool_def)
next
  case (3 s x)
  have "x \<in> ports_pool s"
    using 3 taken_bounded [of "pa_alloc s"]
    by (force simp: ports_inv_def ports_held_def ports_pool_def PortRange_Contains_def)
  then obtain k where k: "x = pr_Base (pa_portRange s) + int k" "PortAllocator_contains x s = (True, int k)"
    by (rule port_offset)
  with 3 allocate_taken [of "pa_alloc s" k] show ?case
    by (simp add: port_interface_def PortAllocator_Allocate_def ports_inv_def mem_ports_held)
next
  case (4 s x)
  then show ?case by (simp add: port_interface_def PortAllocator_Allocate_def port_not_contained)
next
  case (5 s rnd)
  have "\<not> {..<capacity (pa_alloc s)} \<subseteq> taken (pa_alloc s)"
  proof
    assume full: "{..<capacity (pa_alloc s)} \<subseteq> taken (pa_alloc s)"
    have "ports_pool s \<subseteq> ports_held taken s"
    proof
      fix x assume "x \<in> ports_pool s"
      then obtain k where "x = pr_Base (pa_portRange s) + int k" "int k < pr_Size (pa_portRange s)"
        by (rule port_offset)
      with full 5(1) show "x \<in> ports_held taken s" by (auto simp: mem_ports_held ports_inv_def)
    qed
    with 5(2) show False by blast
  qed
  with next_free [of "pa_alloc s" rnd] 5(1) obtain k a where "al_AllocateNext ops rnd (pa_alloc s) = (Inr (k, True), a)"
    "invar a" "k < capacity (pa_alloc s)" "k \<notin> taken (pa_alloc s)" "taken a = insert k (taken (pa_alloc s))"
    "capacity a = capacity (pa_alloc s)" by (auto simp: ports_inv_def)
  with 5(1) show ?case
    by (auto simp: port_interface_def PortAllocator_AllocateNext_def ports_inv_def ports_held_def ports_pool_def
        PortRange_Contains_def)
next
  case (6 s rnd)
  have "{..<capacity (pa_alloc s)} \<subseteq> taken (pa_alloc s)"
  proof
    fix k assume "k \<in> {..<capacity (pa_alloc s)}"
    then have "pr_Base (pa_portRange s) + int k \<in> ports_pool s"
      using 6(1) by (auto simp: ports_pool_def PortRange_Contains_def ports_inv_def)
    with 6(2) show "k \<in> taken (pa_alloc s)" by (auto simp: mem_ports_held)
  qed
  with next_full 6(1) show ?case
    by (simp add: port_interface_def PortAllocator_AllocateNext_def ports_inv_def)
next
  case (7 s x)
  show ?case
  proof (cases "x \<in> ports_pool s")
    case True
    then obtain k where k: "x = pr_Base (pa_portRange s) + int k" "PortAllocator_contains x s = (True, int k)"
      by (rule port_offset)
    obtain a where a: "al_Release ops k (pa_alloc s) = (None, a)" "invar a" "taken a = taken (pa_alloc s) - {k}"
      "capacity a = capacity (pa_alloc s)" using release [of "pa_alloc s" k] 7 by (auto simp: ports_inv_def)
    have "ports_held taken (s\<lparr>pa_alloc := a\<rparr>) = ports_held taken s - {x}"
      by (auto simp: ports_held_def k(1) a(3))
    with k a 7 show ?thesis
      by (simp add: port_interface_def PortAllocator_Release_def ports_inv_def ports_pool_def)
  next
    case False
    moreover have "x \<notin> ports_held taken s"
      using False 7 taken_bounded [of "pa_alloc s"]
      by (force simp: ports_inv_def ports_held_def ports_pool_def PortRange_Contains_def)
    ultimately show ?thesis
      using 7 by (simp add: port_interface_def PortAllocator_Release_def port_not_contained)
  qed
qed

section \<open>Cluster IPs meet the contract\<close>

definition ip_interface :: "'s Alloc_ops \<Rightarrow> (IP, 's Range) ResourceInterface" where
  "ip_interface ops =
     \<lparr>ri_Allocate = Range_Allocate ops, ri_AllocateNext = Range_AllocateNext ops,
      ri_Release = Range_Release ops\<rparr>"

text \<open>
  A usable network: an IPv4 or IPv6 network address (its host bits are zero) with fewer than 31
  host bits, and a first byte that is not zero, since \<^verbatim>\<open>addIPOffset\<close> drops leading zero bytes.
\<close>

definition net_ok :: "IPNet \<Rightarrow> bool" where
  "net_ok n \<longleftrightarrow>
     (let nn = norm_ip (net_IP n); host = net_bits n - net_ones n
      in (length nn = 4 \<or> length nn = 16) \<and> net_bits n = 8 * length nn \<and> net_ones n \<le> net_bits n \<and> host < 31 \<and>
         big_SetBytes nn mod 2 ^ host = 0 \<and> 256 ^ (length nn - 1) \<le> big_SetBytes nn)"

definition ips_inv :: "('s \<Rightarrow> bool) \<Rightarrow> ('s \<Rightarrow> nat) \<Rightarrow> 's Range \<Rightarrow> bool" where
  "ips_inv invar capacity r \<longleftrightarrow>
     invar (rg_alloc r) \<and> net_ok (rg_net r) \<and> int (capacity (rg_alloc r)) = rg_max r \<and>
     rg_base r = bigForIP (net_IP (rg_net r)) + 1 \<and>
     rg_max r = max 0 (2 ^ (net_bits (rg_net r) - net_ones (rg_net r)) - 2)"

definition ips_pool :: "'s Range \<Rightarrow> IP set" where
  "ips_pool r =
     {b. length b = length (norm_ip (net_IP (rg_net r))) \<and>
         rg_base r \<le> big_SetBytes b \<and> int (big_SetBytes b) < int (rg_base r) + rg_max r}"

definition ips_held :: "('s \<Rightarrow> nat set) \<Rightarrow> 's Range \<Rightarrow> IP set" where
  "ips_held taken r = {b \<in> ips_pool r. big_SetBytes b - rg_base r \<in> taken (rg_alloc r)}"

lemma bigForIP_norm: "length (norm_ip ip) = 4 \<or> length (norm_ip ip) = 16 \<Longrightarrow> bigForIP ip = big_SetBytes (norm_ip ip)"
  by (auto simp: bigForIP_def norm_ip_def To16_def Let_def split: option.splits) (auto simp: To4_def split: if_splits)

lemma length_v4InV6Prefix [simp]: "length v4InV6Prefix = 12"
  by (simp add: v4InV6Prefix_def)

lemma norm_ip_high:
  assumes "length b = 4 \<or> length b = 16" and "256 ^ (length b - 1) \<le> big_SetBytes b"
  shows "norm_ip b = b"
proof (cases "length b = 16 \<and> take 12 b = v4InV6Prefix")
  case True
  have "big_SetBytes b = big_SetBytes (take 12 b @ drop 12 b)" by simp
  also have "\<dots> < 256 ^ 15"
  proof -
    have "take 12 b = [0] @ drop 1 (take 12 b)"
      using True by (simp add: v4InV6Prefix_def numeral_nat)
    then have "big_SetBytes (take 12 b @ drop 12 b) = big_SetBytes ([0] @ (drop 1 (take 12 b) @ drop 12 b))"
      by (metis append.assoc)
    also have "\<dots> = big_SetBytes (drop 1 (take 12 b) @ drop 12 b)" by (simp add: big_SetBytes_def)
    also have "\<dots> < 256 ^ length (drop 1 (take 12 b) @ drop 12 b)" by (rule SetBytes_less)
    also have "length (drop 1 (take 12 b) @ drop 12 b) = 15" using True by simp
    finally show ?thesis .
  qed
  finally show ?thesis using assms(2) True by simp
next
  case False
  then show ?thesis by (auto simp: norm_ip_def To4_def)
qed

text \<open>The numbers behind a usable network.\<close>

lemma ips_inv_facts:
  assumes "ips_inv invar capacity r"
  defines "l \<equiv> length (norm_ip (net_IP (rg_net r)))" and "h \<equiv> net_bits (rg_net r) - net_ones (rg_net r)"
    and "nb \<equiv> big_SetBytes (norm_ip (net_IP (rg_net r)))"
  shows "l = 4 \<or> l = 16" and "rg_base r = nb + 1" and "nb mod 2 ^ h = 0" and "256 ^ (l - 1) \<le> nb"
    and "nb + 2 ^ h \<le> 256 ^ l" and "rg_max r = max 0 (2 ^ h - 2)" and "h < 31" and "net_bits (rg_net r) = 8 * l"
proof -
  show l: "l = 4 \<or> l = 16" and 3: "nb mod 2 ^ h = 0" and "256 ^ (l - 1) \<le> nb" and "h < 31"
    and bits: "net_bits (rg_net r) = 8 * l" and "rg_max r = max 0 (2 ^ h - 2)"
    using assms by (auto simp: ips_inv_def net_ok_def Let_def)
  show "rg_base r = nb + 1" using assms l by (simp add: ips_inv_def bigForIP_norm)
  have "h \<le> 8 * l" using bits by (simp add: h_def)
  then have p: "(256 :: nat) ^ l = 2 ^ h * 2 ^ (8 * l - h)"
    by (simp flip: power_add add: power_mult)
  have "nb < 256 ^ l" unfolding nb_def l_def by (rule SetBytes_less)
  moreover from 3 obtain q where "nb = 2 ^ h * q" by (auto simp: mod_eq_0_iff_dvd)
  ultimately have "q < 2 ^ (8 * l - h)" using p by simp
  then have "2 ^ h * (q + 1) \<le> 2 ^ h * 2 ^ (8 * l - h)" by (intro mult_le_mono2) simp
  then show "nb + 2 ^ h \<le> 256 ^ l" using \<open>nb = 2 ^ h * q\<close> p by simp
qed

lemma sint_of_int_small: "- (2 ^ 63) \<le> d \<Longrightarrow> d < 2 ^ 63 \<Longrightarrow> sint (word_of_int d :: 64 word) = d"
  by (simp only: sint_sbintrunc') (simp add: signed_take_bit_int_eq_self)

lemma div_eq_interval:
  fixes v nb :: nat
  assumes "nb mod 2 ^ h = 0"
  shows "v div 2 ^ h = nb div 2 ^ h \<longleftrightarrow> nb \<le> v \<and> v < nb + 2 ^ h"
proof -
  from assms obtain q where q: "nb = 2 ^ h * q" by (auto simp: mod_eq_0_iff_dvd)
  have "v div 2 ^ h = q \<longleftrightarrow> 2 ^ h * q \<le> v \<and> v < 2 ^ h * q + 2 ^ h"
  proof
    assume "v div 2 ^ h = q"
    then show "2 ^ h * q \<le> v \<and> v < 2 ^ h * q + 2 ^ h"
      using times_div_less_eq_dividend [of "2 ^ h" v] dividend_less_times_div [of "2 ^ h" v] by auto
  next
    assume "2 ^ h * q \<le> v \<and> v < 2 ^ h * q + 2 ^ h"
    then show "v div 2 ^ h = q" by (intro div_nat_eqI) (auto simp: mult.commute)
  qed
  then show ?thesis by (simp add: q)
qed

lemma range_contains:
  assumes "ips_inv invar capacity r"
  shows "Range_contains ip r =
     (if norm_ip ip \<in> ips_pool r then (True, int (big_SetBytes (norm_ip ip) - rg_base r)) else (False, 0))"
proof -
  note facts = ips_inv_facts [OF assms]
  let ?n = "rg_net r" and ?x = "norm_ip ip"
  let ?l = "length (norm_ip (net_IP ?n))" and ?h = "net_bits ?n - net_ones ?n"
  let ?nb = "big_SetBytes (norm_ip (net_IP ?n))" and ?v = "big_SetBytes ?x"
  show ?thesis
  proof (cases "length ?x = ?l")
    case False
    then show ?thesis by (simp add: Range_contains_def IPNet_Contains_def ips_pool_def Let_def)
  next
    case True
    have con: "IPNet_Contains ip ?n \<longleftrightarrow> ?nb \<le> ?v \<and> ?v < ?nb + 2 ^ ?h"
      using True facts(8) div_eq_interval [OF facts(3)] by (simp add: IPNet_Contains_def Let_def)
    have h: "(2::int) ^ ?h \<le> 2147483648" using power_increasing [of ?h 31 "2::int"] facts(7) by simp
    have off: "calculateIPOffset (rg_base r) ip = int ?v - int ?nb - 1" if "?nb \<le> ?v" "?v < ?nb + 2 ^ ?h"
    proof -
      have "int ?v < int (?nb + 2 ^ ?h)" using that(2) unfolding of_nat_less_iff .
      then have "int ?v < int ?nb + 2 ^ ?h" by simp
      then have "- (2 ^ 63) \<le> int ?v - int ?nb - 1" "int ?v - int ?nb - 1 < 2 ^ 63" using that(1) h by simp_all
      moreover have "bigForIP ip = ?v" using True facts(1) by (intro bigForIP_norm) simp
      moreover have "int ?v - int (rg_base r) = int ?v - int ?nb - 1" using facts(2) by simp
      ultimately show ?thesis unfolding calculateIPOffset_def by (simp only: sint_of_int_small)
    qed
    have pool: "?x \<in> ips_pool r \<longleftrightarrow> ?nb + 1 \<le> ?v \<and> int ?v - int ?nb - 1 < rg_max r"
      using True facts(2) by (auto simp: ips_pool_def)
    show ?thesis
    proof (cases "?nb \<le> ?v \<and> ?v < ?nb + 2 ^ ?h")
      case inn: True
      then show ?thesis using con off pool facts(2) by (auto simp: Range_contains_def Let_def of_nat_diff)
    next
      case out: False
      have "rg_max r \<le> 2 ^ ?h - 1" using facts(6) by (auto simp: max_def)
      moreover have "?v < ?nb \<or> int (?nb + 2 ^ ?h) \<le> int ?v"
        using out unfolding of_nat_le_iff by linarith
      then have "?v < ?nb \<or> int ?nb + 2 ^ ?h \<le> int ?v" by simp
      ultimately have "?x \<notin> ips_pool r" unfolding pool by linarith
      then show ?thesis using con out by (simp add: Range_contains_def)
    qed
  qed
qed

lemma offset_ip:
  assumes "ips_inv invar capacity r" and "int k < rg_max r"
  shows "big_SetBytes (addIPOffset (rg_base r) (int k)) = rg_base r + k"
    and "addIPOffset (rg_base r) (int k) \<in> ips_pool r"
    and "norm_ip (addIPOffset (rg_base r) (int k)) = addIPOffset (rg_base r) (int k)"
proof -
  note facts = ips_inv_facts [OF assms(1)]
  let ?n = "rg_net r"
  let ?l = "length (norm_ip (net_IP ?n))" and ?nb = "big_SetBytes (norm_ip (net_IP ?n))"
    and ?h = "net_bits ?n - net_ones ?n"
  have b: "addIPOffset (rg_base r) (int k) = big_Bytes (rg_base r + k)" by (simp add: addIPOffset_def nat_int_add)
  show v: "big_SetBytes (addIPOffset (rg_base r) (int k)) = rg_base r + k" by (simp add: b)
  have "int k < 2 ^ ?h - 2" using assms(2) facts(6) by (simp add: max_def split: if_splits)
  then have "int (k + 2) < int (2 ^ ?h)" by simp
  then have "k + 2 < 2 ^ ?h" unfolding of_nat_less_iff .
  then have lt: "rg_base r + k < 256 ^ ?l" using facts(2,5) by linarith
  have ge: "256 ^ (?l - 1) \<le> rg_base r + k" using facts(2,4) by linarith
  have len: "length (addIPOffset (rg_base r) (int k)) = ?l"
    unfolding b by (rule length_Bytes [OF ge lt]) (use facts(1) in auto)
  show "addIPOffset (rg_base r) (int k) \<in> ips_pool r" using len v assms(2) by (simp add: ips_pool_def)
  show "norm_ip (addIPOffset (rg_base r) (int k)) = addIPOffset (rg_base r) (int k)"
    by (rule norm_ip_high) (use len facts(1) ge v in auto)
qed

lemma ips_pool_eq:
  assumes "b \<in> ips_pool r" and "c \<in> ips_pool r" and "big_SetBytes b - rg_base r = big_SetBytes c - rg_base r"
  shows "b = c"
  using assms by (intro SetBytes_inj) (auto simp: ips_pool_def)

lemma ips_pool_alloc [simp]: "ips_pool (r\<lparr>rg_alloc := a\<rparr>) = ips_pool r"
  by (simp add: ips_pool_def)

lemma ips_held_insert:
  assumes "b \<in> ips_pool r" and "taken a = insert (big_SetBytes b - rg_base r) (taken (rg_alloc r))"
  shows "ips_held taken (r\<lparr>rg_alloc := a\<rparr>) = insert b (ips_held taken r)"
  using assms ips_pool_eq [of _ r b] by (auto simp: ips_held_def)

lemma ips_held_remove:
  assumes "b \<in> ips_pool r" and "taken a = taken (rg_alloc r) - {big_SetBytes b - rg_base r}"
  shows "ips_held taken (r\<lparr>rg_alloc := a\<rparr>) = ips_held taken r - {b}"
  using assms ips_pool_eq [of _ r b] by (auto simp: ips_held_def)

lemma ips_inv_alloc:
  "ips_inv invar capacity r \<Longrightarrow> invar a \<Longrightarrow> capacity a = capacity (rg_alloc r) \<Longrightarrow>
     ips_inv invar capacity (r\<lparr>rg_alloc := a\<rparr>)"
  by (simp add: ips_inv_def)

lemma ips_pool_capacity:
  "ips_inv invar capacity r \<Longrightarrow> b \<in> ips_pool r \<Longrightarrow> big_SetBytes b - rg_base r < capacity (rg_alloc r)"
  by (auto simp: ips_inv_def ips_pool_def)

sublocale offset_allocator \<subseteq> ips: resource_allocator "ip_interface ops" "ips_inv invar capacity"
    norm_ip "ips_held taken" ips_pool
proof (unfold_locales, goal_cases)
  case (1 s)
  show ?case by (auto simp: ips_held_def)
next
  case (2 s x)
  let ?k = "big_SetBytes (norm_ip x) - rg_base s"
  have "invar (rg_alloc s)" "?k \<notin> taken (rg_alloc s)" using 2 by (auto simp: ips_inv_def ips_held_def)
  with allocate_new [of "rg_alloc s" ?k] ips_pool_capacity [OF 2(1,2)] obtain a where
    "al_Allocate ops ?k (rg_alloc s) = (Inr True, a)" "invar a" "taken a = insert ?k (taken (rg_alloc s))"
    "capacity a = capacity (rg_alloc s)" by blast
  with 2(1,2) show ?case
    by (simp add: ip_interface_def Range_Allocate_def range_contains [OF 2(1)] ips_held_insert ips_inv_alloc)
next
  case (3 s x)
  let ?k = "big_SetBytes (norm_ip x) - rg_base s"
  have "invar (rg_alloc s)" "?k \<in> taken (rg_alloc s)" "norm_ip x \<in> ips_pool s"
    using 3 by (auto simp: ips_inv_def ips_held_def)
  then show ?case
    by (simp add: ip_interface_def Range_Allocate_def range_contains [OF 3(1)] allocate_taken)
next
  case (4 s x)
  then show ?case by (simp add: ip_interface_def Range_Allocate_def range_contains [OF 4(1)])
next
  case (5 s rnd)
  have inv: "invar (rg_alloc s)" using 5(1) by (simp add: ips_inv_def)
  have "\<not> {..<capacity (rg_alloc s)} \<subseteq> taken (rg_alloc s)"
    using 5 ips_pool_capacity [OF 5(1)] by (auto simp: ips_held_def)
  with next_free [OF inv, of rnd] obtain k a where a: "al_AllocateNext ops rnd (rg_alloc s) = (Inr (k, True), a)"
    "invar a" "k < capacity (rg_alloc s)" "k \<notin> taken (rg_alloc s)" "taken a = insert k (taken (rg_alloc s))"
    "capacity a = capacity (rg_alloc s)" by blast
  have k: "int k < rg_max s" using a(3) 5(1) by (simp add: ips_inv_def)
  note ip = offset_ip [OF 5(1) k]
  have "ips_held taken (s\<lparr>rg_alloc := a\<rparr>) = insert (addIPOffset (rg_base s) (int k)) (ips_held taken s)"
    using ip(1,2) a(5) by (intro ips_held_insert) simp_all
  with a ip 5(1) show ?case
    by (simp add: ip_interface_def Range_AllocateNext_def ips_inv_alloc ips_held_def)
next
  case (6 s rnd)
  have "{..<capacity (rg_alloc s)} \<subseteq> taken (rg_alloc s)"
  proof
    fix k assume "k \<in> {..<capacity (rg_alloc s)}"
    then have "int k < rg_max s" using 6(1) by (simp add: ips_inv_def)
    from offset_ip [OF 6(1) this] 6(2) show "k \<in> taken (rg_alloc s)" by (auto simp: ips_held_def)
  qed
  with next_full [of "rg_alloc s" rnd] 6(1) show ?case
    by (simp add: ip_interface_def Range_AllocateNext_def ips_inv_def)
next
  case (7 s x)
  let ?k = "big_SetBytes (norm_ip x) - rg_base s"
  have inv: "invar (rg_alloc s)" using 7 by (simp add: ips_inv_def)
  obtain a where a: "al_Release ops ?k (rg_alloc s) = (None, a)" "invar a" "taken a = taken (rg_alloc s) - {?k}"
    "capacity a = capacity (rg_alloc s)" using release [OF inv] by blast
  show ?case
  proof (cases "norm_ip x \<in> ips_pool s")
    case True
    with 7 a show ?thesis
      by (simp add: ip_interface_def Range_Release_def range_contains [OF 7] ips_held_remove ips_inv_alloc)
  next
    case False
    then have "ips_held taken s - {norm_ip x} = ips_held taken s" by (auto simp: ips_held_def)
    with False 7 show ?thesis by (simp add: ip_interface_def Range_Release_def range_contains [OF 7])
  qed
qed

section \<open>Properties\<close>

abbreviation port_bitmap_inv :: "AllocationBitmap PortAllocator \<Rightarrow> bool" where
  "port_bitmap_inv \<equiv> ports_inv bitmap_inv ab_max"

abbreviation ip_bitmap_inv :: "AllocationBitmap Range \<Rightarrow> bool" where
  "ip_bitmap_inv \<equiv> ips_inv bitmap_inv ab_max"

lemma NewPortAllocator_inv:
  "0 \<le> pr_Size pr \<Longrightarrow> port_bitmap_inv (NewPortAllocator pr) \<and> ports_held bitmap_taken (NewPortAllocator pr) = {}"
  using bitmap_inv_new(1)
  by (simp add: ports_inv_def ports_held_def NewPortAllocator_def NewPortAllocatorCustom_def bitmap_taken_def)
     (simp add: NewAllocationMap_def)

lemma NewCIDRRange_inv:
  assumes "net_ok cidr"
  shows "\<exists>r. NewCIDRRange spec cidr = Some r \<and> ip_bitmap_inv r \<and> ips_held bitmap_taken r = {}"
proof -
  have "net_bits cidr - net_ones cidr < 31" using assms unfolding net_ok_def Let_def by blast
  then have "\<not> int (net_bits cidr) - int (net_ones cidr) \<ge> 31" by linarith
  with assms bitmap_inv_new(1) show ?thesis
    by (simp add: NewCIDRRange_def NewAllocatorCIDRRange_def RangeSize_def ips_inv_def ips_held_def bitmap_taken_def
        Let_def) (simp add: NewAllocationMap_def)
qed

text \<open>C29. The node port allocator implements a set of ports out of its range: a port is granted
  exactly if it is in the range and not held, with the documented error otherwise, the next port
  is a free one of the range or the range is full, and releasing gives it back.\<close>

theorem port_allocator_implements_set:
  assumes "port_bitmap_inv r"
  shows "(case PortAllocator_Allocate bitmap_ops p r of
            (None, r') \<Rightarrow> p \<in> ports_pool r - ports_held bitmap_taken r \<and> port_bitmap_inv r' \<and>
                         ports_held bitmap_taken r' = insert p (ports_held bitmap_taken r)
          | (Some e, r') \<Rightarrow> r' = r \<and> (if p \<in> ports_pool r then e = ErrAllocated \<and> p \<in> ports_held bitmap_taken r
                                   else e = ErrNotInRange)) \<and>
         (case PortAllocator_AllocateNext bitmap_ops rnd r of
            (Inr q, r') \<Rightarrow> q \<in> ports_pool r - ports_held bitmap_taken r \<and> port_bitmap_inv r' \<and>
                          ports_held bitmap_taken r' = insert q (ports_held bitmap_taken r)
          | (Inl e, r') \<Rightarrow> e = ErrFull \<and> r' = r \<and> ports_held bitmap_taken r = ports_pool r) \<and>
         (case PortAllocator_Release bitmap_ops p r of
            (e, r') \<Rightarrow> e = None \<and> port_bitmap_inv r' \<and> ports_held bitmap_taken r' = ports_held bitmap_taken r - {p})"
proof -
  have I: "ri_Allocate (port_interface bitmap_ops) = PortAllocator_Allocate bitmap_ops"
    "ri_AllocateNext (port_interface bitmap_ops) = PortAllocator_AllocateNext bitmap_ops"
    "ri_Release (port_interface bitmap_ops) = PortAllocator_Release bitmap_ops"
    by (simp_all add: port_interface_def)
  have "case PortAllocator_Release bitmap_ops p r of
          (e, r') \<Rightarrow> e = None \<and> port_bitmap_inv r' \<and> ports_held bitmap_taken r' = ports_held bitmap_taken r - {p}"
    using bma.ports.release_one [OF assms, unfolded I, of p] by auto
  moreover have "case PortAllocator_AllocateNext bitmap_ops rnd r of
            (Inr q, r') \<Rightarrow> q \<in> ports_pool r - ports_held bitmap_taken r \<and> port_bitmap_inv r' \<and>
                          ports_held bitmap_taken r' = insert q (ports_held bitmap_taken r)
          | (Inl e, r') \<Rightarrow> e = ErrFull \<and> r' = r \<and> ports_held bitmap_taken r = ports_pool r"
    using bma.ports.next_ok [OF assms, unfolded I, of rnd] bma.ports.next_fails [OF assms, unfolded I, of rnd]
      bma.ports.held_in_pool [OF assms]
    by (auto split: prod.splits sum.splits)
  moreover have "case PortAllocator_Allocate bitmap_ops p r of
            (None, r') \<Rightarrow> p \<in> ports_pool r - ports_held bitmap_taken r \<and> port_bitmap_inv r' \<and>
                         ports_held bitmap_taken r' = insert p (ports_held bitmap_taken r)
          | (Some e, r') \<Rightarrow> r' = r \<and> (if p \<in> ports_pool r then e = ErrAllocated \<and> p \<in> ports_held bitmap_taken r
                                   else e = ErrNotInRange)"
    using bma.ports.allocate_ok [OF assms, unfolded I, of p] bma.ports.allocate_fails [OF assms, unfolded I, of p]
      bma.ports.held_in_pool [OF assms]
    by (auto split: prod.splits option.splits)
  ultimately show ?thesis by blast
qed

text \<open>C12. The cluster IP allocator over a usable network implements a set of addresses: an address in
  either of its byte forms is granted exactly if it lies strictly between the network and the
  broadcast address and is not held, the next address is a free one or the range is full, and
  releasing gives the address back.\<close>

theorem ip_allocator_implements_set:
  assumes "ip_bitmap_inv r"
  shows "(case Range_Allocate bitmap_ops ip r of
            (None, r') \<Rightarrow> norm_ip ip \<in> ips_pool r - ips_held bitmap_taken r \<and> ip_bitmap_inv r' \<and>
                         ips_held bitmap_taken r' = insert (norm_ip ip) (ips_held bitmap_taken r)
          | (Some e, r') \<Rightarrow> r' = r \<and> (if norm_ip ip \<in> ips_pool r
                                   then e = ErrAllocated \<and> norm_ip ip \<in> ips_held bitmap_taken r
                                   else e = ErrNotInRange)) \<and>
         (case Range_AllocateNext bitmap_ops rnd r of
            (Inr q, r') \<Rightarrow> norm_ip q \<in> ips_pool r - ips_held bitmap_taken r \<and> ip_bitmap_inv r' \<and>
                          ips_held bitmap_taken r' = insert (norm_ip q) (ips_held bitmap_taken r)
          | (Inl e, r') \<Rightarrow> e = ErrFull \<and> r' = r \<and> ips_held bitmap_taken r = ips_pool r) \<and>
         (case Range_Release bitmap_ops ip r of
            (e, r') \<Rightarrow> e = None \<and> ip_bitmap_inv r' \<and>
                       ips_held bitmap_taken r' = ips_held bitmap_taken r - {norm_ip ip})"
proof -
  have I: "ri_Allocate (ip_interface bitmap_ops) = Range_Allocate bitmap_ops"
    "ri_AllocateNext (ip_interface bitmap_ops) = Range_AllocateNext bitmap_ops"
    "ri_Release (ip_interface bitmap_ops) = Range_Release bitmap_ops"
    by (simp_all add: ip_interface_def)
  have "case Range_Release bitmap_ops ip r of
          (e, r') \<Rightarrow> e = None \<and> ip_bitmap_inv r' \<and>
                     ips_held bitmap_taken r' = ips_held bitmap_taken r - {norm_ip ip}"
    using bma.ips.release_one [OF assms, unfolded I, of ip] by auto
  moreover have "case Range_AllocateNext bitmap_ops rnd r of
            (Inr q, r') \<Rightarrow> norm_ip q \<in> ips_pool r - ips_held bitmap_taken r \<and> ip_bitmap_inv r' \<and>
                          ips_held bitmap_taken r' = insert (norm_ip q) (ips_held bitmap_taken r)
          | (Inl e, r') \<Rightarrow> e = ErrFull \<and> r' = r \<and> ips_held bitmap_taken r = ips_pool r"
    using bma.ips.next_ok [OF assms, unfolded I, of rnd] bma.ips.next_fails [OF assms, unfolded I, of rnd]
      bma.ips.held_in_pool [OF assms]
    by (auto split: prod.splits sum.splits)
  moreover have "case Range_Allocate bitmap_ops ip r of
            (None, r') \<Rightarrow> norm_ip ip \<in> ips_pool r - ips_held bitmap_taken r \<and> ip_bitmap_inv r' \<and>
                         ips_held bitmap_taken r' = insert (norm_ip ip) (ips_held bitmap_taken r)
          | (Some e, r') \<Rightarrow> r' = r \<and> (if norm_ip ip \<in> ips_pool r
                                   then e = ErrAllocated \<and> norm_ip ip \<in> ips_held bitmap_taken r
                                   else e = ErrNotInRange)"
    using bma.ips.allocate_ok [OF assms, unfolded I, of ip] bma.ips.allocate_fails [OF assms, unfolded I, of ip]
      bma.ips.held_in_pool [OF assms]
    by (auto split: prod.splits option.splits)
  ultimately show ?thesis by blast
qed

text \<open>C23. A port allocation transaction is all or nothing: whatever allocations and deferred releases
  it made, finishing without a commit leaves exactly the ports held before it, and a commit
  leaves those plus the ports it allocated minus the ones it deferred, with no errors.\<close>

theorem port_transaction_atomic:
  assumes "port_bitmap_inv s" and "op_calls (port_interface bitmap_ops) calls StartOperation s = (op, s1)"
    and "Operation_Commit (port_interface bitmap_ops) op s1 = (errs, op2, s2)"
  shows "ports_held bitmap_taken (Operation_Finish (port_interface bitmap_ops) op s1) = ports_held bitmap_taken s \<and>
         errs = [] \<and> set (op_allocated op) \<inter> ports_held bitmap_taken s = {} \<and>
         ports_held bitmap_taken (Operation_Finish (port_interface bitmap_ops) op2 s2) =
           ports_held bitmap_taken s \<union> set (op_allocated op) - set (op_releaseDeferred op)"
proof -
  have inv: "bma.ports.op_inv (ports_held bitmap_taken s) op s1" and rb: "op_shouldRollback op"
    using bma.ports.op_inv_calls [OF bma.ports.op_inv_start [OF assms(1)] assms(2)]
    by (simp_all add: StartOperation_def)
  have "set (op_allocated op) \<inter> ports_held bitmap_taken s = {}"
    using inv by (auto simp: bma.ports.op_inv_def)
  moreover have "ports_held bitmap_taken (Operation_Finish (port_interface bitmap_ops) op s1) = ports_held bitmap_taken s"
    using bma.ports.rollback_restores [OF inv] rb by (auto simp: Operation_Finish_def)
  moreover have "errs = [] \<and> ports_held bitmap_taken (Operation_Finish (port_interface bitmap_ops) op2 s2) =
           ports_held bitmap_taken s \<union> set (op_allocated op) - set (op_releaseDeferred op)"
    using bma.ports.commit_releases [OF inv] assms(3) by (auto simp: Operation_Finish_def)
  ultimately show ?thesis by blast
qed

section \<open>Witnesses\<close>

definition example_ports :: "AllocationBitmap PortAllocator" where
  "example_ports = NewPortAllocator \<lparr>pr_Base = 30000, pr_Size = 4\<rparr>"

lemma example_ports_inv: "port_bitmap_inv example_ports" "ports_held bitmap_taken example_ports = {}"
  using NewPortAllocator_inv [of "\<lparr>pr_Base = 30000, pr_Size = 4\<rparr>"] by (simp_all add: example_ports_def)

theorem port_allocator_implements_set_witness:
  "fst (PortAllocator_Allocate bitmap_ops 7 example_ports) = Some ErrNotInRange \<and>
   ports_held bitmap_taken (snd (PortAllocator_Release bitmap_ops 7 example_ports)) = {}"
proof -
  have "7 \<notin> ports_pool example_ports"
    by (simp add: ports_pool_def PortRange_Contains_def example_ports_def NewPortAllocator_def NewPortAllocatorCustom_def)
  with port_allocator_implements_set [OF example_ports_inv(1), of 7 0] show ?thesis
    by (auto simp: example_ports_inv(2) split: prod.splits option.splits)
qed

text \<open>The network 10.0.0.0/24.\<close>

definition example_net :: IPNet where
  "example_net = \<lparr>net_IP = [10, 0, 0, 0], net_ones = 24, net_bits = 32\<rparr>"

lemma example_net_ok: "net_ok example_net"
  by (simp add: net_ok_def example_net_def norm_ip_def To4_def big_SetBytes_def)

theorem ip_allocator_implements_set_witness:
  "fst (Range_Allocate bitmap_ops [10, 0, 0, 0] (the (NewCIDRRange (\<lambda>_. ''net'') example_net))) = Some ErrNotInRange"
proof -
  obtain r where r: "NewCIDRRange (\<lambda>_. ''net'') example_net = Some r" "ip_bitmap_inv r"
    using NewCIDRRange_inv [OF example_net_ok] by blast
  have "norm_ip [10, 0, 0, 0] \<notin> ips_pool r"
    using r(1)
    by (auto simp: ips_pool_def NewCIDRRange_def NewAllocatorCIDRRange_def RangeSize_def example_net_def norm_ip_def
        To4_def bigForIP_def Let_def)
  with ip_allocator_implements_set [OF r(2), of "[10, 0, 0, 0]" 0] r(1) show ?thesis
    by (auto split: prod.splits option.splits)
qed

theorem port_transaction_atomic_witness:
  "ports_held bitmap_taken
     (case op_calls (port_interface bitmap_ops) [CallAllocate 30001, CallAllocateNext 3] StartOperation example_ports of
        (op, s) \<Rightarrow> Operation_Finish (port_interface bitmap_ops) op s) = {}"
proof -
  obtain op s1 where 1: "op_calls (port_interface bitmap_ops) [CallAllocate 30001, CallAllocateNext 3]
      StartOperation example_ports = (op, s1)" by fastforce
  obtain errs op2 s2 where 2: "Operation_Commit (port_interface bitmap_ops) op s1 = (errs, op2, s2)"
    by (metis prod_cases3)
  from port_transaction_atomic [OF example_ports_inv(1) 1 2] show ?thesis
    using 1 by (simp add: example_ports_inv(2))
qed

end
