(* ===== verification/Go_Float.thy ===== *)
theory Go_Float
  imports Go_Prelude "HOL-Library.Log_Nat"
begin

text \<open>
  Go's \<^verbatim>\<open>float64\<close> arithmetic where the code divides by 100: a float is the rational it denotes, and
  every operation rounds its exact result to 53 significant bits, ties to even. Overflow,
  underflow and the special values do not occur on the products of two 64-bit integers for which
  it is used. The signed integer types are integers that wrap around.
\<close>

section \<open>Signed integers\<close>

definition wrap :: "nat \<Rightarrow> int \<Rightarrow> int" where
  "wrap w x = (x + 2 ^ (w - 1)) mod 2 ^ w - 2 ^ (w - 1)"

definition int32 :: "int \<Rightarrow> int" where
  "int32 x = wrap 32 x"

lemma int32_in_range [simp]: "- (2 ^ 31) \<le> x \<Longrightarrow> x < 2 ^ 31 \<Longrightarrow> int32 x = x"
  by (simp add: int32_def wrap_def)

section \<open>Rounding\<close>

definition round_even :: "rat \<Rightarrow> int" where
  "round_even r =
     (let f = \<lfloor>r\<rfloor>; d = r - of_int f
      in if d < 1 / 2 then f else if d > 1 / 2 then f + 1 else if even f then f else f + 1)"

text \<open>The \<open>e\<close> with \<open>2 ^ e \<le> q < 2 ^ (e + 1)\<close>.\<close>

definition exponent :: "rat \<Rightarrow> int" where
  "exponent q = (if q \<ge> 1 then int (floorlog 2 (nat \<lfloor>q\<rfloor>)) - 1 else - int (floorlog 2 (nat (\<lceil>1 / q\<rceil> - 1))))"

definition ulp :: "rat \<Rightarrow> rat" where
  "ulp q = 2 powi (exponent q - 52)"

definition float64 :: "rat \<Rightarrow> rat" where
  "float64 q =
     (if q = 0 then 0
      else if q < 0 then - (of_int (round_even (- q / ulp (- q))) * ulp (- q))
      else of_int (round_even (q / ulp q)) * ulp q)"

definition float_mult :: "rat \<Rightarrow> rat \<Rightarrow> rat" where "float_mult a b = float64 (a * b)"
definition float_div :: "rat \<Rightarrow> rat \<Rightarrow> rat" where "float_div a b = float64 (a / b)"

section \<open>Exactness\<close>

lemma round_even_of_int [simp]: "round_even (of_int n) = n"
  by (simp add: round_even_def)

lemma round_even_error: "\<bar>of_int (round_even r) - r\<bar> \<le> 1 / 2"
proof -
  define f where "f = \<lfloor>r\<rfloor>"
  have "of_int f \<le> r" "r < of_int f + 1" unfolding f_def by linarith+
  then show ?thesis unfolding round_even_def f_def [symmetric] Let_def by (auto simp: abs_if not_less)
qed

lemma ulp_pos [simp]: "0 < ulp q"
  by (simp add: ulp_def)

lemma ulp_nonzero [simp]: "ulp q \<noteq> 0"
  using ulp_pos [of q] by linarith

lemma exponent_ge_1:
  assumes "1 \<le> q" and "q < 2 ^ n"
  shows "0 \<le> exponent q" and "exponent q < int n"
proof -
  have f: "1 \<le> nat \<lfloor>q\<rfloor>" "nat \<lfloor>q\<rfloor> < 2 ^ n"
  proof -
    have "1 \<le> \<lfloor>q\<rfloor>" using assms(1) by simp
    moreover have "\<lfloor>q\<rfloor> < 2 ^ n" using assms(2) by (simp add: floor_less_iff)
    ultimately show "1 \<le> nat \<lfloor>q\<rfloor>" "nat \<lfloor>q\<rfloor> < 2 ^ n" by (linarith, simp add: nat_less_iff)
  qed
  have "0 < floorlog 2 (nat \<lfloor>q\<rfloor>)" using f(1) assms(1) by (simp add: floorlog_def)
  moreover have "floorlog 2 (nat \<lfloor>q\<rfloor>) \<le> n" using f(2) by (simp add: floorlog_le_iff)
  ultimately show "0 \<le> exponent q" "exponent q < int n" using assms(1) by (simp_all add: exponent_def)
qed

lemma exponent_lt_1: "0 < q \<Longrightarrow> q < 1 \<Longrightarrow> exponent q \<le> 0"
  by (simp add: exponent_def)

lemma float64_error:
  assumes "0 < q"
  shows "\<bar>float64 q - q\<bar> \<le> ulp q / 2"
proof -
  have "float64 q - q = (of_int (round_even (q / ulp q)) - q / ulp q) * ulp q"
    using assms by (simp add: float64_def algebra_simps)
  then have "\<bar>float64 q - q\<bar> = \<bar>of_int (round_even (q / ulp q)) - q / ulp q\<bar> * ulp q"
    by (simp add: abs_mult less_imp_le)
  also have "\<dots> \<le> 1 / 2 * ulp q" by (intro mult_right_mono round_even_error) (simp add: less_imp_le)
  finally show ?thesis by simp
qed

lemma float64_int:
  assumes "0 \<le> n" and "n < 2 ^ 53"
  shows "float64 (of_int n) = of_int n"
proof (cases "n = 0")
  case False
  define e where "e = exponent (of_int n)"
  have e: "0 \<le> e" "e < 53" using exponent_ge_1 [of "of_int n" 53] False assms by (simp_all add: e_def)
  have u: "of_int n / ulp (of_int n) = (of_int (n * 2 ^ nat (52 - e)) :: rat)"
  proof -
    have "ulp (of_int n :: rat) = inverse (2 ^ nat (52 - e))"
      using e by (auto simp: ulp_def e_def [symmetric] power_int_def power_one_over inverse_eq_divide)
    then show ?thesis by (simp add: divide_inverse)
  qed
  then have "float64 (of_int n) = of_int (n * 2 ^ nat (52 - e)) * ulp (of_int n)"
    using False assms(1) by (simp add: float64_def u del: of_int_mult)
  also have "\<dots> = of_int n / ulp (of_int n) * ulp (of_int n)" by (simp only: u)
  finally show ?thesis by simp
qed (simp add: float64_def)

text \<open>The quotient of an integer below \<open>2 ^ 53\<close> and 100 is off by less than one hundredth.\<close>

lemma float64_hundredth:
  assumes "0 < n" and "n < 2 ^ 53"
  shows "\<bar>float64 (of_int n / 100) - of_int n / 100\<bar> < 1 / 100"
proof -
  define q :: rat where "q = of_int n / 100"
  have "0 < q" "q < 2 ^ 47" using assms by (simp_all add: q_def)
  then have "exponent q \<le> 46"
    using exponent_ge_1(2) [of q 47] exponent_lt_1 [of q] by (cases "1 \<le> q") force+
  then have "ulp q \<le> 2 powi (- 6)" unfolding ulp_def by (intro power_int_increasing) auto
  then have "ulp q / 2 < 1 / 100" by (simp add: power_int_def power_divide)
  then show ?thesis using float64_error [OF \<open>0 < q\<close>] unfolding q_def by linarith
qed

lemma float64_percent:
  assumes "0 \<le> n" and "n < 2 ^ 53"
  shows "\<lfloor>float64 (of_int n / 100)\<rfloor> = n div 100" and "\<lceil>float64 (of_int n / 100)\<rceil> = - (- n div 100)"
proof -
  define k r where "k = n div 100" and "r = n mod 100"
  define x where "x = float64 (of_int n / 100)"
  have n: "n = 100 * k + r" "0 \<le> r" "r < 100" by (simp_all add: k_def r_def)
  have "\<lfloor>x\<rfloor> = k \<and> \<lceil>x\<rceil> = - (- n div 100)"
  proof (cases "r = 0")
    case True
    have "x = float64 (of_int k)" using n True by (simp add: x_def)
    also have "\<dots> = of_int k" using n True assms by (intro float64_int) auto
    finally show ?thesis using n True by simp
  next
    case False
    have r: "1 \<le> r" using n(2) False by simp
    have "n \<noteq> 0" using False by (auto simp: r_def)
    then have "0 < n" using assms(1) by simp
    then have "\<bar>x - of_int n / 100\<bar> < 1 / 100" unfolding x_def by (rule float64_hundredth) (rule assms(2))
    moreover have "(of_int n :: rat) = 100 * of_int k + of_int r" using n by simp
    moreover have "1 \<le> (of_int r :: rat)" "(of_int r :: rat) \<le> 99" using n False by linarith+
    ultimately have "of_int k < x" "x < of_int k + 1" unfolding abs_less_iff by linarith+
    then have "\<lfloor>x\<rfloor> = k" "\<lceil>x\<rceil> = k + 1" by (simp_all add: floor_eq_iff ceiling_eq_iff less_imp_le)
    moreover have "- n = 100 * (- k - 1) + (100 - r)" using n(1) by simp
    then have "- n div 100 = - k - 1" by (rule int_div_pos_eq) (use n(3) r in simp_all)
    ultimately show ?thesis by simp
  qed
  then show "\<lfloor>float64 (of_int n / 100)\<rfloor> = n div 100" "\<lceil>float64 (of_int n / 100)\<rceil> = - (- n div 100)"
    by (simp_all add: x_def k_def)
qed

end
