(* ===== verification/Service_REST.thy ===== *)
theory Service_REST
  imports Service_Allocators Go_Float
begin

text \<open>
  The REST storage of services, src/pkg/registry/service/rest.go: Create, Update and Delete with
  the cluster IP and node port bookkeeping, and the helpers of src/pkg/api/helpers.go they use.

  The allocators are dictionaries of the two interfaces; what the handlers get from elsewhere
  (the registry of services, the endpoints registry, \<^verbatim>\<open>rest.BeforeCreate\<close>, validation) is the
  record \<open>REST_env\<close>. \<^verbatim>\<open>Spec.ClusterIP\<close> is a string that is empty, \<^verbatim>\<open>None\<close> or an address in textual
  form; it is modelled by what it says. Deferred calls run at every return, in reverse order.
\<close>

section \<open>Services\<close>

datatype ServiceType =
    ServiceTypeClusterIP
  | ServiceTypeNodePort
  | ServiceTypeLoadBalancer
  | ServiceTypeNetworkProvider
  | UnknownServiceType string

datatype 'ip ClusterIP = ClusterIPEmpty | ClusterIPNone | ClusterIPAddr 'ip

record ServicePort =
  sp_Name :: string
  sp_Port :: int
  sp_NodePort :: int

record 'ip Service =
  svc_Name :: string
  svc_Type :: ServiceType
  svc_ClusterIP :: "'ip ClusterIP"
  svc_Ports :: "ServicePort list"
  svc_LoadBalancer :: "string list"

definition IsServiceIPSet :: "'ip Service \<Rightarrow> bool" where
  "IsServiceIPSet svc \<longleftrightarrow> svc_ClusterIP svc \<noteq> ClusterIPNone \<and> svc_ClusterIP svc \<noteq> ClusterIPEmpty"

definition IsServiceIPRequested :: "'ip Service \<Rightarrow> bool" where
  "IsServiceIPRequested svc \<longleftrightarrow> svc_ClusterIP svc = ClusterIPEmpty"

definition contains :: "int list \<Rightarrow> int \<Rightarrow> bool" where
  "contains haystack needle = list_ex (\<lambda>v. v = needle) haystack"

definition CollectServiceNodePorts :: "'ip Service \<Rightarrow> int list" where
  "CollectServiceNodePorts svc = filter (\<lambda>np. np \<noteq> 0) (map sp_NodePort (svc_Ports svc))"

definition shouldAssignNodePorts :: "'ip Service \<Rightarrow> bool" where
  "shouldAssignNodePorts svc =
     (case svc_Type svc of
        ServiceTypeLoadBalancer \<Rightarrow> True
      | ServiceTypeNodePort \<Rightarrow> True
      | ServiceTypeClusterIP \<Rightarrow> False
      | ServiceTypeNetworkProvider \<Rightarrow> False
      | UnknownServiceType _ \<Rightarrow> False)"

section \<open>The handlers\<close>

datatype 'e rest_error =
    RestError 'e
  | FailedServiceIP alloc_error
  | InvalidClusterIP alloc_error
  | InvalidNodePort nat alloc_error
  | FailedNodePort alloc_error
  | NamespaceConflict

record ('ip, 'i, 'p, 'g, 'e) REST_env =
  en_ips :: "('ip, 'i) ResourceInterface"
  en_ports :: "(int, 'p) ResourceInterface"
  en_BeforeCreate :: "'ip Service \<Rightarrow> ('e, 'ip Service) result"
  en_CreateService :: "'ip Service \<Rightarrow> 'g \<Rightarrow> ('e, 'ip Service) result \<times> 'g"
  en_CheckGeneratedName :: "'ip Service \<Rightarrow> 'e \<Rightarrow> 'e"
  en_GetService :: "string \<Rightarrow> 'g \<Rightarrow> ('e, 'ip Service) result"
  en_UpdateService :: "'ip Service \<Rightarrow> 'g \<Rightarrow> ('e, 'ip Service) result \<times> 'g"
  en_DeleteService :: "string \<Rightarrow> 'g \<Rightarrow> 'e option \<times> 'g"
  en_DeleteEndpoints :: "string \<Rightarrow> 'g \<Rightarrow> 'e option \<times> 'g"
  en_IsNotFound :: "'e \<Rightarrow> bool"
  en_UpdatedObject :: "'ip Service \<Rightarrow> ('e, 'ip Service) result"
  en_ValidNamespace :: "'ip Service \<Rightarrow> bool"
  en_ValidateUpdate :: "'ip Service \<Rightarrow> 'ip Service \<Rightarrow> 'e option"

record ('i, 'p, 'g) REST =
  rs_registry :: 'g
  rs_serviceIPs :: 'i
  rs_serviceNodePorts :: 'p

text \<open>The part of Create that takes the cluster IP: the service with its address and the flag
  \<^verbatim>\<open>releaseServiceIP\<close>.\<close>

definition create_ip ::
  "('ip, 'i) ResourceInterface \<Rightarrow> nat \<Rightarrow> 'ip Service \<Rightarrow> 'i
     \<Rightarrow> ('e rest_error, 'ip Service \<times> bool) result \<times> 'i" where
  "create_ip I rnd svc i =
     (if IsServiceIPRequested svc then
        (case ri_AllocateNext I rnd i of
           (Inl err, i') \<Rightarrow> (Inl (FailedServiceIP err), i')
         | (Inr ip, i') \<Rightarrow> (Inr (svc\<lparr>svc_ClusterIP := ClusterIPAddr ip\<rparr>, True), i'))
      else
        case svc_ClusterIP svc of
          ClusterIPAddr ip \<Rightarrow>
            (case ri_Allocate I ip i of
               (Some err, i') \<Rightarrow> (Inl (InvalidClusterIP err), i')
             | (None, i') \<Rightarrow> (Inr (svc, True), i'))
        | _ \<Rightarrow> (Inr (svc, False), i))"

text \<open>The loop of Create over the ports; \<open>i\<close> is the index and \<open>rnds\<close> the random draws.\<close>

fun create_ports ::
  "(int, 'p) ResourceInterface \<Rightarrow> bool \<Rightarrow> (nat \<Rightarrow> nat) \<Rightarrow> nat \<Rightarrow> ServicePort list
     \<Rightarrow> int portAllocationOperation \<Rightarrow> 'p
     \<Rightarrow> ('e rest_error, ServicePort list) result \<times> int portAllocationOperation \<times> 'p" where
  "create_ports I assignNodePorts rnds i [] op s = (Inr [], op, s)"
| "create_ports I assignNodePorts rnds i (servicePort # ports) op s =
     (let continue = (\<lambda>sp op s.
            case create_ports I assignNodePorts rnds (Suc i) ports op s of
              (Inl err, op', s') \<Rightarrow> (Inl err, op', s')
            | (Inr sps, op', s') \<Rightarrow> (Inr (sp # sps), op', s'))
      in if sp_NodePort servicePort \<noteq> 0 then
           (case Operation_Allocate I (sp_NodePort servicePort) op s of
              (Some err, op', s') \<Rightarrow> (Inl (InvalidNodePort i err), op', s')
            | (None, op', s') \<Rightarrow> continue servicePort op' s')
         else if assignNodePorts then
           (case Operation_AllocateNext I (rnds i) op s of
              (Inl err, op', s') \<Rightarrow> (Inl (FailedNodePort err), op', s')
            | (Inr nodePort, op', s') \<Rightarrow> continue (servicePort\<lparr>sp_NodePort := int32 nodePort\<rparr>) op' s')
         else continue servicePort op s)"

text \<open>The deferred calls: first \<^verbatim>\<open>nodePortOp.Finish\<close>, then the release of the address.\<close>

definition create_exit ::
  "('ip, 'i, 'p, 'g, 'e) REST_env \<Rightarrow> bool \<Rightarrow> 'ip Service \<Rightarrow> int portAllocationOperation \<Rightarrow> ('i, 'p, 'g) REST
     \<Rightarrow> ('i, 'p, 'g) REST" where
  "create_exit en releaseServiceIP svc op rs =
     (let rs' = rs\<lparr>rs_serviceNodePorts := Operation_Finish (en_ports en) op (rs_serviceNodePorts rs)\<rparr>
      in if releaseServiceIP then
           (case svc_ClusterIP svc of
              ClusterIPAddr ip \<Rightarrow> rs'\<lparr>rs_serviceIPs := snd (ri_Release (en_ips en) ip (rs_serviceIPs rs'))\<rparr>
            | _ \<Rightarrow> rs')
         else rs')"

text \<open>Create from the port loop on: node ports, the registry, the commit.\<close>

definition create_store ::
  "('ip, 'i, 'p, 'g, 'e) REST_env \<Rightarrow> (nat \<Rightarrow> nat) \<Rightarrow> bool \<Rightarrow> 'ip Service \<Rightarrow> ('i, 'p, 'g) REST
     \<Rightarrow> ('e rest_error, 'ip Service) result \<times> ('i, 'p, 'g) REST" where
  "create_store en rnds releaseServiceIP svc rs =
     (case create_ports (en_ports en) (shouldAssignNodePorts svc) rnds 0 (svc_Ports svc) StartOperation
             (rs_serviceNodePorts rs) of
        (Inl err, op, p) \<Rightarrow>
          (Inl err, create_exit en releaseServiceIP svc op (rs\<lparr>rs_serviceNodePorts := p\<rparr>))
      | (Inr ports, op, p) \<Rightarrow>
          let svc' = svc\<lparr>svc_Ports := ports\<rparr>
          in case en_CreateService en svc' (rs_registry rs) of
               (Inl err, g) \<Rightarrow>
                 (Inl (RestError (en_CheckGeneratedName en svc' err)),
                  create_exit en releaseServiceIP svc' op (rs\<lparr>rs_serviceNodePorts := p, rs_registry := g\<rparr>))
             | (Inr out, g) \<Rightarrow>
                 let (errs, op', p') = Operation_Commit (en_ports en) op p
                 in (Inr out, create_exit en False svc' op' (rs\<lparr>rs_serviceNodePorts := p', rs_registry := g\<rparr>)))"

definition REST_Create ::
  "('ip, 'i, 'p, 'g, 'e) REST_env \<Rightarrow> nat \<Rightarrow> (nat \<Rightarrow> nat) \<Rightarrow> 'ip Service \<Rightarrow> ('i, 'p, 'g) REST
     \<Rightarrow> ('e rest_error, 'ip Service) result \<times> ('i, 'p, 'g) REST" where
  "REST_Create en rnd rnds obj rs =
     (case en_BeforeCreate en obj of
        Inl err \<Rightarrow> (Inl (RestError err), rs)
      | Inr svc \<Rightarrow>
          (case create_ip (en_ips en) rnd svc (rs_serviceIPs rs) of
             (Inl err, i) \<Rightarrow> (Inl err, create_exit en False svc StartOperation (rs\<lparr>rs_serviceIPs := i\<rparr>))
           | (Inr (svc', releaseServiceIP), i) \<Rightarrow>
               create_store en rnds releaseServiceIP svc' (rs\<lparr>rs_serviceIPs := i\<rparr>)))"

text \<open>Delete; its last loop logs the errors of the releases and goes on.\<close>

definition REST_Delete ::
  "('ip, 'i, 'p, 'g, 'e) REST_env \<Rightarrow> string \<Rightarrow> ('i, 'p, 'g) REST \<Rightarrow> 'e option \<times> ('i, 'p, 'g) REST" where
  "REST_Delete en name rs =
     (case en_GetService en name (rs_registry rs) of
        Inl err \<Rightarrow> (Some err, rs)
      | Inr svc \<Rightarrow>
          (case en_DeleteService en name (rs_registry rs) of
             (Some err, g) \<Rightarrow> (Some err, rs\<lparr>rs_registry := g\<rparr>)
           | (None, g) \<Rightarrow>
               (case en_DeleteEndpoints en name g of (err, g') \<Rightarrow>
                  let rs1 = rs\<lparr>rs_registry := g'\<rparr> in
                  if (case err of None \<Rightarrow> False | Some e \<Rightarrow> \<not> en_IsNotFound en e) then (err, rs1)
                  else
                    let rs2 = (case svc_ClusterIP svc of
                                 ClusterIPAddr ip \<Rightarrow>
                                   rs1\<lparr>rs_serviceIPs := snd (ri_Release (en_ips en) ip (rs_serviceIPs rs1))\<rparr>
                               | _ \<Rightarrow> rs1)
                    in (None, rs2\<lparr>rs_serviceNodePorts :=
                                   snd (release_all (en_ports en) (CollectServiceNodePorts svc)
                                          (rs_serviceNodePorts rs2))\<rparr>))))"

text \<open>The loop of Update over the ports. A duplicate node port panics.\<close>

datatype ('e, 'a) outcome = Panicked | Failed 'e | Finished 'a

fun update_ports ::
  "(int, 'p) ResourceInterface \<Rightarrow> (nat \<Rightarrow> nat) \<Rightarrow> nat \<Rightarrow> int list \<Rightarrow> ServicePort list \<Rightarrow> int list
     \<Rightarrow> int portAllocationOperation \<Rightarrow> 'p
     \<Rightarrow> ('e rest_error, ServicePort list \<times> int list) outcome \<times> int portAllocationOperation \<times> 'p" where
  "update_ports I rnds i oldNodePorts [] newNodePorts op s = (Finished ([], newNodePorts), op, s)"
| "update_ports I rnds i oldNodePorts (servicePort # ports) newNodePorts op s =
     (let continue = (\<lambda>nodePort sp op s.
            if contains newNodePorts nodePort then (Panicked, op, s)
            else case update_ports I rnds (Suc i) oldNodePorts ports (newNodePorts @ [nodePort]) op s of
                   (Finished (sps, new), op', s') \<Rightarrow> (Finished (sp # sps, new), op', s')
                 | (Failed err, op', s') \<Rightarrow> (Failed err, op', s')
                 | (Panicked, op', s') \<Rightarrow> (Panicked, op', s'));
          nodePort = sp_NodePort servicePort
      in if nodePort \<noteq> 0 then
           if \<not> contains oldNodePorts nodePort then
             (case Operation_Allocate I nodePort op s of
                (Some err, op', s') \<Rightarrow> (Failed (InvalidNodePort i err), op', s')
              | (None, op', s') \<Rightarrow> continue nodePort servicePort op' s')
           else continue nodePort servicePort op s
         else
           (case Operation_AllocateNext I (rnds i) op s of
              (Inl err, op', s') \<Rightarrow> (Failed (FailedNodePort err), op', s')
            | (Inr np, op', s') \<Rightarrow> continue np (servicePort\<lparr>sp_NodePort := int32 np\<rparr>) op' s'))"

text \<open>The loop that marks old node ports for release when the update commits.\<close>

definition defer_releases ::
  "int list \<Rightarrow> int list \<Rightarrow> int portAllocationOperation \<Rightarrow> int portAllocationOperation" where
  "defer_releases oldNodePorts newNodePorts op =
     foldl (\<lambda>op oldNodePort.
              if \<not> contains newNodePorts oldNodePort then op
              else Operation_ReleaseDeferred oldNodePort op) op oldNodePorts"

text \<open>Update from the node ports on; the deferred call is \<^verbatim>\<open>nodePortOp.Finish\<close>.\<close>

definition update_exit ::
  "('ip, 'i, 'p, 'g, 'e) REST_env \<Rightarrow> int portAllocationOperation \<Rightarrow> 'p \<Rightarrow> 'g \<Rightarrow> ('i, 'p, 'g) REST \<Rightarrow> ('i, 'p, 'g) REST" where
  "update_exit en op p g rs =
     rs\<lparr>rs_serviceNodePorts := Operation_Finish (en_ports en) op p, rs_registry := g\<rparr>"

definition update_store ::
  "('ip, 'i, 'p, 'g, 'e) REST_env \<Rightarrow> (nat \<Rightarrow> nat) \<Rightarrow> 'ip Service \<Rightarrow> 'ip Service \<Rightarrow> ('i, 'p, 'g) REST
     \<Rightarrow> ('e rest_error, 'ip Service) outcome \<times> ('i, 'p, 'g) REST" where
  "update_store en rnds oldService svc rs =
     (let oldNodePorts = CollectServiceNodePorts oldService;
          loop = (if shouldAssignNodePorts svc
                  then update_ports (en_ports en) rnds 0 oldNodePorts (svc_Ports svc) [] StartOperation
                         (rs_serviceNodePorts rs)
                  else (Finished (svc_Ports svc, []), StartOperation, rs_serviceNodePorts rs))
      in case loop of
           (Panicked, op, p) \<Rightarrow> (Panicked, update_exit en op p (rs_registry rs) rs)
         | (Failed err, op, p) \<Rightarrow> (Failed err, update_exit en op p (rs_registry rs) rs)
         | (Finished (ports, newNodePorts), op, p) \<Rightarrow>
             let svc1 = svc\<lparr>svc_Ports := ports\<rparr>;
                 op1 = defer_releases oldNodePorts newNodePorts op;
                 svc2 = (if svc_Type svc1 \<noteq> ServiceTypeLoadBalancer \<and> svc_Type svc1 \<noteq> ServiceTypeNetworkProvider
                         then svc1\<lparr>svc_LoadBalancer := []\<rparr> else svc1)
             in case en_UpdateService en svc2 (rs_registry rs) of
                  (Inl err, g) \<Rightarrow> (Failed (RestError err), update_exit en op1 p g rs)
                | (Inr out, g) \<Rightarrow>
                    let (errs, op2, p2) = Operation_Commit (en_ports en) op1 p
                    in (Finished out, update_exit en op2 p2 g rs))"

definition REST_Update ::
  "('ip, 'i, 'p, 'g, 'e) REST_env \<Rightarrow> (nat \<Rightarrow> nat) \<Rightarrow> string \<Rightarrow> ('i, 'p, 'g) REST
     \<Rightarrow> ('e rest_error, 'ip Service) outcome \<times> ('i, 'p, 'g) REST" where
  "REST_Update en rnds name rs =
     (case en_GetService en name (rs_registry rs) of
        Inl err \<Rightarrow> (Failed (RestError err), rs)
      | Inr oldService \<Rightarrow>
     (case en_UpdatedObject en oldService of
        Inl err \<Rightarrow> (Failed (RestError err), rs)
      | Inr svc \<Rightarrow>
     if \<not> en_ValidNamespace en svc then (Failed NamespaceConflict, rs)
     else
     (case en_ValidateUpdate en svc oldService of
        Some err \<Rightarrow> (Failed (RestError err), rs)
      | None \<Rightarrow> update_store en rnds oldService svc rs)))"

section \<open>The port loops over any port allocator\<close>

lemma contains_set [simp]: "contains xs x \<longleftrightarrow> x \<in> set xs"
  by (auto simp: contains_def list_ex_iff)

locale port_contract = resource_allocator I invar "\<lambda>p. p" held pool
  for I :: "(int, 's) ResourceInterface" and invar :: "'s \<Rightarrow> bool" and held :: "'s \<Rightarrow> int set"
    and pool :: "'s \<Rightarrow> int set"
begin

lemma op_allocate_cases:
  assumes "op_inv h op s" and "Operation_Allocate I p op s = (err, op', s')"
  shows "op_inv h op' s' \<and> pool s' = pool s \<and> op_releaseDeferred op' = op_releaseDeferred op \<and>
         op_shouldRollback op' = op_shouldRollback op \<and>
         (err = None \<longrightarrow> op_allocated op' = op_allocated op @ [p])"
  using op_inv_allocate [OF assms] by auto

lemma op_next_cases:
  assumes "op_inv h op s" and "Operation_AllocateNext I rnd op s = (res, op', s')"
  shows "op_inv h op' s' \<and> pool s' = pool s \<and> op_releaseDeferred op' = op_releaseDeferred op \<and>
         op_shouldRollback op' = op_shouldRollback op \<and>
         (\<forall>p. res = Inr p \<longrightarrow> op_allocated op' = op_allocated op @ [p] \<and> p \<in> pool s - held s)"
proof -
  have inv: "invar s" using assms(1) by (simp add: op_inv_def)
  have "p \<in> pool s - held s" if "res = Inr p" for p
    using assms(2) that next_ok [OF inv, of rnd p]
    by (auto simp: Operation_AllocateNext_def split: prod.splits sum.splits)
  with op_inv_next [OF assms] show ?thesis by auto
qed

lemma create_ports_spec:
  fixes res :: "('e rest_error, ServicePort list) result"
  shows "op_inv h op s \<Longrightarrow> pool s \<subseteq> {0<..<2 ^ 31} \<Longrightarrow> create_ports I asg rnds i ports op s = (res, op', s') \<Longrightarrow>
     op_inv h op' s' \<and> pool s' = pool s \<and> op_releaseDeferred op' = op_releaseDeferred op \<and>
     op_shouldRollback op' = op_shouldRollback op \<and>
     (\<forall>sps. res = Inr sps \<longrightarrow>
        set (op_allocated op') = set (op_allocated op) \<union> {np \<in> sp_NodePort ` set sps. np \<noteq> 0})"
proof (induction ports arbitrary: i op s res)
  case (Cons sp ports)
  have continue: "op_inv h op' s' \<and> pool s' = pool s \<and> op_releaseDeferred op' = op_releaseDeferred op \<and>
      op_shouldRollback op' = op_shouldRollback op \<and>
      (\<forall>sps. res = Inr sps \<longrightarrow>
         set (op_allocated op') = set (op_allocated op) \<union> {np \<in> sp_NodePort ` set sps. np \<noteq> 0})"
    if step: "op_inv h op1 s1" "pool s1 = pool s" "op_releaseDeferred op1 = op_releaseDeferred op"
        "op_shouldRollback op1 = op_shouldRollback op"
        "set (op_allocated op1) = set (op_allocated op) \<union> {np \<in> {sp_NodePort sp1}. np \<noteq> 0}"
      and tail: "(case create_ports I asg rnds (Suc i) ports op1 s1 of
            (Inl err, op', s') \<Rightarrow> (Inl err, op', s') | (Inr sps, op', s') \<Rightarrow> (Inr (sp1 # sps), op', s')) = (res, op', s')"
    for sp1 op1 s1
  proof -
    obtain r2 :: "('e rest_error, ServicePort list) result" and op2 s2 where t: "create_ports I asg rnds (Suc i) ports op1 s1 = (r2, op2, s2)" by (metis prod_cases3)
    with tail have "op2 = op'" "s2 = s'" by (auto split: sum.splits)
    with Cons.IH [OF step(1) _ t [unfolded this]] Cons.prems(2) step(2) t tail step(3-5)
    show ?thesis by (auto split: sum.splits)
  qed
  show ?case
  proof (cases "sp_NodePort sp \<noteq> 0")
    case True
    obtain err op1 s1 where a: "Operation_Allocate I (sp_NodePort sp) op s = (err, op1, s1)" by (metis prod_cases3)
    show ?thesis
    proof (cases err)
      case None
      with True a Cons.prems(3) op_allocate_cases [OF Cons.prems(1) a] show ?thesis
        by (intro continue [of op1 s1 sp]) auto
    next
      case (Some e)
      with True a Cons.prems(3) op_allocate_cases [OF Cons.prems(1) a] show ?thesis by auto
    qed
  next
    case zero: False
    show ?thesis
    proof (cases asg)
      case True
      obtain r op1 s1 where a: "Operation_AllocateNext I (rnds i) op s = (r, op1, s1)" by (metis prod_cases3)
      show ?thesis
      proof (cases r)
        case (Inl e)
        with zero True a Cons.prems(3) op_next_cases [OF Cons.prems(1) a] show ?thesis by auto
      next
        case (Inr p)
        with op_next_cases [OF Cons.prems(1) a] Cons.prems(2) have p: "0 < p" "p < 2 ^ 31" by auto
        with zero True a Inr Cons.prems(3) op_next_cases [OF Cons.prems(1) a] show ?thesis
          by (intro continue [of op1 s1 "sp\<lparr>sp_NodePort := int32 p\<rparr>"]) auto
      qed
    next
      case False
      with zero Cons.prems show ?thesis by (intro continue [of op s sp]) auto
    qed
  qed
qed auto

lemma update_ports_spec:
  fixes res :: "('e rest_error, ServicePort list \<times> int list) outcome"
  shows "op_inv h op s \<Longrightarrow> pool s \<subseteq> {0<..<2 ^ 31} \<Longrightarrow> set old \<subseteq> h \<Longrightarrow>
     update_ports I rnds i old ports new op s = (res, op', s') \<Longrightarrow>
     op_inv h op' s' \<and> pool s' = pool s \<and> op_releaseDeferred op' = op_releaseDeferred op \<and>
     op_shouldRollback op' = op_shouldRollback op \<and>
     (\<forall>sps new'. res = Finished (sps, new') \<longrightarrow>
        new' = new @ map sp_NodePort sps \<and>
        set (op_allocated op') = set (op_allocated op) \<union> (sp_NodePort ` set sps - set old))"
proof (induction ports arbitrary: i op s res new)
  case (Cons sp ports)
  have continue: "op_inv h op' s' \<and> pool s' = pool s \<and> op_releaseDeferred op' = op_releaseDeferred op \<and>
      op_shouldRollback op' = op_shouldRollback op \<and>
      (\<forall>sps new'. res = Finished (sps, new') \<longrightarrow>
        new' = new @ map sp_NodePort sps \<and>
        set (op_allocated op') = set (op_allocated op) \<union> (sp_NodePort ` set sps - set old))"
    if step: "op_inv h op1 s1" "pool s1 = pool s" "op_releaseDeferred op1 = op_releaseDeferred op"
        "op_shouldRollback op1 = op_shouldRollback op" "np = sp_NodePort sp1"
        "set (op_allocated op1) = set (op_allocated op) \<union> ({np} - set old)"
      and tail: "(if np \<in> set new then (Panicked, op1, s1)
            else case update_ports I rnds (Suc i) old ports (new @ [np]) op1 s1 of
                   (Finished (sps, new), op', s') \<Rightarrow> (Finished (sp1 # sps, new), op', s')
                 | (Failed err, op', s') \<Rightarrow> (Failed err, op', s')
                 | (Panicked, op', s') \<Rightarrow> (Panicked, op', s')) = (res, op', s')"
    for sp1 op1 s1 np
  proof (cases "np \<in> set new")
    case True
    with tail step show ?thesis by auto
  next
    case False
    obtain r2 :: "('e rest_error, ServicePort list \<times> int list) outcome" and op2 s2
      where t: "update_ports I rnds (Suc i) old ports (new @ [np]) op1 s1 = (r2, op2, s2)" by (metis prod_cases3)
    with tail False have "op2 = op'" "s2 = s'" by (auto split: outcome.splits)
    with Cons.IH [OF step(1) _ Cons.prems(3) t [unfolded this]] Cons.prems(2) step(2) t tail step(3-6) False
    show ?thesis by (auto split: outcome.splits)
  qed
  have h: "h \<subseteq> held s" using Cons.prems(1) by (auto simp: op_inv_def)
  show ?case
  proof (cases "sp_NodePort sp \<noteq> 0")
    case nz: True
    show ?thesis
    proof (cases "sp_NodePort sp \<in> set old")
      case True
      with nz Cons.prems show ?thesis by (intro continue [of op s "sp_NodePort sp" sp]) auto
    next
      case new: False
      obtain err op1 s1 where a: "Operation_Allocate I (sp_NodePort sp) op s = (err, op1, s1)" by (metis prod_cases3)
      show ?thesis
      proof (cases err)
        case None
        with nz new a Cons.prems(4) op_allocate_cases [OF Cons.prems(1) a] show ?thesis
          by (intro continue [of op1 s1 "sp_NodePort sp" sp]) auto
      next
        case (Some e)
        with nz new a Cons.prems(4) op_allocate_cases [OF Cons.prems(1) a] show ?thesis by auto
      qed
    qed
  next
    case zero: False
    obtain r op1 s1 where a: "Operation_AllocateNext I (rnds i) op s = (r, op1, s1)" by (metis prod_cases3)
    show ?thesis
    proof (cases r)
      case (Inl e)
      with zero a Cons.prems(4) op_next_cases [OF Cons.prems(1) a] show ?thesis by auto
    next
      case (Inr p)
      with op_next_cases [OF Cons.prems(1) a] Cons.prems(2,3) h have p: "0 < p" "p < 2 ^ 31" "p \<notin> set old" by auto
      with zero a Inr Cons.prems(4) op_next_cases [OF Cons.prems(1) a] show ?thesis
        by (intro continue [of op1 s1 p "sp\<lparr>sp_NodePort := int32 p\<rparr>"]) auto
    qed
  qed
qed auto

lemma defer_releases_spec:
  "op_allocated (defer_releases old new op) = op_allocated op \<and>
   op_shouldRollback (defer_releases old new op) = op_shouldRollback op \<and>
   set (op_releaseDeferred (defer_releases old new op)) = set (op_releaseDeferred op) \<union> (set old \<inter> set new)"
  unfolding defer_releases_def
  by (induction old arbitrary: op) (auto simp: Operation_ReleaseDeferred_def)

end

interpretation bpc: port_contract "port_interface bitmap_ops" port_bitmap_inv "ports_held bitmap_taken" ports_pool
  by (rule port_contract.intro) (rule bma.ports.resource_allocator_axioms)

section \<open>Accounting of addresses and ports\<close>

abbreviation ips_in_use :: "(AllocationBitmap Range, 'p, 'g) REST \<Rightarrow> IP set" where
  "ips_in_use rs \<equiv> ips_held bitmap_taken (rs_serviceIPs rs)"

abbreviation ports_in_use :: "('i, AllocationBitmap PortAllocator, 'g) REST \<Rightarrow> int set" where
  "ports_in_use rs \<equiv> ports_held bitmap_taken (rs_serviceNodePorts rs)"

definition rest_ok ::
  "(IP, AllocationBitmap Range, AllocationBitmap PortAllocator, 'g, 'e) REST_env
     \<Rightarrow> (AllocationBitmap Range, AllocationBitmap PortAllocator, 'g) REST \<Rightarrow> bool" where
  "rest_ok en rs \<longleftrightarrow>
     en_ips en = ip_interface bitmap_ops \<and> en_ports en = port_interface bitmap_ops \<and>
     ip_bitmap_inv (rs_serviceIPs rs) \<and> port_bitmap_inv (rs_serviceNodePorts rs) \<and>
     ports_pool (rs_serviceNodePorts rs) \<subseteq> {0<..<2 ^ 31}"

text \<open>The registry returns the service it has stored.\<close>

definition registry_returns_stored :: "('ip, 'i, 'p, 'g, 'e) REST_env \<Rightarrow> bool" where
  "registry_returns_stored en \<longleftrightarrow>
     (\<forall>svc g out g'. (en_CreateService en svc g = (Inr out, g') \<longrightarrow> out = svc) \<and>
                     (en_UpdateService en svc g = (Inr out, g') \<longrightarrow> out = svc))"

lemma create_ip_spec:
  fixes res :: "('e rest_error, IP Service \<times> bool) result"
  assumes "ip_bitmap_inv i" and "create_ip (ip_interface bitmap_ops) rnd svc i = (res, i')"
  shows "ip_bitmap_inv i' \<and>
         (case res of
            Inl e \<Rightarrow> i' = i
          | Inr (svc', rel) \<Rightarrow>
              svc_Ports svc' = svc_Ports svc \<and>
              (case svc_ClusterIP svc' of
                 ClusterIPAddr ip \<Rightarrow> rel \<and> norm_ip ip \<notin> ips_held bitmap_taken i \<and>
                   ips_held bitmap_taken i' = insert (norm_ip ip) (ips_held bitmap_taken i)
               | ClusterIPNone \<Rightarrow> \<not> rel \<and> i' = i
               | ClusterIPEmpty \<Rightarrow> False))"
proof (cases "svc_ClusterIP svc")
  case ClusterIPEmpty
  obtain r j where a: "ri_AllocateNext (ip_interface bitmap_ops) rnd i = (r, j)" by fastforce
  show ?thesis
  proof (cases r)
    case (Inl e)
    with bma.ips.next_fails [OF assms(1), of rnd e j] a assms ClusterIPEmpty show ?thesis
      by (auto simp: create_ip_def IsServiceIPRequested_def)
  next
    case (Inr ip)
    with bma.ips.next_ok [OF assms(1), of rnd ip j] a assms ClusterIPEmpty show ?thesis
      by (auto simp: create_ip_def IsServiceIPRequested_def)
  qed
next
  case ClusterIPNone
  with assms show ?thesis by (auto simp: create_ip_def IsServiceIPRequested_def)
next
  case (ClusterIPAddr ip)
  obtain r j where a: "ri_Allocate (ip_interface bitmap_ops) ip i = (r, j)" by fastforce
  show ?thesis
  proof (cases r)
    case None
    with bma.ips.allocate_ok [OF assms(1), of ip j] a assms ClusterIPAddr show ?thesis
      by (auto simp: create_ip_def IsServiceIPRequested_def)
  next
    case (Some e)
    with bma.ips.allocate_fails [OF assms(1), of ip e j] a assms ClusterIPAddr show ?thesis
      by (auto simp: create_ip_def IsServiceIPRequested_def)
  qed
qed

text \<open>The deferred calls of a Create that fails undo both allocations.\<close>

lemma create_exit_undoes:
  assumes "en_ips en = ip_interface bitmap_ops" and "en_ports en = port_interface bitmap_ops"
    and "bma.ports.op_inv h op (rs_serviceNodePorts rs)" and "op_shouldRollback op"
    and "ip_bitmap_inv (rs_serviceIPs rs)"
    and "case svc_ClusterIP svc of
           ClusterIPAddr ip \<Rightarrow> rel \<and> norm_ip ip \<notin> hi \<and> ips_in_use rs = insert (norm_ip ip) hi
         | _ \<Rightarrow> ips_in_use rs = hi"
  shows "ips_in_use (create_exit en rel svc op rs) = hi \<and> ports_in_use (create_exit en rel svc op rs) = h"
proof -
  have p: "ports_held bitmap_taken (Operation_Finish (port_interface bitmap_ops) op (rs_serviceNodePorts rs)) = h"
    using bma.ports.rollback_restores [OF assms(3)] assms(4) by (auto simp: Operation_Finish_def)
  show ?thesis
  proof (cases "svc_ClusterIP svc")
    case (ClusterIPAddr ip)
    obtain i where "ri_Release (ip_interface bitmap_ops) ip (rs_serviceIPs rs) = (None, i)"
      "ips_held bitmap_taken i = ips_in_use rs - {norm_ip ip}"
      using bma.ips.release_one [OF assms(5), of ip] by blast
    with p ClusterIPAddr assms(1,2,6) show ?thesis by (auto simp: create_exit_def Let_def)
  qed (use p assms(1,2,6) in \<open>auto simp: create_exit_def Let_def\<close>)
qed

text \<open>What \<open>create_ip\<close> leaves: the address of the service has been added to those in use.\<close>

definition ip_added :: "IP Service \<Rightarrow> bool \<Rightarrow> IP set \<Rightarrow> IP set \<Rightarrow> bool" where
  "ip_added svc rel hi hi' \<longleftrightarrow>
     (case svc_ClusterIP svc of
        ClusterIPAddr ip \<Rightarrow> rel \<and> norm_ip ip \<notin> hi \<and> hi' = insert (norm_ip ip) hi
      | ClusterIPNone \<Rightarrow> \<not> rel \<and> hi' = hi
      | ClusterIPEmpty \<Rightarrow> False)"

lemma create_exit_undoes_added:
  assumes "rest_ok en rs" and "ip_added svc rel hi (ips_in_use rs)" and "bma.ports.op_inv (ports_in_use rs) op p"
    and "op_shouldRollback op" and "rs_serviceNodePorts rs2 = p" and "rs_serviceIPs rs2 = rs_serviceIPs rs"
  shows "ips_in_use (create_exit en rel svc op rs2) = hi \<and>
         ports_in_use (create_exit en rel svc op rs2) = ports_in_use rs"
  by (rule create_exit_undoes)
    (use assms in \<open>auto simp: rest_ok_def ip_added_def split: ClusterIP.splits\<close>)

lemma create_store_accounts:
  fixes res :: "('e rest_error, IP Service) result"
  assumes "rest_ok en rs" and "registry_returns_stored en" and "ip_added svc rel hi (ips_in_use rs)"
    and "create_store en rnds rel svc rs = (res, rs')"
  shows "case res of
           Inl e \<Rightarrow> ips_in_use rs' = hi \<and> ports_in_use rs' = ports_in_use rs
         | Inr out \<Rightarrow>
             ports_in_use rs \<inter> set (CollectServiceNodePorts out) = {} \<and>
             ports_in_use rs' = ports_in_use rs \<union> set (CollectServiceNodePorts out) \<and>
             svc_ClusterIP out = svc_ClusterIP svc \<and> ips_in_use rs' = ips_in_use rs"
proof -
  note ok = assms(1) [unfolded rest_ok_def]
  obtain r :: "('e rest_error, ServicePort list) result" and op p
    where loop: "create_ports (port_interface bitmap_ops) (shouldAssignNodePorts svc) rnds 0 (svc_Ports svc)
      StartOperation (rs_serviceNodePorts rs) = (r, op, p)" by (metis prod_cases3)
  have spec: "bma.ports.op_inv (ports_in_use rs) op p" "op_shouldRollback op" "op_releaseDeferred op = []"
    "\<forall>sps. r = Inr sps \<longrightarrow> set (op_allocated op) = {np \<in> sp_NodePort ` set sps. np \<noteq> 0}"
    using bpc.create_ports_spec [OF bma.ports.op_inv_start _ loop] ok by (simp_all add: StartOperation_def)
  note undo = create_exit_undoes_added [OF assms(1) _ spec(1,2)]
  show ?thesis
  proof (cases r)
    case (Inl e)
    with assms(4) loop ok undo [OF assms(3), of "rs\<lparr>rs_serviceNodePorts := p\<rparr>"] show ?thesis
      by (auto simp: create_store_def)
  next
    case ports: (Inr ports)
    let ?svc = "svc\<lparr>svc_Ports := ports\<rparr>"
    obtain r2 g where reg: "en_CreateService en ?svc (rs_registry rs) = (r2, g)" by fastforce
    show ?thesis
    proof (cases r2)
      case (Inl e)
      have "ip_added ?svc rel hi (ips_in_use rs)" using assms(3) by (simp add: ip_added_def)
      from undo [OF this, of "rs\<lparr>rs_serviceNodePorts := p, rs_registry := g\<rparr>"] Inl assms(4) loop ok ports reg
      show ?thesis by (auto simp: create_store_def Let_def)
    next
      case (Inr out)
      then have out: "out = ?svc" using assms(2) reg by (auto simp: registry_returns_stored_def)
      obtain p' where com: "Operation_Commit (port_interface bitmap_ops) op p = ([], op\<lparr>op_shouldRollback := False\<rparr>, p')"
        "ports_held bitmap_taken p' = ports_in_use rs \<union> set (op_allocated op)"
        using bma.ports.commit_releases [OF spec(1)] spec(3) by auto
      have "set (op_allocated op) = set (CollectServiceNodePorts ?svc)"
        using spec(4) ports by (auto simp: CollectServiceNodePorts_def)
      moreover have "ports_in_use rs \<inter> set (op_allocated op) = {}" using spec(1) by (auto simp: bma.ports.op_inv_def)
      moreover have "res = Inr out" "rs_serviceNodePorts rs' = p'" "rs_serviceIPs rs' = rs_serviceIPs rs"
        using assms(4) loop ports reg Inr com(1) ok
        by (auto simp: create_store_def create_exit_def Operation_Finish_def Let_def)
      ultimately show ?thesis using com(2) out by simp
    qed
  qed
qed

text \<open>C6. Create keeps the books: if it fails, the addresses and node ports in use are exactly those
  before the call, and if it succeeds, they have grown by exactly the address and the node ports
  of the stored service, none of which was in use before.\<close>

theorem service_create_accounts:
  fixes res :: "('e rest_error, IP Service) result"
  assumes "rest_ok en rs" and "registry_returns_stored en" and "REST_Create en rnd rnds obj rs = (res, rs')"
  shows "case res of
           Inl e \<Rightarrow> ips_in_use rs' = ips_in_use rs \<and> ports_in_use rs' = ports_in_use rs
         | Inr out \<Rightarrow>
             ports_in_use rs \<inter> set (CollectServiceNodePorts out) = {} \<and>
             ports_in_use rs' = ports_in_use rs \<union> set (CollectServiceNodePorts out) \<and>
             (case svc_ClusterIP out of
                ClusterIPAddr ip \<Rightarrow> norm_ip ip \<notin> ips_in_use rs \<and> ips_in_use rs' = insert (norm_ip ip) (ips_in_use rs)
              | ClusterIPNone \<Rightarrow> ips_in_use rs' = ips_in_use rs
              | ClusterIPEmpty \<Rightarrow> False)"
proof (cases "en_BeforeCreate en obj")
  case (Inl e)
  with assms(3) show ?thesis by (auto simp: REST_Create_def)
next
  case before: (Inr svc)
  note ok = assms(1) [unfolded rest_ok_def]
  obtain r :: "('e rest_error, IP Service \<times> bool) result" and i
    where ip: "create_ip (ip_interface bitmap_ops) rnd svc (rs_serviceIPs rs) = (r, i)" by fastforce
  note spec = create_ip_spec [OF _ ip]
  show ?thesis
  proof (cases r)
    case (Inl e)
    then have "i = rs_serviceIPs rs" using spec ok by auto
    with Inl before ip ok assms(3) show ?thesis
      by (auto simp: REST_Create_def create_exit_def Operation_Finish_def Operation_Rollback_def StartOperation_def)
  next
    case (Inr sr)
    obtain svc1 rel where sr: "sr = (svc1, rel)" by fastforce
    let ?rs = "rs\<lparr>rs_serviceIPs := i\<rparr>"
    have added: "ip_added svc1 rel (ips_in_use rs) (ips_in_use ?rs)"
      using spec ok Inr sr by (auto simp: ip_added_def split: ClusterIP.splits)
    have "rest_ok en ?rs" using ok spec by (simp add: rest_ok_def)
    moreover have "create_store en rnds rel svc1 ?rs = (res, rs')"
      using assms(3) before ip Inr sr ok by (simp add: REST_Create_def)
    ultimately have "case res of
           Inl e \<Rightarrow> ips_in_use rs' = ips_in_use rs \<and> ports_in_use rs' = ports_in_use ?rs
         | Inr out \<Rightarrow>
             ports_in_use ?rs \<inter> set (CollectServiceNodePorts out) = {} \<and>
             ports_in_use rs' = ports_in_use ?rs \<union> set (CollectServiceNodePorts out) \<and>
             svc_ClusterIP out = svc_ClusterIP svc1 \<and> ips_in_use rs' = ips_in_use ?rs"
      using create_store_accounts [OF _ assms(2) added] by blast
    with added show ?thesis by (auto simp: ip_added_def split: sum.splits ClusterIP.splits)
  qed
qed

lemma REST_Delete_releases:
  assumes "rest_ok en rs" and "en_GetService en name (rs_registry rs) = Inr svc"
    and "REST_Delete en name rs = (None, rs')"
  shows "ports_in_use rs' = ports_in_use rs - set (CollectServiceNodePorts svc) \<and>
         ips_in_use rs' = ips_in_use rs - (case svc_ClusterIP svc of ClusterIPAddr ip \<Rightarrow> {norm_ip ip} | _ \<Rightarrow> {})"
proof -
  note ok = assms(1) [unfolded rest_ok_def]
  obtain p where p: "release_all (port_interface bitmap_ops) (CollectServiceNodePorts svc) (rs_serviceNodePorts rs) = ([], p)"
    "ports_held bitmap_taken p = ports_in_use rs - set (CollectServiceNodePorts svc)"
    using bma.ports.release_all_spec [of "rs_serviceNodePorts rs" "CollectServiceNodePorts svc"] ok by auto
  have "ips_held bitmap_taken (snd (ri_Release (ip_interface bitmap_ops) ip (rs_serviceIPs rs))) = ips_in_use rs - {norm_ip ip}" for ip
    using bma.ips.release_one [of "rs_serviceIPs rs" ip] ok by auto
  note ips = this
  obtain e1 g1 where 1: "en_DeleteService en name (rs_registry rs) = (e1, g1)" by fastforce
  obtain e2 g2 where 2: "en_DeleteEndpoints en name g1 = (e2, g2)" by fastforce
  have "e1 = None" using assms(2,3) 1 by (cases e1) (auto simp: REST_Delete_def)
  have "\<not> (case e2 of None \<Rightarrow> False | Some e \<Rightarrow> \<not> en_IsNotFound en e)"
    using assms(2,3) 1 2 \<open>e1 = None\<close> by (cases e2) (auto simp: REST_Delete_def Let_def split: if_splits)
  then show ?thesis
    using assms(2,3) 1 2 \<open>e1 = None\<close> p ips ok
    by (cases "svc_ClusterIP svc") (auto simp: REST_Delete_def Let_def)
qed

section \<open>Updates\<close>

text \<open>The port loop of an update, whether or not the service uses node ports.\<close>

lemma update_loop_spec:
  fixes res :: "('e rest_error, ServicePort list \<times> int list) outcome"
  assumes "port_bitmap_inv p" and "ports_pool p \<subseteq> {0<..<2 ^ 31}" and "set old \<subseteq> ports_held bitmap_taken p"
    and "(if asg then update_ports (port_interface bitmap_ops) rnds 0 old ports [] StartOperation p
          else (Finished (ports, []), StartOperation, p)) = (res, op, p')"
  shows "bma.ports.op_inv (ports_held bitmap_taken p) op p' \<and> op_shouldRollback op \<and> op_releaseDeferred op = [] \<and>
         (\<forall>sps new. res = Finished (sps, new) \<and> asg \<longrightarrow>
            new = map sp_NodePort sps \<and> set (op_allocated op) = sp_NodePort ` set sps - set old)"
proof (cases asg)
  case True
  then have "update_ports (port_interface bitmap_ops) rnds 0 old ports [] StartOperation p = (res, op, p')"
    using assms(4) by simp
  from bpc.update_ports_spec [OF bma.ports.op_inv_start [OF assms(1)] assms(2,3) this]
  show ?thesis by (auto simp: StartOperation_def)
next
  case False
  with assms(4) bma.ports.op_inv_start [OF assms(1)] show ?thesis by (auto simp: StartOperation_def)
qed

lemma update_exit_undoes:
  assumes "bma.ports.op_inv h op p" and "op_shouldRollback op"
  shows "ports_held bitmap_taken (Operation_Finish (port_interface bitmap_ops) op p) = h"
  using bma.ports.rollback_restores [OF assms(1)] assms(2) by (auto simp: Operation_Finish_def)

lemma op_inv_defer:
  "bma.ports.op_inv h (defer_releases old new op) p \<longleftrightarrow> bma.ports.op_inv h op p"
  using bpc.defer_releases_spec [of old new op] by (simp add: bma.ports.op_inv_def)

text \<open>What an update does to the node ports in use, by outcome.\<close>

definition update_effect :: "int set \<Rightarrow> int set \<Rightarrow> int set \<Rightarrow> ('e, IP Service) outcome \<Rightarrow> bool" where
  "update_effect old h h' res \<longleftrightarrow>
     (case res of
        Finished out \<Rightarrow>
          shouldAssignNodePorts out \<longrightarrow>
          h' = (h - (old \<inter> sp_NodePort ` set (svc_Ports out))) \<union> (sp_NodePort ` set (svc_Ports out) - old)
      | _ \<Rightarrow> h' = h)"

lemma update_store_effect:
  fixes res :: "('e rest_error, IP Service) outcome"
  assumes "rest_ok en rs" and "registry_returns_stored en"
    and "set (CollectServiceNodePorts oldService) \<subseteq> ports_in_use rs"
    and "update_store en rnds oldService svc rs = (res, rs')"
  shows "ips_in_use rs' = ips_in_use rs \<and>
         update_effect (set (CollectServiceNodePorts oldService)) (ports_in_use rs) (ports_in_use rs') res"
proof -
  note ok = assms(1) [unfolded rest_ok_def]
  have en: "en_ports en = port_interface bitmap_ops" using ok by blast
  let ?old = "CollectServiceNodePorts oldService"
  obtain r :: "('e rest_error, ServicePort list \<times> int list) outcome" and op p where loop:
    "(if shouldAssignNodePorts svc
      then update_ports (port_interface bitmap_ops) rnds 0 ?old (svc_Ports svc) [] StartOperation (rs_serviceNodePorts rs)
      else (Finished (svc_Ports svc, []), StartOperation, rs_serviceNodePorts rs)) = (r, op, p)"
    by (metis prod_cases3)
  have spec: "bma.ports.op_inv (ports_in_use rs) op p" "op_shouldRollback op" "op_releaseDeferred op = []"
    "\<forall>sps new. r = Finished (sps, new) \<and> shouldAssignNodePorts svc \<longrightarrow>
            new = map sp_NodePort sps \<and> set (op_allocated op) = sp_NodePort ` set sps - set ?old"
    using update_loop_spec [OF _ _ assms(3) loop] ok by blast+
  note undo = update_exit_undoes [OF spec(1,2)]
  note run = assms(4) [unfolded update_store_def en Let_def loop]
  show ?thesis
  proof (cases r)
    case (Finished x)
    obtain ports new where x: "x = (ports, new)" by fastforce
    define op1 where "op1 = defer_releases ?old new op"
    define svc2 where "svc2 = (if svc_Type svc \<noteq> ServiceTypeLoadBalancer \<and> svc_Type svc \<noteq> ServiceTypeNetworkProvider
        then svc\<lparr>svc_Ports := ports, svc_LoadBalancer := []\<rparr> else svc\<lparr>svc_Ports := ports\<rparr>)"
    have op1: "bma.ports.op_inv (ports_in_use rs) op1 p" "op_shouldRollback op1" "op_allocated op1 = op_allocated op"
      "set (op_releaseDeferred op1) = set ?old \<inter> set new"
      using spec(1-3) bpc.defer_releases_spec [of ?old new op] by (simp_all add: op1_def op_inv_defer)
    obtain r2 g where reg: "en_UpdateService en svc2 (rs_registry rs) = (r2, g)" by fastforce
    show ?thesis
    proof (cases r2)
      case (Inl e)
      with run Finished x reg update_exit_undoes [OF op1(1,2)] show ?thesis
        by (auto simp: update_exit_def update_effect_def op1_def svc2_def en)
    next
      case (Inr out)
      then have "out = svc2" using assms(2) reg by (auto simp: registry_returns_stored_def)
      then have out: "svc_Ports out = ports" "shouldAssignNodePorts out = shouldAssignNodePorts svc"
        by (auto simp: svc2_def shouldAssignNodePorts_def)
      obtain p2 where com: "Operation_Commit (port_interface bitmap_ops) op1 p = ([], op1\<lparr>op_shouldRollback := False\<rparr>, p2)"
        "ports_held bitmap_taken p2 = ports_in_use rs \<union> set (op_allocated op) - set ?old \<inter> set new"
        using bma.ports.commit_releases [OF op1(1)] op1(3,4) by auto
      have "res = Finished out" "rs' = update_exit en (op1\<lparr>op_shouldRollback := False\<rparr>) p2 g rs"
        using run Finished x reg Inr com(1) by (auto simp: op1_def svc2_def)
      moreover have "ports_held bitmap_taken p2 =
          ports_in_use rs - (set ?old \<inter> sp_NodePort ` set ports) \<union> (sp_NodePort ` set ports - set ?old)"
        if "shouldAssignNodePorts svc"
      proof -
        have "set new = sp_NodePort ` set ports" "set (op_allocated op) = sp_NodePort ` set ports - set ?old"
          using spec(4) Finished x that by auto
        then show ?thesis unfolding com(2) by blast
      qed
      ultimately show ?thesis
        using out by (simp add: update_exit_def update_effect_def Operation_Finish_def)
    qed
  next
    case Panicked
    with run have "res = Panicked" "rs' = update_exit en op p (rs_registry rs) rs" by simp_all
    with undo show ?thesis by (simp add: update_exit_def update_effect_def en)
  next
    case (Failed e)
    with run have "res = Failed e" "rs' = update_exit en op p (rs_registry rs) rs" by simp_all
    with undo show ?thesis by (simp add: update_exit_def update_effect_def en)
  qed
qed

text \<open>C15. Update keeps addresses and, when it fails or panics, node ports; but when it succeeds for a
  service that uses node ports, every node port the service keeps is released although the
  service still uses it, and every node port it gives up stays in use (the test in the loop that
  defers releases is the wrong way round).\<close>

theorem service_update_releases_kept_ports:
  fixes res :: "('e rest_error, IP Service) outcome"
  assumes "rest_ok en rs" and "registry_returns_stored en" and "en_GetService en name (rs_registry rs) = Inr oldService"
    and "set (CollectServiceNodePorts oldService) \<subseteq> ports_in_use rs" and "REST_Update en rnds name rs = (res, rs')"
  shows "ips_in_use rs' = ips_in_use rs \<and>
         (case res of
            Finished out \<Rightarrow>
              shouldAssignNodePorts out \<longrightarrow>
              ports_in_use rs' =
                (ports_in_use rs - (set (CollectServiceNodePorts oldService) \<inter> sp_NodePort ` set (svc_Ports out))) \<union>
                (sp_NodePort ` set (svc_Ports out) - set (CollectServiceNodePorts oldService))
          | _ \<Rightarrow> ports_in_use rs' = ports_in_use rs)"
proof (cases "\<exists>svc. en_UpdatedObject en oldService = Inr svc \<and> en_ValidNamespace en svc \<and>
            en_ValidateUpdate en svc oldService = None")
  case False
  with assms(3,5) show ?thesis by (auto simp: REST_Update_def split: sum.splits option.splits if_splits)
next
  case True
  then obtain svc where "update_store en rnds oldService svc rs = (res, rs')"
    using assms(3,5) by (auto simp: REST_Update_def)
  from update_store_effect [OF assms(1,2,4) this] show ?thesis by (simp add: update_effect_def)
qed

section \<open>Witnesses\<close>

text \<open>A registry with one service name, and a service with node port 30001.\<close>

definition example_service :: "IP Service" where
  "example_service =
     \<lparr>svc_Name = ''web'', svc_Type = ServiceTypeNodePort, svc_ClusterIP = ClusterIPNone,
      svc_Ports = [\<lparr>sp_Name = ''http'', sp_Port = 80, sp_NodePort = 30001\<rparr>], svc_LoadBalancer = []\<rparr>"

definition example_env ::
  "(IP, AllocationBitmap Range, AllocationBitmap PortAllocator, IP Service option, string) REST_env" where
  "example_env =
     \<lparr>en_ips = ip_interface bitmap_ops, en_ports = port_interface bitmap_ops, en_BeforeCreate = Inr,
      en_CreateService = (\<lambda>svc g. (Inr svc, Some svc)), en_CheckGeneratedName = (\<lambda>svc e. e),
      en_GetService = (\<lambda>name g. case g of None \<Rightarrow> Inl ''not found'' | Some svc \<Rightarrow> Inr svc),
      en_UpdateService = (\<lambda>svc g. (Inr svc, Some svc)), en_DeleteService = (\<lambda>name g. (None, None)),
      en_DeleteEndpoints = (\<lambda>name g. (None, g)), en_IsNotFound = (\<lambda>e. False), en_UpdatedObject = Inr,
      en_ValidNamespace = (\<lambda>svc. True), en_ValidateUpdate = (\<lambda>svc old. None)\<rparr>"

definition example_rest ::
  "IP Service option \<Rightarrow> AllocationBitmap PortAllocator \<Rightarrow>
     (AllocationBitmap Range, AllocationBitmap PortAllocator, IP Service option) REST" where
  "example_rest g p =
     \<lparr>rs_registry = g, rs_serviceIPs = the (NewCIDRRange (\<lambda>_. ''net'') example_net), rs_serviceNodePorts = p\<rparr>"

lemma example_rest_ok:
  "port_bitmap_inv p \<Longrightarrow> pa_portRange p = \<lparr>pr_Base = 30000, pr_Size = 4\<rparr> \<Longrightarrow> rest_ok example_env (example_rest g p)"
  using NewCIDRRange_inv [OF example_net_ok, of "\<lambda>_. ''net''"]
  by (auto simp: rest_ok_def example_env_def example_rest_def ports_pool_def PortRange_Contains_def)

lemma example_registry: "registry_returns_stored example_env"
  by (simp add: registry_returns_stored_def example_env_def)

lemma example_ports_range: "pa_portRange example_ports = \<lparr>pr_Base = 30000, pr_Size = 4\<rparr>"
  by (simp add: example_ports_def NewPortAllocator_def NewPortAllocatorCustom_def)

text \<open>The allocator after port 30001 has been taken.\<close>

lemma example_port_taken:
  "\<exists>p. PortAllocator_Allocate bitmap_ops 30001 example_ports = (None, p) \<and> port_bitmap_inv p \<and>
       ports_held bitmap_taken p = {30001} \<and> pa_portRange p = \<lparr>pr_Base = 30000, pr_Size = 4\<rparr>"
proof -
  have "30001 \<in> ports_pool example_ports"
    by (simp add: ports_pool_def example_ports_range PortRange_Contains_def)
  then obtain p where p: "ri_Allocate (port_interface bitmap_ops) 30001 example_ports = (None, p)"
    "port_bitmap_inv p" "ports_held bitmap_taken p = {30001}"
    using bma.ports.allocate_free [OF example_ports_inv(1), of 30001] example_ports_inv(2) by auto
  moreover have "pa_portRange p = pa_portRange example_ports"
    using p(1) by (auto simp: port_interface_def PortAllocator_Allocate_def split: prod.splits if_splits sum.splits bool.splits)
  ultimately show ?thesis by (auto simp: port_interface_def example_ports_range)
qed

theorem service_create_accounts_witness:
  "ports_in_use (snd (REST_Create example_env 0 (\<lambda>_. 0) example_service (example_rest None example_ports))) = {30001}"
proof -
  let ?rs = "example_rest None example_ports"
  obtain p where p: "PortAllocator_Allocate bitmap_ops 30001 example_ports = (None, p)"
    using example_port_taken by blast
  have fst: "fst (REST_Create example_env 0 (\<lambda>_. 0) example_service ?rs) = Inr example_service"
    using p
    by (simp add: REST_Create_def create_ip_def IsServiceIPRequested_def create_store_def example_env_def
        example_service_def example_rest_def shouldAssignNodePorts_def Operation_Allocate_def port_interface_def
        Operation_Commit_def StartOperation_def Let_def)
  then have "REST_Create example_env 0 (\<lambda>_. 0) example_service ?rs =
      (Inr example_service, snd (REST_Create example_env 0 (\<lambda>_. 0) example_service ?rs))"
    by (metis prod.collapse)
  from service_create_accounts [OF example_rest_ok [OF example_ports_inv(1) example_ports_range] example_registry this]
  show ?thesis
    by (simp add: example_rest_def example_ports_inv(2) CollectServiceNodePorts_def example_service_def)
qed

theorem service_update_releases_kept_ports_witness:
  "\<exists>p. ports_held bitmap_taken p = {30001} \<and>
       fst (REST_Update example_env (\<lambda>_. 0) ''web'' (example_rest (Some example_service) p)) = Finished example_service \<and>
       ports_in_use (snd (REST_Update example_env (\<lambda>_. 0) ''web'' (example_rest (Some example_service) p))) = {}"
proof -
  obtain p where p: "port_bitmap_inv p" "ports_held bitmap_taken p = {30001}"
    "pa_portRange p = \<lparr>pr_Base = 30000, pr_Size = 4\<rparr>" using example_port_taken by blast
  let ?rs = "example_rest (Some example_service) p"
  have fst: "fst (REST_Update example_env (\<lambda>_. 0) ''web'' ?rs) = Finished example_service"
    by (simp add: REST_Update_def update_store_def example_env_def example_service_def example_rest_def
        shouldAssignNodePorts_def CollectServiceNodePorts_def split_beta Let_def)
  then have upd: "REST_Update example_env (\<lambda>_. 0) ''web'' ?rs =
      (Finished example_service, snd (REST_Update example_env (\<lambda>_. 0) ''web'' ?rs))"
    by (metis prod.collapse)
  have "en_GetService example_env ''web'' (rs_registry ?rs) = Inr example_service"
    by (simp add: example_env_def example_rest_def)
  from service_update_releases_kept_ports [OF example_rest_ok [OF p(1,3)] example_registry this _ upd] p(2)
  have "ports_in_use (snd (REST_Update example_env (\<lambda>_. 0) ''web'' ?rs)) = {}"
    by (simp add: example_rest_def CollectServiceNodePorts_def example_service_def shouldAssignNodePorts_def)
  with p(2) fst show ?thesis by blast
qed

end
