(* ===== verification/Watch_Cache.thy ===== *)
theory Watch_Cache
  imports Informer Go_Strconv "HOL-Library.Word"
begin

text \<open>
  The API server's watch cache, \<^verbatim>\<open>pkg/storage/watch_cache.go\<close>: a store of the current objects
  together with a sliding window of the latest events, kept in a cyclic buffer and searched by
  resource version. The lemmas relate the buffer to the plain list of events (\<open>window\<close>), show
  that a client that lists and then watches ends up with the store's contents, and where the
  test for a version that is too old is off.

  The two handlers the cacher installs act on a state \<open>'c\<close> of its own, which the operations pass
  along. A failed type assertion and a division by zero panic and are \<^term>\<open>None\<close>. Indices are natural
  numbers: they grow by one per event and stay far below the width of an \<^verbatim>\<open>int\<close>.
\<close>

section \<open>Model\<close>

type_synonym version = "64 word"

text \<open>What \<^verbatim>\<open>meta.Accessor\<close> finds in an API object: namespace, name and resource version.\<close>

type_synonym 'o accessor = "'o \<Rightarrow> (string \<times> string \<times> string) option"

definition names_of :: "'o accessor \<Rightarrow> 'o \<Rightarrow> (string \<times> string) option" where
  "names_of acc x = map_option (\<lambda>(ns, name, rv). (ns, name)) (acc x)"

abbreviation object_key :: "'o accessor \<Rightarrow> 'o KeyFunc" where
  "object_key acc \<equiv> MetaNamespaceKeyFunc (names_of acc)"

definition is_object :: "'o iface \<Rightarrow> bool" where
  "is_object x = (case x of Obj _ \<Rightarrow> True | _ \<Rightarrow> False)"

record 'o watchCacheEvent =
  ev_Type :: EventType
  ev_Object :: "'o iface"
  ev_PrevObject :: "'o iface"
  ev_ResourceVersion :: version

record 'o watchCacheElement =
  el_resourceVersion :: version
  el_watchCacheEvent :: "'o watchCacheEvent"

record ('o, 'c) watchCache =
  wc_capacity :: nat
  wc_cache :: "'o watchCacheElement list"
  wc_startIndex :: nat
  wc_endIndex :: nat
  wc_store :: "'o cache"
  wc_resourceVersion :: version
  wc_onReplace :: "('c \<Rightarrow> 'c) option"
  wc_onEvent :: "('o watchCacheEvent \<Rightarrow> 'c \<Rightarrow> 'c) option"

datatype 'o wc_error =
    NotRuntimeObject "'o iface"
  | AccessorError "'o iface"
  | ParseUintError string
  | StoreError "'o cache_error"
  | TimeLimitExceeded version version
  | Gone version version

definition zeroElement :: "'o watchCacheElement" where
  "zeroElement = \<lparr>el_resourceVersion = 0,
     el_watchCacheEvent = \<lparr>ev_Type = EvOther, ev_Object = NilI, ev_PrevObject = NilI, ev_ResourceVersion = 0\<rparr>\<rparr>"

definition newWatchCache :: "'o accessor \<Rightarrow> nat \<Rightarrow> ('o, 'c) watchCache" where
  "newWatchCache acc capacity =
     \<lparr>wc_capacity = capacity, wc_cache = replicate capacity zeroElement,
      wc_startIndex = 0, wc_endIndex = 0, wc_store = NewStore (object_key acc),
      wc_resourceVersion = 0, wc_onReplace = None, wc_onEvent = None\<rparr>"

definition ParseUint :: "string \<Rightarrow> version option" where
  "ParseUint s =
     (if s = [] \<or> \<not> list_all is_digit s then None
      else if read_nat s < 2 ^ 64 then Some (of_nat (read_nat s)) else None)"

definition parseResourceVersion :: "string \<Rightarrow> ('o wc_error, version) result" where
  "parseResourceVersion resourceVersion =
     (if resourceVersion = '''' then Inr 0
      else case ParseUint resourceVersion of
             None \<Rightarrow> Inl (ParseUintError resourceVersion)
           | Some v \<Rightarrow> Inr v)"

definition objectToVersionedRuntimeObject ::
  "'o accessor \<Rightarrow> 'o iface \<Rightarrow> ('o wc_error, 'o iface \<times> version) result" where
  "objectToVersionedRuntimeObject acc obj =
     (case obj of
        Obj x \<Rightarrow>
          (case acc x of
             None \<Rightarrow> Inl (AccessorError obj)
           | Some (ns, name, rv) \<Rightarrow>
               (case parseResourceVersion rv of
                  Inl err \<Rightarrow> Inl err
                | Inr resourceVersion \<Rightarrow> Inr (obj, resourceVersion)))
      | _ \<Rightarrow> Inl (NotRuntimeObject obj))"

definition updateCache ::
  "version \<Rightarrow> 'o watchCacheEvent \<Rightarrow> ('o, 'c) watchCache \<Rightarrow> ('o, 'c) watchCache option" where
  "updateCache resourceVersion event w =
     (let w1 = (if wc_endIndex w = wc_startIndex w + wc_capacity w
                then w\<lparr>wc_startIndex := wc_startIndex w + 1\<rparr> else w)
      in if wc_capacity w1 = 0 then None
         else Some (w1\<lparr>wc_cache := (wc_cache w1)[wc_endIndex w1 mod wc_capacity w1 :=
                                   \<lparr>el_resourceVersion = resourceVersion, el_watchCacheEvent = event\<rparr>],
                       wc_endIndex := wc_endIndex w1 + 1\<rparr>))"

definition processEvent ::
  "EventType \<Rightarrow> 'o iface \<Rightarrow> version \<Rightarrow> ('o iface \<Rightarrow> 'o cache \<Rightarrow> ('o cache_error, 'o cache) result)
     \<Rightarrow> ('o, 'c) watchCache \<Rightarrow> 'c \<Rightarrow> ('o wc_error option \<times> ('o, 'c) watchCache \<times> 'c) option" where
  "processEvent type object resourceVersion updateFunc w c =
     (case cache_Get object (wc_store w) of
        Inl err \<Rightarrow> Some (Some (StoreError err), w, c)
      | Inr (previous, exists) \<Rightarrow>
          if exists \<and> \<not> is_object previous then None
          else
            let event = \<lparr>ev_Type = type, ev_Object = object,
                         ev_PrevObject = (if exists then previous else NilI),
                         ev_ResourceVersion = resourceVersion\<rparr>;
                c1 = (case wc_onEvent w of None \<Rightarrow> c | Some onEvent \<Rightarrow> onEvent event c)
            in case updateCache resourceVersion event w of
                 None \<Rightarrow> None
               | Some w1 \<Rightarrow>
                   let w2 = w1\<lparr>wc_resourceVersion := resourceVersion\<rparr>
                   in case updateFunc object (wc_store w2) of
                        Inl err \<Rightarrow> Some (Some (StoreError err), w2, c1)
                      | Inr s \<Rightarrow> Some (None, w2\<lparr>wc_store := s\<rparr>, c1))"

text \<open>The store has no indexers, so the loops over them visit nothing.\<close>

definition watchCache_Add ::
  "'o accessor \<Rightarrow> 'o iface \<Rightarrow> ('o, 'c) watchCache \<Rightarrow> 'c \<Rightarrow> ('o wc_error option \<times> ('o, 'c) watchCache \<times> 'c) option" where
  "watchCache_Add acc obj w c =
     (case objectToVersionedRuntimeObject acc obj of
        Inl err \<Rightarrow> Some (Some err, w, c)
      | Inr (object, resourceVersion) \<Rightarrow> processEvent EvAdded object resourceVersion (cache_Add ([], [])) w c)"

definition watchCache_Update ::
  "'o accessor \<Rightarrow> 'o iface \<Rightarrow> ('o, 'c) watchCache \<Rightarrow> 'c \<Rightarrow> ('o wc_error option \<times> ('o, 'c) watchCache \<times> 'c) option" where
  "watchCache_Update acc obj w c =
     (case objectToVersionedRuntimeObject acc obj of
        Inl err \<Rightarrow> Some (Some err, w, c)
      | Inr (object, resourceVersion) \<Rightarrow> processEvent EvModified object resourceVersion (cache_Update ([], [])) w c)"

definition watchCache_Delete ::
  "'o accessor \<Rightarrow> 'o iface \<Rightarrow> ('o, 'c) watchCache \<Rightarrow> 'c \<Rightarrow> ('o wc_error option \<times> ('o, 'c) watchCache \<times> 'c) option" where
  "watchCache_Delete acc obj w c =
     (case objectToVersionedRuntimeObject acc obj of
        Inl err \<Rightarrow> Some (Some err, w, c)
      | Inr (object, resourceVersion) \<Rightarrow> processEvent EvDeleted object resourceVersion (cache_Delete ([], [])) w c)"

definition watchCache_List :: "string list \<Rightarrow> ('o, 'c) watchCache \<Rightarrow> 'o iface list" where
  "watchCache_List ks w = cache_List ks (wc_store w)"

definition watchCache_ListKeys :: "string list \<Rightarrow> ('o, 'c) watchCache \<Rightarrow> string list" where
  "watchCache_ListKeys ks w = cache_ListKeys ks (wc_store w)"

definition watchCache_Get ::
  "'o iface \<Rightarrow> ('o, 'c) watchCache \<Rightarrow> ('o cache_error, 'o iface \<times> bool) result" where
  "watchCache_Get obj w = cache_Get obj (wc_store w)"

definition watchCache_GetByKey :: "string \<Rightarrow> ('o, 'c) watchCache \<Rightarrow> 'o iface \<times> bool" where
  "watchCache_GetByKey key w = cache_GetByKey key (wc_store w)"

text \<open>
  \<^verbatim>\<open>WaitUntilFreshAndList\<close> looks at the cache when it is called and whenever the condition is
  broadcast; the list holds, for each look, the time since the call, the cache found and the order
  in which its items would be visited. With the list used up it is still waiting.
\<close>

definition MaximumListWait :: int where
  "MaximumListWait = 60 * 10 ^ 9"

fun WaitUntilFreshAndList ::
  "version \<Rightarrow> (int \<times> ('o, 'c) watchCache \<times> string list) list
     \<Rightarrow> ('o wc_error, 'o iface list \<times> version) result option" where
  "WaitUntilFreshAndList resourceVersion [] = None"
| "WaitUntilFreshAndList resourceVersion ((since, w, ks) # looks) =
     (if wc_resourceVersion w < resourceVersion then
        if since \<ge> MaximumListWait
        then Some (Inl (TimeLimitExceeded resourceVersion (wc_resourceVersion w)))
        else WaitUntilFreshAndList resourceVersion looks
      else Some (Inr (cache_List ks (wc_store w), wc_resourceVersion w)))"

definition watchCache_Replace ::
  "string list \<Rightarrow> 'o iface list \<Rightarrow> string \<Rightarrow> ('o, 'c) watchCache \<Rightarrow> 'c
     \<Rightarrow> 'o wc_error option \<times> ('o, 'c) watchCache \<times> 'c" where
  "watchCache_Replace ks objs resourceVersion w c =
     (case parseResourceVersion resourceVersion of
        Inl err \<Rightarrow> (Some err, w, c)
      | Inr version \<Rightarrow>
          let w1 = w\<lparr>wc_startIndex := 0, wc_endIndex := 0\<rparr>
          in case cache_Replace ks (\<lambda>_. []) objs (wc_store w1) of
               Inl err \<Rightarrow> (Some (StoreError err), w1, c)
             | Inr s \<Rightarrow>
                 (None, w1\<lparr>wc_store := s, wc_resourceVersion := version\<rparr>,
                  case wc_onReplace w of None \<Rightarrow> c | Some onReplace \<Rightarrow> onReplace c))"

definition SetOnReplace :: "('c \<Rightarrow> 'c) option \<Rightarrow> ('o, 'c) watchCache \<Rightarrow> ('o, 'c) watchCache" where
  "SetOnReplace onReplace w = w\<lparr>wc_onReplace := onReplace\<rparr>"

definition SetOnEvent ::
  "('o watchCacheEvent \<Rightarrow> 'c \<Rightarrow> 'c) option \<Rightarrow> ('o, 'c) watchCache \<Rightarrow> ('o, 'c) watchCache" where
  "SetOnEvent onEvent w = w\<lparr>wc_onEvent := onEvent\<rparr>"

text \<open>Both methods that return the events since a version; \<open>ks\<close> visits the stored items.\<close>

definition cache_at :: "('o, 'c) watchCache \<Rightarrow> nat \<Rightarrow> 'o watchCacheElement" where
  "cache_at w i = wc_cache w ! (i mod wc_capacity w)"

definition GetAllEventsSinceThreadUnsafe ::
  "string list \<Rightarrow> version \<Rightarrow> ('o, 'c) watchCache \<Rightarrow> ('o wc_error, 'o watchCacheEvent list) result option" where
  "GetAllEventsSinceThreadUnsafe ks resourceVersion w =
     (let size = wc_endIndex w - wc_startIndex w;
          oldest = (if size > 0 then el_resourceVersion (cache_at w (wc_startIndex w)) else wc_resourceVersion w)
      in if resourceVersion = 0 then
           let allItems = cache_List ks (wc_store w)
           in if list_all is_object allItems
              then Some (Inr (map (\<lambda>item. \<lparr>ev_Type = EvAdded, ev_Object = item, ev_PrevObject = NilI,
                                          ev_ResourceVersion = 0\<rparr>) allItems))
              else None
         else if resourceVersion < oldest - 1 then Some (Inl (Gone resourceVersion (oldest - 1)))
         else
           let first = sort_Search size (\<lambda>i. resourceVersion < el_resourceVersion (cache_at w (wc_startIndex w + i)))
           in Some (Inr (map (\<lambda>i. el_watchCacheEvent (cache_at w (wc_startIndex w + first + i)))
                          [0..<size - first])))"

definition GetAllEventsSince ::
  "string list \<Rightarrow> version \<Rightarrow> ('o, 'c) watchCache \<Rightarrow> ('o wc_error, 'o watchCacheEvent list) result option" where
  "GetAllEventsSince ks resourceVersion w = GetAllEventsSinceThreadUnsafe ks resourceVersion w"

section \<open>The window of events\<close>

definition window :: "('o, 'c) watchCache \<Rightarrow> 'o watchCacheElement list" where
  "window w = map (cache_at w) [wc_startIndex w..<wc_endIndex w]"

definition last_n :: "nat \<Rightarrow> 'a list \<Rightarrow> 'a list" where
  "last_n n xs = drop (length xs - n) xs"

definition buffer_ok :: "('o, 'c) watchCache \<Rightarrow> bool" where
  "buffer_ok w \<longleftrightarrow> 0 < wc_capacity w \<and> length (wc_cache w) = wc_capacity w \<and>
     wc_startIndex w \<le> wc_endIndex w \<and> wc_endIndex w \<le> wc_startIndex w + wc_capacity w"

lemma last_n_snoc: "0 < n \<Longrightarrow> last_n n (xs @ [x]) = (if n \<le> length xs then tl (last_n n xs) else xs) @ [x]"
  by (auto simp: last_n_def Suc_diff_le drop_Suc tl_drop)

lemma last_n_append: "last_n n (last_n n xs @ ys) = last_n n (xs @ ys)"
  by (cases "n \<le> length xs") (simp_all add: last_n_def add.commute)

lemma length_last_n [simp]: "length (last_n n xs) = min n (length xs)"
  by (auto simp: last_n_def)

lemma last_n_all: "length xs \<le> n \<Longrightarrow> last_n n xs = xs"
  by (simp add: last_n_def)

lemma length_window [simp]: "length (window w) = wc_endIndex w - wc_startIndex w"
  by (simp add: window_def)

lemma mod_neq: "i < e \<Longrightarrow> e < i + n \<Longrightarrow> i mod n \<noteq> (e :: nat) mod n"
proof
  assume "i < e" "e < i + n" and "i mod n = e mod n"
  then have "n dvd e - i" by (metis less_imp_le mod_eq_dvd_iff_nat)
  then have "n \<le> e - i" using \<open>i < e\<close> by (auto intro: dvd_imp_le)
  with \<open>i < e\<close> \<open>e < i + n\<close> show False by linarith
qed

lemma updateCache_window:
  assumes "buffer_ok w"
  shows "\<exists>w'. updateCache rv ev w = Some w' \<and> buffer_ok w' \<and> wc_capacity w' = wc_capacity w \<and>
      wc_store w' = wc_store w \<and> wc_onEvent w' = wc_onEvent w \<and> wc_onReplace w' = wc_onReplace w \<and>
      window w' = last_n (wc_capacity w) (window w @ [\<lparr>el_resourceVersion = rv, el_watchCacheEvent = ev\<rparr>])"
proof -
  let ?e = "\<lparr>el_resourceVersion = rv, el_watchCacheEvent = ev\<rparr>" and ?n = "wc_capacity w"
  define s where "s = (if wc_endIndex w = wc_startIndex w + ?n then wc_startIndex w + 1 else wc_startIndex w)"
  define w' where "w' = w\<lparr>wc_startIndex := s, wc_cache := (wc_cache w)[wc_endIndex w mod ?n := ?e],
                           wc_endIndex := wc_endIndex w + 1\<rparr>"
  have b: "0 < ?n" "length (wc_cache w) = ?n" "wc_startIndex w \<le> wc_endIndex w"
    "wc_endIndex w \<le> wc_startIndex w + ?n" using assms by (auto simp: buffer_ok_def)
  have s: "s \<le> wc_endIndex w" "wc_endIndex w < s + ?n" using b by (auto simp: s_def)
  have old: "cache_at w' i = cache_at w i" if "s \<le> i" "i < wc_endIndex w" for i
    using mod_neq [of i "wc_endIndex w" ?n] that s by (simp add: w'_def cache_at_def)
  have new: "cache_at w' (wc_endIndex w) = ?e" using b by (simp add: w'_def cache_at_def)
  have "window w' = map (cache_at w') [s..<wc_endIndex w] @ [?e]"
    using s new by (simp add: window_def w'_def)
  also have "map (cache_at w') [s..<wc_endIndex w] = map (cache_at w) [s..<wc_endIndex w]"
    by (simp add: old)
  also have "\<dots> = (if ?n \<le> length (window w) then tl (last_n ?n (window w)) else window w)"
    using b by (auto simp: s_def window_def last_n_def map_tl [symmetric] tl_upt)
  finally have "window w' = last_n ?n (window w @ [?e])" using b by (simp add: last_n_snoc)
  moreover have "updateCache rv ev w = Some w'"
    using b by (auto simp: updateCache_def w'_def s_def Let_def)
  ultimately show ?thesis using b s by (auto simp: w'_def buffer_ok_def)
qed

section \<open>Sequences of events\<close>

definition wc_contents :: "('o, 'c) watchCache \<Rightarrow> string \<rightharpoonup> 'o iface" where
  "wc_contents w = cache_contents (wc_store w)"

definition wc_inv :: "'o accessor \<Rightarrow> ('o, 'c) watchCache \<Rightarrow> bool" where
  "wc_inv acc w \<longleftrightarrow> buffer_ok w \<and> cache_inv (object_key acc) Map.empty (wc_store w) \<and>
     (\<forall>k x. wc_contents w k = Some x \<longrightarrow> is_object x \<and> object_key acc x = Inr k) \<and>
     sorted_wrt (<) (map el_resourceVersion (window w)) \<and>
     (\<forall>e \<in> set (window w). 0 < el_resourceVersion e \<and> el_resourceVersion e \<le> wc_resourceVersion w \<and>
        ev_ResourceVersion (el_watchCacheEvent e) = el_resourceVersion e)"

datatype 'o wc_call =
    CallAdd (call_object: "'o iface")
  | CallUpdate (call_object: "'o iface")
  | CallDelete (call_object: "'o iface")

fun watchCache_call ::
  "'o accessor \<Rightarrow> 'o wc_call \<Rightarrow> ('o, 'c) watchCache \<Rightarrow> 'c \<Rightarrow> ('o wc_error option \<times> ('o, 'c) watchCache \<times> 'c) option" where
  "watchCache_call acc (CallAdd obj) w c = watchCache_Add acc obj w c"
| "watchCache_call acc (CallUpdate obj) w c = watchCache_Update acc obj w c"
| "watchCache_call acc (CallDelete obj) w c = watchCache_Delete acc obj w c"

fun watchCache_calls ::
  "'o accessor \<Rightarrow> 'o wc_call list \<Rightarrow> ('o, 'c) watchCache \<Rightarrow> 'c \<Rightarrow> (('o, 'c) watchCache \<times> 'c) option" where
  "watchCache_calls acc [] w c = Some (w, c)"
| "watchCache_calls acc (call # calls) w c =
     (case watchCache_call acc call w c of
        Some (None, w', c') \<Rightarrow> watchCache_calls acc calls w' c'
      | _ \<Rightarrow> None)"

text \<open>The objects of the calls carry versions that grow, starting above the given one.\<close>

definition version_of :: "'o accessor \<Rightarrow> 'o iface \<Rightarrow> version option" where
  "version_of acc obj =
     (case (objectToVersionedRuntimeObject acc obj :: ('o wc_error, 'o iface \<times> version) result) of
        Inl _ \<Rightarrow> None | Inr (_, v) \<Rightarrow> Some v)"

fun newer :: "'o accessor \<Rightarrow> version \<Rightarrow> 'o wc_call list \<Rightarrow> bool" where
  "newer acc rv [] \<longleftrightarrow> True"
| "newer acc rv (call # calls) \<longleftrightarrow>
     (case version_of acc (call_object call) of None \<Rightarrow> False | Some v \<Rightarrow> rv < v \<and> newer acc v calls)"

text \<open>What the calls mean: the events they make of a map of objects, and the effect of an event.\<close>

definition key_of :: "'o accessor \<Rightarrow> 'o iface \<Rightarrow> string" where
  "key_of acc x = (case object_key acc x of Inl _ \<Rightarrow> '''' | Inr k \<Rightarrow> k)"

fun call_type :: "'o wc_call \<Rightarrow> EventType" where
  "call_type (CallAdd _) = EvAdded"
| "call_type (CallUpdate _) = EvModified"
| "call_type (CallDelete _) = EvDeleted"

definition call_event :: "'o accessor \<Rightarrow> (string \<rightharpoonup> 'o iface) \<Rightarrow> 'o wc_call \<Rightarrow> 'o watchCacheEvent" where
  "call_event acc m call =
     \<lparr>ev_Type = call_type call, ev_Object = call_object call,
      ev_PrevObject = map_get NilI m (key_of acc (call_object call)),
      ev_ResourceVersion = the (version_of acc (call_object call))\<rparr>"

definition apply_event ::
  "'o accessor \<Rightarrow> (string \<rightharpoonup> 'o iface) \<Rightarrow> 'o watchCacheEvent \<Rightarrow> (string \<rightharpoonup> 'o iface)" where
  "apply_event acc m e =
     (if ev_Type e = EvDeleted then map_delete (key_of acc (ev_Object e)) m
      else m(key_of acc (ev_Object e) \<mapsto> ev_Object e))"

fun events_of :: "'o accessor \<Rightarrow> (string \<rightharpoonup> 'o iface) \<Rightarrow> 'o wc_call list \<Rightarrow> 'o watchCacheEvent list" where
  "events_of acc m [] = []"
| "events_of acc m (call # calls) =
     call_event acc m call # events_of acc (apply_event acc m (call_event acc m call)) calls"

definition element_of :: "'o watchCacheEvent \<Rightarrow> 'o watchCacheElement" where
  "element_of e = \<lparr>el_resourceVersion = ev_ResourceVersion e, el_watchCacheEvent = e\<rparr>"

definition notify :: "('o, 'c) watchCache \<Rightarrow> 'c \<Rightarrow> 'o watchCacheEvent \<Rightarrow> 'c" where
  "notify w c e = (case wc_onEvent w of None \<Rightarrow> c | Some onEvent \<Rightarrow> onEvent e c)"

lemma version_ofD:
  assumes "version_of acc obj = Some v"
  shows "\<exists>x ns name rv k. obj = Obj x \<and> acc x = Some (ns, name, rv) \<and>
     objectToVersionedRuntimeObject acc obj = Inr (obj, v) \<and> object_key acc obj = Inr k \<and> key_of acc obj = k"
  using assms
  by (auto simp: version_of_def objectToVersionedRuntimeObject_def names_of_def meta_of_def key_of_def
      MetaNamespaceKeyFunc_def split: sum.splits iface.splits option.splits)

lemma key_of_Inr: "object_key acc x = Inr k \<Longrightarrow> key_of acc x = k"
  by (simp add: key_of_def)

lemma length_events_of [simp]: "length (events_of acc m calls) = length calls"
  by (induction calls arbitrary: m) auto

definition update_func :: "'o wc_call \<Rightarrow> 'o iface \<Rightarrow> 'o cache \<Rightarrow> ('o cache_error, 'o cache) result" where
  "update_func call =
     (case call of CallAdd _ \<Rightarrow> cache_Add ([], []) | CallUpdate _ \<Rightarrow> cache_Update ([], []) | CallDelete _ \<Rightarrow> cache_Delete ([], []))"

lemma watchCache_call_processEvent:
  assumes "version_of acc (call_object call) = Some v"
  shows "watchCache_call acc call w c =
         processEvent (call_type call) (call_object call) v (update_func call) w c"
  using version_ofD [OF assms]
  by (cases call) (auto simp: watchCache_Add_def watchCache_Update_def watchCache_Delete_def update_func_def)

lemma update_func_contents:
  assumes inv: "cache_inv (object_key acc) Map.empty s" and v: "version_of acc (call_object call) = Some v"
  shows "\<exists>s'. update_func call (call_object call) s = Inr s' \<and> cache_inv (object_key acc) Map.empty s' \<and>
         cache_contents s' = apply_event acc (cache_contents s) (call_event acc m call)"
proof -
  obtain x k where x: "call_object call = Obj x" and k: "object_key acc (Obj x) = Inr k" "key_of acc (Obj x) = k"
    using version_ofD [OF v] by auto
  have st: "cache_storable Map.empty (Obj x)" and vis: "cache_visits Map.empty ([], [])"
    by (auto simp: cache_storable_def cache_visits_def)
  show ?thesis
    using cs.add_key [OF inv vis st k(1)] cs.update_key [OF inv vis st k(1)] cs.delete_key [OF inv vis k(1)] x k
    by (cases call) (auto simp: update_func_def apply_event_def call_event_def cache_ops_def)
qed

lemma watchCache_call_spec:
  assumes inv: "wc_inv acc w" and v: "version_of acc (call_object call) = Some v" and new: "wc_resourceVersion w < v"
  defines "e \<equiv> call_event acc (wc_contents w) call"
  shows "\<exists>w'. watchCache_call acc call w c = Some (None, w', notify w c e) \<and> wc_inv acc w' \<and>
     wc_resourceVersion w' = v \<and> wc_contents w' = apply_event acc (wc_contents w) e \<and>
     window w' = last_n (wc_capacity w) (window w @ [element_of e]) \<and>
     wc_capacity w' = wc_capacity w \<and> wc_onEvent w' = wc_onEvent w"
proof -
  obtain x k where x: "call_object call = Obj x" and k: "object_key acc (Obj x) = Inr k" "key_of acc (Obj x) = k"
    using version_ofD [OF v] by auto
  have ci: "cache_inv (object_key acc) Map.empty (wc_store w)" and b: "buffer_ok w"
    using inv by (auto simp: wc_inv_def)
  have get: "cache_Get (Obj x) (wc_store w) = Inr (map_get NilI (wc_contents w) k, wc_contents w k \<noteq> None)"
    using cs.get_key [OF ci k(1)] by (simp add: cache_ops_def wc_contents_def)
  have obj: "is_object (map_get NilI (wc_contents w) k)" if "wc_contents w k \<noteq> None"
    using that inv by (auto simp: wc_inv_def)
  have e: "e = \<lparr>ev_Type = call_type call, ev_Object = Obj x, ev_PrevObject = map_get NilI (wc_contents w) k,
                ev_ResourceVersion = v\<rparr>"
    using x k v by (simp add: e_def call_event_def)
  have prev: "(if wc_contents w k \<noteq> None then map_get NilI (wc_contents w) k else NilI) = map_get NilI (wc_contents w) k"
    by simp
  obtain w1 where w1: "updateCache v e w = Some w1" "buffer_ok w1" "wc_capacity w1 = wc_capacity w"
      "wc_store w1 = wc_store w" "wc_onEvent w1 = wc_onEvent w"
      "window w1 = last_n (wc_capacity w) (window w @ [element_of e])"
    using updateCache_window [OF b, of v e] by (auto simp: element_of_def e)
  obtain s' where s': "update_func call (Obj x) (wc_store w) = Inr s'" "cache_inv (object_key acc) Map.empty s'"
      "cache_contents s' = apply_event acc (wc_contents w) e"
    using update_func_contents [OF ci v] x by (auto simp: e_def wc_contents_def)
  let ?w' = "w1\<lparr>wc_resourceVersion := v, wc_store := s'\<rparr>"
  have win: "window ?w' = window w1" by (simp add: window_def cache_at_def cong: map_cong)
  have "processEvent (call_type call) (Obj x) v (update_func call) w c = Some (None, ?w', notify w c e)"
    using obj w1 s' by (cases "wc_onEvent w") (auto simp: processEvent_def get e notify_def Let_def)
  moreover have "wc_inv acc ?w'"
  proof -
    have "is_object y \<and> object_key acc y = Inr k'" if "apply_event acc (wc_contents w) e k' = Some y" for k' y
      using that inv k by (auto simp: apply_event_def e wc_inv_def is_object_def split: if_splits)
    moreover have "sorted_wrt (<) (map el_resourceVersion (window w @ [element_of e]))"
      using inv new by (fastforce simp: wc_inv_def sorted_wrt_append element_of_def e)
    then have "sorted_wrt (<) (map el_resourceVersion (window w1))"
      unfolding w1(6) last_n_def drop_map [symmetric] by (rule sorted_wrt_drop)
    moreover have "0 < el_resourceVersion f \<and> el_resourceVersion f \<le> v \<and>
        ev_ResourceVersion (el_watchCacheEvent f) = el_resourceVersion f" if "f \<in> set (window w1)" for f
    proof -
      have "f \<in> set (window w @ [element_of e])" using that w1(6) by (metis in_set_dropD last_n_def)
      then show ?thesis using inv new by (fastforce simp: wc_inv_def element_of_def e word_gt_0)
    qed
    ultimately show ?thesis
      using w1 s' win by (simp add: wc_inv_def wc_contents_def buffer_ok_def)
  qed
  ultimately show ?thesis
    using w1 s' win v x watchCache_call_processEvent [OF v, of w c] by (auto simp: wc_contents_def)
qed

lemma watchCache_calls_spec:
  assumes "wc_inv acc w" and "newer acc (wc_resourceVersion w) calls"
  defines "es \<equiv> events_of acc (wc_contents w) calls"
  shows "\<exists>w'. watchCache_calls acc calls w c = Some (w', foldl (notify w) c es) \<and> wc_inv acc w' \<and>
     wc_contents w' = foldl (apply_event acc) (wc_contents w) es \<and>
     window w' = last_n (wc_capacity w) (window w @ map element_of es) \<and>
     wc_capacity w' = wc_capacity w \<and> wc_onEvent w' = wc_onEvent w"
  using assms(1,2) unfolding es_def
proof (induction calls arbitrary: w c)
  case Nil
  then show ?case by (auto simp: last_n_all wc_inv_def buffer_ok_def)
next
  case (Cons call calls)
  let ?e = "call_event acc (wc_contents w) call"
  obtain v where v: "version_of acc (call_object call) = Some v" "wc_resourceVersion w < v" "newer acc v calls"
    using Cons.prems(2) by (auto split: option.splits)
  obtain w1 where w1: "watchCache_call acc call w c = Some (None, w1, notify w c ?e)" "wc_inv acc w1"
     "wc_resourceVersion w1 = v" "wc_contents w1 = apply_event acc (wc_contents w) ?e"
     "window w1 = last_n (wc_capacity w) (window w @ [element_of ?e])"
     "wc_capacity w1 = wc_capacity w" "wc_onEvent w1 = wc_onEvent w"
    using watchCache_call_spec [OF Cons.prems(1) v(1,2)] by blast
  have "notify w1 = notify w" using w1(7) by (intro ext) (simp add: notify_def)
  with Cons.IH [of w1 "notify w c ?e"] w1 v(3) show ?case
    by (auto simp: last_n_append)
qed


section \<open>Events since a version\<close>

definition oldest_version :: "('o, 'c) watchCache \<Rightarrow> version" where
  "oldest_version w = (if window w = [] then wc_resourceVersion w else el_resourceVersion (hd (window w)))"

lemma window_empty: "window w = [] \<longleftrightarrow> \<not> wc_startIndex w < wc_endIndex w"
  by (auto simp: window_def)

lemma filter_sorted_drop:
  assumes "i \<le> length xs" and "\<forall>h < i. \<not> P (xs ! h)" and "\<forall>h. i \<le> h \<and> h < length xs \<longrightarrow> P (xs ! h)"
  shows "filter P xs = drop i xs"
proof -
  have "filter P (take i xs) = []" using assms(1,2) by (auto simp: filter_empty_conv in_set_conv_nth)
  moreover have "filter P (drop i xs) = drop i xs"
    using assms(1,3) by (auto simp: filter_id_conv in_set_conv_nth)
  ultimately show ?thesis by (metis append_Nil append_take_drop_id filter_append)
qed

lemma GetAllEventsSince_spec:
  assumes inv: "wc_inv acc w" and rv: "rv \<noteq> 0"
  shows "GetAllEventsSince ks rv w =
     (if rv < oldest_version w - 1 then Some (Inl (Gone rv (oldest_version w - 1)))
      else Some (Inr (map el_watchCacheEvent (filter (\<lambda>e. rv < el_resourceVersion e) (window w)))))"
proof -
  let ?n = "wc_endIndex w - wc_startIndex w" and ?P = "\<lambda>e. rv < el_resourceVersion e"
  have nth: "cache_at w (wc_startIndex w + i) = window w ! i" if "i < ?n" for i
    using that by (simp add: window_def)
  have old: "(if ?n > 0 then el_resourceVersion (cache_at w (wc_startIndex w)) else wc_resourceVersion w) = oldest_version w"
    using nth [of 0] by (auto simp: oldest_version_def hd_conv_nth window_empty)
  define first where "first = sort_Search ?n (\<lambda>i. ?P (cache_at w (wc_startIndex w + i)))"
  have mono: "?P (cache_at w (wc_startIndex w + b))"
    if "a \<le> b" "b < ?n" "?P (cache_at w (wc_startIndex w + a))" for a b
  proof (cases "a = b")
    case False
    with that have "el_resourceVersion (window w ! a) < el_resourceVersion (window w ! b)"
      using inv sorted_wrt_nth_less [of "(<)" "map el_resourceVersion (window w)" a b] by (simp add: wc_inv_def)
    with that nth [of a] nth [of b] show ?thesis by simp
  qed (use that in simp)
  have b: "first \<le> ?n \<and> (\<forall>h < first. \<not> ?P (cache_at w (wc_startIndex w + h))) \<and>
      (\<forall>h. first \<le> h \<and> h < ?n \<longrightarrow> ?P (cache_at w (wc_startIndex w + h)))"
    unfolding first_def by (rule sort_Search_boundary) (rule mono)
  then have "filter ?P (window w) = drop first (window w)"
    by (intro filter_sorted_drop) (auto simp: nth)
  moreover have "map (\<lambda>i. el_watchCacheEvent (cache_at w (wc_startIndex w + first + i))) [0..<?n - first] =
      map el_watchCacheEvent (drop first (window w))"
    using b nth by (intro nth_equalityI) (simp_all add: add.assoc)
  ultimately show ?thesis
    using rv unfolding GetAllEventsSince_def GetAllEventsSinceThreadUnsafe_def Let_def old first_def [symmetric]
    by simp
qed

lemma version_pred_less:
  assumes "0 < (b :: version)"
  shows "a \<le> b - 1 \<longleftrightarrow> a < b"
proof -
  have "b \<noteq> 0" and "0 < unat b" using assms by (auto simp: word_less_nat_alt)
  then show ?thesis by (simp add: word_le_nat_alt word_less_nat_alt unat_minus_one) linarith
qed

lemma newer_events:
  assumes "newer acc rv calls"
  shows "sorted_wrt (<) (rv # map ev_ResourceVersion (events_of acc m calls))"
  using assms
proof (induction calls arbitrary: rv m)
  case (Cons call calls)
  then obtain v where v: "version_of acc (call_object call) = Some v" "rv < v" "newer acc v calls"
    by (auto split: option.splits)
  have "ev_ResourceVersion (call_event acc m call) = v" by (simp add: call_event_def v)
  with Cons.IH [OF v(3)] v(2) show ?case by (auto intro: less_trans)
qed simp


text \<open>
  A client that knows the version \<open>rv\<close> up to which the cache was filled, asks again after more
  events: either it gets exactly those events, or some of them may have left the window.
\<close>

lemma events_since_complete:
  assumes n: "0 < n" and sorted: "sorted_wrt (<) (rv # map ev_ResourceVersion es)"
    and win: "window w' = last_n n (old @ map element_of es)" and old: "\<forall>e \<in> set old. el_resourceVersion e \<le> rv"
    and ok: "\<not> rv < oldest_version w' - 1"
  shows "map el_watchCacheEvent (filter (\<lambda>e. rv < el_resourceVersion e) (window w')) = es"
proof -
  define d where "d = length old + length es - n"
  have w': "window w' = drop d (old @ map element_of es)"
    by (simp add: win last_n_def d_def)
  have "d \<le> length old"
  proof (rule ccontr)
    assume "\<not> d \<le> length old"
    define j where "j = d - length old"
    have j: "0 < j" "j < length es" using \<open>\<not> d \<le> length old\<close> n by (auto simp: j_def d_def)
    have "window w' = drop j (map element_of es)" using \<open>\<not> d \<le> length old\<close> by (simp add: w' j_def)
    then have "oldest_version w' = ev_ResourceVersion (es ! j)"
      using j by (auto simp: oldest_version_def element_of_def hd_drop_conv_nth)
    moreover have "rv < ev_ResourceVersion (es ! 0)" using sorted j by (cases es) auto
    moreover have "ev_ResourceVersion (es ! 0) < ev_ResourceVersion (es ! j)"
      using sorted j sorted_wrt_nth_less [of "(<)" "map ev_ResourceVersion es" 0 j] by (cases es) auto
    ultimately have "rv < ev_ResourceVersion (es ! 0)" and lt: "ev_ResourceVersion (es ! 0) < oldest_version w'"
      by auto
    moreover have "ev_ResourceVersion (es ! 0) \<le> oldest_version w' - 1"
      using lt version_pred_less le_less_trans word_zero_le by blast
    ultimately show False using ok less_le_trans by blast
  qed
  then have "window w' = drop d old @ map element_of es" by (simp add: w')
  moreover have "filter (\<lambda>e. rv < el_resourceVersion e) (drop d old) = []"
    using old by (auto simp: filter_empty_conv not_less dest: in_set_dropD)
  moreover have "filter (\<lambda>e. rv < el_resourceVersion e) (map element_of es) = map element_of es"
    using sorted by (auto simp: filter_id_conv element_of_def)
  ultimately show ?thesis by (simp add: element_of_def comp_def)
qed

lemma window_not_lost:
  assumes inv: "wc_inv acc w"
    and win: "window w' = last_n (wc_capacity w) (window w @ xs)"
    and "window w \<noteq> []" and "length xs < wc_capacity w"
  shows "\<not> wc_resourceVersion w < oldest_version w' - 1"
proof -
  define d where "d = length (window w) + length xs - wc_capacity w"
  have d: "d < length (window w)" using assms(3,4) length_greater_0_conv [of "window w"] by (auto simp: d_def)
  have "window w' = drop d (window w @ xs)" by (simp add: win last_n_def d_def)
  with d have "oldest_version w' = el_resourceVersion (window w ! d)"
    by (auto simp: oldest_version_def hd_drop_conv_nth nth_append)
  then have "oldest_version w' \<le> wc_resourceVersion w" and "0 < oldest_version w'"
    using inv d by (auto simp: wc_inv_def)
  moreover from this(2) have "oldest_version w' - 1 < oldest_version w'"
    using version_pred_less [of "oldest_version w'" "oldest_version w' - 1"] by blast
  ultimately have "oldest_version w' - 1 < wc_resourceVersion w" by (metis less_le_trans)
  then show ?thesis by (rule less_not_sym)
qed



section \<open>A new cache and Replace\<close>

lemma is_object_simps [simp]: "\<not> is_object NilI" "is_object (Obj x)"
  by (simp_all add: is_object_def)

lemma window_upd [simp]:
  "window (w\<lparr>wc_store := s\<rparr>) = window w" "window (w\<lparr>wc_resourceVersion := v\<rparr>) = window w"
  "window (w\<lparr>wc_onEvent := f\<rparr>) = window w" "window (w\<lparr>wc_onReplace := g\<rparr>) = window w"
  by (simp_all add: window_def cache_at_def cong: map_cong)

lemma wc_contents_upd [simp]:
  "wc_contents (w\<lparr>wc_store := s\<rparr>) = cache_contents s" "wc_contents (w\<lparr>wc_resourceVersion := v\<rparr>) = wc_contents w"
  "wc_contents (w\<lparr>wc_onEvent := f\<rparr>) = wc_contents w" "wc_contents (w\<lparr>wc_onReplace := g\<rparr>) = wc_contents w"
  by (simp_all add: wc_contents_def)

lemma wc_inv_handlers [simp]:
  "wc_inv acc (SetOnEvent f w) = wc_inv acc w" "wc_inv acc (SetOnReplace g w) = wc_inv acc w"
  by (simp_all add: wc_inv_def SetOnEvent_def SetOnReplace_def buffer_ok_def)

lemma newWatchCache_inv: "0 < capacity \<Longrightarrow> wc_inv acc (newWatchCache acc capacity)"
  using cache_inv_NewIndexer [of "object_key acc" Map.empty]
  by (simp add: wc_inv_def newWatchCache_def buffer_ok_def window_def wc_contents_def NewStore_NewIndexer)
    (simp add: NewIndexer_def NewThreadSafeStore_def cache_contents_def)

lemma key_items_all:
  assumes "key_items kf xs m = Inr its" and "its k = Some x"
    and "\<And>k x. m k = Some x \<Longrightarrow> P k x" and "\<And>k x. x \<in> set xs \<Longrightarrow> kf x = Inr k \<Longrightarrow> P k x"
  shows "P k x"
  using assms
proof (induction xs arbitrary: m)
  case (Cons item xs)
  then obtain key where key: "kf item = Inr key" "key_items kf xs (m(key \<mapsto> item)) = Inr its"
    by (auto split: sum.splits)
  show ?case
    by (rule Cons.IH [OF key(2) Cons.prems(2)]) (use Cons.prems(3,4) key(1) in \<open>auto split: if_splits\<close>)
qed auto

lemma watchCache_Replace_inv:
  fixes w :: "('o, 'c) watchCache"
  assumes inv: "wc_inv acc w" and objs: "list_all is_object objs"
    and r: "watchCache_Replace ks objs resourceVersion w c = (None, w', c')"
    and ks: "range_of (wc_contents w') ks"
  shows "wc_inv acc w' \<and> window w' = [] \<and>
         (parseResourceVersion resourceVersion :: ('o wc_error, version) result) = Inr (wc_resourceVersion w')"
proof -
  let ?st = "cacheStorage (wc_store w)"
  have ci: "keyFunc (wc_store w) = object_key acc" "indexers ?st = Map.empty"
    using inv by (auto simp: wc_inv_def cache_inv_def)
  obtain v its where v: "(parseResourceVersion resourceVersion :: ('o wc_error, version) result) = Inr v"
    and its: "key_items (object_key acc) objs Map.empty = Inr its"
    and w': "w' = w\<lparr>wc_startIndex := 0, wc_endIndex := 0,
        wc_store := (wc_store w)\<lparr>cacheStorage := threadSafeMap_Replace ks (\<lambda>_. []) its ?st\<rparr>,
        wc_resourceVersion := v\<rparr>"
    using r ci by (auto simp: watchCache_Replace_def cache_Replace_def Let_def split: sum.splits)
  have cont: "wc_contents w' = its"
    by (simp add: w' wc_contents_def cache_contents_def threadSafeMap_Replace_def)
  have all: "is_object x \<and> object_key acc x = Inr k" if "its k = Some x" for k x
    using key_items_all [OF its that, of "\<lambda>k x. is_object x \<and> object_key acc x = Inr k"] objs
    by (auto simp: list_all_iff)
  have "index_inv (threadSafeMap_Replace ks (\<lambda>_. []) its ?st)"
    using ks all by (intro index_inv_Replace) (auto simp: cont ci index_total_def dest!: all)
  then have "cache_inv (object_key acc) Map.empty (wc_store w')"
    using ci by (simp add: w' cache_inv_def threadSafeMap_Replace_def)
  moreover have "window w' = []" by (simp add: w' window_def)
  moreover have "buffer_ok w'" using inv by (simp add: w' wc_inv_def buffer_ok_def)
  ultimately show ?thesis using all v by (simp add: wc_inv_def cont) (simp add: w')
qed

text \<open>Watching from version 0 starts with the current contents.\<close>

lemma foldl_added:
  "foldl (apply_event acc) m
           (map (\<lambda>item. \<lparr>ev_Type = EvAdded, ev_Object = item, ev_PrevObject = NilI, ev_ResourceVersion = 0\<rparr>) xs) =
         m ++ map_of (rev (map (\<lambda>x. (key_of acc x, x)) xs))"
  by (induction xs arbitrary: m) (auto simp: apply_event_def map_add_def fun_eq_iff split: option.splits)

lemma GetAllEventsSince_zero:
  assumes inv: "wc_inv acc w" and ks: "range_of (wc_contents w) ks"
  shows "\<exists>es. GetAllEventsSince ks 0 w = Some (Inr es) \<and> foldl (apply_event acc) Map.empty es = wc_contents w \<and>
              (\<forall>e \<in> set es. ev_PrevObject e = NilI \<and> ev_Type e = EvAdded) \<and>
              map (\<lambda>e. key_of acc (ev_Object e)) es = ks"
proof -
  let ?m = "wc_contents w" and ?xs = "cache_List ks (wc_store w)"
  have key: "object_key acc (map_get NilI ?m k) = Inr k" "is_object (map_get NilI ?m k)" if "k \<in> set ks" for k
    using inv that range_of_mem [OF ks] by (auto simp: wc_inv_def)
  have xs: "?xs = map (map_get NilI ?m) ks"
    by (simp add: cache_List_def threadSafeMap_List_def wc_contents_def cache_contents_def)
  have "map_of (rev (map (\<lambda>x. (key_of acc x, x)) ?xs)) = ?m"
  proof
    fix k
    have "map (\<lambda>x. (key_of acc x, x)) ?xs = map (\<lambda>k. (k, map_get NilI ?m k)) ks"
      using key by (simp add: xs key_of_def)
    then have "map_of (rev (map (\<lambda>x. (key_of acc x, x)) ?xs)) k =
               (if k \<in> set ks then Some (map_get NilI ?m k) else None)"
      by (simp add: rev_map map_of_map_restrict restrict_map_def)
    then show "map_of (rev (map (\<lambda>x. (key_of acc x, x)) ?xs)) k = ?m k"
      using range_of_mem [OF ks, of k] by auto
  qed
  moreover have "list_all is_object ?xs" using key by (auto simp: xs list_all_iff)
  moreover have "map (key_of acc) ?xs = ks" using key by (simp add: xs key_of_def map_idI)
  ultimately show ?thesis
    using foldl_added [of acc Map.empty ?xs]
    by (simp add: GetAllEventsSince_def GetAllEventsSinceThreadUnsafe_def comp_def)
qed


text \<open>
  C2. The cyclic buffer and its binary search implement a plain list: after any sequence of
  additions, updates and deletions with growing versions the buffer holds the latest events, as
  many as its capacity, and the events since a version are those of the list with a larger
  version, unless the version lies before the oldest of the list.
\<close>
theorem watchcache_sliding_window:
  assumes "wc_inv acc w" and "newer acc (wc_resourceVersion w) calls"
    and "watchCache_calls acc calls w c = Some (w', c')" and "rv \<noteq> 0"
  shows "window w' = last_n (wc_capacity w) (window w @ map element_of (events_of acc (wc_contents w) calls)) \<and>
         GetAllEventsSince ks rv w' =
           (if rv < oldest_version w' - 1 then Some (Inl (Gone rv (oldest_version w' - 1)))
            else Some (Inr (map el_watchCacheEvent (filter (\<lambda>e. rv < el_resourceVersion e) (window w')))))"
proof -
  have "wc_inv acc w'"
    and "window w' = last_n (wc_capacity w) (window w @ map element_of (events_of acc (wc_contents w) calls))"
    using watchCache_calls_spec [OF assms(1,2), of c] assms(3) by auto
  then show ?thesis using GetAllEventsSince_spec [OF _ assms(4)] by blast
qed

text \<open>
  C3. Right after a Replace the test for old versions is off in both directions. A client that
  watches from the version before the list's is accepted and gets no events, although whatever
  made the list's version is not among them; and once an event arrives whose version is not the
  next one, a client that watches from the list's own version is refused, although the window
  holds every event since.
\<close>
theorem watchcache_off_after_replace:
  assumes "wc_inv acc w" and "list_all is_object objs"
    and "watchCache_Replace ks objs resourceVersion w c = (None, w', c')" and "range_of (wc_contents w') ks"
    and "1 < wc_resourceVersion w'"
    and "version_of acc obj = Some v" and "wc_resourceVersion w' < v" and "wc_resourceVersion w' < v - 1"
    and "watchCache_Add acc obj w' c' = Some (None, w'', c'')"
  shows "GetAllEventsSince ks' (wc_resourceVersion w' - 1) w' = Some (Inr []) \<and>
         GetAllEventsSince ks' (wc_resourceVersion w') w'' = Some (Inl (Gone (wc_resourceVersion w') (v - 1))) \<and>
         map el_resourceVersion (window w'') = [v]"
proof -
  have inv: "wc_inv acc w'" and win: "window w' = []"
    using watchCache_Replace_inv [OF assms(1-4)] by auto
  have rv: "wc_resourceVersion w' \<noteq> 0" "wc_resourceVersion w' - 1 \<noteq> 0"
    using assms(5) by (auto simp: word_gt_0)
  have inv'': "wc_inv acc w''" and "window w'' = [element_of (call_event acc (wc_contents w') (CallAdd obj))]"
    using watchCache_call_spec [OF inv, of "CallAdd obj" v c'] assms(6,7,9) win inv
    by (auto simp: last_n_all wc_inv_def buffer_ok_def)
  moreover have "ev_ResourceVersion (call_event acc (wc_contents w') (CallAdd obj)) = v"
    using assms(6) by (simp add: call_event_def)
  ultimately show ?thesis
    using GetAllEventsSince_spec [OF inv rv(2)] GetAllEventsSince_spec [OF inv'' rv(1)] win assms(8)
    by (simp add: oldest_version_def element_of_def)
qed

section \<open>Examples\<close>

text \<open>Objects that are a name and a resource version, in a cache of capacity two.\<close>

definition pair_accessor :: "(string \<times> string) accessor" where
  "pair_accessor x = Some ('''', fst x, snd x)"

definition example_cache :: "'c \<Rightarrow> (string \<times> string, 'c) watchCache" where
  "example_cache c = (fst \<circ> snd) (watchCache_Replace [''a''] [Obj (''a'', ''9'')] ''10'' (newWatchCache pair_accessor 2) c)"

lemmas example_simps = version_of_def objectToVersionedRuntimeObject_def parseResourceVersion_def ParseUint_def
  read_nat_def digit_val_def is_digit_def pair_accessor_def

lemma example_versions:
  "version_of pair_accessor (Obj (''b'', ''11'')) = Some 11" "version_of pair_accessor (Obj (''b'', ''15'')) = Some 15"
  by (simp_all add: example_simps)

lemmas example_replace_simps = watchCache_Replace_def cache_Replace_def newWatchCache_def NewStore_def
  MetaNamespaceKeyFunc_def meta_of_def names_of_def example_simps

lemma example_replace:
  "watchCache_Replace [''a''] [Obj (''a'', ''9'')] ''10'' (newWatchCache pair_accessor 2) c = (None, (example_cache c), c)"
  unfolding example_cache_def by (simp add: prod_eq_iff) (simp add: example_replace_simps)

lemma example_version: "wc_resourceVersion (example_cache c) = 10"
  by (simp add: example_cache_def example_replace_simps)

lemma example_contents: "wc_contents (example_cache c) = [''a'' \<mapsto> Obj (''a'', ''9'')]"
  by (simp add: example_cache_def example_replace_simps wc_contents_def cache_contents_def threadSafeMap_Replace_def)

lemma example_range: "range_of (wc_contents (example_cache c)) [''a'']"
  by (simp add: example_contents range_of_def)

lemma example_inv: "wc_inv pair_accessor (example_cache c)" "window (example_cache c) = []"
  using watchCache_Replace_inv [OF newWatchCache_inv _ example_replace example_range, of c] by simp_all

lemma example_capacity: "wc_capacity (example_cache c) = 2"
  by (simp add: example_cache_def example_replace_simps)

lemma example_newer: "newer pair_accessor (wc_resourceVersion (example_cache c)) [CallAdd (Obj (''b'', ''11''))]"
  by (simp add: example_versions example_version)

lemma example_window:
  assumes "watchCache_calls pair_accessor [CallAdd (Obj (''b'', ''11''))] (example_cache c) c = Some (w', c')"
  shows "map el_resourceVersion (window w') = [11]" and "wc_inv pair_accessor w'"
  using watchCache_calls_spec [OF example_inv(1) example_newer, of c c] assms
  by (auto simp: example_inv(2) example_capacity last_n_all element_of_def call_event_def example_versions)

lemma example_added: "\<exists>w'. watchCache_calls pair_accessor [CallAdd (Obj (''b'', ''11''))] (example_cache ()) () = Some (w', ())"
  using watchCache_calls_spec [OF example_inv(1) example_newer, of "()" "()"] by auto


theorem watchcache_sliding_window_witness:
  "\<exists>w'. watchCache_calls pair_accessor [CallAdd (Obj (''b'', ''11''))] (example_cache ()) () = Some (w', ()) \<and>
     GetAllEventsSince [] 11 w' = Some (Inr [])"
proof -
  obtain w' where w': "watchCache_calls pair_accessor [CallAdd (Obj (''b'', ''11''))] (example_cache ()) () = Some (w', ())"
    using example_added by blast
  have "\<not> 11 < oldest_version w' - 1" and "filter (\<lambda>e. 11 < el_resourceVersion e) (window w') = []"
    using example_window(1) [OF w'] by (auto simp: oldest_version_def)
  with watchcache_sliding_window [OF example_inv(1) example_newer w', of 11 "[]"] w' show ?thesis by simp
qed

theorem watchcache_off_after_replace_witness:
  "\<exists>w''. watchCache_Add pair_accessor (Obj (''b'', ''15'')) (example_cache ()) () = Some (None, w'', ()) \<and>
     GetAllEventsSince [] 9 (example_cache ()) = Some (Inr []) \<and>
     GetAllEventsSince [] 10 w'' = Some (Inl (Gone 10 14))"
proof -
  obtain w'' where w'': "watchCache_Add pair_accessor (Obj (''b'', ''15'')) (example_cache ()) () = Some (None, w'', ())"
    using watchCache_call_spec [OF example_inv(1), of "CallAdd (Obj (''b'', ''15''))" 15 "()" "()"]
    by (auto simp: example_versions example_version)
  have "GetAllEventsSince [] (wc_resourceVersion (example_cache ()) - 1) (example_cache ()) = Some (Inr []) \<and>
      GetAllEventsSince [] (wc_resourceVersion (example_cache ())) w'' =
        Some (Inl (Gone (wc_resourceVersion (example_cache ())) (15 - 1))) \<and> map el_resourceVersion (window w'') = [15]"
    by (rule watchcache_off_after_replace [OF newWatchCache_inv _ example_replace example_range _ _ _ _ w''])
      (simp_all add: example_versions example_version)
  with w'' show ?thesis by (simp add: example_version)
qed

end
