(* ===== verification/Storage_Cacher.thy ===== *)
theory Storage_Cacher
  imports Watch_Cache
begin

text \<open>
  The cacher in front of the API server's storage, \<^verbatim>\<open>pkg/storage/cacher.go\<close>, with the key functions
  of \<^verbatim>\<open>pkg/storage/util.go\<close> and \<^verbatim>\<open>pkg/registry/generic/registry/store.go\<close>: lists and watches are served from
  the watch cache, every watcher has a buffered channel of events that a goroutine of its own
  filters and sends on, and a watcher that does not keep up is terminated. The lemmas show that
  what a watcher sends lets its client follow the filtered contents of the cache, that no event is
  sent on a closed channel, and that the filter by key prefix lets objects of other namespaces
  through.

  Watchers are identified by the index under which \<^verbatim>\<open>Watch\<close> registers them: \<open>ca_heap\<close> holds all
  watchers ever created, \<open>ca_watchers\<close> the keys of the map \<^verbatim>\<open>watchers\<close>. The channel \<^verbatim>\<open>result\<close> is the list of
  everything sent on it; a send that waits for the client is a step that happens later. The
  copying of objects (\<^verbatim>\<open>api.Scheme.Copy\<close>) is a parameter, as are the underlying storage and the
  user's filter.
\<close>

section \<open>Keys and filters\<close>

text \<open>\<^verbatim>\<open>api/validation/name.go\<close>: names that can be a segment of a path.\<close>

definition IsValidPathSegmentName :: "string \<Rightarrow> bool" where
  "IsValidPathSegmentName name \<longleftrightarrow>
     name \<notin> {''.'', ''..''} \<and> CHR ''/'' \<notin> set name \<and> CHR ''%'' \<notin> set name"

definition NamespaceKeyFunc :: "'o accessor \<Rightarrow> string \<Rightarrow> 'o iface \<Rightarrow> ('o wc_error, string) result" where
  "NamespaceKeyFunc acc prefix obj =
     (case obj of
        Obj x \<Rightarrow>
          (case acc x of
             None \<Rightarrow> Inl (AccessorError obj)
           | Some (ns, name, _) \<Rightarrow>
               if \<not> IsValidPathSegmentName name then Inl (AccessorError obj)
               else Inr (prefix @ ''/'' @ ns @ ''/'' @ name))
      | _ \<Rightarrow> Inl (AccessorError obj))"

definition NoNamespaceKeyFunc :: "'o accessor \<Rightarrow> string \<Rightarrow> 'o iface \<Rightarrow> ('o wc_error, string) result" where
  "NoNamespaceKeyFunc acc prefix obj =
     (case obj of
        Obj x \<Rightarrow>
          (case acc x of
             None \<Rightarrow> Inl (AccessorError obj)
           | Some (_, name, _) \<Rightarrow>
               if \<not> IsValidPathSegmentName name then Inl (AccessorError obj)
               else Inr (prefix @ ''/'' @ name))
      | _ \<Rightarrow> Inl (AccessorError obj))"

text \<open>The directory a request of a namespace lists and watches; \<open>ns\<close> is the namespace of its context.\<close>

definition NamespaceKeyRootFunc :: "string option \<Rightarrow> string \<Rightarrow> string" where
  "NamespaceKeyRootFunc ns prefix =
     (case ns of
        None \<Rightarrow> prefix
      | Some n \<Rightarrow> if length n > 0 then prefix @ ''/'' @ n else prefix)"

definition filterFunction ::
  "string \<Rightarrow> ('o iface \<Rightarrow> ('o wc_error, string) result) \<Rightarrow> ('o iface \<Rightarrow> bool) \<Rightarrow> 'o iface \<Rightarrow> bool" where
  "filterFunction key kf filt obj =
     (case kf obj of
        Inl _ \<Rightarrow> False
      | Inr objKey \<Rightarrow> if take (length key) objKey \<noteq> key then False else filt obj)"

definition ParseWatchResourceVersion :: "string \<Rightarrow> ('o wc_error, version) result" where
  "ParseWatchResourceVersion resourceVersion =
     (if resourceVersion = '''' \<or> resourceVersion = ''0'' then Inr 0
      else case ParseUint resourceVersion of
             None \<Rightarrow> Inl (ParseUintError resourceVersion)
           | Some version \<Rightarrow> Inr version)"

definition ParseListResourceVersion :: "string \<Rightarrow> ('o wc_error, version) result" where
  "ParseListResourceVersion resourceVersion =
     (if resourceVersion = '''' then Inr 0
      else case ParseUint resourceVersion of
             None \<Rightarrow> Inl (ParseUintError resourceVersion)
           | Some version \<Rightarrow> Inr version)"

section \<open>Watchers\<close>

record 'o watch_event =
  we_Type :: EventType
  we_Object :: "'o iface"

text \<open>The last three fields are the locals of the goroutine \<^verbatim>\<open>process\<close>.\<close>

record 'o cacheWatcher =
  cw_input :: "'o watchCacheEvent list"
  cw_result :: "'o watch_event list"
  cw_filter :: "'o iface \<Rightarrow> bool"
  cw_stopped :: bool
  cw_initEvents :: "'o watchCacheEvent list"
  cw_resourceVersion :: version
  cw_done :: bool

record 'o Cacher =
  ca_usable :: bool
  ca_watcherIdx :: nat
  ca_watchers :: "nat set"
  ca_heap :: "nat \<rightharpoonup> 'o cacheWatcher"
  ca_panicked :: bool

definition newCacheWatcher ::
  "version \<Rightarrow> 'o watchCacheEvent list \<Rightarrow> ('o iface \<Rightarrow> bool) \<Rightarrow> 'o cacheWatcher" where
  "newCacheWatcher resourceVersion initEvents filt =
     \<lparr>cw_input = [], cw_result = [], cw_filter = filt, cw_stopped = False,
      cw_initEvents = initEvents, cw_resourceVersion = resourceVersion, cw_done = False\<rparr>"

definition sendWatchCacheEvent ::
  "('o iface \<Rightarrow> 'o iface option) \<Rightarrow> 'o watchCacheEvent \<Rightarrow> 'o cacheWatcher \<Rightarrow> 'o cacheWatcher" where
  "sendWatchCacheEvent copy event c =
     (let curObjPasses = (ev_Type event \<noteq> EvDeleted \<and> cw_filter c (ev_Object event));
          oldObjPasses = (ev_PrevObject event \<noteq> NilI \<and> cw_filter c (ev_PrevObject event))
      in if \<not> curObjPasses \<and> \<not> oldObjPasses then c
         else case copy (ev_Object event) of
                None \<Rightarrow> c
              | Some object \<Rightarrow>
                  c\<lparr>cw_result := cw_result c @
                     [\<lparr>we_Type = (if curObjPasses \<and> \<not> oldObjPasses then EvAdded
                                 else if curObjPasses \<and> oldObjPasses then EvModified else EvDeleted),
                       we_Object = object\<rparr>]\<rparr>)"

text \<open>One turn of \<^verbatim>\<open>process\<close>: an initial event, or the receipt of an event, or its end; with nothing
  to receive it waits.\<close>

definition process_turn ::
  "('o iface \<Rightarrow> 'o iface option) \<Rightarrow> 'o cacheWatcher \<Rightarrow> 'o cacheWatcher" where
  "process_turn copy c =
     (case cw_initEvents c of
        event # es \<Rightarrow> sendWatchCacheEvent copy event (c\<lparr>cw_initEvents := es\<rparr>)
      | [] \<Rightarrow>
          (case cw_input c of
             event # es \<Rightarrow>
               if cw_resourceVersion c < ev_ResourceVersion event
               then sendWatchCacheEvent copy event (c\<lparr>cw_input := es\<rparr>)
               else c\<lparr>cw_input := es\<rparr>
           | [] \<Rightarrow> if cw_stopped c then c\<lparr>cw_done := True\<rparr> else c))"

definition forgetWatcher :: "nat \<Rightarrow> 'o Cacher \<Rightarrow> 'o Cacher" where
  "forgetWatcher index c = c\<lparr>ca_watchers := ca_watchers c - {index}\<rparr>"

definition cacheWatcher_stop :: "nat \<Rightarrow> 'o Cacher \<Rightarrow> 'o Cacher" where
  "cacheWatcher_stop i c =
     (case ca_heap c i of
        None \<Rightarrow> c\<lparr>ca_panicked := True\<rparr>
      | Some x \<Rightarrow> if \<not> cw_stopped x then c\<lparr>ca_heap := (ca_heap c)(i \<mapsto> x\<lparr>cw_stopped := True\<rparr>)\<rparr> else c)"

definition cacheWatcher_Stop :: "nat \<Rightarrow> 'o Cacher \<Rightarrow> 'o Cacher" where
  "cacheWatcher_Stop i c = cacheWatcher_stop i (forgetWatcher i c)"

text \<open>
  \<^verbatim>\<open>add\<close>: the channel \<^verbatim>\<open>input\<close> has room for ten events. With the channel full, \<open>turns\<close> is how many
  turns the watcher's goroutine makes before the timer fires. A send on a closed channel panics.
\<close>

definition cacheWatcher_add ::
  "('o iface \<Rightarrow> 'o iface option) \<Rightarrow> nat \<Rightarrow> nat \<Rightarrow> 'o watchCacheEvent \<Rightarrow> 'o Cacher \<Rightarrow> 'o Cacher" where
  "cacheWatcher_add copy turns i event c =
     (case ca_heap c i of
        None \<Rightarrow> c\<lparr>ca_panicked := True\<rparr>
      | Some x \<Rightarrow>
          if cw_stopped x then c\<lparr>ca_panicked := True\<rparr>
          else if length (cw_input x) < 10
          then c\<lparr>ca_heap := (ca_heap c)(i \<mapsto> x\<lparr>cw_input := cw_input x @ [event]\<rparr>)\<rparr>
          else
            let x1 = (process_turn copy ^^ turns) x
            in if length (cw_input x1) < 10
               then c\<lparr>ca_heap := (ca_heap c)(i \<mapsto> x1\<lparr>cw_input := cw_input x1 @ [event]\<rparr>)\<rparr>
               else cacheWatcher_stop i (forgetWatcher i (c\<lparr>ca_heap := (ca_heap c)(i \<mapsto> x1)\<rparr>)))"

text \<open>The goroutine of watcher \<open>i\<close> makes a turn; when it returns, its deferred calls run.\<close>

definition cacheWatcher_process :: "('o iface \<Rightarrow> 'o iface option) \<Rightarrow> nat \<Rightarrow> 'o Cacher \<Rightarrow> 'o Cacher" where
  "cacheWatcher_process copy i c =
     (case ca_heap c i of
        None \<Rightarrow> c
      | Some x \<Rightarrow>
          let x1 = process_turn copy x; c1 = c\<lparr>ca_heap := (ca_heap c)(i \<mapsto> x1)\<rparr>
          in if cw_done x1 then cacheWatcher_Stop i c1 else c1)"

section \<open>The cacher\<close>

definition newCacher :: "'o Cacher" where
  "newCacher = \<lparr>ca_usable = False, ca_watcherIdx = 0, ca_watchers = {}, ca_heap = Map.empty, ca_panicked = False\<rparr>"

text \<open>\<open>ord\<close> is the order in which the watchers are visited.\<close>

definition Cacher_processEvent ::
  "('o iface \<Rightarrow> 'o iface option) \<Rightarrow> nat list \<Rightarrow> (nat \<Rightarrow> nat) \<Rightarrow> 'o watchCacheEvent \<Rightarrow> 'o Cacher \<Rightarrow> 'o Cacher" where
  "Cacher_processEvent copy ord turns event c = foldl (\<lambda>c i. cacheWatcher_add copy (turns i) i event c) c ord"

definition terminateAllWatchers :: "nat list \<Rightarrow> 'o Cacher \<Rightarrow> 'o Cacher" where
  "terminateAllWatchers ord c = foldl (\<lambda>c i. cacheWatcher_stop i (forgetWatcher i c)) c ord"

text \<open>\<^verbatim>\<open>startCaching\<close> up to the reflector's list: the lock \<^verbatim>\<open>usable\<close> is held, initially and again since the
  end of the round before, and the cacher is usable once the list is in.\<close>

definition startCaching ::
  "nat list \<Rightarrow> ('o, 'o Cacher) watchCache \<Rightarrow> 'o Cacher \<Rightarrow> ('o, 'o Cacher) watchCache \<times> 'o Cacher" where
  "startCaching ord w c =
     (SetOnReplace (Some (\<lambda>c. c\<lparr>ca_usable := True\<rparr>)) w, terminateAllWatchers ord (c\<lparr>ca_usable := False\<rparr>))"

datatype 'o watch_interface = errWatcher "'o wc_error" | Watcher nat

text \<open>\<^verbatim>\<open>Watch\<close>; \<open>ks\<close> visits the stored items. It waits while the cacher is not usable.\<close>

definition Cacher_Watch ::
  "string list \<Rightarrow> ('o iface \<Rightarrow> ('o wc_error, string) result) \<Rightarrow> string \<Rightarrow> string \<Rightarrow> ('o iface \<Rightarrow> bool)
     \<Rightarrow> ('o, 'o Cacher) watchCache \<Rightarrow> 'o Cacher
     \<Rightarrow> (('o wc_error, 'o watch_interface) result \<times> 'o Cacher) option" where
  "Cacher_Watch ks kf key resourceVersion filt w c =
     (case ParseWatchResourceVersion resourceVersion of
        Inl err \<Rightarrow> Some (Inl err, c)
      | Inr watchRV \<Rightarrow>
          if \<not> ca_usable c then None
          else case GetAllEventsSinceThreadUnsafe ks watchRV w of
                 None \<Rightarrow> None
               | Some (Inl err) \<Rightarrow> Some (Inr (errWatcher err), c)
               | Some (Inr initEvents) \<Rightarrow>
                   Some (Inr (Watcher (ca_watcherIdx c)),
                     c\<lparr>ca_watchers := insert (ca_watcherIdx c) (ca_watchers c),
                       ca_heap := (ca_heap c)(ca_watcherIdx c \<mapsto>
                         newCacheWatcher watchRV initEvents (filterFunction key kf filt)),
                       ca_watcherIdx := ca_watcherIdx c + 1\<rparr>))"

text \<open>\<^verbatim>\<open>List\<close>; \<open>storage_list\<close> is the answer of the underlying storage, \<open>looks\<close> what the wait for a fresh
  cache sees.\<close>

definition Cacher_List ::
  "('o wc_error, 'o iface list \<times> version) result \<Rightarrow> ('o iface \<Rightarrow> ('o wc_error, string) result)
     \<Rightarrow> string \<Rightarrow> string \<Rightarrow> ('o iface \<Rightarrow> bool) \<Rightarrow> (int \<times> ('o, 'c) watchCache \<times> string list) list
     \<Rightarrow> ('o wc_error, 'o iface list \<times> version) result option" where
  "Cacher_List storage_list kf key resourceVersion filt looks =
     (if resourceVersion = '''' then Some storage_list
      else case ParseListResourceVersion resourceVersion of
             Inl err \<Rightarrow> Some (Inl err)
           | Inr listRV \<Rightarrow>
               (case WaitUntilFreshAndList listRV looks of
                  None \<Rightarrow> None
                | Some (Inl err) \<Rightarrow> Some (Inl err)
                | Some (Inr (objs, readResourceVersion)) \<Rightarrow>
                    (case List.find (\<lambda>obj. \<not> is_object obj) objs of
                       Some obj \<Rightarrow> Some (Inl (NotRuntimeObject obj))
                     | None \<Rightarrow>
                         Some (Inr (filter (filterFunction key kf filt) objs, readResourceVersion)))))"

section \<open>Runs\<close>

text \<open>
  The cache and the cacher run: the reflector delivers an event with a newer version, a watcher's
  goroutine makes a turn, a client stops a watcher or starts one, or the reflector lists anew.
\<close>

inductive cacher_live ::
  "'o accessor \<Rightarrow> ('o iface \<Rightarrow> ('o wc_error, string) result) \<Rightarrow> ('o iface \<Rightarrow> 'o iface option)
     \<Rightarrow> ('o, 'o Cacher) watchCache \<times> 'o Cacher \<Rightarrow> ('o, 'o Cacher) watchCache \<times> 'o Cacher \<Rightarrow> bool"
  for acc kf copy where
  event: "newer acc (wc_resourceVersion w) [call] \<Longrightarrow> distinct ord \<Longrightarrow> set ord = ca_watchers c \<Longrightarrow>
     watchCache_call acc call (SetOnEvent (Some (Cacher_processEvent copy ord turns)) w) c = Some (None, w', c') \<Longrightarrow>
     cacher_live acc kf copy (w, c) (w', c')"
| turn: "cacher_live acc kf copy (w, c) (w, cacheWatcher_process copy i c)"
| stop: "ca_heap c i \<noteq> None \<Longrightarrow> cacher_live acc kf copy (w, c) (w, cacheWatcher_Stop i c)"
| watch: "Cacher_Watch ks kf key resourceVersion filt w c = Some (r, c') \<Longrightarrow>
     cacher_live acc kf copy (w, c) (w, c')"

inductive cacher_step ::
  "'o accessor \<Rightarrow> ('o iface \<Rightarrow> ('o wc_error, string) result) \<Rightarrow> ('o iface \<Rightarrow> 'o iface option)
     \<Rightarrow> ('o, 'o Cacher) watchCache \<times> 'o Cacher \<Rightarrow> ('o, 'o Cacher) watchCache \<times> 'o Cacher \<Rightarrow> bool"
  for acc kf copy where
  live: "cacher_live acc kf copy s s' \<Longrightarrow> cacher_step acc kf copy s s'"
| relist: "distinct ord \<Longrightarrow> set ord = ca_watchers c \<Longrightarrow> startCaching ord w c = (w1, c1) \<Longrightarrow>
     list_all is_object objs \<Longrightarrow> watchCache_Replace ks objs resourceVersion w1 c1 = (None, w', c') \<Longrightarrow>
     range_of (wc_contents w') ks \<Longrightarrow>
     cacher_step acc kf copy (w, c) (w', c')"

inductive_cases cacher_stepE: "cacher_step acc kf copy (w, c) (w', c')"


section \<open>What a client sees\<close>

definition client_apply :: "'o accessor \<Rightarrow> (string \<rightharpoonup> 'o iface) \<Rightarrow> 'o watch_event \<Rightarrow> (string \<rightharpoonup> 'o iface)" where
  "client_apply acc m e =
     (if we_Type e = EvDeleted then map_delete (key_of acc (we_Object e)) m
      else m(key_of acc (we_Object e) \<mapsto> we_Object e))"

definition filtered :: "('o iface \<Rightarrow> bool) \<Rightarrow> (string \<rightharpoonup> 'o iface) \<Rightarrow> (string \<rightharpoonup> 'o iface)" where
  "filtered f m k = (case m k of None \<Rightarrow> None | Some x \<Rightarrow> if f x then Some x else None)"

text \<open>Events that follow one another from a map of objects: each knows the object before it.\<close>

fun chain :: "'o accessor \<Rightarrow> (string \<rightharpoonup> 'o iface) \<Rightarrow> 'o watchCacheEvent list \<Rightarrow> bool" where
  "chain acc m [] \<longleftrightarrow> True"
| "chain acc m (e # es) \<longleftrightarrow>
     ev_PrevObject e = map_get NilI m (key_of acc (ev_Object e)) \<and> m (key_of acc (ev_Object e)) \<noteq> Some NilI \<and>
     chain acc (apply_event acc m e) es"

lemma chain_append: "chain acc m (xs @ ys) \<longleftrightarrow> chain acc m xs \<and> chain acc (foldl (apply_event acc) m xs) ys"
  by (induction xs arbitrary: m) auto

definition watcher_view ::
  "'o accessor \<Rightarrow> ('o iface \<Rightarrow> bool) \<Rightarrow> (string \<rightharpoonup> 'o iface) \<Rightarrow> (string \<rightharpoonup> 'o iface) \<Rightarrow> 'o cacheWatcher \<Rightarrow> bool" where
  "watcher_view acc f m0 now x \<longleftrightarrow> cw_filter x = f \<and>
     (\<exists>m. let pending = cw_initEvents x @ filter (\<lambda>e. cw_resourceVersion x < ev_ResourceVersion e) (cw_input x) in
        foldl (client_apply acc) (filtered (cw_filter x) m0) (cw_result x) = filtered (cw_filter x) m \<and>
        chain acc m pending \<and> foldl (apply_event acc) m pending = now)"

abbreviation copies :: "('o iface \<Rightarrow> 'o iface option) \<Rightarrow> bool" where
  "copies copy \<equiv> \<forall>x. copy x = Some x"

lemma send_frame [simp]:
  "cw_input (sendWatchCacheEvent copy e x) = cw_input x"
  "cw_filter (sendWatchCacheEvent copy e x) = cw_filter x"
  "cw_stopped (sendWatchCacheEvent copy e x) = cw_stopped x"
  "cw_initEvents (sendWatchCacheEvent copy e x) = cw_initEvents x"
  "cw_resourceVersion (sendWatchCacheEvent copy e x) = cw_resourceVersion x"
  "cw_done (sendWatchCacheEvent copy e x) = cw_done x"
  by (auto simp: sendWatchCacheEvent_def Let_def split: option.splits)

lemma send_view:
  assumes "copies copy" and "ev_PrevObject e = map_get NilI m (key_of acc (ev_Object e))"
    and "m (key_of acc (ev_Object e)) \<noteq> Some NilI"
    and "foldl (client_apply acc) m0 (cw_result x) = filtered (cw_filter x) m"
  shows "foldl (client_apply acc) m0 (cw_result (sendWatchCacheEvent copy e x)) =
         filtered (cw_filter x) (apply_event acc m e)"
proof -
  let ?k = "key_of acc (ev_Object e)" and ?f = "cw_filter x"
  have old: "(ev_PrevObject e \<noteq> NilI \<and> ?f (ev_PrevObject e)) = (filtered ?f m ?k \<noteq> None)"
    using assms(2,3) by (cases "m ?k") (auto simp: filtered_def)
  consider (del) "ev_Type e = EvDeleted" | (set) "ev_Type e \<noteq> EvDeleted" by blast
  then show ?thesis
  proof cases
    case del
    then show ?thesis
      using assms(1,4) old
      by (cases "filtered ?f m ?k")
        (auto simp: sendWatchCacheEvent_def client_apply_def apply_event_def filtered_def fun_eq_iff)
  next
    case set
    then show ?thesis
      using assms(1,4) old
      by (cases "filtered ?f m ?k"; cases "?f (ev_Object e)")
        (auto simp: sendWatchCacheEvent_def client_apply_def apply_event_def filtered_def fun_eq_iff)
  qed
qed

lemma process_turn_frame [simp]:
  "cw_filter (process_turn copy x) = cw_filter x" "cw_stopped (process_turn copy x) = cw_stopped x"
  "cw_resourceVersion (process_turn copy x) = cw_resourceVersion x"
  by (auto simp: process_turn_def split: list.splits)

lemma process_turn_view:
  assumes "copies copy" and "watcher_view acc f m0 now x"
  shows "watcher_view acc f m0 now (process_turn copy x)"
proof -
  obtain m where m: "foldl (client_apply acc) (filtered (cw_filter x) m0) (cw_result x) = filtered (cw_filter x) m"
      "chain acc m (cw_initEvents x @ filter (\<lambda>e. cw_resourceVersion x < ev_ResourceVersion e) (cw_input x))"
      "foldl (apply_event acc) m (cw_initEvents x @ filter (\<lambda>e. cw_resourceVersion x < ev_ResourceVersion e) (cw_input x)) = now"
    using assms(2) by (auto simp: watcher_view_def Let_def)
  have f: "cw_filter x = f" using assms(2) by (simp add: watcher_view_def)
  consider (init) e es where "cw_initEvents x = e # es"
    | (new) e es where "cw_initEvents x = []" "cw_input x = e # es" "cw_resourceVersion x < ev_ResourceVersion e"
    | (old) e es where "cw_initEvents x = []" "cw_input x = e # es" "\<not> cw_resourceVersion x < ev_ResourceVersion e"
    | (none) "cw_initEvents x = []" "cw_input x = []"
    by (cases "cw_initEvents x"; cases "cw_input x") auto
  then show ?thesis
  proof cases
    case init
    then have "foldl (client_apply acc) (filtered (cw_filter x) m0) (cw_result (process_turn copy x)) =
        filtered (cw_filter x) (apply_event acc m e)"
      using m send_view [OF assms(1), of e m acc "filtered (cw_filter x) m0" "x\<lparr>cw_initEvents := es\<rparr>"]
      by (simp add: process_turn_def)
    with init m(2,3) show ?thesis
      unfolding watcher_view_def Let_def
      using f by (intro conjI exI [of _ "apply_event acc m e"]) (simp_all add: process_turn_def)
  next
    case new
    then have "foldl (client_apply acc) (filtered (cw_filter x) m0) (cw_result (process_turn copy x)) =
        filtered (cw_filter x) (apply_event acc m e)"
      using m send_view [OF assms(1), of e m acc "filtered (cw_filter x) m0" "x\<lparr>cw_input := es\<rparr>"]
      by (simp add: process_turn_def)
    with new m(2,3) show ?thesis
      unfolding watcher_view_def Let_def
      using f by (intro conjI exI [of _ "apply_event acc m e"]) (simp_all add: process_turn_def)
  next
    case old
    with m show ?thesis
      unfolding watcher_view_def Let_def using f by (intro conjI exI [of _ m]) (simp_all add: process_turn_def)
  next
    case none
    with m show ?thesis
      unfolding watcher_view_def Let_def using f by (intro conjI exI [of _ m]) (simp_all add: process_turn_def)
  qed
qed

lemma process_turns_frame [simp]:
  "cw_filter ((process_turn copy ^^ n) x) = cw_filter x" "cw_stopped ((process_turn copy ^^ n) x) = cw_stopped x"
  "cw_resourceVersion ((process_turn copy ^^ n) x) = cw_resourceVersion x"
  by (induction n) auto

lemma process_turns_view:
  "copies copy \<Longrightarrow> watcher_view acc f m0 now x \<Longrightarrow> watcher_view acc f m0 now ((process_turn copy ^^ n) x)"
  by (induction n) (auto intro: process_turn_view)

lemma input_view:
  assumes "watcher_view acc f m0 now x" and "cw_resourceVersion x < ev_ResourceVersion e" and "chain acc now [e]"
  shows "watcher_view acc f m0 (apply_event acc now e) (x\<lparr>cw_input := cw_input x @ [e]\<rparr>)"
proof -
  obtain m where m: "foldl (client_apply acc) (filtered (cw_filter x) m0) (cw_result x) = filtered (cw_filter x) m"
      "chain acc m (cw_initEvents x @ filter (\<lambda>e. cw_resourceVersion x < ev_ResourceVersion e) (cw_input x))"
      "foldl (apply_event acc) m (cw_initEvents x @ filter (\<lambda>e. cw_resourceVersion x < ev_ResourceVersion e) (cw_input x)) = now"
    using assms(1) by (auto simp: watcher_view_def Let_def)
  then show ?thesis
    using assms unfolding watcher_view_def Let_def
    by (intro conjI exI [of _ m]) (auto simp: chain_append)
qed


section \<open>Invariants of the cacher\<close>

definition cacher_inv :: "'o Cacher \<Rightarrow> bool" where
  "cacher_inv c \<longleftrightarrow> \<not> ca_panicked c \<and>
     (\<forall>i \<in> ca_watchers c. \<exists>x. ca_heap c i = Some x \<and> \<not> cw_stopped x) \<and>
     (\<forall>i. ca_heap c i \<noteq> None \<longrightarrow> i < ca_watcherIdx c)"

text \<open>Watcher \<open>i\<close>, unless it was stopped, is registered and its client can reach the contents.\<close>

definition tracked ::
  "'o accessor \<Rightarrow> ('o iface \<Rightarrow> bool) \<Rightarrow> (string \<rightharpoonup> 'o iface) \<Rightarrow> nat \<Rightarrow> (string \<rightharpoonup> 'o iface) \<Rightarrow> version \<Rightarrow> 'o Cacher \<Rightarrow> bool" where
  "tracked acc f m0 i now rv c \<longleftrightarrow>
     (\<exists>x. ca_heap c i = Some x \<and>
        (\<not> cw_stopped x \<longrightarrow> i \<in> ca_watchers c \<and> cw_resourceVersion x \<le> rv \<and> watcher_view acc f m0 now x))"

lemma cacheWatcher_Stop_inv:
  assumes "cacher_inv c" and "ca_heap c i \<noteq> None"
  shows "cacher_inv (cacheWatcher_Stop i c) \<and> ca_watchers (cacheWatcher_Stop i c) = ca_watchers c - {i} \<and>
         (\<exists>x. ca_heap (cacheWatcher_Stop i c) i = Some x \<and> cw_stopped x) \<and>
         (\<forall>j. j \<noteq> i \<longrightarrow> ca_heap (cacheWatcher_Stop i c) j = ca_heap c j)"
proof -
  obtain y where "ca_heap c i = Some y" using assms(2) by auto
  with assms(1) show ?thesis
    by (cases "cw_stopped y")
      (auto simp: cacheWatcher_Stop_def cacheWatcher_stop_def forgetWatcher_def cacher_inv_def)
qed

lemma Stop_tracked:
  assumes "cacher_inv c" and "ca_heap c j \<noteq> None" and "tracked acc f m0 i now rv c"
  shows "tracked acc f m0 i now rv (cacheWatcher_Stop j c)"
  using cacheWatcher_Stop_inv [OF assms(1,2)] assms(3) by (cases "i = j") (auto simp: tracked_def)

lemma heap_update_inv:
  assumes "cacher_inv c" and "ca_heap c i = Some x" and "cw_stopped x' = cw_stopped x"
  shows "cacher_inv (c\<lparr>ca_heap := (ca_heap c)(i \<mapsto> x')\<rparr>)"
  using assms by (fastforce simp: cacher_inv_def)

lemma add_tracked:
  fixes n :: nat
  assumes inv: "cacher_inv c" and i: "i \<in> ca_watchers c" and cp: "copies copy"
    and e: "chain acc now [e]" "rv < ev_ResourceVersion e"
  defines "c' \<equiv> cacheWatcher_add copy n i e c"
  shows "cacher_inv c'" and "ca_watchers c - {i} \<subseteq> ca_watchers c'" and "ca_watchers c' \<subseteq> ca_watchers c"
    and "tracked acc f m0 j now rv c \<Longrightarrow> tracked acc f m0 j (if j = i then apply_event acc now e else now) rv c'"
proof -
  obtain x where x: "ca_heap c i = Some x" "\<not> cw_stopped x" using inv i by (auto simp: cacher_inv_def)
  define k where "k = (if length (cw_input x) < 10 then 0 else n)"
  define x1 where "x1 = (process_turn copy ^^ k) x"
  define c1 where "c1 = c\<lparr>ca_heap := (ca_heap c)(i \<mapsto> x1)\<rparr>"
  have c1: "cacher_inv c1" "ca_heap c1 i = Some x1"
    unfolding c1_def using heap_update_inv [OF inv x(1)] by (simp_all add: x1_def)
  have "c' = (if length (cw_input x1) < 10
              then c\<lparr>ca_heap := (ca_heap c)(i \<mapsto> x1\<lparr>cw_input := cw_input x1 @ [e]\<rparr>)\<rparr> else cacheWatcher_Stop i c1)"
    using x by (cases "length (cw_input x) < 10")
      (simp_all add: c'_def cacheWatcher_add_def c1_def cacheWatcher_Stop_def x1_def k_def Let_def)
  then consider (sent) "c' = c\<lparr>ca_heap := (ca_heap c)(i \<mapsto> x1\<lparr>cw_input := cw_input x1 @ [e]\<rparr>)\<rparr>"
    | (dropped) "c' = cacheWatcher_Stop i c1"
    by (cases "length (cw_input x1) < 10") auto
  then have "cacher_inv c' \<and> ca_watchers c - {i} \<subseteq> ca_watchers c' \<and> ca_watchers c' \<subseteq> ca_watchers c \<and>
    (tracked acc f m0 j now rv c \<longrightarrow> tracked acc f m0 j (if j = i then apply_event acc now e else now) rv c')"
  proof cases
    case sent
    have "cacher_inv c'" unfolding sent using heap_update_inv [OF inv x(1)] by (simp add: x1_def)
    moreover have "tracked acc f m0 i (apply_event acc now e) rv c'" if "tracked acc f m0 i now rv c"
    proof -
      have "cw_resourceVersion x \<le> rv" and "watcher_view acc f m0 now x" using that x by (auto simp: tracked_def)
      then have "watcher_view acc f m0 (apply_event acc now e) (x1\<lparr>cw_input := cw_input x1 @ [e]\<rparr>)"
        using process_turns_view [OF cp, of acc f m0 now x k] e
        by (intro input_view) (auto simp: x1_def)
      with \<open>cw_resourceVersion x \<le> rv\<close> i show ?thesis by (simp add: sent tracked_def x1_def)
    qed
    ultimately show ?thesis by (auto simp: sent tracked_def)
  next
    case dropped
    have "ca_watchers c1 = ca_watchers c" by (simp add: c1_def)
    moreover have "ca_heap c1 j = ca_heap c j" if "j \<noteq> i" using that by (simp add: c1_def)
    ultimately show ?thesis
      using cacheWatcher_Stop_inv [OF c1(1), of i] c1(2) by (cases "j = i") (auto simp: dropped tracked_def)
  qed
  then show "cacher_inv c'" "ca_watchers c - {i} \<subseteq> ca_watchers c'" "ca_watchers c' \<subseteq> ca_watchers c"
    "tracked acc f m0 j now rv c \<Longrightarrow> tracked acc f m0 j (if j = i then apply_event acc now e else now) rv c'" by blast+
qed

lemma add_frame:
  "j \<noteq> i \<Longrightarrow> ca_heap (cacheWatcher_add copy n i e c) j = ca_heap c j \<and>
     (j \<in> ca_watchers (cacheWatcher_add copy n i e c) \<longleftrightarrow> j \<in> ca_watchers c)"
  by (auto simp: cacheWatcher_add_def cacheWatcher_stop_def forgetWatcher_def Let_def split: option.splits if_splits)

lemma processEvent_frame:
  "j \<notin> set ord \<Longrightarrow> ca_heap (Cacher_processEvent copy ord turns e c) j = ca_heap c j \<and>
     (j \<in> ca_watchers (Cacher_processEvent copy ord turns e c) \<longleftrightarrow> j \<in> ca_watchers c)"
proof (induction ord arbitrary: c)
  case (Cons i ord)
  then show ?case using add_frame [of j i copy "turns i" e c] by (simp add: Cacher_processEvent_def)
qed (simp add: Cacher_processEvent_def)

lemma processEvent_tracked:
  assumes "cacher_inv c" and "distinct ord" and "set ord \<subseteq> ca_watchers c" and "copies copy"
    and e: "chain acc now [e]" "rv < ev_ResourceVersion e"
  shows "cacher_inv (Cacher_processEvent copy ord turns e c) \<and>
    (tracked acc f m0 j now rv c \<longrightarrow>
     tracked acc f m0 j (if j \<in> set ord then apply_event acc now e else now) rv (Cacher_processEvent copy ord turns e c))"
  using assms(1-3)
proof (induction ord arbitrary: c)
  case Nil
  then show ?case by (simp add: Cacher_processEvent_def)
next
  case (Cons i ord)
  have i: "i \<in> ca_watchers c" using Cons.prems by simp
  let ?c = "cacheWatcher_add copy (turns i) i e c"
  have fold: "Cacher_processEvent copy (i # ord) turns e c = Cacher_processEvent copy ord turns e ?c"
    by (simp add: Cacher_processEvent_def)
  note add = add_tracked [OF Cons.prems(1) i assms(4) e, where n = "turns i"]
  have "set ord \<subseteq> ca_watchers ?c" using add(2) Cons.prems(2,3) by auto
  then have IH: "cacher_inv (Cacher_processEvent copy ord turns e ?c)"
    "tracked acc f m0 j now rv ?c \<Longrightarrow>
     tracked acc f m0 j (if j \<in> set ord then apply_event acc now e else now) rv (Cacher_processEvent copy ord turns e ?c)"
    using Cons.IH [OF add(1)] Cons.prems(2) by auto
  show ?case
  proof (cases "j = i")
    case False
    with IH add(4) [where ?m0.0 = m0 and j = j and f = f] show ?thesis by (auto simp: fold)
  next
    case True
    have "ca_heap (Cacher_processEvent copy ord turns e ?c) i = ca_heap ?c i \<and>
          (i \<in> ca_watchers (Cacher_processEvent copy ord turns e ?c) \<longleftrightarrow> i \<in> ca_watchers ?c)"
      using Cons.prems(2) by (intro processEvent_frame) auto
    with True IH(1) add(4) [where ?m0.0 = m0 and j = i and f = f] show ?thesis by (auto simp: fold tracked_def)
  qed
qed


section \<open>Steps keep the invariants\<close>

lemma wc_inv_not_nil: "wc_inv acc w \<Longrightarrow> wc_contents w k \<noteq> Some NilI"
  unfolding wc_inv_def by (metis is_object_simps(1))

lemma call_event_chain:
  "wc_inv acc w \<Longrightarrow> chain acc (wc_contents w) [call_event acc (wc_contents w) call]"
  by (simp add: call_event_def wc_inv_not_nil)

text \<open>What the arrival of an event does to the cache and to the watchers.\<close>

lemma event_effect:
  assumes inv: "wc_inv acc w" and new: "newer acc (wc_resourceVersion w) [call]"
    and step: "watchCache_call acc call (SetOnEvent (Some (Cacher_processEvent copy ord turns)) w) c = Some (None, w', c')"
  defines "e \<equiv> call_event acc (wc_contents w) call"
  shows "wc_inv acc w'" and "wc_contents w' = apply_event acc (wc_contents w) e"
    and "wc_resourceVersion w' = ev_ResourceVersion e" and "wc_resourceVersion w < ev_ResourceVersion e"
    and "window w' = last_n (wc_capacity w) (window w @ [element_of e])" and "wc_capacity w' = wc_capacity w"
    and "c' = Cacher_processEvent copy ord turns e c"
proof -
  let ?w = "SetOnEvent (Some (Cacher_processEvent copy ord turns)) w"
  obtain v where v: "version_of acc (call_object call) = Some v" "wc_resourceVersion w < v"
    using new by (auto split: option.splits)
  have "ev_ResourceVersion e = v" by (simp add: e_def call_event_def v)
  then show "wc_inv acc w'" and "wc_contents w' = apply_event acc (wc_contents w) e"
    and "wc_resourceVersion w' = ev_ResourceVersion e" and "wc_resourceVersion w < ev_ResourceVersion e"
    and "window w' = last_n (wc_capacity w) (window w @ [element_of e])" and "wc_capacity w' = wc_capacity w"
    and "c' = Cacher_processEvent copy ord turns e c"
    using watchCache_call_spec [of acc ?w call v c] inv v step
    by (simp_all add: e_def SetOnEvent_def [symmetric])
      (auto simp: SetOnEvent_def notify_def)
qed

lemma process_tracked:
  assumes inv: "cacher_inv c" and cp: "copies copy"
  shows "cacher_inv (cacheWatcher_process copy j c) \<and>
         (tracked acc f m0 i now rv c \<longrightarrow> tracked acc f m0 i now rv (cacheWatcher_process copy j c))"
proof (cases "ca_heap c j")
  case None
  with inv show ?thesis by (simp add: cacheWatcher_process_def)
next
  case (Some x)
  let ?c1 = "c\<lparr>ca_heap := (ca_heap c)(j \<mapsto> process_turn copy x)\<rparr>"
  have c1: "cacher_inv ?c1" "ca_heap ?c1 j \<noteq> None" using heap_update_inv [OF inv Some] by simp_all
  have t1: "tracked acc f m0 i now rv ?c1" if "tracked acc f m0 i now rv c"
    using that Some process_turn_view [OF cp, of acc f m0 now x] by (cases "i = j") (auto simp: tracked_def)
  show ?thesis
    using Some c1 t1 cacheWatcher_Stop_inv [OF c1] Stop_tracked [OF c1]
    by (simp add: cacheWatcher_process_def Let_def)
qed

lemma Watch_tracked:
  assumes inv: "cacher_inv c" and step: "Cacher_Watch ks kf key resourceVersion filt w c = Some (r, c')"
  shows "cacher_inv c' \<and> (tracked acc f m0 i now rv c \<longrightarrow> tracked acc f m0 i now rv c')"
proof -
  have "ca_heap c (ca_watcherIdx c) = None" using inv by (auto simp: cacher_inv_def)
  with inv step show ?thesis
    by (fastforce simp: Cacher_Watch_def cacher_inv_def tracked_def newCacheWatcher_def less_Suc_eq
        split: sum.splits if_splits option.splits)
qed

lemma live_tracked:
  assumes "cacher_live acc kf copy (w, c) (w', c')" and "wc_inv acc w" and "cacher_inv c" and "copies copy"
  shows "wc_inv acc w' \<and> cacher_inv c' \<and>
    (tracked acc f m0 i (wc_contents w) (wc_resourceVersion w) c \<longrightarrow>
     tracked acc f m0 i (wc_contents w') (wc_resourceVersion w') c')"
  using assms(1)
proof (cases rule: cacher_live.cases)
  case (event call ord turns)
  let ?e = "call_event acc (wc_contents w) call"
  note ev = event_effect [OF assms(2) event(1,4)]
  have "cacher_inv c' \<and> (tracked acc f m0 i (wc_contents w) (wc_resourceVersion w) c \<longrightarrow>
     tracked acc f m0 i (if i \<in> set ord then wc_contents w' else wc_contents w) (wc_resourceVersion w) c')"
    using processEvent_tracked [OF assms(3) event(2) _ assms(4) call_event_chain [OF assms(2)] ev(4)] event(3)
    unfolding ev(2) ev(7) by blast
  moreover have "tracked acc f m0 i (wc_contents w') (wc_resourceVersion w') c'"
    if "tracked acc f m0 i (if i \<in> set ord then wc_contents w' else wc_contents w) (wc_resourceVersion w) c'"
  proof (cases "i \<in> set ord")
    case True
    with that ev(3,4) show ?thesis by (auto simp: tracked_def intro: order_trans less_imp_le)
  next
    case False
    with event(3) processEvent_frame [of i ord copy turns ?e c] that show ?thesis
      by (auto simp: tracked_def ev(7))
  qed
  ultimately show ?thesis using ev(1) by blast
next
  case (turn j)
  with process_tracked [OF assms(3,4), where acc = acc and f = f and ?m0.0 = m0 and i = i and now = "wc_contents w" and rv = "wc_resourceVersion w"] assms(2)
  show ?thesis by simp
next
  case (stop j)
  with cacheWatcher_Stop_inv [OF assms(3), of j] assms(2)
    Stop_tracked [OF assms(3), where j = j and acc = acc and f = f and ?m0.0 = m0 and i = i and now = "wc_contents w"
      and rv = "wc_resourceVersion w"]
  show ?thesis by simp
next
  case watch
  from watch(1) Watch_tracked [OF assms(3) watch(2), where acc = acc and f = f and ?m0.0 = m0 and i = i and now = "wc_contents w" and rv = "wc_resourceVersion w"] assms(2)
  show ?thesis by simp
qed

lemma terminate_inv:
  assumes "cacher_inv c" and "distinct ord" and "\<forall>i \<in> set ord. ca_heap c i \<noteq> None"
  shows "cacher_inv (terminateAllWatchers ord c) \<and>
    ca_watchers (terminateAllWatchers ord c) = ca_watchers c - set ord \<and>
    (\<forall>i \<in> set ord. \<exists>x. ca_heap (terminateAllWatchers ord c) i = Some x \<and> cw_stopped x) \<and>
    (\<forall>i. i \<notin> set ord \<longrightarrow> ca_heap (terminateAllWatchers ord c) i = ca_heap c i)"
  using assms
proof (induction ord arbitrary: c)
  case (Cons j ord)
  have h: "ca_heap c j \<noteq> None" using Cons.prems(3) by auto
  note st = cacheWatcher_Stop_inv [OF Cons.prems(1) h]
  have "\<forall>i \<in> set ord. ca_heap (cacheWatcher_Stop j c) i \<noteq> None"
  proof
    fix i
    assume "i \<in> set ord"
    then have "i \<noteq> j" and "ca_heap c i \<noteq> None" using Cons.prems(2,3) by auto
    with st show "ca_heap (cacheWatcher_Stop j c) i \<noteq> None" by simp
  qed
  with Cons.IH [of "cacheWatcher_Stop j c"] st Cons.prems(2)
  have IH: "cacher_inv (terminateAllWatchers ord (cacheWatcher_Stop j c))"
    "ca_watchers (terminateAllWatchers ord (cacheWatcher_Stop j c)) = ca_watchers c - {j} - set ord"
    "\<forall>i \<in> set ord. \<exists>x. ca_heap (terminateAllWatchers ord (cacheWatcher_Stop j c)) i = Some x \<and> cw_stopped x"
    "\<forall>i. i \<notin> set ord \<longrightarrow> ca_heap (terminateAllWatchers ord (cacheWatcher_Stop j c)) i = ca_heap (cacheWatcher_Stop j c) i"
    by auto
  have eq: "terminateAllWatchers (j # ord) c = terminateAllWatchers ord (cacheWatcher_Stop j c)"
    by (simp add: terminateAllWatchers_def cacheWatcher_Stop_def)
  show ?case
    unfolding eq using IH st Cons.prems(2) by (intro conjI) (auto simp del: not_None_eq)
qed (simp add: terminateAllWatchers_def)

lemma step_tracked:
  assumes "cacher_step acc kf copy (w, c) (w', c')" and "wc_inv acc w" and "cacher_inv c" and "copies copy"
  shows "wc_inv acc w' \<and> cacher_inv c' \<and>
    (tracked acc f m0 i (wc_contents w) (wc_resourceVersion w) c \<longrightarrow>
     tracked acc f m0 i (wc_contents w') (wc_resourceVersion w') c')"
  using assms(1)
proof (cases rule: cacher_step.cases)
  case live
  then show ?thesis by (rule live_tracked [OF _ assms(2-4)])
next
  case (relist ord w1 c1 objs ks resourceVersion)
  let ?c = "c\<lparr>ca_usable := False\<rparr>"
  have w1: "w1 = SetOnReplace (Some (\<lambda>c. c\<lparr>ca_usable := True\<rparr>)) w" and c1: "c1 = terminateAllWatchers ord ?c"
    using relist(3) by (auto simp: startCaching_def)
  have "wc_inv acc w1" using assms(2) by (simp add: w1)
  then have w': "wc_inv acc w'" using watchCache_Replace_inv [OF _ relist(4,5,6)] by blast
  have "cacher_inv ?c" "\<forall>i \<in> set ord. ca_heap ?c i \<noteq> None"
    using assms(3) relist(2) by (auto simp: cacher_inv_def)
  note t = terminate_inv [OF this(1) relist(1) this(2), folded c1]
  have c': "c' = c1\<lparr>ca_usable := True\<rparr>"
    using relist(5) by (auto simp: watchCache_Replace_def w1 SetOnReplace_def Let_def split: sum.splits)
  have "cacher_inv c'" using t by (auto simp: c' cacher_inv_def)
  moreover have "tracked acc f m0 i (wc_contents w') (wc_resourceVersion w') c'"
    if "tracked acc f m0 i (wc_contents w) (wc_resourceVersion w) c"
    using that t relist(2) by (cases "i \<in> set ord") (auto simp: tracked_def c')
  ultimately show ?thesis using w' by blast
qed

section \<open>What happened since a version\<close>

text \<open>The cache has gone from contents \<open>m\<close> at version \<open>rv\<close> to its state by the events \<open>es\<close>, of which the
  window holds the latest.\<close>

definition history :: "'o accessor \<Rightarrow> version \<Rightarrow> (string \<rightharpoonup> 'o iface) \<Rightarrow> ('o, 'c) watchCache \<Rightarrow> bool" where
  "history acc rv m w \<longleftrightarrow>
     (\<exists>es old. chain acc m es \<and> foldl (apply_event acc) m es = wc_contents w \<and>
        sorted_wrt (<) (rv # map ev_ResourceVersion es) \<and> rv \<le> wc_resourceVersion w \<and>
        (\<forall>e \<in> set es. ev_ResourceVersion e \<le> wc_resourceVersion w) \<and>
        window w = last_n (wc_capacity w) (old @ map element_of es) \<and> (\<forall>e \<in> set old. el_resourceVersion e \<le> rv))"

lemma history_refl: "wc_inv acc w \<Longrightarrow> history acc (wc_resourceVersion w) (wc_contents w) w"
  unfolding history_def
  by (rule exI [of _ "[]"], rule exI [of _ "window w"]) (auto simp: wc_inv_def buffer_ok_def last_n_all)

lemma history_event:
  assumes "history acc rv m w" and "wc_resourceVersion w < ev_ResourceVersion e" and "chain acc (wc_contents w) [e]"
    and "wc_contents w' = apply_event acc (wc_contents w) e" and "wc_resourceVersion w' = ev_ResourceVersion e"
    and "window w' = last_n (wc_capacity w) (window w @ [element_of e])" and "wc_capacity w' = wc_capacity w"
  shows "history acc rv m w'"
proof -
  obtain es old where h: "chain acc m es" "foldl (apply_event acc) m es = wc_contents w"
    "sorted_wrt (<) (rv # map ev_ResourceVersion es)" "rv \<le> wc_resourceVersion w"
    "\<forall>e \<in> set es. ev_ResourceVersion e \<le> wc_resourceVersion w"
    "window w = last_n (wc_capacity w) (old @ map element_of es)" "\<forall>e \<in> set old. el_resourceVersion e \<le> rv"
    using assms(1) by (auto simp: history_def)
  have "sorted_wrt (<) (rv # map ev_ResourceVersion (es @ [e]))"
    using h(3,4,5) assms(2) by (auto simp: sorted_wrt_append intro: le_less_trans)
  moreover have "rv \<le> wc_resourceVersion w'" "\<forall>f \<in> set (es @ [e]). ev_ResourceVersion f \<le> wc_resourceVersion w'"
    using h(4,5) assms(2,5) by (auto intro: order_trans less_imp_le)
  moreover have "window w' = last_n (wc_capacity w') (old @ map element_of (es @ [e]))"
    using assms(6,7) h(6) last_n_append [of "wc_capacity w" "old @ map element_of es" "[element_of e]"] by simp
  ultimately show ?thesis
    unfolding history_def using h(1,2,7) assms(3,4)
    by (intro exI [of _ "es @ [e]"] exI [of _ old]) (simp add: chain_append)
qed

lemma history_live:
  assumes "cacher_live acc kf copy (w, c) (w', c')" and "wc_inv acc w" and "history acc rv m w"
  shows "history acc rv m w'"
  using assms(1)
proof (cases rule: cacher_live.cases)
  case (event call ord turns)
  note ev = event_effect [OF assms(2) event(1,4)]
  show ?thesis
    by (rule history_event [OF assms(3) ev(4) call_event_chain [OF assms(2)] ev(2,3,5,6)])
qed (use assms(3) in auto)

lemma GetAllEventsSince_history:
  assumes inv: "wc_inv acc w" and "history acc rv m w" and "rv \<noteq> 0" and "GetAllEventsSince ks rv w = Some (Inr es)"
  shows "chain acc m es \<and> foldl (apply_event acc) m es = wc_contents w \<and> rv \<le> wc_resourceVersion w"
proof -
  obtain es' old where h: "chain acc m es'" "foldl (apply_event acc) m es' = wc_contents w"
    "sorted_wrt (<) (rv # map ev_ResourceVersion es')" "rv \<le> wc_resourceVersion w"
    "window w = last_n (wc_capacity w) (old @ map element_of es')" "\<forall>e \<in> set old. el_resourceVersion e \<le> rv"
    using assms(2) by (auto simp: history_def)
  have n: "0 < wc_capacity w" using inv by (simp add: wc_inv_def buffer_ok_def)
  have ok: "\<not> rv < oldest_version w - 1"
    and es: "es = map el_watchCacheEvent (filter (\<lambda>e. rv < el_resourceVersion e) (window w))"
    using assms(4) by (auto simp: GetAllEventsSince_spec [OF inv assms(3)] split: if_splits)
  have "es = es'" unfolding es by (rule events_since_complete [OF n h(3,5,6) ok])
  with h show ?thesis by simp
qed

lemma chain_fresh:
  assumes "\<forall>e \<in> set es. ev_PrevObject e = NilI \<and> ev_Type e = EvAdded" and "distinct (map (\<lambda>e. key_of acc (ev_Object e)) es)"
    and "\<forall>e \<in> set es. m (key_of acc (ev_Object e)) = None"
  shows "chain acc m es"
  using assms
proof (induction es arbitrary: m)
  case (Cons e es)
  have "m (key_of acc (ev_Object e)) = None" "ev_PrevObject e = NilI" "ev_Type e = EvAdded"
    using Cons.prems(1,3) by auto
  moreover have "\<forall>f \<in> set es. apply_event acc m e (key_of acc (ev_Object f)) = None"
  proof
    fix f
    assume "f \<in> set es"
    then have "key_of acc (ev_Object f) \<noteq> key_of acc (ev_Object e)" using Cons.prems(2)
      by (simp add: image_iff) (erule conjE, drule (1) bspec, erule not_sym)
    with \<open>f \<in> set es\<close> Cons.prems(3) show "apply_event acc m e (key_of acc (ev_Object f)) = None"
      by (simp add: apply_event_def)
  qed
  ultimately show ?case using Cons.IH [of "apply_event acc m e"] Cons.prems(1,2) by simp
qed simp

text \<open>A new watcher starts tracking.\<close>

lemma Watch_starts:
  assumes watch: "Cacher_Watch ks kf key resourceVersion filt w c = Some (Inr (Watcher i), c')"
    and rv: "(ParseWatchResourceVersion resourceVersion :: ('o wc_error, version) result) = Inr rv"
    and inv: "wc_inv acc (w :: ('o, 'o Cacher) watchCache)"
    and m: "rv = 0 \<and> m = Map.empty \<and> range_of (wc_contents w) ks \<or> rv \<noteq> 0 \<and> history acc rv m w"
  shows "tracked acc (filterFunction key kf filt) m i (wc_contents w) (wc_resourceVersion w) c'"
proof -
  obtain es where es: "GetAllEventsSince ks rv w = Some (Inr es)" and
    c': "i \<in> ca_watchers c'" "ca_heap c' i = Some (newCacheWatcher rv es (filterFunction key kf filt))"
    using watch rv
    by (auto simp: Cacher_Watch_def GetAllEventsSince_def split: if_splits option.splits sum.splits)
  have "chain acc m es \<and> foldl (apply_event acc) m es = wc_contents w \<and> rv \<le> wc_resourceVersion w"
    using m
  proof
    assume m: "rv = 0 \<and> m = Map.empty \<and> range_of (wc_contents w) ks"
    with GetAllEventsSince_zero [OF inv, of ks] es
    have "foldl (apply_event acc) Map.empty es = wc_contents w" and "\<forall>e \<in> set es. ev_PrevObject e = NilI \<and> ev_Type e = EvAdded"
      and "map (\<lambda>e. key_of acc (ev_Object e)) es = ks" by auto
    with m show ?thesis using chain_fresh [of es acc Map.empty] by (auto simp: range_of_def)
  next
    assume "rv \<noteq> 0 \<and> history acc rv m w"
    then show ?thesis using GetAllEventsSince_history [OF inv _ _ es] by blast
  qed
  with c' show ?thesis
    by (auto simp: tracked_def watcher_view_def newCacheWatcher_def Let_def)
qed



section \<open>Properties\<close>

lemma live_run:
  assumes "(cacher_live acc kf copy)\<^sup>*\<^sup>* s s'" and "copies copy"
  shows "wc_inv acc (fst s) \<and> cacher_inv (snd s) \<longrightarrow>
         wc_inv acc (fst s') \<and> cacher_inv (snd s') \<and> (history acc rv m (fst s) \<longrightarrow> history acc rv m (fst s'))"
  using assms(1)
proof induction
  case (step s1 s2)
  obtain w1 c1 w2 c2 where s: "s1 = (w1, c1)" "s2 = (w2, c2)" by (meson surj_pair)
  show ?case
    using step.IH live_tracked [OF step.hyps(2) [unfolded s] _ _ assms(2)]
      history_live [OF step.hyps(2) [unfolded s]] unfolding s fst_conv snd_conv by blast
qed simp

lemma step_run:
  assumes "(cacher_step acc kf copy)\<^sup>*\<^sup>* s s'" and "copies copy"
  shows "wc_inv acc (fst s) \<and> cacher_inv (snd s) \<longrightarrow>
         wc_inv acc (fst s') \<and> cacher_inv (snd s') \<and>
         (tracked acc f m i (wc_contents (fst s)) (wc_resourceVersion (fst s)) (snd s) \<longrightarrow>
          tracked acc f m i (wc_contents (fst s')) (wc_resourceVersion (fst s')) (snd s'))"
  using assms(1)
proof induction
  case (step s1 s2)
  obtain w1 c1 w2 c2 where s: "s1 = (w1, c1)" "s2 = (w2, c2)" by (meson surj_pair)
  show ?case
    using step.IH step_tracked [OF step.hyps(2) [unfolded s] _ _ assms(2)] unfolding s fst_conv snd_conv by blast
qed simp



text \<open>
  C3. A list served from the cache answers with a version at least as new as the one asked for
  and with exactly the stored objects of that version that pass the filter.
\<close>
theorem cacher_list_fresh:
  assumes "Cacher_List storage_list kf key resourceVersion filt looks = Some (Inr (objs, v))"
    and "resourceVersion \<noteq> ''''"
    and "(ParseListResourceVersion resourceVersion :: ('o wc_error, version) result) = Inr listRV"
    and "\<forall>(since, w, ks) \<in> set looks. wc_inv acc (w :: ('o, 'c) watchCache) \<and> range_of (wc_contents w) ks"
  shows "\<exists>(since, w, ks) \<in> set looks. listRV \<le> v \<and> v = wc_resourceVersion w \<and>
           set objs = {x \<in> ran (wc_contents w). filterFunction key kf filt x}"
proof -
  have wait: "\<exists>(since, w, ks) \<in> set looks. rv \<le> v' \<and> v' = wc_resourceVersion w \<and> all = cache_List ks (wc_store w)"
    if "WaitUntilFreshAndList rv looks = Some (Inr (all, v'))" for rv v' all
    using that by (induction rv looks rule: WaitUntilFreshAndList.induct) (auto simp: not_less split: if_splits)
  obtain all where all: "WaitUntilFreshAndList listRV looks = Some (Inr (all, v))"
    and objs: "objs = filter (filterFunction key kf filt) all"
    using assms(1-3) by (auto simp: Cacher_List_def split: option.splits sum.splits)
  from wait [OF all] obtain since w ks where l: "(since, w, ks) \<in> set looks" "listRV \<le> v" "v = wc_resourceVersion w"
    "all = cache_List ks (wc_store w)" by auto
  have "range_of (wc_contents w) ks" using assms(4) l(1) by auto
  then have "set all = ran (wc_contents w)"
    unfolding l(4) cache_List_def threadSafeMap_List_def wc_contents_def cache_contents_def
    by (auto simp: range_of_def ran_def image_iff map_get_def split: option.splits) force
  with l objs show ?thesis by auto
qed

text \<open>
  C4. The filter compares keys as strings, not path segment by path segment: a request that lists
  or watches the namespace \<open>ns\<close> is also given the objects of every namespace whose name starts
  with \<open>ns\<close>, for example those of \<open>kube-system\<close> when it asks for \<open>kube\<close>.
\<close>
theorem cacher_lists_other_namespaces:
  assumes "acc x = Some (ns @ suffix, name, rv)" and "ns \<noteq> ''''" and "IsValidPathSegmentName name" and "filt (Obj x)"
    and "wc_inv acc w" and "wc_contents w k = Some (Obj x)" and "range_of (wc_contents w) ks"
  shows "filterFunction (NamespaceKeyRootFunc (Some ns) prefix) (NamespaceKeyFunc acc prefix) filt (Obj x) \<and>
         (\<exists>objs. Cacher_List st (NamespaceKeyFunc acc prefix) (NamespaceKeyRootFunc (Some ns) prefix) ''0'' filt
                   [(since, w, ks)] = Some (Inr (objs, wc_resourceVersion w)) \<and> Obj x \<in> set objs)"
proof -
  have pass: "filterFunction (NamespaceKeyRootFunc (Some ns) prefix) (NamespaceKeyFunc acc prefix) filt (Obj x)"
    using assms(1-4) by (simp add: filterFunction_def NamespaceKeyRootFunc_def NamespaceKeyFunc_def)
  have zero: "(ParseListResourceVersion ''0'' :: ('a wc_error, version) result) = Inr 0"
    by (simp add: ParseListResourceVersion_def ParseUint_def is_digit_def read_nat_def digit_val_def)
  have list: "cache_List ks (wc_store w) = map (map_get NilI (wc_contents w)) ks"
    by (simp add: cache_List_def threadSafeMap_List_def wc_contents_def cache_contents_def)
  have "\<forall>y \<in> set (cache_List ks (wc_store w)). is_object y"
    unfolding list using assms(5,7) by (auto simp: wc_inv_def range_of_def)
  then have "List.find (\<lambda>obj. \<not> is_object obj) (cache_List ks (wc_store w)) = None"
    by (auto simp: find_None_iff)
  moreover have "Obj x \<in> set (cache_List ks (wc_store w))"
    unfolding list using assms(6,7) by (force simp: range_of_def)
  ultimately show ?thesis using pass by (auto simp: Cacher_List_def zero)
qed


section \<open>Examples\<close>

definition example_cacher :: "(string \<times> string) Cacher" where
  "example_cacher = newCacher\<lparr>ca_usable := True\<rparr>"

definition example_watch :: "(string \<times> string) Cacher" where
  "example_watch = example_cacher\<lparr>ca_watchers := {0}, ca_heap := [0 \<mapsto> newCacheWatcher 0
       [\<lparr>ev_Type = EvAdded, ev_Object = Obj (''a'', ''9''), ev_PrevObject = NilI, ev_ResourceVersion = 0\<rparr>]
       (filterFunction ''/x'' (NoNamespaceKeyFunc pair_accessor ''/x'') (\<lambda>_. True))], ca_watcherIdx := 1\<rparr>"

lemma example_cacher_inv: "cacher_inv example_cacher"
  by (simp add: cacher_inv_def example_cacher_def newCacher_def)

lemma example_list: "cache_List [''a''] (wc_store (example_cache c)) = [Obj (''a'', ''9'')]"
  using example_contents [of c]
  by (simp add: cache_List_def threadSafeMap_List_def wc_contents_def cache_contents_def)

lemma example_watch:
  "Cacher_Watch [''a''] (NoNamespaceKeyFunc pair_accessor ''/x'') ''/x'' ''0'' (\<lambda>_. True)
     (example_cache newCacher) example_cacher = Some (Inr (Watcher 0), example_watch)"
  by (simp add: example_list Cacher_Watch_def ParseWatchResourceVersion_def example_cacher_def newCacher_def
      GetAllEventsSinceThreadUnsafe_def Let_def example_watch_def)

lemma example_turn:
  "\<exists>x. ca_heap (cacheWatcher_process Some 0 example_watch) 0 = Some x \<and> \<not> cw_stopped x \<and> cw_initEvents x = [] \<and>
     cw_input x = [] \<and> cw_result x = [\<lparr>we_Type = EvAdded, we_Object = Obj (''a'', ''9'')\<rparr>]"
  by (simp add: cacheWatcher_process_def example_watch_def process_turn_def newCacheWatcher_def
      sendWatchCacheEvent_def filterFunction_def NoNamespaceKeyFunc_def pair_accessor_def IsValidPathSegmentName_def Let_def)



lemma example_list_version: "(ParseListResourceVersion ''10'' :: ((string \<times> string) wc_error, version) result) = Inr 10"
  by (simp add: ParseListResourceVersion_def ParseUint_def is_digit_def read_nat_def digit_val_def)

theorem cacher_list_fresh_witness:
  "\<exists>objs. Cacher_List (Inr ([], 0)) (NoNamespaceKeyFunc pair_accessor ''/x'') ''/x'' ''10'' (\<lambda>_. True)
     [(0, example_cache (), [''a''])] = Some (Inr (objs, 10)) \<and>
     set objs = {x \<in> ran (wc_contents (example_cache ())). filterFunction ''/x'' (NoNamespaceKeyFunc pair_accessor ''/x'') (\<lambda>_. True) x}"
proof -
  obtain objs where "Cacher_List (Inr ([], 0)) (NoNamespaceKeyFunc pair_accessor ''/x'') ''/x'' ''10'' (\<lambda>_. True)
     [(0, example_cache (), [''a''])] = Some (Inr (objs, 10))"
    by (auto simp: Cacher_List_def example_list_version example_version example_list)
  with cacher_list_fresh [OF this _ example_list_version, of pair_accessor] example_inv(1) [of "()"] example_range [of "()"]
  show ?thesis by auto
qed

definition example_namespaces :: "(string \<times> string \<times> string, unit) watchCache" where
  "example_namespaces = (fst \<circ> snd) (watchCache_Replace [''kube-system/p''] [Obj (''kube-system'', ''p'', ''9'')] ''10''
     (newWatchCache Some 2) ())"

lemma example_namespaces_replace:
  "watchCache_Replace [''kube-system/p''] [Obj (''kube-system'', ''p'', ''9'')] ''10'' (newWatchCache Some 2) () =
     (None, example_namespaces, ())"
  unfolding example_namespaces_def by (simp add: prod_eq_iff) (simp add: example_replace_simps)

lemma example_namespaces_contents:
  "wc_contents example_namespaces = [''kube-system/p'' \<mapsto> Obj (''kube-system'', ''p'', ''9'')]"
  by (simp add: example_namespaces_def example_replace_simps wc_contents_def cache_contents_def threadSafeMap_Replace_def)

theorem cacher_lists_other_namespaces_witness:
  "\<exists>objs. Cacher_List (Inr ([], 0)) (NamespaceKeyFunc Some ''/pods'') (NamespaceKeyRootFunc (Some ''kube'') ''/pods'') ''0''
     (\<lambda>_. True) [(0, example_namespaces, [''kube-system/p''])] = Some (Inr (objs, wc_resourceVersion example_namespaces)) \<and>
     Obj (''kube-system'', ''p'', ''9'') \<in> set objs"
proof -
  have range: "range_of (wc_contents example_namespaces) [''kube-system/p'']"
    by (simp add: example_namespaces_contents range_of_def)
  then have inv: "wc_inv Some example_namespaces"
    using watchCache_Replace_inv [OF newWatchCache_inv _ example_namespaces_replace] by simp
  show ?thesis
    using cacher_lists_other_namespaces [of Some "(''kube-system'', ''p'', ''9'')" "''kube''" "''-system''" "''p''" "''9''"
        "\<lambda>_. True" example_namespaces "''kube-system/p''" "[''kube-system/p'']" "''/pods''" "Inr ([], 0)" 0] inv range
    by (auto simp: IsValidPathSegmentName_def example_namespaces_contents)
qed

end
