(* ===== verification/Label_Selector.thy ===== *)
theory Label_Selector
  imports Go_Prelude
begin

text \<open>
  Label selectors, \<^verbatim>\<open>pkg/labels/selector.go\<close> and \<^verbatim>\<open>labels.go\<close>, with the validation of label keys and values
  of \<^verbatim>\<open>pkg/util/validation/validation.go\<close>: requirements and how they match, their printed form, and the
  lexer and parser that read it back. The lemmas show that a printed selector parses to itself,
  that the parser returns on every input, that what it returns is well formed, and what the
  selector made from a set of labels matches.

  The lexer's position is the rest of the input and the parser's position the rest of the scanned
  items; reading past the last item panics and is \<^term>\<open>None\<close>. A selector is the slice of its requirements.
  \<open>pf\<close> is \<^verbatim>\<open>strconv.ParseFloat\<close>, of which only the success and the order of the results are used;
  \<open>srt\<close> is the call of \<^verbatim>\<open>sort.Sort\<close>, which is not stable, so that it is only known to return a
  permutation that is sorted by key.
\<close>

section \<open>Validation of keys and values\<close>

datatype validation_error = EmptyError | MaxLenError nat | RegexError | PrefixPart validation_error | NamePart validation_error

definition is_lower :: "char \<Rightarrow> bool" where "is_lower c \<longleftrightarrow> CHR ''a'' \<le> c \<and> c \<le> CHR ''z''"
definition is_upper :: "char \<Rightarrow> bool" where "is_upper c \<longleftrightarrow> CHR ''A'' \<le> c \<and> c \<le> CHR ''Z''"
definition is_num :: "char \<Rightarrow> bool" where "is_num c \<longleftrightarrow> CHR ''0'' \<le> c \<and> c \<le> CHR ''9''"

definition qnameChar :: "char \<Rightarrow> bool" where
  "qnameChar c \<longleftrightarrow> is_upper c \<or> is_lower c \<or> is_num c"

definition qnameExtChar :: "char \<Rightarrow> bool" where
  "qnameExtChar c \<longleftrightarrow> qnameChar c \<or> c = CHR ''-'' \<or> c = CHR ''_'' \<or> c = CHR ''.''"

text \<open>The regular expression \<^verbatim>\<open>([A-Za-z0-9][-A-Za-z0-9_.]*)?[A-Za-z0-9]\<close>, anchored at both ends.\<close>

definition qualifiedNameRegexp :: "string \<Rightarrow> bool" where
  "qualifiedNameRegexp s \<longleftrightarrow> s \<noteq> [] \<and> qnameChar (hd s) \<and> qnameChar (last s) \<and> list_all qnameExtChar s"

definition dns1123LabelRegexp :: "string \<Rightarrow> bool" where
  "dns1123LabelRegexp s \<longleftrightarrow>
     s \<noteq> [] \<and> (is_lower (hd s) \<or> is_num (hd s)) \<and> (is_lower (last s) \<or> is_num (last s)) \<and>
     list_all (\<lambda>c. is_lower c \<or> is_num c \<or> c = CHR ''-'') s"

definition dns1123SubdomainRegexp :: "string \<Rightarrow> bool" where
  "dns1123SubdomainRegexp s \<longleftrightarrow> list_all dns1123LabelRegexp (split_on (CHR ''.'') s)"

definition IsDNS1123Subdomain :: "string \<Rightarrow> validation_error list" where
  "IsDNS1123Subdomain value =
     (if length value > 253 then [MaxLenError 253] else []) @
     (if \<not> dns1123SubdomainRegexp value then [RegexError] else [])"

definition IsQualifiedName :: "string \<Rightarrow> validation_error list" where
  "IsQualifiedName value =
     (let name_errs = (\<lambda>name.
            (if length name = 0 then [NamePart EmptyError]
             else if length name > 63 then [NamePart (MaxLenError 63)] else []) @
            (if \<not> qualifiedNameRegexp name then [NamePart RegexError] else []))
      in case split_on (CHR ''/'') value of
           [name] \<Rightarrow> name_errs name
         | [prefix, name] \<Rightarrow>
             (if length prefix = 0 then [PrefixPart EmptyError]
              else map PrefixPart (IsDNS1123Subdomain prefix)) @ name_errs name
         | _ \<Rightarrow> [RegexError])"

definition IsValidLabelValue :: "string \<Rightarrow> validation_error list" where
  "IsValidLabelValue value =
     (if length value > 63 then [MaxLenError 63] else []) @
     (if \<not> (value = [] \<or> qualifiedNameRegexp value) then [RegexError] else [])"

section \<open>Requirements\<close>

datatype Operator =
    DoesNotExistOperator | EqualsOperator | DoubleEqualsOperator | InOperator | NotEqualsOperator
  | NotInOperator | ExistsOperator | GreaterThanOperator | LessThanOperator | OtherOperator string

record Requirement =
  req_key :: string
  req_operator :: Operator
  req_strValues :: "string set"

datatype selector_error =
    InvalidLabelKey string "validation_error list"
  | InvalidLabelValue
  | ValuesEmpty
  | OneValueRequired
  | ValuesNotEmpty
  | NotANumber
  | OperatorNotRecognized Operator
  | Unexpected string

definition validateLabelKey :: "string \<Rightarrow> selector_error option" where
  "validateLabelKey k =
     (if IsQualifiedName k \<noteq> [] then Some (InvalidLabelKey k (IsQualifiedName k)) else None)"

definition validateLabelValue :: "string \<Rightarrow> selector_error option" where
  "validateLabelValue v = (if IsValidLabelValue v \<noteq> [] then Some InvalidLabelValue else None)"

text \<open>The part of \<^verbatim>\<open>NewRequirement\<close> that switches on the operator.\<close>

definition check_values ::
  "(string \<Rightarrow> 'f option) \<Rightarrow> Operator \<Rightarrow> string set \<Rightarrow> selector_error option" where
  "check_values pf op vals =
     (case op of
        InOperator \<Rightarrow> if card vals = 0 then Some ValuesEmpty else None
      | NotInOperator \<Rightarrow> if card vals = 0 then Some ValuesEmpty else None
      | EqualsOperator \<Rightarrow> if card vals \<noteq> 1 then Some OneValueRequired else None
      | DoubleEqualsOperator \<Rightarrow> if card vals \<noteq> 1 then Some OneValueRequired else None
      | NotEqualsOperator \<Rightarrow> if card vals \<noteq> 1 then Some OneValueRequired else None
      | ExistsOperator \<Rightarrow> if card vals \<noteq> 0 then Some ValuesNotEmpty else None
      | DoesNotExistOperator \<Rightarrow> if card vals \<noteq> 0 then Some ValuesNotEmpty else None
      | GreaterThanOperator \<Rightarrow>
          if card vals \<noteq> 1 then Some OneValueRequired
          else if \<exists>val \<in> vals. pf val = None then Some NotANumber else None
      | LessThanOperator \<Rightarrow>
          if card vals \<noteq> 1 then Some OneValueRequired
          else if \<exists>val \<in> vals. pf val = None then Some NotANumber else None
      | OtherOperator _ \<Rightarrow> Some (OperatorNotRecognized op))"

definition NewRequirement ::
  "(string \<Rightarrow> 'f option) \<Rightarrow> string \<Rightarrow> Operator \<Rightarrow> string set \<Rightarrow> (selector_error, Requirement) result" where
  "NewRequirement pf key op vals =
     (case validateLabelKey key of
        Some err \<Rightarrow> Inl err
      | None \<Rightarrow>
          (case check_values pf op vals of
             Some err \<Rightarrow> Inl err
           | None \<Rightarrow>
               if \<exists>v \<in> vals. validateLabelValue v \<noteq> None then Inl InvalidLabelValue
               else Inr \<lparr>req_key = key, req_operator = op, req_strValues = vals\<rparr>))"

type_synonym Set = "string \<rightharpoonup> string"

definition Set_Has :: "Set \<Rightarrow> string \<Rightarrow> bool" where
  "Set_Has ls label = (ls label \<noteq> None)"

definition Set_Get :: "Set \<Rightarrow> string \<Rightarrow> string" where
  "Set_Get ls label = map_get '''' ls label"

definition Requirement_Matches :: "(string \<Rightarrow> ('f :: ord) option) \<Rightarrow> Requirement \<Rightarrow> Set \<Rightarrow> bool" where
  "Requirement_Matches pf r ls =
     (let isIn = (if \<not> Set_Has ls (req_key r) then False else Set_Get ls (req_key r) \<in> req_strValues r);
          notIn = (if \<not> Set_Has ls (req_key r) then True else Set_Get ls (req_key r) \<notin> req_strValues r);
          compare = (\<lambda>less.
            if \<not> Set_Has ls (req_key r) then False
            else case pf (Set_Get ls (req_key r)) of
                   None \<Rightarrow> False
                 | Some lsValue \<Rightarrow>
                     if card (req_strValues r) \<noteq> 1 then False
                     else case pf (the_elem (req_strValues r)) of
                            None \<Rightarrow> False
                          | Some rValue \<Rightarrow> less lsValue rValue)
      in case req_operator r of
           InOperator \<Rightarrow> isIn
         | EqualsOperator \<Rightarrow> isIn
         | DoubleEqualsOperator \<Rightarrow> isIn
         | NotInOperator \<Rightarrow> notIn
         | NotEqualsOperator \<Rightarrow> notIn
         | ExistsOperator \<Rightarrow> Set_Has ls (req_key r)
         | DoesNotExistOperator \<Rightarrow> \<not> Set_Has ls (req_key r)
         | GreaterThanOperator \<Rightarrow> compare (\<lambda>lsValue rValue. rValue < lsValue)
         | LessThanOperator \<Rightarrow> compare (\<lambda>lsValue rValue. lsValue < rValue)
         | OtherOperator _ \<Rightarrow> False)"

text \<open>\<^verbatim>\<open>strings.Join\<close> for the separator \<^verbatim>\<open>","\<close>.\<close>

fun join_comma :: "string list \<Rightarrow> string" where
  "join_comma [] = ''''"
| "join_comma [s] = s"
| "join_comma (s # ss) = s @ '','' @ join_comma ss"

definition Requirement_String :: "Requirement \<Rightarrow> string" where
  "Requirement_String r =
     (let values = sorted_list_of_set (req_strValues r);
          head = (if req_operator r = DoesNotExistOperator then ''!'' else '''') @ req_key r;
          body = (if length values = 1 then values ! 0 else join_comma values)
      in case req_operator r of
           EqualsOperator \<Rightarrow> head @ ''='' @ body
         | DoubleEqualsOperator \<Rightarrow> head @ ''=='' @ body
         | NotEqualsOperator \<Rightarrow> head @ ''!='' @ body
         | InOperator \<Rightarrow> head @ '' in '' @ ''('' @ body @ '')''
         | NotInOperator \<Rightarrow> head @ '' notin '' @ ''('' @ body @ '')''
         | GreaterThanOperator \<Rightarrow> head @ ''>'' @ body
         | LessThanOperator \<Rightarrow> head @ ''<'' @ body
         | ExistsOperator \<Rightarrow> head
         | DoesNotExistOperator \<Rightarrow> head
         | OtherOperator _ \<Rightarrow> head @ body)"

section \<open>Selectors\<close>

datatype Selector = internalSelector "Requirement list" | nothingSelector

definition Everything :: Selector where "Everything = internalSelector []"
definition Nothing :: Selector where "Nothing = nothingSelector"
definition NewSelector :: Selector where "NewSelector = internalSelector []"

fun internalSelector_Matches :: "(string \<Rightarrow> ('f :: ord) option) \<Rightarrow> Requirement list \<Rightarrow> Set \<Rightarrow> bool" where
  "internalSelector_Matches pf [] l = True"
| "internalSelector_Matches pf (r # lsel) l =
     (if \<not> Requirement_Matches pf r l then False else internalSelector_Matches pf lsel l)"

fun Selector_Matches :: "(string \<Rightarrow> ('f :: ord) option) \<Rightarrow> Selector \<Rightarrow> Set \<Rightarrow> bool" where
  "Selector_Matches pf nothingSelector l = False"
| "Selector_Matches pf (internalSelector lsel) l = internalSelector_Matches pf lsel l"

fun Selector_Empty :: "Selector \<Rightarrow> bool" where
  "Selector_Empty nothingSelector = False"
| "Selector_Empty (internalSelector lsel) = (length lsel = 0)"

fun Selector_String :: "Selector \<Rightarrow> string" where
  "Selector_String nothingSelector = ''<null>''"
| "Selector_String (internalSelector lsel) = join_comma (map Requirement_String lsel)"

fun Selector_Add :: "(Requirement list \<Rightarrow> Requirement list) \<Rightarrow> Requirement list \<Rightarrow> Selector \<Rightarrow> Selector" where
  "Selector_Add srt reqs nothingSelector = nothingSelector"
| "Selector_Add srt reqs (internalSelector lsel) = internalSelector (srt (lsel @ reqs))"

text \<open>\<open>ks\<close> is the order in which the labels are visited; an invalid label ends the loop.\<close>

fun set_requirements ::
  "(string \<Rightarrow> 'f option) \<Rightarrow> Set \<Rightarrow> string list \<Rightarrow> Requirement list option" where
  "set_requirements pf ls [] = Some []"
| "set_requirements pf ls (label # ks) =
     (case NewRequirement pf label EqualsOperator {map_get '''' ls label} of
        Inl _ \<Rightarrow> None
      | Inr r \<Rightarrow> map_option ((#) r) (set_requirements pf ls ks))"

definition SelectorFromSet ::
  "(string \<Rightarrow> 'f option) \<Rightarrow> (Requirement list \<Rightarrow> Requirement list) \<Rightarrow> string list \<Rightarrow> Set \<Rightarrow> Selector" where
  "SelectorFromSet pf srt ks ls =
     (case set_requirements pf ls ks of
        None \<Rightarrow> internalSelector []
      | Some requirements \<Rightarrow> internalSelector (srt requirements))"

definition Set_AsSelector ::
  "(string \<Rightarrow> 'f option) \<Rightarrow> (Requirement list \<Rightarrow> Requirement list) \<Rightarrow> string list \<Rightarrow> Set \<Rightarrow> Selector" where
  "Set_AsSelector pf srt ks ls = SelectorFromSet pf srt ks ls"

definition Set_String :: "string list \<Rightarrow> Set \<Rightarrow> string" where
  "Set_String ks ls = join_comma (sort (map (\<lambda>k. k @ ''='' @ map_get '''' ls k) ks))"

definition FormatLabels :: "string list \<Rightarrow> Set \<Rightarrow> string" where
  "FormatLabels ks ls = (let l = Set_String ks ls in if l = '''' then ''<none>'' else l)"

section \<open>Lexer\<close>

datatype Token =
    ErrorToken | EndOfStringToken | ClosedParToken | CommaToken | DoesNotExistToken | DoubleEqualsToken
  | EqualsToken | GreaterThanToken | IdentifierToken | InToken | LessThanToken | NotEqualsToken
  | NotInToken | OpenParToken

definition string2token :: "string \<rightharpoonup> Token" where
  "string2token =
     [ '')'' \<mapsto> ClosedParToken, '','' \<mapsto> CommaToken, ''!'' \<mapsto> DoesNotExistToken, ''=='' \<mapsto> DoubleEqualsToken,
       ''='' \<mapsto> EqualsToken, ''>'' \<mapsto> GreaterThanToken, ''in'' \<mapsto> InToken, ''<'' \<mapsto> LessThanToken,
       ''!='' \<mapsto> NotEqualsToken, ''notin'' \<mapsto> NotInToken, ''('' \<mapsto> OpenParToken]"

type_synonym ScannedItem = "Token \<times> string"

definition isWhitespace :: "char \<Rightarrow> bool" where
  "isWhitespace ch \<longleftrightarrow> ch = CHR '' '' \<or> ch = CHR 0x09 \<or> ch = CHR 0x0D \<or> ch = CHR 0x0A"

definition isSpecialSymbol :: "char \<Rightarrow> bool" where
  "isSpecialSymbol ch \<longleftrightarrow> ch \<in> set ''=!(),><''"

text \<open>The loops of \<^verbatim>\<open>scanIdOrKeyword\<close> and \<^verbatim>\<open>scanSpecialSymbol\<close>. A byte 0 reads like the end of the input,
  but it is consumed.\<close>

fun id_loop :: "string \<Rightarrow> string \<Rightarrow> string \<times> string" where
  "id_loop buffer [] = (buffer, [])"
| "id_loop buffer (ch # cs) =
     (if ch = CHR 0x00 then (buffer, cs)
      else if isSpecialSymbol ch \<or> isWhitespace ch then (buffer, ch # cs)
      else id_loop (buffer @ [ch]) cs)"

definition scanIdOrKeyword :: "string \<Rightarrow> ScannedItem \<times> string" where
  "scanIdOrKeyword cs =
     (let (s, cs') = id_loop [] cs
      in case string2token s of
           Some val \<Rightarrow> ((val, s), cs')
         | None \<Rightarrow> ((IdentifierToken, s), cs'))"

fun special_loop :: "ScannedItem \<Rightarrow> string \<Rightarrow> string \<Rightarrow> ScannedItem \<times> string \<times> string" where
  "special_loop lastScannedItem buffer [] = (lastScannedItem, buffer, [])"
| "special_loop lastScannedItem buffer (ch # cs) =
     (if ch = CHR 0x00 then (lastScannedItem, buffer, cs)
      else if isSpecialSymbol ch then
        (case string2token (buffer @ [ch]) of
           Some token \<Rightarrow> special_loop (token, buffer @ [ch]) (buffer @ [ch]) cs
         | None \<Rightarrow>
             if fst lastScannedItem \<noteq> ErrorToken then (lastScannedItem, buffer @ [ch], ch # cs)
             else special_loop lastScannedItem (buffer @ [ch]) cs)
      else (lastScannedItem, buffer, ch # cs))"

definition scanSpecialSymbol :: "string \<Rightarrow> ScannedItem \<times> string" where
  "scanSpecialSymbol cs =
     (let (lastScannedItem, buffer, cs') = special_loop (ErrorToken, '''') [] cs
      in if fst lastScannedItem = ErrorToken
         then ((ErrorToken, ''error expected: keyword found '' @ [CHR 0x27] @ buffer @ [CHR 0x27]), cs')
         else (lastScannedItem, cs'))"

text \<open>\<^verbatim>\<open>Lex\<close>: \<open>skipWhiteSpaces\<close> leaves the input at its first character that is not blank.\<close>

definition skipWhiteSpaces :: "string \<Rightarrow> string" where
  "skipWhiteSpaces cs = dropWhile isWhitespace cs"

definition Lex :: "string \<Rightarrow> ScannedItem \<times> string" where
  "Lex cs =
     (case skipWhiteSpaces cs of
        [] \<Rightarrow> ((EndOfStringToken, ''''), [])
      | ch # cs' \<Rightarrow>
          if ch = CHR 0x00 then ((EndOfStringToken, ''''), cs')
          else if isSpecialSymbol ch then scanSpecialSymbol (ch # cs')
          else scanIdOrKeyword (ch # cs'))"


text \<open>Every token but the last one consumes input.\<close>

lemma id_loop_length: "length (snd (id_loop buffer cs)) \<le> length cs"
  by (induction buffer cs rule: id_loop.induct) auto

lemma special_loop_length: "length (snd (snd (special_loop l buffer cs))) \<le> length cs"
  by (induction l buffer cs rule: special_loop.induct) (auto split: option.splits)

lemma string2token_simps [simp]:
  "string2token '')'' = Some ClosedParToken" "string2token '','' = Some CommaToken"
  "string2token ''!'' = Some DoesNotExistToken" "string2token ''=='' = Some DoubleEqualsToken"
  "string2token ''='' = Some EqualsToken" "string2token ''>'' = Some GreaterThanToken"
  "string2token ''in'' = Some InToken" "string2token ''<'' = Some LessThanToken"
  "string2token ''!='' = Some NotEqualsToken" "string2token ''notin'' = Some NotInToken"
  "string2token ''('' = Some OpenParToken"
  by (simp_all add: string2token_def)

lemma special_is_token: "isSpecialSymbol ch \<Longrightarrow> \<exists>t. string2token [ch] = Some t \<and> t \<noteq> ErrorToken \<and> t \<noteq> EndOfStringToken"
  by (auto simp: isSpecialSymbol_def)

lemma Lex_shorter:
  assumes "Lex cs = (item, cs')" and "fst item \<noteq> EndOfStringToken"
  shows "length cs' < length cs"
proof -
  obtain ch rest where ch: "skipWhiteSpaces cs = ch # rest" "ch \<noteq> CHR 0x00"
    and lex: "(item, cs') = (if isSpecialSymbol ch then scanSpecialSymbol (ch # rest) else scanIdOrKeyword (ch # rest))"
    using assms by (auto simp: Lex_def split: list.splits if_splits)
  have ws: "\<not> isWhitespace ch" using ch(1) unfolding skipWhiteSpaces_def by (metis hd_dropWhile list.sel(1) list.simps(3))
  have "length cs' \<le> length rest"
  proof (cases "isSpecialSymbol ch")
    case True
    obtain t where t: "string2token [ch] = Some t" using special_is_token [OF True] by blast
    show ?thesis
      using lex True ch(2) special_loop_length [of "(t, [ch])" "[ch]" rest] t
      by (auto simp: scanSpecialSymbol_def split: prod.splits if_splits)
  next
    case False
    show ?thesis
      using lex False ch(2) ws id_loop_length [of "[ch]" rest]
      by (auto simp: scanIdOrKeyword_def split: prod.splits option.splits)
  qed
  moreover have "length (ch # rest) \<le> length cs"
    using ch(1) unfolding skipWhiteSpaces_def by (metis length_dropWhile_le)
  ultimately show ?thesis by simp
qed

section \<open>Parser\<close>

text \<open>\<^verbatim>\<open>scan\<close> tokenizes the whole input, up to and including the end.\<close>

function scan :: "string \<Rightarrow> ScannedItem list" where
  "scan cs =
     (let (item, cs') = Lex cs
      in if fst item = EndOfStringToken then [item] else item # scan cs')"
  by pat_completeness auto
termination
proof (relation "measure length")
  show "(cs', cs) \<in> measure length" if "p = Lex cs" "(item, cs') = p" "fst item \<noteq> EndOfStringToken"
    for cs p item cs'
    using Lex_shorter [of cs item cs'] that by simp
qed simp

declare scan.simps [simp del]

datatype ParserContext = KeyAndOperator | Values

fun in_context :: "ParserContext \<Rightarrow> Token \<Rightarrow> Token" where
  "in_context Values InToken = IdentifierToken"
| "in_context Values NotInToken = IdentifierToken"
| "in_context _ tok = tok"

fun lookahead :: "ParserContext \<Rightarrow> ScannedItem list \<Rightarrow> ScannedItem option" where
  "lookahead context [] = None"
| "lookahead context ((tok, lit) # items) = Some (in_context context tok, lit)"

fun consume :: "ParserContext \<Rightarrow> ScannedItem list \<Rightarrow> (ScannedItem \<times> ScannedItem list) option" where
  "consume context [] = None"
| "consume context ((tok, lit) # items) = Some ((in_context context tok, lit), items)"

type_synonym 'a parsed = "((selector_error, 'a) result \<times> ScannedItem list) option"

definition parseKeyAndInferOperator :: "ScannedItem list \<Rightarrow> (string \<times> Operator) parsed" where
  "parseKeyAndInferOperator p =
     (case consume Values p of
        None \<Rightarrow> None
      | Some ((tok0, lit0), p0) \<Rightarrow>
          (case (if tok0 = DoesNotExistToken
                 then map_option (Pair DoesNotExistOperator) (consume Values p0)
                 else Some (OtherOperator '''', ((tok0, lit0), p0))) of
             None \<Rightarrow> None
           | Some (operator, ((tok, literal), p1)) \<Rightarrow>
               if tok \<noteq> IdentifierToken then Some (Inl (Unexpected literal), p1)
               else case validateLabelKey literal of
                      Some err \<Rightarrow> Some (Inl err, p1)
                    | None \<Rightarrow>
                        (case lookahead Values p1 of
                           None \<Rightarrow> None
                         | Some (t, _) \<Rightarrow>
                             Some (Inr (literal,
                               if (t = EndOfStringToken \<or> t = CommaToken) \<and> operator \<noteq> DoesNotExistOperator
                               then ExistsOperator else operator), p1))))"

definition parseOperator :: "ScannedItem list \<Rightarrow> Operator parsed" where
  "parseOperator p =
     (case consume KeyAndOperator p of
        None \<Rightarrow> None
      | Some ((tok, lit), p1) \<Rightarrow>
          Some (case tok of
                  InToken \<Rightarrow> Inr InOperator
                | EqualsToken \<Rightarrow> Inr EqualsOperator
                | DoubleEqualsToken \<Rightarrow> Inr DoubleEqualsOperator
                | GreaterThanToken \<Rightarrow> Inr GreaterThanOperator
                | LessThanToken \<Rightarrow> Inr LessThanOperator
                | NotInToken \<Rightarrow> Inr NotInOperator
                | NotEqualsToken \<Rightarrow> Inr NotEqualsOperator
                | _ \<Rightarrow> Inl (Unexpected lit), p1))"

fun parseIdentifiersList :: "string set \<Rightarrow> ScannedItem list \<Rightarrow> (string set) parsed" where
  "parseIdentifiersList s [] = None"
| "parseIdentifiersList s ((tok, lit) # p) =
     (if in_context Values tok = IdentifierToken then
        (case lookahead Values p of
           None \<Rightarrow> None
         | Some (tok2, lit2) \<Rightarrow>
             if tok2 = CommaToken then parseIdentifiersList (insert lit s) p
             else if tok2 = ClosedParToken then Some (Inr (insert lit s), p)
             else Some (Inl (Unexpected lit2), p))
      else if in_context Values tok = CommaToken then
        (case lookahead Values p of
           None \<Rightarrow> None
         | Some (tok2, _) \<Rightarrow>
             if tok2 = ClosedParToken then Some (Inr (insert '''' (if card s = 0 then insert '''' s else s)), p)
             else if tok2 = CommaToken
             then parseIdentifiersList (insert '''' (if card s = 0 then insert '''' s else s)) (tl p)
             else parseIdentifiersList (if card s = 0 then insert '''' s else s) p)
      else Some (Inl (Unexpected lit), p))"

definition parseValues :: "ScannedItem list \<Rightarrow> (string set) parsed" where
  "parseValues p =
     (case consume Values p of
        None \<Rightarrow> None
      | Some ((tok, lit), p1) \<Rightarrow>
          if tok \<noteq> OpenParToken then Some (Inl (Unexpected lit), p1)
          else case lookahead Values p1 of
                 None \<Rightarrow> None
               | Some (tok, lit) \<Rightarrow>
                   if tok = IdentifierToken \<or> tok = CommaToken then
                     (case parseIdentifiersList {} p1 of
                        None \<Rightarrow> None
                      | Some (Inl err, p2) \<Rightarrow> Some (Inl err, p2)
                      | Some (Inr s, p2) \<Rightarrow>
                          (case consume Values p2 of
                             None \<Rightarrow> None
                           | Some ((tok2, _), p3) \<Rightarrow>
                               Some (if tok2 \<noteq> ClosedParToken then Inl (Unexpected lit) else Inr s, p3)))
                   else if tok = ClosedParToken then Some (Inr {''''}, tl p1)
                   else Some (Inl (Unexpected lit), p1))"

definition parseExactValue :: "ScannedItem list \<Rightarrow> (string set) parsed" where
  "parseExactValue p =
     (case lookahead Values p of
        None \<Rightarrow> None
      | Some (tok, lit) \<Rightarrow>
          if tok = EndOfStringToken \<or> tok = CommaToken then Some (Inr {''''}, p)
          else case consume Values p of
                 None \<Rightarrow> None
               | Some ((tok, lit), p1) \<Rightarrow>
                   Some (if tok = IdentifierToken then Inr {lit} else Inl (Unexpected lit), p1))"

definition parseRequirement :: "(string \<Rightarrow> 'f option) \<Rightarrow> ScannedItem list \<Rightarrow> Requirement parsed" where
  "parseRequirement pf p =
     (case parseKeyAndInferOperator p of
        None \<Rightarrow> None
      | Some (Inl err, p1) \<Rightarrow> Some (Inl err, p1)
      | Some (Inr (key, operator), p1) \<Rightarrow>
          if operator = ExistsOperator \<or> operator = DoesNotExistOperator
          then Some (NewRequirement pf key operator {}, p1)
          else case parseOperator p1 of
                 None \<Rightarrow> None
               | Some (Inl err, p2) \<Rightarrow> Some (Inl err, p2)
               | Some (Inr operator, p2) \<Rightarrow>
                   (case (if operator = InOperator \<or> operator = NotInOperator then parseValues p2 else parseExactValue p2) of
                      None \<Rightarrow> None
                    | Some (Inl err, p3) \<Rightarrow> Some (Inl err, p3)
                    | Some (Inr values, p3) \<Rightarrow> Some (NewRequirement pf key operator values, p3)))"

text \<open>The parse functions only move forward.\<close>

lemma consume_length: "consume c p = Some (x, p') \<Longrightarrow> length p = Suc (length p')"
  by (cases "(c, p)" rule: consume.cases) auto

lemma parseKey_length: "parseKeyAndInferOperator p = Some (r, p') \<Longrightarrow> length p' < length p"
  by (auto simp: parseKeyAndInferOperator_def split: option.splits if_splits dest!: consume_length)

lemma parseOperator_length: "parseOperator p = Some (r, p') \<Longrightarrow> length p' < length p"
  by (auto simp: parseOperator_def split: option.splits dest!: consume_length)

lemma parseIdentifiersList_length: "parseIdentifiersList s p = Some (r, p') \<Longrightarrow> length p' \<le> length p"
proof (induction "length p" arbitrary: s p rule: less_induct)
  case less
  note IH = less.hyps
  show ?case
  proof (cases p)
    case (Cons i q)
    have IH': "length p' \<le> length q" if "parseIdentifiersList s' q' = Some (r, p')" "length q' \<le> length q" for s' q'
      using IH [OF _ that(1)] that(2) Cons by simp
    show ?thesis
      using less.prems IH' [of _ q] IH' [of _ "tl q"] unfolding Cons
      by (cases i) (fastforce split: option.splits if_splits)
  qed (use less.prems in simp)
qed

lemma parseValues_length: "parseValues p = Some (r, p') \<Longrightarrow> length p' \<le> length p"
  by (auto simp: parseValues_def le_SucI split: option.splits if_splits sum.splits
      dest!: consume_length parseIdentifiersList_length)

lemma parseExactValue_length: "parseExactValue p = Some (r, p') \<Longrightarrow> length p' \<le> length p"
  by (auto simp: parseExactValue_def split: option.splits if_splits dest!: consume_length)

lemma parseRequirement_length: "parseRequirement pf p = Some (r, p') \<Longrightarrow> length p' < length p"
  by (auto simp: parseRequirement_def split: option.splits if_splits sum.splits
      dest!: parseKey_length parseOperator_length parseValues_length parseExactValue_length)

text \<open>The loop of \<^verbatim>\<open>Parser.parse\<close>.\<close>

function parse_loop ::
  "(string \<Rightarrow> 'f option) \<Rightarrow> Requirement list \<Rightarrow> ScannedItem list \<Rightarrow> (selector_error, Requirement list) result option" where
  "parse_loop pf requirements p =
     (case lookahead Values p of
        None \<Rightarrow> None
      | Some (tok, lit) \<Rightarrow>
          if tok = IdentifierToken \<or> tok = DoesNotExistToken then
            (case parseRequirement pf p of
               None \<Rightarrow> None
             | Some (Inl err, _) \<Rightarrow> Some (Inl err)
             | Some (Inr r, p1) \<Rightarrow>
                 (case consume Values p1 of
                    None \<Rightarrow> None
                  | Some ((t, l), p2) \<Rightarrow>
                      if t = EndOfStringToken then Some (Inr (requirements @ [r]))
                      else if t = CommaToken then
                        (case lookahead Values p2 of
                           None \<Rightarrow> None
                         | Some (t2, l2) \<Rightarrow>
                             if t2 \<noteq> IdentifierToken \<and> t2 \<noteq> DoesNotExistToken then Some (Inl (Unexpected l2))
                             else parse_loop pf (requirements @ [r]) p2)
                      else Some (Inl (Unexpected l))))
          else if tok = EndOfStringToken then Some (Inr requirements)
          else Some (Inl (Unexpected lit)))"
  by pat_completeness auto
termination
  by (relation "measure (\<lambda>(pf, reqs, p). length p)")
    (auto dest!: parseRequirement_length consume_length)

declare parse_loop.simps [simp del]

definition Parser_parse :: "(string \<Rightarrow> 'f option) \<Rightarrow> string \<Rightarrow> (selector_error, Requirement list) result option" where
  "Parser_parse pf selector = parse_loop pf [] (scan selector)"

definition parse ::
  "(string \<Rightarrow> 'f option) \<Rightarrow> (Requirement list \<Rightarrow> Requirement list) \<Rightarrow> string
     \<Rightarrow> (selector_error, Requirement list) result option" where
  "parse pf srt selector =
     (case Parser_parse pf selector of
        None \<Rightarrow> None
      | Some (Inl err) \<Rightarrow> Some (Inl err)
      | Some (Inr items) \<Rightarrow> Some (Inr (srt items)))"

definition Parse ::
  "(string \<Rightarrow> 'f option) \<Rightarrow> (Requirement list \<Rightarrow> Requirement list) \<Rightarrow> string
     \<Rightarrow> (selector_error, Selector) result option" where
  "Parse pf srt selector = map_option (map_sum id internalSelector) (parse pf srt selector)"

definition ParseToRequirements ::
  "(string \<Rightarrow> 'f option) \<Rightarrow> (Requirement list \<Rightarrow> Requirement list) \<Rightarrow> string
     \<Rightarrow> (selector_error, Requirement list) result option" where
  "ParseToRequirements pf srt selector = parse pf srt selector"

section \<open>The parser returns on every input\<close>

fun ended :: "ScannedItem list \<Rightarrow> bool" where
  "ended [] \<longleftrightarrow> False"
| "ended ((tok, lit) # p) \<longleftrightarrow> (if tok = EndOfStringToken then p = [] else ended p)"

lemma scan_ended: "ended (scan cs)"
proof (induction cs rule: scan.induct)
  case (1 cs)
  obtain tok lit cs' where l: "Lex cs = ((tok, lit), cs')" by (metis surj_pair)
  show ?case
    using 1 [OF l [symmetric] refl] l by (subst scan.simps) simp
qed

lemma in_context_simps [simp]:
  "in_context c tok = EndOfStringToken \<longleftrightarrow> tok = EndOfStringToken"
  "in_context c tok = CommaToken \<longleftrightarrow> tok = CommaToken"
  "in_context c tok = ClosedParToken \<longleftrightarrow> tok = ClosedParToken"
  "in_context c tok = OpenParToken \<longleftrightarrow> tok = OpenParToken"
  "in_context c tok = DoesNotExistToken \<longleftrightarrow> tok = DoesNotExistToken"
  "in_context KeyAndOperator tok = tok"
  by (cases "(c, tok)" rule: in_context.cases; simp)+

text \<open>A parse step returns, and goes on only before the end.\<close>

definition returns :: "'a parsed \<Rightarrow> bool" where
  "returns x \<longleftrightarrow> (\<exists>r p. x = Some (r, p) \<and> (isl r \<or> ended p))"

lemma ended_cases:
  assumes "ended p"
  obtains tok lit q where "p = (tok, lit) # q" "tok \<noteq> EndOfStringToken \<Longrightarrow> ended q" "tok = EndOfStringToken \<Longrightarrow> q = []"
  using assms by (cases p rule: ended.cases) (auto split: if_splits)

lemma ended_lookahead: "ended p \<Longrightarrow> \<exists>t l. lookahead c p = Some (t, l)"
  by (erule ended_cases) auto

lemma ended_consume: "ended p \<Longrightarrow> \<exists>t l q. consume c p = Some ((t, l), q) \<and> (t \<noteq> EndOfStringToken \<longrightarrow> ended q)"
  by (erule ended_cases) auto

lemma parseKey_returns:
  assumes "ended p"
  shows "returns (parseKeyAndInferOperator p)"
proof -
  obtain t0 l0 p0 where c0: "consume Values p = Some ((t0, l0), p0)" "t0 \<noteq> EndOfStringToken \<longrightarrow> ended p0"
    using ended_consume [OF assms] by blast
  have "\<exists>op t l p1. (if t0 = DoesNotExistToken then map_option (Pair DoesNotExistOperator) (consume Values p0)
            else Some (OtherOperator '''', ((t0, l0), p0))) = Some (op, ((t, l), p1)) \<and> (t \<noteq> EndOfStringToken \<longrightarrow> ended p1)"
    using c0(2) ended_consume [of p0 Values] by (cases "t0 = DoesNotExistToken") auto
  then obtain op t l p1 where c1: "(if t0 = DoesNotExistToken then map_option (Pair DoesNotExistOperator) (consume Values p0)
            else Some (OtherOperator '''', ((t0, l0), p0))) = Some (op, ((t, l), p1))" "t \<noteq> EndOfStringToken \<longrightarrow> ended p1"
    by blast
  show ?thesis
    using c1(2) ended_lookahead [of p1 Values]
    by (auto simp: parseKeyAndInferOperator_def returns_def c0(1) c1(1) split: option.splits)
qed

lemma parseOperator_returns:
  assumes "ended p"
  shows "returns (parseOperator p)"
proof -
  obtain t l q where "consume KeyAndOperator p = Some ((t, l), q)" "t \<noteq> EndOfStringToken \<longrightarrow> ended q"
    using ended_consume [OF assms] by blast
  then show ?thesis by (cases t) (auto simp: parseOperator_def returns_def)
qed

lemma parseIdentifiersList_returns: "ended p \<Longrightarrow> returns (parseIdentifiersList s p)"
proof (induction "length p" arbitrary: s p rule: less_induct)
  case less
  obtain tok lit q where p: "p = (tok, lit) # q" "tok \<noteq> EndOfStringToken \<Longrightarrow> ended q" "tok = EndOfStringToken \<Longrightarrow> q = []"
    by (rule ended_cases [OF less.prems]) blast
  show ?case
  proof (cases "tok = EndOfStringToken")
    case True
    then show ?thesis by (simp add: p(1) returns_def)
  next
    case False
    then have q: "ended q" by (rule p(2))
    have IH: "returns (parseIdentifiersList s' q)" for s' using less.hyps [of q s'] q p(1) by simp
    obtain t2 l2 q2 where q2: "q = (t2, l2) # q2" "t2 \<noteq> EndOfStringToken \<Longrightarrow> ended q2"
      by (rule ended_cases [OF q]) blast
    have IH2: "returns (parseIdentifiersList s' q2)" if "t2 = CommaToken" for s'
      using less.hyps [of q2 s'] q2 p(1) that by simp
    show ?thesis
      using IH [of "insert lit s"] IH [of "if card s = 0 then insert '''' s else s"] q
        IH2 [of "insert '''' (if card s = 0 then insert '''' s else s)"]
      unfolding p(1) q2(1) by (auto simp del: parseIdentifiersList.simps(2) simp add: parseIdentifiersList.simps(2) [of s tok lit "(t2, l2) # q2"] returns_def)
  qed
qed

lemma parseValues_returns:
  assumes "ended p"
  shows "returns (parseValues p)"
proof -
  obtain t l p1 where c: "consume Values p = Some ((t, l), p1)" "t \<noteq> EndOfStringToken \<longrightarrow> ended p1"
    using ended_consume [OF assms] by blast
  show ?thesis
  proof (cases "t = OpenParToken")
    case False
    then show ?thesis by (simp add: parseValues_def c(1) returns_def)
  next
    case True
    then have p1: "ended p1" using c(2) by simp
    obtain t2 l2 q2 where q2: "p1 = (t2, l2) # q2" "t2 \<noteq> EndOfStringToken \<Longrightarrow> ended q2"
      by (rule ended_cases [OF p1]) blast
    obtain r p2 where l: "parseIdentifiersList {} p1 = Some (r, p2)" "isl r \<or> ended p2"
      using parseIdentifiersList_returns [OF p1, of "{}"] by (auto simp: returns_def)
    show ?thesis
    proof (cases r)
      case (Inl e)
      then show ?thesis using True l q2 by (auto simp: parseValues_def c(1) returns_def)
    next
      case (Inr s)
      then obtain t3 l3 p3 where "consume Values p2 = Some ((t3, l3), p3)" "t3 \<noteq> EndOfStringToken \<longrightarrow> ended p3"
        using ended_consume [of p2 Values] l(2) by auto
      then show ?thesis using True l q2 Inr by (auto simp: parseValues_def c(1) returns_def)
    qed
  qed
qed

lemma parseExactValue_returns:
  assumes "ended p"
  shows "returns (parseExactValue p)"
  using assms by (rule ended_cases) (auto simp: parseExactValue_def returns_def)

lemma parseRequirement_returns:
  assumes "ended p"
  shows "returns (parseRequirement pf p)"
proof -
  obtain r1 p1 where r1: "parseKeyAndInferOperator p = Some (r1, p1)" "isl r1 \<or> ended p1"
    using parseKey_returns [OF assms] by (auto simp: returns_def)
  show ?thesis
  proof (cases r1)
    case (Inl e)
    then show ?thesis by (simp add: parseRequirement_def r1(1) returns_def)
  next
    case (Inr ko)
    obtain key op where ko: "ko = (key, op)" by (cases ko)
    have p1: "ended p1" using r1(2) Inr by simp
    obtain r2 p2 where r2: "parseOperator p1 = Some (r2, p2)" "isl r2 \<or> ended p2"
      using parseOperator_returns [OF p1] by (auto simp: returns_def)
    show ?thesis
    proof (cases r2)
      case (Inl e)
      then show ?thesis using p1 by (auto simp: parseRequirement_def r1(1) Inr ko r2(1) returns_def)
    next
      case r2': (Inr op2)
      then have p2: "ended p2" using r2(2) by simp
      have "returns (if op2 = InOperator \<or> op2 = NotInOperator then parseValues p2 else parseExactValue p2)"
        using parseValues_returns [OF p2] parseExactValue_returns [OF p2] by simp
      then obtain r3 p3 where "(if op2 = InOperator \<or> op2 = NotInOperator then parseValues p2 else parseExactValue p2) =
          Some (r3, p3)" "isl r3 \<or> ended p3" by (auto simp: returns_def)
      then show ?thesis using p1
        by (cases r3) (auto simp: parseRequirement_def r1(1) Inr ko r2(1) r2' returns_def)
    qed
  qed
qed


lemma parse_loop_returns: "ended p \<Longrightarrow> parse_loop pf rs p \<noteq> None"
proof (induction "length p" arbitrary: rs p rule: less_induct)
  case less
  obtain r1 p1 where r1: "parseRequirement pf p = Some (r1, p1)" "isl r1 \<or> ended p1"
    using parseRequirement_returns [OF less.prems, of pf] by (auto simp: returns_def)
  note len = parseRequirement_length [OF r1(1)]
  show ?case
  proof (cases r1)
    case (Inl e)
    then show ?thesis using parse_loop.simps [of pf rs p] ended_lookahead [OF less.prems, of Values] r1(1) by auto
  next
    case (Inr r)
    then obtain t l p2 where c: "consume Values p1 = Some ((t, l), p2)" "t \<noteq> EndOfStringToken \<longrightarrow> ended p2"
      using ended_consume [of p1 Values] r1(2) by auto
    have "length p2 < length p" using consume_length [OF c(1)] len by simp
    then have IH: "t \<noteq> EndOfStringToken \<Longrightarrow> parse_loop pf (rs @ [r]) p2 \<noteq> None"
      using less.hyps c(2) by blast
    show ?thesis
      using parse_loop.simps [of pf rs p] ended_lookahead [OF less.prems, of Values] r1(1) Inr c IH ended_lookahead [of p2 Values]
      by (cases "t = EndOfStringToken") auto
  qed
qed

section \<open>What the parser returns is well formed\<close>

definition wf_requirement :: "(string \<Rightarrow> 'f option) \<Rightarrow> Requirement \<Rightarrow> bool" where
  "wf_requirement pf r \<longleftrightarrow>
     finite (req_strValues r) \<and> NewRequirement pf (req_key r) (req_operator r) (req_strValues r) = Inr r"

lemma NewRequirement_wf: "NewRequirement pf k op vals = Inr r \<Longrightarrow> finite vals \<Longrightarrow> wf_requirement pf r"
  by (auto simp: NewRequirement_def wf_requirement_def split: option.splits if_splits)

lemma parseIdentifiersList_finite:
  "parseIdentifiersList s p = Some (Inr vs, p') \<Longrightarrow> finite s \<Longrightarrow> finite vs"
proof (induction "length p" arbitrary: s p rule: less_induct)
  case less
  obtain i q where p: "p = i # q" using less.prems(1) by (cases p) auto
  have IH: "finite vs" if "parseIdentifiersList s' q' = Some (Inr vs, p')" "length q' \<le> length q" "finite s'" for s' q'
    using less.hyps [OF _ that(1,3)] that(2) p by simp
  show ?case
    using less.prems IH [of _ q] IH [of _ "tl q"] unfolding p
    by (cases i) (fastforce split: option.splits if_splits)
qed

lemma parseRequirement_wf:
  assumes "parseRequirement pf p = Some (Inr r, p')"
  shows "wf_requirement pf r"
proof -
  have v: "finite vs" if "parseValues q = Some (Inr vs, q')" for q vs q'
    using that by (auto simp: parseValues_def split: option.splits if_splits sum.splits dest!: parseIdentifiersList_finite)
  have e: "finite vs" if "parseExactValue q = Some (Inr vs, q')" for q vs q'
    using that by (auto simp: parseExactValue_def split: option.splits if_splits)
  show ?thesis
    using assms
    by (auto simp: parseRequirement_def split: option.splits sum.splits if_splits)
      (blast intro: NewRequirement_wf finite.emptyI v e)+
qed

lemma parse_loop_wf:
  "ended p \<Longrightarrow> parse_loop pf rs p = Some (Inr rs') \<Longrightarrow> list_all (wf_requirement pf) rs \<Longrightarrow> list_all (wf_requirement pf) rs'"
proof (induction "length p" arbitrary: rs p rule: less_induct)
  case less
  obtain tok lit where t: "lookahead Values p = Some (tok, lit)" using ended_lookahead [OF less.prems(1)] by blast
  obtain r1 p1 where r1: "parseRequirement pf p = Some (r1, p1)" "isl r1 \<or> ended p1"
    using parseRequirement_returns [OF less.prems(1), of pf] by (auto simp: returns_def)
  show ?case
  proof (cases "\<exists>r. r1 = Inr r \<and> (tok = IdentifierToken \<or> tok = DoesNotExistToken)")
    case False
    then show ?thesis
      using parse_loop.simps [of pf rs p] r1(1) less.prems(2,3) t by (cases r1) (auto split: if_splits)
  next
    case True
    then obtain r where r: "r1 = Inr r" "tok = IdentifierToken \<or> tok = DoesNotExistToken" by blast
    have wf: "list_all (wf_requirement pf) (rs @ [r])"
      using parseRequirement_wf r1(1) r(1) less.prems(3) by simp
    obtain t' l p2 where c: "consume Values p1 = Some ((t', l), p2)" "t' \<noteq> EndOfStringToken \<longrightarrow> ended p2"
      using ended_consume [of p1 Values] r1(2) r(1) by auto
    have "length p2 < length p" using consume_length [OF c(1)] parseRequirement_length [OF r1(1)] by simp
    then have IH: "t' \<noteq> EndOfStringToken \<Longrightarrow> parse_loop pf (rs @ [r]) p2 = Some (Inr rs') \<Longrightarrow> ?thesis"
      using less.hyps c(2) wf by blast
    show ?thesis
      using parse_loop.simps [of pf rs p] r1(1) r c IH less.prems(2) wf t ended_lookahead [of p2 Values]
      by (cases "t' = EndOfStringToken") (auto split: if_splits)
  qed
qed


section \<open>Printed selectors scan to their tokens\<close>

definition plain :: "char \<Rightarrow> bool" where
  "plain c \<longleftrightarrow> \<not> isSpecialSymbol c \<and> \<not> isWhitespace c \<and> c \<noteq> CHR 0x00"

definition word_token :: "string \<Rightarrow> Token" where
  "word_token u = (case string2token u of Some t \<Rightarrow> t | None \<Rightarrow> IdentifierToken)"

definition stops :: "string \<Rightarrow> bool" where
  "stops rest \<longleftrightarrow> rest = [] \<or> isSpecialSymbol (hd rest) \<or> isWhitespace (hd rest)"

definition follows :: "string \<Rightarrow> string \<Rightarrow> bool" where
  "follows t rest \<longleftrightarrow>
     rest = [] \<or> hd rest \<noteq> CHR 0x00 \<and> (isSpecialSymbol (hd rest) \<longrightarrow> string2token (t @ [hd rest]) = None)"

lemma scan_Lex: "Lex cs = ((tok, lit), cs') \<Longrightarrow> tok \<noteq> EndOfStringToken \<Longrightarrow> scan cs = (tok, lit) # scan cs'"
  by (subst scan.simps) simp

lemma not_special_nul [simp]: "\<not> isSpecialSymbol (CHR 0x00)" "\<not> isWhitespace (CHR 0x00)"
  by (simp_all add: isSpecialSymbol_def isWhitespace_def)

lemma special_not_white: "isSpecialSymbol c \<Longrightarrow> \<not> isWhitespace c \<and> c \<noteq> CHR 0x00"
  by (auto simp: isSpecialSymbol_def isWhitespace_def)

lemma id_loop_plain: "list_all plain u \<Longrightarrow> stops rest \<Longrightarrow> id_loop b (u @ rest) = (b @ u, rest)"
proof (induction u arbitrary: b)
  case Nil
  then show ?case by (cases rest) (auto simp: stops_def)
qed (simp add: plain_def)

lemma string2token_SomeD:
  assumes "string2token u = Some t"
  shows "t = InToken \<or> t = NotInToken \<or> u \<noteq> [] \<and> isSpecialSymbol (hd u)"
  using assms unfolding string2token_def fun_upd_apply
  by (auto simp: isSpecialSymbol_def simp del: fun_upd_apply split: if_split_asm)

lemma word_token_cases:
  assumes "list_all plain u"
  shows "word_token u = IdentifierToken \<or> word_token u = InToken \<or> word_token u = NotInToken"
proof (cases "string2token u")
  case (Some t)
  then have "t = InToken \<or> t = NotInToken"
    using string2token_SomeD [OF Some] assms by (cases u) (auto simp: plain_def)
  with Some show ?thesis by (simp add: word_token_def)
qed (simp add: word_token_def)

lemma word_token_context: "list_all plain u \<Longrightarrow> in_context Values (word_token u) = IdentifierToken"
  using word_token_cases [of u] by auto

lemma scan_word:
  assumes "u \<noteq> []" and "list_all plain u" and "stops rest"
  shows "scan (u @ rest) = (word_token u, u) # scan rest"
proof -
  obtain c v where u: "u = c # v" and c: "plain c" using assms(1,2) by (cases u) auto
  have "Lex (u @ rest) = ((word_token u, u), rest)"
    using c id_loop_plain [OF assms(2,3), of "[]"]
    by (auto simp: u Lex_def skipWhiteSpaces_def plain_def scanIdOrKeyword_def word_token_def split: option.splits)
  then show ?thesis using word_token_cases [OF assms(2)] by (intro scan_Lex) auto
qed

lemma scan_space: "scan (CHR '' '' # cs) = scan cs"
proof -
  have "Lex (CHR '' '' # cs) = Lex cs" by (simp add: Lex_def skipWhiteSpaces_def isWhitespace_def)
  then show ?thesis by (simp add: scan.simps [of "CHR '' '' # cs"] scan.simps [of cs])
qed

lemma special_loop_stops:
  assumes "follows t rest" and "tok \<noteq> ErrorToken"
  shows "\<exists>b. special_loop (tok, t) t rest = ((tok, t), b, rest)"
  using assms by (cases rest) (auto simp: follows_def)

lemma scan_symbol1:
  assumes "isSpecialSymbol c" and "string2token [c] = Some tok" and "follows [c] rest"
  shows "scan (c # rest) = (tok, [c]) # scan rest"
proof -
  have tok: "tok \<noteq> ErrorToken" "tok \<noteq> EndOfStringToken" using special_is_token [OF assms(1)] assms(2) by auto
  obtain b where b: "special_loop (tok, [c]) [c] rest = ((tok, [c]), b, rest)"
    using special_loop_stops [OF assms(3) tok(1)] by blast
  have "Lex (c # rest) = ((tok, [c]), rest)"
    using assms(1,2) special_not_white [OF assms(1)] tok
    by (simp add: Lex_def skipWhiteSpaces_def scanSpecialSymbol_def b)
  then show ?thesis using tok by (intro scan_Lex)
qed

lemma scan_symbol2:
  assumes "isSpecialSymbol c" and "isSpecialSymbol d" and "string2token [c, d] = Some tok"
    and "tok \<noteq> ErrorToken" "tok \<noteq> EndOfStringToken" and "follows [c, d] rest"
  shows "scan (c # d # rest) = (tok, [c, d]) # scan rest"
proof -
  obtain t1 where t1: "string2token [c] = Some t1" using special_is_token [OF assms(1)] by blast
  obtain b where b: "special_loop (tok, [c, d]) [c, d] rest = ((tok, [c, d]), b, rest)"
    using special_loop_stops [OF assms(6,4)] by blast
  have "Lex (c # d # rest) = ((tok, [c, d]), rest)"
    using assms(1-4) special_not_white [OF assms(1)] special_not_white [OF assms(2)]
    by (simp add: Lex_def skipWhiteSpaces_def scanSpecialSymbol_def t1 b)
  then show ?thesis using assms(5) by (intro scan_Lex)
qed

text \<open>Keys and values are words; only the empty value is not.\<close>

lemma qname_plain: "qnameExtChar c \<Longrightarrow> plain c"
  by (auto simp: qnameExtChar_def qnameChar_def is_upper_def is_lower_def is_num_def plain_def isSpecialSymbol_def
      isWhitespace_def less_eq_char_def)

lemma split_on_set: "x \<in> set s \<Longrightarrow> x \<noteq> c \<Longrightarrow> \<exists>u \<in> set (split_on c s). x \<in> set u"
  by (induction s) (auto split: list.splits if_splits)

lemma valid_key_word:
  assumes "validateLabelKey k = None"
  shows "k \<noteq> []" and "list_all plain k"
proof -
  have q: "IsQualifiedName k = []" using assms by (auto simp: validateLabelKey_def split: if_splits)
  have name: "list_all plain s \<and> s \<noteq> []" if "qualifiedNameRegexp s" for s
    using that qname_plain by (auto simp: qualifiedNameRegexp_def list_all_iff)
  have label: "list_all plain s" if "dns1123LabelRegexp s" for s
    using that by (auto simp: dns1123LabelRegexp_def list_all_iff intro!: qname_plain simp: qnameExtChar_def qnameChar_def)
  have sub: "list_all plain s" if "dns1123SubdomainRegexp s" for s
  proof -
    have "plain c" if c: "c \<in> set s" for c
    proof -
      from split_on_set [OF c, of "CHR ''.''"] consider "c = CHR ''.''" | u where "u \<in> set (split_on (CHR ''.'') s)" "c \<in> set u"
        by blast
      then show ?thesis
      proof cases
        case 1
        then show ?thesis by (simp add: plain_def isSpecialSymbol_def isWhitespace_def)
      next
        case 2
        with \<open>dns1123SubdomainRegexp s\<close> label show ?thesis by (auto simp: dns1123SubdomainRegexp_def list_all_iff)
      qed
    qed
    then show ?thesis by (simp add: list_all_iff)
  qed
  have slash: "plain (CHR ''/'')" by (simp add: plain_def isSpecialSymbol_def isWhitespace_def)
  consider (one) name where "split_on (CHR ''/'') k = [name]" "qualifiedNameRegexp name"
    | (two) pre name where "split_on (CHR ''/'') k = [pre, name]" "dns1123SubdomainRegexp pre" "qualifiedNameRegexp name"
    using q by (auto simp: IsQualifiedName_def IsDNS1123Subdomain_def Let_def split: list.splits if_splits)
  then have "(\<forall>u \<in> set (split_on (CHR ''/'') k). list_all plain u) \<and> k \<noteq> []"
    by cases (auto dest: name sub)
  then show "k \<noteq> []" "list_all plain k"
    using split_on_set [of _ k "CHR ''/''"] slash unfolding list_all_iff by metis+
qed

lemma valid_value_word: "validateLabelValue v = None \<Longrightarrow> list_all plain v"
  using qname_plain
  by (auto simp: validateLabelValue_def IsValidLabelValue_def qualifiedNameRegexp_def list_all_iff split: if_splits)


definition word_item :: "string \<Rightarrow> ScannedItem list" where
  "word_item v = (if v = [] then [] else [(word_token v, v)])"

fun list_items :: "string list \<Rightarrow> ScannedItem list" where
  "list_items [] = []"
| "list_items [v] = word_item v"
| "list_items (v # vs) = word_item v @ (CommaToken, '','') # list_items vs"

definition requirement_items :: "Requirement \<Rightarrow> ScannedItem list" where
  "requirement_items r =
     (let key = (word_token (req_key r), req_key r); vs = list_items (sorted_list_of_set (req_strValues r))
      in case req_operator r of
           EqualsOperator \<Rightarrow> key # (EqualsToken, ''='') # vs
         | DoubleEqualsOperator \<Rightarrow> key # (DoubleEqualsToken, ''=='') # vs
         | NotEqualsOperator \<Rightarrow> key # (NotEqualsToken, ''!='') # vs
         | InOperator \<Rightarrow> key # (InToken, ''in'') # (OpenParToken, ''('') # vs @ [(ClosedParToken, '')'')]
         | NotInOperator \<Rightarrow> key # (NotInToken, ''notin'') # (OpenParToken, ''('') # vs @ [(ClosedParToken, '')'')]
         | GreaterThanOperator \<Rightarrow> key # (GreaterThanToken, ''>'') # vs
         | LessThanOperator \<Rightarrow> key # (LessThanToken, ''<'') # vs
         | ExistsOperator \<Rightarrow> [key]
         | DoesNotExistOperator \<Rightarrow> [(DoesNotExistToken, ''!''), key]
         | OtherOperator _ \<Rightarrow> [])"

definition nice :: "string \<Rightarrow> bool" where
  "nice rest \<longleftrightarrow> rest = [] \<or> plain (hd rest) \<or> hd rest = CHR '','' \<or> hd rest = CHR '')''"

lemma token_then_close:
  assumes "t \<noteq> []" and "c = CHR '','' \<or> c = CHR '')''"
  shows "string2token (t @ [c]) = None"
  using assms by (cases t; cases "tl t"; cases "tl (tl t)") (auto simp: string2token_def)

lemma follows_nice: "nice rest \<Longrightarrow> t \<noteq> [] \<Longrightarrow> follows t rest"
  using token_then_close [of t "hd rest"]
  by (auto simp: nice_def follows_def plain_def)

lemma follows_comma: "rest = [] \<or> plain (hd rest) \<or> isSpecialSymbol (hd rest) \<Longrightarrow> follows '','' rest"
  using special_not_white [of "hd rest"]
  by (auto simp: follows_def plain_def isSpecialSymbol_def string2token_def)

lemma special_chars [simp]:
  "isSpecialSymbol (CHR ''='')" "isSpecialSymbol (CHR ''!'')" "isSpecialSymbol (CHR ''('')" "isSpecialSymbol (CHR '')'')"
  "isSpecialSymbol (CHR '','')" "isSpecialSymbol (CHR ''>'')" "isSpecialSymbol (CHR ''<'')" "isWhitespace (CHR '' '')"
  by (simp_all add: isSpecialSymbol_def isWhitespace_def)

lemma stops_simps [simp]: "stops []" "stops (c # rest) \<longleftrightarrow> isSpecialSymbol c \<or> isWhitespace c"
  by (simp_all add: stops_def)

lemma nice_append: "list_all plain v \<Longrightarrow> nice rest \<Longrightarrow> nice (v @ rest)"
  by (cases v) (auto simp: nice_def)

lemma nice_join:
  assumes "\<forall>v \<in> set vs. list_all plain v" and "nice rest"
  shows "nice (join_comma vs @ rest)"
  using assms by (cases vs rule: join_comma.cases) (auto intro!: nice_append simp: nice_def [of "_ # _"])

lemma scan_list:
  assumes "\<forall>v \<in> set vs. list_all plain v" and "rest = [] \<or> hd rest = CHR '','' \<or> hd rest = CHR '')''"
  shows "scan (join_comma vs @ rest) = list_items vs @ scan rest"
  using assms(1)
proof (induction vs rule: join_comma.induct)
  case (2 v)
  have "stops rest" using assms(2) by (auto simp: stops_def)
  with 2 show ?case by (simp add: word_item_def scan_word)
next
  case (3 v w vs)
  have "nice (join_comma (w # vs) @ rest)" using 3(2) assms(2) by (intro nice_join) (auto simp: nice_def)
  then have "scan (CHR '','' # join_comma (w # vs) @ rest) = (CommaToken, '','') # scan (join_comma (w # vs) @ rest)"
    by (intro scan_symbol1 follows_nice) simp_all
  with 3 show ?case by (simp add: word_item_def scan_word)
qed simp

lemma values_body:
  "(if length vs = 1 then vs ! 0 else join_comma vs) = join_comma vs"
  by (cases vs rule: join_comma.cases) auto

lemma word_token_in [simp]: "word_token ''in'' = InToken" "word_token ''notin'' = NotInToken"
  by (simp_all add: word_token_def)

lemma plain_in: "list_all plain ''in''" "list_all plain ''notin''"
  by (simp_all add: plain_def isSpecialSymbol_def isWhitespace_def)

definition wf_words :: "Requirement \<Rightarrow> bool" where
  "wf_words r \<longleftrightarrow> req_key r \<noteq> [] \<and> list_all plain (req_key r) \<and> finite (req_strValues r) \<and>
     (\<forall>v \<in> req_strValues r. list_all plain v)"

lemma wf_requirement_words:
  assumes "wf_requirement pf r"
  shows "wf_words r"
proof -
  have "validateLabelKey (req_key r) = None" and "\<forall>v \<in> req_strValues r. validateLabelValue v = None"
    using assms by (auto simp: wf_requirement_def NewRequirement_def split: option.splits if_splits)
  then show ?thesis
    using assms valid_key_word valid_value_word by (auto simp: wf_words_def wf_requirement_def)
qed

lemma scan_requirement:
  assumes r: "wf_words r" and op: "\<forall>s. req_operator r \<noteq> OtherOperator s" and rest: "rest = [] \<or> hd rest = CHR '',''"
  shows "scan (Requirement_String r @ rest) = requirement_items r @ scan rest"
proof -
  let ?k = "req_key r" and ?b = "join_comma (sorted_list_of_set (req_strValues r))"
  let ?vs = "list_items (sorted_list_of_set (req_strValues r))"
  have vs: "\<forall>v \<in> set (sorted_list_of_set (req_strValues r)). list_all plain v" using r by (auto simp: wf_words_def)
  have k: "?k \<noteq> []" "list_all plain ?k" using r by (auto simp: wf_words_def)
  have nice: "nice rest" "nice (?b @ rest)" "nice (?b @ CHR '')'' # rest)"
    using rest by (auto intro!: nice_join [OF vs] simp: nice_def [of rest] nice_def [of "_ # _"] nice_def [of "[]"])
  have body: "scan (?b @ rest) = ?vs @ scan rest" using scan_list [OF vs] rest by blast
  have "scan (?b @ CHR '')'' # rest) = ?vs @ scan (CHR '')'' # rest)" using scan_list [OF vs] by simp
  also have "scan (CHR '')'' # rest) = (ClosedParToken, '')'') # scan rest"
    by (intro scan_symbol1 follows_nice nice) simp_all
  finally have close: "scan (CHR ''('' # ?b @ CHR '')'' # rest) = (OpenParToken, ''('') # ?vs @ (ClosedParToken, '')'') # scan rest"
    using scan_symbol1 [of "CHR ''(''" OpenParToken "?b @ CHR '')'' # rest"] follows_nice [OF nice(3), of "''(''"] by simp
  have one: "scan (c # ?b @ rest) = (tok, [c]) # ?vs @ scan rest"
    if "isSpecialSymbol c" "string2token [c] = Some tok" for c tok
    using scan_symbol1 [OF that follows_nice [OF nice(2)]] body by simp
  have two: "scan (c # CHR ''='' # ?b @ rest) = (tok, [c, CHR ''='']) # ?vs @ scan rest"
    if "isSpecialSymbol c" "string2token [c, CHR ''=''] = Some tok" "tok \<noteq> ErrorToken" "tok \<noteq> EndOfStringToken" for c tok
    using scan_symbol2 [OF that(1) _ that(2-4) follows_nice [OF nice(2)]] body by simp
  have excl: "scan (CHR ''!'' # ?k @ rest) = (DoesNotExistToken, ''!'') # scan (?k @ rest)"
    using k by (intro scan_symbol1 follows_nice) (auto simp: nice_def neq_Nil_conv)
  have key: "scan (?k @ c # cs) = (word_token ?k, ?k) # scan (c # cs)" if "isSpecialSymbol c \<or> isWhitespace c" for c cs
    using scan_word [OF k, of "c # cs"] that by simp
  have last: "scan (?k @ rest) = (word_token ?k, ?k) # scan rest"
    using scan_word [OF k, of rest] rest by (cases rest) auto
  have in_words: "scan (CHR ''i'' # CHR ''n'' # CHR '' '' # cs) = (InToken, ''in'') # scan cs"
    "scan (CHR ''n'' # CHR ''o'' # CHR ''t'' # CHR ''i'' # CHR ''n'' # CHR '' '' # cs) = (NotInToken, ''notin'') # scan cs" for cs
    using scan_word [OF _ plain_in(1), of "CHR '' '' # cs"] scan_word [OF _ plain_in(2), of "CHR '' '' # cs"]
    by (simp_all add: scan_space)
  show ?thesis
    using op unfolding Requirement_String_def requirement_items_def Let_def values_body
    by (cases "req_operator r") (simp_all add: key one two excl last close scan_space in_words)
qed

lemma requirement_items_context:
  assumes "wf_words r"
  shows "in_context Values (word_token (req_key r)) = IdentifierToken"
  using assms by (intro word_token_context) (simp add: wf_words_def)


section \<open>The tokens of a selector parse to it\<close>

lemma list_words:
  assumes "ws \<noteq> []" and "\<forall>w \<in> set ws. w \<noteq> [] \<and> list_all plain w" and "finite s"
  shows "parseIdentifiersList s (list_items ws @ (ClosedParToken, l) # q) = Some (Inr (s \<union> set ws), (ClosedParToken, l) # q)"
  using assms
proof (induction ws arbitrary: s rule: list_items.induct)
  case (2 w)
  then show ?case using word_token_context [of w] by (simp add: word_item_def)
next
  case (3 w w2 ws)
  have ctx: "in_context Values (word_token w) = IdentifierToken" "in_context Values (word_token w2) = IdentifierToken"
    using 3(3) word_token_context by auto
  obtain rest where rest: "list_items (w2 # ws) = (word_token w2, w2) # rest"
    using 3(3) by (cases ws) (auto simp: word_item_def)
  have "card (insert w s) \<noteq> 0" using 3(4) by simp
  then show ?case
    using 3(1) [of "insert w s"] 3(3,4) ctx rest by (simp add: word_item_def Un_commute insert_commute)
qed simp

lemma sorted_nonempty:
  fixes vs :: "string list"
  assumes "sorted (v # vs)" and "distinct (v # vs)" and "w \<in> set vs"
  shows "w \<noteq> []"
proof
  assume "w = []"
  then have "v \<le> []" using assms(1,3) by auto
  then have "v = []" by (cases v) auto
  with \<open>w = []\<close> assms(2,3) show False by auto
qed

lemma parseValues_items:
  assumes "vs \<noteq> []" and "sorted vs" and "distinct vs" and "\<forall>v \<in> set vs. list_all plain v"
  shows "parseValues ((OpenParToken, l) # list_items vs @ (ClosedParToken, l2) # q) = Some (Inr (set vs), q)"
proof -
  obtain v ws where vs: "vs = v # ws" using assms(1) by (cases vs) auto
  have ws: "\<forall>w \<in> set ws. w \<noteq> [] \<and> list_all plain w" using sorted_nonempty [of v ws] assms(2-4) vs by auto
  consider (word) "v \<noteq> []" | (only) "v = []" "ws = []" | (more) "v = []" "ws \<noteq> []" by blast
  then show ?thesis
  proof cases
    case word
    then have "parseIdentifiersList {} (list_items vs @ (ClosedParToken, l2) # q) = Some (Inr (set vs), (ClosedParToken, l2) # q)"
      using list_words [of vs "{}" l2 q] ws assms(4) vs by auto
    moreover obtain rest where "list_items vs = (word_token v, v) # rest"
      using word vs by (cases ws) (auto simp: word_item_def)
    ultimately show ?thesis
      using word_token_context [of v] assms(4) vs by (simp add: parseValues_def)
  next
    case only
    then show ?thesis by (simp add: vs parseValues_def word_item_def)
  next
    case more
    obtain w2 ws2 where w2: "ws = w2 # ws2" using more(2) by (cases ws) auto
    then obtain rest where rest: "list_items ws = (word_token w2, w2) # rest"
      using ws by (cases ws2) (auto simp: word_item_def)
    have items: "list_items vs = (CommaToken, '','') # list_items ws" using more(1) by (simp add: vs w2 word_item_def)
    have "in_context Values (word_token w2) = IdentifierToken" using ws w2 word_token_context by auto
    then have "parseIdentifiersList {} (list_items vs @ (ClosedParToken, l2) # q) = Some (Inr (set vs), (ClosedParToken, l2) # q)"
      using list_words [OF more(2) ws, of "{''''}" l2 q] rest more(1) unfolding items by (simp add: vs)
    then show ?thesis unfolding items by (simp add: parseValues_def)
  qed
qed

lemma wf_requirementD:
  assumes "wf_requirement pf r"
  shows "validateLabelKey (req_key r) = None" "check_values pf (req_operator r) (req_strValues r) = None"
    "NewRequirement pf (req_key r) (req_operator r) (req_strValues r) = Inr r" "finite (req_strValues r)"
  using assms by (auto simp: wf_requirement_def NewRequirement_def split: option.splits if_splits)

lemma parse_requirement:
  assumes wf: "wf_requirement pf r" and q: "q = (t, l) # q'" "t = CommaToken \<or> t = EndOfStringToken"
  shows "parseRequirement pf (requirement_items r @ q) = Some (Inr r, q)"
proof -
  let ?k = "req_key r" and ?V = "req_strValues r" and ?vs = "sorted_list_of_set (req_strValues r)"
  note words = wf_requirement_words [OF wf]
  note ctx [simp] = requirement_items_context [OF words]
  note D = wf_requirementD [OF wf]
  have key: "parseKeyAndInferOperator ((word_token ?k, ?k) # (t2, l2) # p) =
      Some (Inr (?k, if t2 = EndOfStringToken \<or> t2 = CommaToken then ExistsOperator else OtherOperator ''''), (t2, l2) # p)" for t2 l2 p
    using D(1) by (simp add: parseKeyAndInferOperator_def)
  have not_key: "parseKeyAndInferOperator ((DoesNotExistToken, l1) # (word_token ?k, ?k) # (t2, l2) # p) =
      Some (Inr (?k, DoesNotExistOperator), (t2, l2) # p)" for l1 t2 l2 p
    using D(1) by (simp add: parseKeyAndInferOperator_def)
  have V: "set ?vs = ?V" "sorted ?vs" "distinct ?vs" using D(4) by auto
  have plain: "\<forall>v \<in> set ?vs. list_all plain v" using words V(1) by (simp add: wf_words_def)
  have exact: "parseExactValue (list_items ?vs @ q) = Some (Inr ?V, q)" if "card ?V = 1"
  proof -
    from that obtain v where v: "?V = {v}" by (rule card_1_singletonE)
    then show ?thesis
      using q plain word_token_context [of v] by (auto simp: parseExactValue_def word_item_def)
  qed
  have many: "parseValues ((OpenParToken, ''('') # list_items ?vs @ (ClosedParToken, '')'') # q) = Some (Inr ?V, q)"
    if "card ?V \<noteq> 0"
    using parseValues_items [OF _ V(2,3) plain] that D(4) V(1) by auto
  have empty: "?V = {}" if "card ?V = 0" using that D(4) by simp
  show ?thesis
    using D(2,3) exact many empty q
    by (cases "req_operator r")
      (auto simp: requirement_items_def check_values_def parseRequirement_def Let_def key not_key parseOperator_def
        split: if_splits)
qed

fun selector_items :: "Requirement list \<Rightarrow> ScannedItem list" where
  "selector_items [] = [(EndOfStringToken, '''')]"
| "selector_items [r] = requirement_items r @ [(EndOfStringToken, '''')]"
| "selector_items (r # rs) = requirement_items r @ (CommaToken, '','') # selector_items rs"

lemma wf_operator: "wf_requirement pf r \<Longrightarrow> req_operator r \<noteq> OtherOperator s"
  using wf_requirementD(2) [of pf r] by (auto simp: check_values_def)

lemma scan_end: "scan [] = [(EndOfStringToken, '''')]"
  by (subst scan.simps) (simp add: Lex_def skipWhiteSpaces_def)

lemma Requirement_String_hd:
  assumes "wf_requirement pf r"
  shows "Requirement_String r \<noteq> [] \<and> (plain (hd (Requirement_String r)) \<or> isSpecialSymbol (hd (Requirement_String r)))"
  using wf_requirement_words [OF assms] wf_operator [OF assms]
  by (cases "req_key r"; cases "req_operator r") (auto simp: Requirement_String_def Let_def wf_words_def)

lemma scan_selector:
  "list_all (wf_requirement pf) rs \<Longrightarrow> scan (join_comma (map Requirement_String rs)) = selector_items rs"
proof (induction rs rule: selector_items.induct)
  case 1
  show ?case by (simp add: scan_end)
next
  case (2 r)
  then show ?case
    using scan_requirement [OF wf_requirement_words, of pf r "[]"] wf_operator [of pf r] by (simp add: scan_end)
next
  case (3 r r2 rs)
  let ?rest = "join_comma (map Requirement_String (r2 # rs))"
  have "?rest = [] \<or> plain (hd ?rest) \<or> isSpecialSymbol (hd ?rest)"
    using Requirement_String_hd [of pf r2] 3(2) by (cases rs) auto
  then have "scan (CHR '','' # ?rest) = (CommaToken, '','') # scan ?rest"
    by (intro scan_symbol1 follows_comma) simp_all
  then show ?case
    using 3 scan_requirement [OF wf_requirement_words, of pf r "CHR '','' # ?rest"] wf_operator [of pf r] by simp
qed

lemma selector_items_hd:
  assumes "wf_requirement pf r"
  shows "\<exists>t l p. requirement_items r = (t, l) # p \<and> (in_context Values t = IdentifierToken \<or> t = DoesNotExistToken)"
  using requirement_items_context [OF wf_requirement_words [OF assms]] wf_operator [OF assms]
  by (cases "req_operator r") (auto simp: requirement_items_def Let_def)

lemma parse_loop_items:
  "list_all (wf_requirement pf) rs \<Longrightarrow> parse_loop pf acc (selector_items rs) = Some (Inr (acc @ rs))"
proof (induction rs arbitrary: acc rule: selector_items.induct)
  case 1
  show ?case by (subst parse_loop.simps) simp
next
  case (2 r)
  obtain t l p where hd: "requirement_items r = (t, l) # p" "in_context Values t = IdentifierToken \<or> t = DoesNotExistToken"
    using selector_items_hd [of pf r] 2 by fastforce
  have "parseRequirement pf (requirement_items r @ [(EndOfStringToken, '''')]) = Some (Inr r, [(EndOfStringToken, '''')])"
    using parse_requirement [OF _ refl, of pf r EndOfStringToken "''''" "[]"] 2 by simp
  then show ?case using hd by (subst parse_loop.simps) auto
next
  case (3 r r2 rs)
  obtain t l p where hd: "requirement_items r = (t, l) # p" "in_context Values t = IdentifierToken \<or> t = DoesNotExistToken"
    using selector_items_hd [of pf r] 3(2) by fastforce
  obtain t2 l2 p2 where hd2: "selector_items (r2 # rs) = (t2, l2) # p2" "in_context Values t2 = IdentifierToken \<or> t2 = DoesNotExistToken"
    using selector_items_hd [of pf r2] 3(2) by (cases rs) fastforce+
  have "parseRequirement pf (requirement_items r @ (CommaToken, '','') # selector_items (r2 # rs)) =
      Some (Inr r, (CommaToken, '','') # selector_items (r2 # rs))"
    using parse_requirement [OF _ refl, of pf r CommaToken "'',''" "selector_items (r2 # rs)"] 3(2) by simp
  then show ?case
    using hd hd2 3(1) [of "acc @ [r]"] 3(2) by (subst parse_loop.simps) (auto simp: hd2(1))
qed


section \<open>Properties\<close>

text \<open>What is known of \<^verbatim>\<open>sort.Sort\<close> on requirements.\<close>

definition sorts_by_key :: "(Requirement list \<Rightarrow> Requirement list) \<Rightarrow> bool" where
  "sorts_by_key srt \<longleftrightarrow> (\<forall>rs. mset (srt rs) = mset rs \<and> sorted (map req_key (srt rs)))"

lemma sorts_by_key_unique:
  assumes "sorts_by_key srt" and "mset rs = mset rs'" and "sorted (map req_key rs')" and "distinct (map req_key rs')"
  shows "srt rs = rs'"
proof (rule map_sorted_distinct_set_unique [where f = req_key])
  have m: "mset (srt rs) = mset rs'" using assms(1,2) by (simp add: sorts_by_key_def)
  then show "set (srt rs) = set rs'" by (rule mset_eq_setD)
  then show "inj_on req_key (set (srt rs) \<union> set rs')" using assms(4) by (simp add: distinct_map)
  show "sorted (map req_key (srt rs))" using assms(1) by (simp add: sorts_by_key_def)
  have "mset (map req_key (srt rs)) = mset (map req_key rs')" using m by (metis mset_map)
  then show "distinct (map req_key (srt rs))" using assms(4) mset_eq_imp_distinct_iff by blast
qed (use assms(3,4) in auto)

lemma Parse_printed:
  assumes "list_all (wf_requirement pf) rs"
  shows "Parse pf srt (Selector_String (internalSelector rs)) = Some (Inr (internalSelector (srt rs)))"
  using parse_loop_items [OF assms, of "[]"] scan_selector [OF assms]
  by (simp add: Parse_def parse_def Parser_parse_def)

text \<open>
  C1. A printed selector parses to itself: the parser reads back exactly the requirements that
  were printed, whatever their operators, keys and values (also keys and values called \<open>in\<close> or
  \<open>notin\<close> and the empty value), in the same order if they were sorted by distinct keys.
\<close>
theorem selector_print_parse:
  assumes "list_all (wf_requirement pf) rs" and "sorts_by_key srt"
  shows "\<exists>rs'. Parse pf srt (Selector_String (internalSelector rs)) = Some (Inr (internalSelector rs')) \<and>
               mset rs' = mset rs \<and> (sorted (map req_key rs) \<and> distinct (map req_key rs) \<longrightarrow> rs' = rs)"
  using Parse_printed [OF assms(1), of srt] sorts_by_key_unique [OF assms(2) refl, of rs] assms(2)
  by (auto simp: sorts_by_key_def)

text \<open>
  C2. The parser is total and its results are well formed: on every input it returns an error or a
  selector, without reading past its tokens, and every requirement of the selector satisfies the
  rules of NewRequirement; the requirements are sorted by key.
\<close>
theorem selector_parse_total:
  assumes "sorts_by_key srt"
  shows "case Parse pf srt s of
           None \<Rightarrow> False
         | Some (Inl _) \<Rightarrow> True
         | Some (Inr nothingSelector) \<Rightarrow> False
         | Some (Inr (internalSelector rs)) \<Rightarrow> list_all (wf_requirement pf) rs \<and> sorted (map req_key rs)"
proof -
  have "Parser_parse pf s \<noteq> None"
    unfolding Parser_parse_def by (rule parse_loop_returns [OF scan_ended])
  then obtain r where r: "Parser_parse pf s = Some r" by blast
  show ?thesis
  proof (cases r)
    case (Inl e)
    with r show ?thesis by (simp add: Parse_def parse_def)
  next
    case (Inr rs)
    have "list_all (wf_requirement pf) rs"
      using parse_loop_wf [OF scan_ended, of pf "[]" s rs] r Inr by (simp add: Parser_parse_def)
    moreover have "set (srt rs) = set rs" using assms by (metis mset_eq_setD sorts_by_key_def)
    ultimately have "list_all (wf_requirement pf) (srt rs)" by (simp add: list_all_iff)
    with r Inr assms show ?thesis by (simp add: Parse_def parse_def sorts_by_key_def)
  qed
qed

lemma internalSelector_Matches_all: "internalSelector_Matches pf rs l \<longleftrightarrow> (\<forall>r \<in> set rs. Requirement_Matches pf r l)"
  by (induction rs) auto

definition valid_label :: "Set \<Rightarrow> string \<Rightarrow> bool" where
  "valid_label ls k \<longleftrightarrow> validateLabelKey k = None \<and> validateLabelValue (map_get '''' ls k) = None"

definition label_requirement :: "Set \<Rightarrow> string \<Rightarrow> Requirement" where
  "label_requirement ls k = \<lparr>req_key = k, req_operator = EqualsOperator, req_strValues = {map_get '''' ls k}\<rparr>"

lemma set_requirements_eq:
  "set_requirements pf ls ks =
     (if \<forall>k \<in> set ks. valid_label ls k then Some (map (label_requirement ls) ks) else None)"
  by (induction ks)
    (auto simp: NewRequirement_def check_values_def valid_label_def label_requirement_def split: option.splits)

lemma label_requirement_matches:
  assumes "ls k = Some v"
  shows "Requirement_Matches pf (label_requirement ls k) l \<longleftrightarrow> l k = Some v"
  using assms by (auto simp: Requirement_Matches_def label_requirement_def Set_Has_def Set_Get_def map_get_def split: option.splits)

text \<open>
  C3. The selector made from a set of labels matches exactly the label sets that contain it,
  provided every label of the set is valid; if a single label is not valid, the result is the
  selector that matches everything.
\<close>
theorem selector_from_set_matches:
  assumes "range_of ls ks" and "sorts_by_key srt"
  shows "Selector_Matches pf (SelectorFromSet pf srt ks ls) l \<longleftrightarrow>
         ((\<forall>k \<in> dom ls. valid_label ls k) \<longrightarrow> ls \<subseteq>\<^sub>m l)"
proof (cases "\<forall>k \<in> dom ls. valid_label ls k")
  case False
  with assms(1) show ?thesis by (auto simp: SelectorFromSet_def set_requirements_eq range_of_def)
next
  case True
  have "set (srt (map (label_requirement ls) ks)) = set (map (label_requirement ls) ks)"
    using assms(2) by (metis mset_eq_setD sorts_by_key_def)
  then have "Selector_Matches pf (SelectorFromSet pf srt ks ls) l \<longleftrightarrow>
      (\<forall>k \<in> dom ls. Requirement_Matches pf (label_requirement ls k) l)"
    using True assms(1)
    by (simp add: SelectorFromSet_def set_requirements_eq range_of_def internalSelector_Matches_all)
  also have "\<dots> \<longleftrightarrow> (\<forall>k \<in> dom ls. ls k = l k)"
  proof (rule ball_cong [OF refl])
    fix k
    assume "k \<in> dom ls"
    then obtain v where "ls k = Some v" by auto
    then show "Requirement_Matches pf (label_requirement ls k) l \<longleftrightarrow> ls k = l k"
      by (auto simp: label_requirement_matches)
  qed
  also have "\<dots> \<longleftrightarrow> ls \<subseteq>\<^sub>m l" by (simp add: map_le_def)
  finally show ?thesis using True by simp
qed

text \<open>
  C4. What a set of labels prints as is a selector, and the parser reads it as the selector made
  from the set.
\<close>
theorem labels_print_as_selector:
  assumes "range_of ls ks" and "sorts_by_key srt" and "\<forall>k \<in> dom ls. valid_label ls k"
  shows "Parse pf srt (Set_String ks ls) = Some (Inr (SelectorFromSet pf srt ks ls))"
proof -
  let ?rs = "map (label_requirement ls) ks"
  let ?rs' = "sort_key Requirement_String ?rs"
  have ks: "distinct ks" "set ks = dom ls" using assms(1) by (auto simp: range_of_def)
  have str: "Requirement_String (label_requirement ls k) = k @ ''='' @ map_get '''' ls k" for k
    by (simp add: Requirement_String_def label_requirement_def)
  have "map Requirement_String ?rs' = sort (map Requirement_String ?rs)"
    by (rule properties_for_sort [symmetric]) (simp_all add: multiset.map_comp)
  then have print: "Set_String ks ls = Selector_String (internalSelector ?rs')"
    by (simp add: Set_String_def str comp_def)
  have "wf_requirement pf (label_requirement ls k)" if "valid_label ls k" for k
    using that by (simp add: wf_requirement_def NewRequirement_def label_requirement_def check_values_def valid_label_def)
  then have wf: "list_all (wf_requirement pf) ?rs'" using assms(3) ks(2) by (simp add: list_all_iff)
  have "map req_key ?rs = ks" by (simp add: comp_def label_requirement_def)
  then have "distinct (map req_key (srt ?rs))"
    using ks(1) assms(2) by (metis mset_eq_imp_distinct_iff mset_map sorts_by_key_def)
  then have "srt ?rs' = srt ?rs"
    using assms(2) by (intro sorts_by_key_unique) (auto simp: sorts_by_key_def)
  then show ?thesis
    using Parse_printed [OF wf, of srt] assms(3) ks(2) by (simp add: print SelectorFromSet_def set_requirements_eq)
qed


section \<open>Examples\<close>

definition no_floats :: "string \<Rightarrow> nat option" where
  "no_floats s = None"

definition example_selector :: "Requirement list" where
  "example_selector =
     [\<lparr>req_key = ''in'', req_operator = InOperator, req_strValues = {'''', ''notin''}\<rparr>,
      \<lparr>req_key = ''x'', req_operator = DoesNotExistOperator, req_strValues = {}\<rparr>]"

lemma sort_key_sorts: "sorts_by_key (sort_key req_key)"
  by (simp add: sorts_by_key_def)

lemma example_selector_wf: "list_all (wf_requirement no_floats) example_selector"
  by (simp add: example_selector_def wf_requirement_def NewRequirement_def validateLabelKey_def validateLabelValue_def
      IsQualifiedName_def IsValidLabelValue_def qualifiedNameRegexp_def qnameChar_def qnameExtChar_def is_lower_def
      is_upper_def is_num_def check_values_def less_eq_char_def)

theorem selector_print_parse_witness:
  "Parse no_floats (sort_key req_key) (Selector_String (internalSelector example_selector)) =
     Some (Inr (internalSelector example_selector)) \<and>
   Selector_String (internalSelector example_selector) = ''in in (,notin),!x''"
proof -
  have "sorted (map req_key example_selector) \<and> distinct (map req_key example_selector)" by code_simp
  moreover have "Selector_String (internalSelector example_selector) = ''in in (,notin),!x''"
    by code_simp
  ultimately show ?thesis using selector_print_parse [OF example_selector_wf sort_key_sorts] by auto
qed

theorem selector_parse_total_witness:
  "wf_requirement no_floats \<lparr>req_key = ''x'', req_operator = InOperator, req_strValues = {''a'', ''b''}\<rparr> \<and>
   Parse no_floats (sort_key req_key) ''x in (a,b)'' =
     Some (Inr (internalSelector [\<lparr>req_key = ''x'', req_operator = InOperator, req_strValues = {''a'', ''b''}\<rparr>]))"
proof -
  have "Parse no_floats (sort_key req_key) ''x in (a,b)'' =
     Some (Inr (internalSelector [\<lparr>req_key = ''x'', req_operator = InOperator, req_strValues = {''a'', ''b''}\<rparr>]))"
    by code_simp
  then show ?thesis using selector_parse_total [OF sort_key_sorts, of no_floats "''x in (a,b)''"] by simp
qed

theorem selector_from_set_matches_witness:
  "Selector_Matches no_floats (SelectorFromSet no_floats (sort_key req_key) [''a''] [''a'' \<mapsto> ''!'']) Map.empty \<and>
   \<not> Selector_Matches no_floats (SelectorFromSet no_floats (sort_key req_key) [''a''] [''a'' \<mapsto> ''b'']) Map.empty"
proof -
  have "range_of [''a'' \<mapsto> ''!''] [''a'']" "range_of [''a'' \<mapsto> ''b''] [''a'']" by (simp_all add: range_of_def)
  moreover have "\<not> valid_label [''a'' \<mapsto> ''!''] ''a''" "valid_label [''a'' \<mapsto> ''b''] ''a''" by code_simp+
  ultimately show ?thesis
    using selector_from_set_matches [OF _ sort_key_sorts, of _ "[''a'']" no_floats Map.empty]
    by (simp add: map_le_def)
qed

theorem labels_print_as_selector_witness:
  "Parse no_floats (sort_key req_key) ''a=b'' = Some (Inr (SelectorFromSet no_floats (sort_key req_key) [''a''] [''a'' \<mapsto> ''b'']))"
proof -
  have "range_of [''a'' \<mapsto> ''b''] [''a'']" by (simp add: range_of_def)
  moreover have "valid_label [''a'' \<mapsto> ''b''] ''a''" "Set_String [''a''] [''a'' \<mapsto> ''b''] = ''a=b''" by code_simp+
  ultimately show ?thesis
    using labels_print_as_selector [OF _ sort_key_sorts, of "[''a'' \<mapsto> ''b'']" "[''a'']" no_floats] by simp
qed

end
