(* ===== verification/Scheduler_Cache.thy ===== *)
theory Scheduler_Cache
  imports Cache_Store Label_Selector "HOL-Library.Word"
begin

text \<open>
  The scheduler's cache of pods and nodes: node\_info.go and cache.go of
  plugin/pkg/scheduler/schedulercache, with the request defaults of
  algorithm/priorities/util/non\_zero.go and the accessors of pkg/api/resource\_helpers.go.

  A NodeInfo keeps the totals of its pods behind two pointers, which Clone copies as pointers,
  so the totals live in an explicit heap of \<open>Resource\<close> cells. The int64 totals are 64-bit words.
  A nil dereference is \<open>None\<close>. The theory shows that the cache refines an abstract table of
  pods: the totals of every node are those of the pods the table places on it.
\<close>

section \<open>API objects\<close>

text \<open>Of a resource.Quantity the scheduler reads its integer value and its value in thousandths.\<close>

type_synonym int64 = "64 word"

record Quantity =
  q_Value :: int64
  q_MilliValue :: int64

type_synonym ResourceList = "string \<rightharpoonup> Quantity"

definition ResourceCPU :: string where "ResourceCPU = ''cpu''"
definition ResourceMemory :: string where "ResourceMemory = ''memory''"
definition ResourceNvidiaGPU :: string where "ResourceNvidiaGPU = ''alpha.kubernetes.io/nvidia-gpu''"
definition ResourcePods :: string where "ResourcePods = ''pods''"

definition zeroQuantity :: Quantity where
  "zeroQuantity = \<lparr>q_Value = 0, q_MilliValue = 0\<rparr>"

definition ResourceList_Cpu :: "ResourceList \<Rightarrow> Quantity" where
  "ResourceList_Cpu self = map_get zeroQuantity self ResourceCPU"

definition ResourceList_Memory :: "ResourceList \<Rightarrow> Quantity" where
  "ResourceList_Memory self = map_get zeroQuantity self ResourceMemory"

definition ResourceList_Pods :: "ResourceList \<Rightarrow> Quantity" where
  "ResourceList_Pods self = map_get zeroQuantity self ResourcePods"

definition ResourceList_NvidiaGPU :: "ResourceList \<Rightarrow> Quantity" where
  "ResourceList_NvidiaGPU self = map_get zeroQuantity self ResourceNvidiaGPU"

text \<open>The fields of a volume, a container, a pod and a node that the scheduler reads.\<close>

record GCEPersistentDisk =
  gce_PDName :: string
  gce_ReadOnly :: bool

record RBD =
  rbd_CephMonitors :: "string list"
  rbd_RBDPool :: string
  rbd_RBDImage :: string

record Volume =
  vol_GCEPersistentDisk :: "GCEPersistentDisk option"
  vol_AWSElasticBlockStore :: "string option"
  vol_RBD :: "RBD option"

record Container =
  ct_Image :: string
  ct_Requests :: ResourceList
  ct_HostPorts :: "int list"

record Pod =
  pod_Name :: string
  pod_Namespace :: string
  pod_Labels :: Set
  pod_Annotations :: Set
  pod_NodeName :: string
  pod_NodeSelector :: Set
  pod_Containers :: "Container list"
  pod_InitContainers :: "Container list"
  pod_Volumes :: "Volume list"

record Node =
  node_Name :: string
  node_Labels :: Set
  node_Annotations :: Set
  node_Allocatable :: ResourceList
  node_Conditions :: "(string \<times> string) list"
  node_Images :: "(string list \<times> int64) list"

section \<open>Requests\<close>

definition DefaultMilliCpuRequest :: int64 where "DefaultMilliCpuRequest = 100"
definition DefaultMemoryRequest :: int64 where "DefaultMemoryRequest = 200 * 1024 * 1024"

definition GetNonzeroRequests :: "ResourceList \<Rightarrow> int64 \<times> int64" where
  "GetNonzeroRequests requests =
     (if requests ResourceCPU = None then DefaultMilliCpuRequest
      else q_MilliValue (ResourceList_Cpu requests),
      if requests ResourceMemory = None then DefaultMemoryRequest
      else q_Value (ResourceList_Memory requests))"

definition calculateResource :: "Pod \<Rightarrow> int64 \<times> int64 \<times> int64 \<times> int64 \<times> int64" where
  "calculateResource pod =
     foldl (\<lambda>(cpu, mem, nvidia_gpu, non0_cpu, non0_mem) c.
        let req = ct_Requests c;
            (non0_cpu_req, non0_mem_req) = GetNonzeroRequests req
        in (cpu + q_MilliValue (ResourceList_Cpu req),
            mem + q_Value (ResourceList_Memory req),
            nvidia_gpu + q_Value (ResourceList_NvidiaGPU req),
            non0_cpu + non0_cpu_req,
            non0_mem + non0_mem_req))
       (0, 0, 0, 0, 0) (pod_Containers pod)"

section \<open>NodeInfo\<close>

record Resource =
  r_MilliCPU :: int64
  r_Memory :: int64
  r_NvidiaGPU :: int64

definition emptyResource :: Resource where
  "emptyResource = \<lparr>r_MilliCPU = 0, r_Memory = 0, r_NvidiaGPU = 0\<rparr>"

record heap =
  h_cell :: "nat \<Rightarrow> Resource"
  h_next :: nat

text \<open>\<^verbatim>\<open>&Resource{}\<close>: a fresh zero cell.\<close>

definition alloc :: "heap \<Rightarrow> nat \<times> heap" where
  "alloc h = (h_next h, h\<lparr>h_cell := (h_cell h)(h_next h := emptyResource), h_next := h_next h + 1\<rparr>)"

record NodeInfo =
  ni_node :: "Node option"
  ni_requestedResource :: nat
  ni_pods :: "Pod list"
  ni_nonzeroRequest :: nat

datatype sched_error =
    KeyFuncError "Pod cache_error"
  | NotInitialButAssumed string
  | AlreadyAdded string
  | NotAddedButUpdated string
  | NotAddedButRemoved string
  | NoCorrespondingPod string string

definition getPodKey :: "Pod \<Rightarrow> (Pod cache_error, string) result" where
  "getPodKey pod = MetaNamespaceKeyFunc (\<lambda>p. Some (pod_Namespace p, pod_Name p)) (Obj pod)"

definition NodeInfo_addPod :: "Pod \<Rightarrow> NodeInfo \<Rightarrow> heap \<Rightarrow> NodeInfo \<times> heap" where
  "NodeInfo_addPod pod n h =
     (let (cpu, mem, nvidia_gpu, non0_cpu, non0_mem) = calculateResource pod;
          h = h\<lparr>h_cell := (h_cell h)(ni_requestedResource n :=
                 (let r = h_cell h (ni_requestedResource n)
                  in \<lparr>r_MilliCPU = r_MilliCPU r + cpu, r_Memory = r_Memory r + mem,
                      r_NvidiaGPU = r_NvidiaGPU r + nvidia_gpu\<rparr>))\<rparr>;
          h = h\<lparr>h_cell := (h_cell h)(ni_nonzeroRequest n :=
                 (let r = h_cell h (ni_nonzeroRequest n)
                  in r\<lparr>r_MilliCPU := r_MilliCPU r + non0_cpu, r_Memory := r_Memory r + non0_mem\<rparr>))\<rparr>
      in (n\<lparr>ni_pods := ni_pods n @ [pod]\<rparr>, h))"

definition NewNodeInfo :: "Pod list \<Rightarrow> heap \<Rightarrow> NodeInfo \<times> heap" where
  "NewNodeInfo pods h =
     (let (a, h) = alloc h;
          (b, h) = alloc h;
          ni = \<lparr>ni_node = None, ni_requestedResource = a, ni_pods = [], ni_nonzeroRequest = b\<rparr>
      in foldl (\<lambda>(ni, h) pod. NodeInfo_addPod pod ni h) (ni, h) pods)"

text \<open>The accessors work on a nil pointer too.\<close>

definition NodeInfo_Node :: "NodeInfo option \<Rightarrow> Node option" where
  "NodeInfo_Node n = (case n of None \<Rightarrow> None | Some n \<Rightarrow> ni_node n)"

definition NodeInfo_Pods :: "NodeInfo option \<Rightarrow> Pod list" where
  "NodeInfo_Pods n = (case n of None \<Rightarrow> [] | Some n \<Rightarrow> ni_pods n)"

definition RequestedResource :: "heap \<Rightarrow> NodeInfo option \<Rightarrow> Resource" where
  "RequestedResource h n = (case n of None \<Rightarrow> emptyResource | Some n \<Rightarrow> h_cell h (ni_requestedResource n))"

definition NonZeroRequest :: "heap \<Rightarrow> NodeInfo option \<Rightarrow> Resource" where
  "NonZeroRequest h n = (case n of None \<Rightarrow> emptyResource | Some n \<Rightarrow> h_cell h (ni_nonzeroRequest n))"

text \<open>\<^verbatim>\<open>&(*p)\<close> is \<^verbatim>\<open>p\<close>: Clone copies the pod list but not the totals.\<close>

definition NodeInfo_Clone :: "NodeInfo \<Rightarrow> NodeInfo" where
  "NodeInfo_Clone n =
     \<lparr>ni_node = ni_node n, ni_requestedResource = ni_requestedResource n,
      ni_pods = [] @ ni_pods n, ni_nonzeroRequest = ni_nonzeroRequest n\<rparr>"

fun pod_index :: "string \<Rightarrow> Pod list \<Rightarrow> nat option" where
  "pod_index k1 [] = None"
| "pod_index k1 (p # ps) =
     (case getPodKey p of
        Inl _ \<Rightarrow> map_option Suc (pod_index k1 ps)
      | Inr k2 \<Rightarrow> if k1 = k2 then Some 0 else map_option Suc (pod_index k1 ps))"

definition delete_swap :: "nat \<Rightarrow> 'a list \<Rightarrow> 'a list" where
  "delete_swap i xs = take (length xs - 1) (xs[i := xs ! (length xs - 1)])"

definition NodeInfo_removePod ::
  "Pod \<Rightarrow> NodeInfo \<Rightarrow> heap \<Rightarrow> (sched_error option \<times> NodeInfo \<times> heap) option" where
  "NodeInfo_removePod pod n h =
     (case getPodKey pod of
        Inl e \<Rightarrow> Some (Some (KeyFuncError e), n, h)
      | Inr k1 \<Rightarrow>
        (case pod_index k1 (ni_pods n) of
           Some i \<Rightarrow>
             (let n = n\<lparr>ni_pods := delete_swap i (ni_pods n)\<rparr>;
                  (cpu, mem, nvidia_gpu, non0_cpu, non0_mem) = calculateResource pod;
                  h = h\<lparr>h_cell := (h_cell h)(ni_requestedResource n :=
                         (let r = h_cell h (ni_requestedResource n)
                          in \<lparr>r_MilliCPU = r_MilliCPU r - cpu, r_Memory = r_Memory r - mem,
                              r_NvidiaGPU = r_NvidiaGPU r - nvidia_gpu\<rparr>))\<rparr>;
                  h = h\<lparr>h_cell := (h_cell h)(ni_nonzeroRequest n :=
                         (let r = h_cell h (ni_nonzeroRequest n)
                          in r\<lparr>r_MilliCPU := r_MilliCPU r - non0_cpu, r_Memory := r_Memory r - non0_mem\<rparr>))\<rparr>
              in Some (None, n, h))
         | None \<Rightarrow>
             (case ni_node n of
                None \<Rightarrow> None
              | Some node \<Rightarrow> Some (Some (NoCorrespondingPod (pod_Name pod) (node_Name node)), n, h))))"

definition NodeInfo_SetNode :: "Node \<Rightarrow> NodeInfo \<Rightarrow> NodeInfo" where
  "NodeInfo_SetNode node n = n\<lparr>ni_node := Some node\<rparr>"

definition NodeInfo_RemoveNode :: "Node \<Rightarrow> NodeInfo \<Rightarrow> NodeInfo" where
  "NodeInfo_RemoveNode node n = n\<lparr>ni_node := None\<rparr>"

section \<open>The cache\<close>

record podState =
  ps_pod :: Pod
  ps_deadline :: "int option"

record schedulerCache =
  sc_ttl :: int
  sc_assumedPods :: "string \<rightharpoonup> bool"
  sc_podStates :: "string \<rightharpoonup> podState"
  sc_nodes :: "string \<rightharpoonup> NodeInfo"
  sc_heap :: heap

definition newSchedulerCache :: "int \<Rightarrow> schedulerCache" where
  "newSchedulerCache ttl =
     \<lparr>sc_ttl = ttl, sc_assumedPods = Map.empty, sc_podStates = Map.empty, sc_nodes = Map.empty,
      sc_heap = \<lparr>h_cell = (\<lambda>_. emptyResource), h_next = 0\<rparr>\<rparr>"

definition GetNodeNameToInfoMap :: "schedulerCache \<Rightarrow> (string \<rightharpoonup> NodeInfo)" where
  "GetNodeNameToInfoMap cache = (\<lambda>name. map_option NodeInfo_Clone (sc_nodes cache name))"

text \<open>List visits the nodes in the order \<open>names\<close>.\<close>

definition schedulerCache_List ::
  "(string \<Rightarrow> ('f :: ord) option) \<Rightarrow> string list \<Rightarrow> Selector \<Rightarrow> schedulerCache \<Rightarrow> Pod list" where
  "schedulerCache_List pf names selector cache =
     concat (map (\<lambda>name. filter (\<lambda>pod. Selector_Matches pf selector (pod_Labels pod))
       (NodeInfo_Pods (sc_nodes cache name))) names)"

text \<open>The NodeInfo of a node, created when it is missing.\<close>

definition cache_nodeInfo :: "string \<Rightarrow> schedulerCache \<Rightarrow> NodeInfo \<times> schedulerCache" where
  "cache_nodeInfo name cache =
     (case sc_nodes cache name of
        Some n \<Rightarrow> (n, cache)
      | None \<Rightarrow>
        let (n, h) = NewNodeInfo [] (sc_heap cache)
        in (n, cache\<lparr>sc_nodes := (sc_nodes cache)(name \<mapsto> n), sc_heap := h\<rparr>))"

definition cache_addPod :: "Pod \<Rightarrow> schedulerCache \<Rightarrow> schedulerCache" where
  "cache_addPod pod cache =
     (let (n, cache) = cache_nodeInfo (pod_NodeName pod) cache;
          (n, h) = NodeInfo_addPod pod n (sc_heap cache)
      in cache\<lparr>sc_nodes := (sc_nodes cache)(pod_NodeName pod \<mapsto> n), sc_heap := h\<rparr>)"

definition cache_removePod :: "Pod \<Rightarrow> schedulerCache \<Rightarrow> (sched_error option \<times> schedulerCache) option" where
  "cache_removePod pod cache =
     (case sc_nodes cache (pod_NodeName pod) of
        None \<Rightarrow> None
      | Some n \<Rightarrow>
        (case NodeInfo_removePod pod n (sc_heap cache) of
           None \<Rightarrow> None
         | Some (Some e, n, h) \<Rightarrow> Some (Some e, cache)
         | Some (None, n, h) \<Rightarrow>
             let cache = cache\<lparr>sc_nodes := (sc_nodes cache)(pod_NodeName pod \<mapsto> n), sc_heap := h\<rparr>
             in if length (ni_pods n) = 0 \<and> ni_node n = None
                then Some (None, cache\<lparr>sc_nodes := map_delete (pod_NodeName pod) (sc_nodes cache)\<rparr>)
                else Some (None, cache)))"

definition assumePod :: "Pod \<Rightarrow> int \<Rightarrow> schedulerCache \<Rightarrow> sched_error option \<times> schedulerCache" where
  "assumePod pod now cache =
     (case getPodKey pod of
        Inl e \<Rightarrow> (Some (KeyFuncError e), cache)
      | Inr key \<Rightarrow>
        if sc_podStates cache key \<noteq> None then (Some (NotInitialButAssumed key), cache)
        else
          let cache = cache_addPod pod cache;
              dl = now + sc_ttl cache;
              ps = \<lparr>ps_pod = pod, ps_deadline = Some dl\<rparr>
          in (None, cache\<lparr>sc_podStates := (sc_podStates cache)(key \<mapsto> ps),
                          sc_assumedPods := (sc_assumedPods cache)(key \<mapsto> True)\<rparr>))"

definition AddPod :: "Pod \<Rightarrow> schedulerCache \<Rightarrow> sched_error option \<times> schedulerCache" where
  "AddPod pod cache =
     (case getPodKey pod of
        Inl e \<Rightarrow> (Some (KeyFuncError e), cache)
      | Inr key \<Rightarrow>
        (case sc_podStates cache key of
           Some ps \<Rightarrow>
             if map_get False (sc_assumedPods cache) key
             then (None, cache\<lparr>sc_assumedPods := map_delete key (sc_assumedPods cache),
                               sc_podStates := (sc_podStates cache)(key \<mapsto> ps\<lparr>ps_deadline := None\<rparr>)\<rparr>)
             else (Some (AlreadyAdded key), cache)
         | None \<Rightarrow>
             let cache = cache_addPod pod cache;
                 ps = \<lparr>ps_pod = pod, ps_deadline = None\<rparr>
             in (None, cache\<lparr>sc_podStates := (sc_podStates cache)(key \<mapsto> ps)\<rparr>)))"

definition updatePod :: "Pod \<Rightarrow> Pod \<Rightarrow> schedulerCache \<Rightarrow> (sched_error option \<times> schedulerCache) option" where
  "updatePod oldPod newPod cache =
     (case cache_removePod oldPod cache of
        None \<Rightarrow> None
      | Some (Some e, cache) \<Rightarrow> Some (Some e, cache)
      | Some (None, cache) \<Rightarrow> Some (None, cache_addPod newPod cache))"

definition UpdatePod :: "Pod \<Rightarrow> Pod \<Rightarrow> schedulerCache \<Rightarrow> (sched_error option \<times> schedulerCache) option" where
  "UpdatePod oldPod newPod cache =
     (case getPodKey oldPod of
        Inl e \<Rightarrow> Some (Some (KeyFuncError e), cache)
      | Inr key \<Rightarrow>
        if sc_podStates cache key \<noteq> None \<and> \<not> map_get False (sc_assumedPods cache) key
        then updatePod oldPod newPod cache
        else Some (Some (NotAddedButUpdated key), cache))"

definition RemovePod :: "Pod \<Rightarrow> schedulerCache \<Rightarrow> (sched_error option \<times> schedulerCache) option" where
  "RemovePod pod cache =
     (case getPodKey pod of
        Inl e \<Rightarrow> Some (Some (KeyFuncError e), cache)
      | Inr key \<Rightarrow>
        if sc_podStates cache key \<noteq> None \<and> \<not> map_get False (sc_assumedPods cache) key
        then (case cache_removePod pod cache of
                None \<Rightarrow> None
              | Some (Some e, cache) \<Rightarrow> Some (Some e, cache)
              | Some (None, cache) \<Rightarrow>
                  Some (None, cache\<lparr>sc_podStates := map_delete key (sc_podStates cache)\<rparr>))
        else Some (Some (NotAddedButRemoved key), cache))"

definition AddNode :: "Node \<Rightarrow> schedulerCache \<Rightarrow> schedulerCache" where
  "AddNode node cache =
     (let (n, cache) = cache_nodeInfo (node_Name node) cache
      in cache\<lparr>sc_nodes := (sc_nodes cache)(node_Name node \<mapsto> NodeInfo_SetNode node n)\<rparr>)"

definition UpdateNode :: "Node \<Rightarrow> Node \<Rightarrow> schedulerCache \<Rightarrow> schedulerCache" where
  "UpdateNode oldNode newNode cache =
     (let (n, cache) = cache_nodeInfo (node_Name newNode) cache
      in cache\<lparr>sc_nodes := (sc_nodes cache)(node_Name newNode \<mapsto> NodeInfo_SetNode newNode n)\<rparr>)"

definition RemoveNode :: "Node \<Rightarrow> schedulerCache \<Rightarrow> schedulerCache option" where
  "RemoveNode node cache =
     (case sc_nodes cache (node_Name node) of
        None \<Rightarrow> None
      | Some n \<Rightarrow>
        let n = NodeInfo_RemoveNode node n;
            cache = cache\<lparr>sc_nodes := (sc_nodes cache)(node_Name node \<mapsto> n)\<rparr>
        in if length (ni_pods n) = 0 \<and> ni_node n = None
           then Some (cache\<lparr>sc_nodes := map_delete (node_Name node) (sc_nodes cache)\<rparr>)
           else Some cache)"

definition expirePod :: "string \<Rightarrow> podState \<Rightarrow> schedulerCache \<Rightarrow> (sched_error option \<times> schedulerCache) option" where
  "expirePod key ps cache =
     (case cache_removePod (ps_pod ps) cache of
        None \<Rightarrow> None
      | Some (Some e, cache) \<Rightarrow> Some (Some e, cache)
      | Some (None, cache) \<Rightarrow>
          Some (None, cache\<lparr>sc_assumedPods := map_delete key (sc_assumedPods cache),
                            sc_podStates := map_delete key (sc_podStates cache)\<rparr>))"

text \<open>The loop of cleanupAssumedPods over the assumed keys; an error of expirePod is logged.\<close>

fun cleanupAssumedPods :: "string list \<Rightarrow> int \<Rightarrow> schedulerCache \<Rightarrow> schedulerCache option" where
  "cleanupAssumedPods [] now cache = Some cache"
| "cleanupAssumedPods (key # ks) now cache =
     (case sc_podStates cache key of
        None \<Rightarrow> None
      | Some ps \<Rightarrow>
        (case ps_deadline ps of
           None \<Rightarrow> None
         | Some deadline \<Rightarrow>
           if now > deadline
           then (case expirePod key ps cache of
                   None \<Rightarrow> None
                 | Some (err, cache) \<Rightarrow> cleanupAssumedPods ks now cache)
           else cleanupAssumedPods ks now cache))"

section \<open>The abstract table\<close>

text \<open>
  What the cache promises: a table of the pods that were assumed or added, each with the
  deadline of its assumption if it is still assumed, and the nodes that exist.
\<close>

record sched_spec =
  sp_pods :: "string \<rightharpoonup> (int option \<times> Pod)"
  sp_nodes :: "string \<rightharpoonup> Node"

definition pod_key :: "Pod \<Rightarrow> string" where
  "pod_key pod = (if pod_Namespace pod = [] then pod_Name pod
                  else pod_Namespace pod @ ''/'' @ pod_Name pod)"

datatype sched_call =
    CallAssume Pod int
  | CallAdd Pod
  | CallUpdate Pod Pod
  | CallRemove Pod
  | CallAddNode Node
  | CallUpdateNode Node Node
  | CallRemoveNode Node
  | CallCleanup "string list" int

fun sched_apply :: "sched_call \<Rightarrow> schedulerCache \<Rightarrow> (sched_error option \<times> schedulerCache) option" where
  "sched_apply (CallAssume pod now) c = Some (assumePod pod now c)"
| "sched_apply (CallAdd pod) c = Some (AddPod pod c)"
| "sched_apply (CallUpdate oldPod newPod) c = UpdatePod oldPod newPod c"
| "sched_apply (CallRemove pod) c = RemovePod pod c"
| "sched_apply (CallAddNode node) c = Some (None, AddNode node c)"
| "sched_apply (CallUpdateNode oldNode newNode) c = Some (None, UpdateNode oldNode newNode c)"
| "sched_apply (CallRemoveNode node) c = map_option (Pair None) (RemoveNode node c)"
| "sched_apply (CallCleanup ks now) c = map_option (Pair None) (cleanupAssumedPods ks now c)"

fun spec_apply :: "int \<Rightarrow> sched_call \<Rightarrow> sched_spec \<Rightarrow> sched_error option \<times> sched_spec" where
  "spec_apply ttl (CallAssume pod now) s =
     (case sp_pods s (pod_key pod) of
        None \<Rightarrow> (None, s\<lparr>sp_pods := (sp_pods s)(pod_key pod \<mapsto> (Some (now + ttl), pod))\<rparr>)
      | Some _ \<Rightarrow> (Some (NotInitialButAssumed (pod_key pod)), s))"
| "spec_apply ttl (CallAdd pod) s =
     (case sp_pods s (pod_key pod) of
        None \<Rightarrow> (None, s\<lparr>sp_pods := (sp_pods s)(pod_key pod \<mapsto> (None, pod))\<rparr>)
      | Some (Some _, p) \<Rightarrow> (None, s\<lparr>sp_pods := (sp_pods s)(pod_key pod \<mapsto> (None, p))\<rparr>)
      | Some (None, _) \<Rightarrow> (Some (AlreadyAdded (pod_key pod)), s))"
| "spec_apply ttl (CallUpdate oldPod newPod) s =
     (case sp_pods s (pod_key oldPod) of
        Some (None, _) \<Rightarrow> (None, s\<lparr>sp_pods := (sp_pods s)(pod_key oldPod \<mapsto> (None, newPod))\<rparr>)
      | _ \<Rightarrow> (Some (NotAddedButUpdated (pod_key oldPod)), s))"
| "spec_apply ttl (CallRemove pod) s =
     (case sp_pods s (pod_key pod) of
        Some (None, _) \<Rightarrow> (None, s\<lparr>sp_pods := (sp_pods s)(pod_key pod := None)\<rparr>)
      | _ \<Rightarrow> (Some (NotAddedButRemoved (pod_key pod)), s))"
| "spec_apply ttl (CallAddNode node) s = (None, s\<lparr>sp_nodes := (sp_nodes s)(node_Name node \<mapsto> node)\<rparr>)"
| "spec_apply ttl (CallUpdateNode oldNode newNode) s =
     (None, s\<lparr>sp_nodes := (sp_nodes s)(node_Name newNode \<mapsto> newNode)\<rparr>)"
| "spec_apply ttl (CallRemoveNode node) s = (None, s\<lparr>sp_nodes := (sp_nodes s)(node_Name node := None)\<rparr>)"
| "spec_apply ttl (CallCleanup ks now) s =
     (None, s\<lparr>sp_pods := (\<lambda>k. case sp_pods s k of
                                Some (Some deadline, p) \<Rightarrow> if now > deadline then None else sp_pods s k
                              | entry \<Rightarrow> entry)\<rparr>)"

text \<open>
  What the callers have to respect: an update or a removal names the pod as the cache knows it
  (same node, same requests), an update does not rename the pod, a node is removed only if it
  or a pod on it is known, and a clean-up visits the assumed pods in some order.
\<close>

definition agrees :: "Pod \<Rightarrow> Pod \<Rightarrow> bool" where
  "agrees p p0 \<longleftrightarrow> pod_key p = pod_key p0 \<and> pod_NodeName p = pod_NodeName p0 \<and>
     calculateResource p = calculateResource p0"

definition pods_of :: "sched_spec \<Rightarrow> (string \<rightharpoonup> Pod)" where
  "pods_of s = (\<lambda>k. map_option snd (sp_pods s k))"

definition pods_on :: "(string \<rightharpoonup> Pod) \<Rightarrow> string \<Rightarrow> Pod set" where
  "pods_on M name = {p \<in> ran M. pod_NodeName p = name}"

fun call_ok :: "sched_call \<Rightarrow> sched_spec \<Rightarrow> bool" where
  "call_ok (CallUpdate oldPod newPod) s =
     (case sp_pods s (pod_key oldPod) of
        Some (None, p) \<Rightarrow> agrees oldPod p \<and> pod_key newPod = pod_key oldPod
      | _ \<Rightarrow> True)"
| "call_ok (CallRemove pod) s =
     (case sp_pods s (pod_key pod) of Some (None, p) \<Rightarrow> agrees pod p | _ \<Rightarrow> True)"
| "call_ok (CallRemoveNode node) s =
     (sp_nodes s (node_Name node) \<noteq> None \<or> pods_on (pods_of s) (node_Name node) \<noteq> {})"
| "call_ok (CallCleanup ks now) s =
     (distinct ks \<and> set ks = {k. \<exists>d p. sp_pods s k = Some (Some d, p)})"
| "call_ok _ s = True"

fun sched_run :: "sched_call list \<Rightarrow> schedulerCache \<Rightarrow> (sched_error option list \<times> schedulerCache) option" where
  "sched_run [] c = Some ([], c)"
| "sched_run (call # calls) c =
     (case sched_apply call c of
        None \<Rightarrow> None
      | Some (e, c) \<Rightarrow> map_option (apfst (Cons e)) (sched_run calls c))"

fun spec_run :: "int \<Rightarrow> sched_call list \<Rightarrow> sched_spec \<Rightarrow> sched_error option list \<times> sched_spec" where
  "spec_run ttl [] s = ([], s)"
| "spec_run ttl (call # calls) s =
     (let (e, s) = spec_apply ttl call s in apfst (Cons e) (spec_run ttl calls s))"

fun calls_ok :: "int \<Rightarrow> sched_call list \<Rightarrow> sched_spec \<Rightarrow> bool" where
  "calls_ok ttl [] s = True"
| "calls_ok ttl (call # calls) s = (call_ok call s \<and> calls_ok ttl calls (snd (spec_apply ttl call s)))"

definition spec_empty :: sched_spec where
  "spec_empty = \<lparr>sp_pods = Map.empty, sp_nodes = Map.empty\<rparr>"

section \<open>Pod lists and their totals\<close>

lemma getPodKey_pod_key [simp]: "getPodKey pod = Inr (pod_key pod)"
  by (simp add: getPodKey_def MetaNamespaceKeyFunc_def meta_of_def pod_key_def)

lemma pod_index_None: "pod_index k ps = None \<longleftrightarrow> k \<notin> pod_key ` set ps"
  by (induction ps) auto

lemma pod_index_Some: "pod_index k ps = Some i \<Longrightarrow> i < length ps \<and> pod_key (ps ! i) = k"
  by (induction ps arbitrary: i) (auto split: if_splits)

lemma delete_swap_mset: "i < length xs \<Longrightarrow> mset xs = add_mset (xs ! i) (mset (delete_swap i xs))"
proof -
  assume i: "i < length xs"
  then obtain ys y where xs: "xs = ys @ [y]" by (cases xs rule: rev_cases) auto
  show ?thesis
  proof (cases "i < length ys")
    case True
    then show ?thesis
      by (simp add: xs delete_swap_def nth_append list_update_append mset_update)
  next
    case False
    then have "i = length ys" using i xs by simp
    then show ?thesis by (simp add: xs delete_swap_def)
  qed
qed

definition requested_total :: "Pod list \<Rightarrow> Resource" where
  "requested_total ps =
     \<lparr>r_MilliCPU = (\<Sum>p\<leftarrow>ps. fst (calculateResource p)),
      r_Memory = (\<Sum>p\<leftarrow>ps. fst (snd (calculateResource p))),
      r_NvidiaGPU = (\<Sum>p\<leftarrow>ps. fst (snd (snd (calculateResource p))))\<rparr>"

definition nonzero_total :: "Pod list \<Rightarrow> Resource" where
  "nonzero_total ps =
     \<lparr>r_MilliCPU = (\<Sum>p\<leftarrow>ps. fst (snd (snd (snd (calculateResource p))))),
      r_Memory = (\<Sum>p\<leftarrow>ps. snd (snd (snd (snd (calculateResource p))))),
      r_NvidiaGPU = 0\<rparr>"

lemma sum_list_delete_swap:
  fixes f :: "'a \<Rightarrow> 'b :: ab_group_add"
  assumes "i < length xs"
  shows "(\<Sum>x\<leftarrow>delete_swap i xs. f x) = (\<Sum>x\<leftarrow>xs. f x) - f (xs ! i)"
proof -
  have "(\<Sum>x\<leftarrow>xs. f x) = sum_mset (image_mset f (mset xs))"
    by (metis mset_map sum_mset_sum_list)
  also have "\<dots> = f (xs ! i) + (\<Sum>x\<leftarrow>delete_swap i xs. f x)"
    unfolding delete_swap_mset [OF assms] by (simp flip: mset_map add: sum_mset_sum_list)
  finally show ?thesis by simp
qed

section \<open>One node\<close>

text \<open>A NodeInfo holds exactly the pods \<open>P\<close>, the node \<open>nd\<close> and the totals of its pods.\<close>

definition info_ok :: "heap \<Rightarrow> Pod set \<Rightarrow> Node option \<Rightarrow> NodeInfo \<Rightarrow> bool" where
  "info_ok h P nd n \<longleftrightarrow>
     set (ni_pods n) = P \<and> distinct (map pod_key (ni_pods n)) \<and> ni_node n = nd \<and>
     h_cell h (ni_requestedResource n) = requested_total (ni_pods n) \<and>
     h_cell h (ni_nonzeroRequest n) = nonzero_total (ni_pods n)"

definition cells_of :: "NodeInfo \<Rightarrow> nat set" where
  "cells_of n = {ni_requestedResource n, ni_nonzeroRequest n}"

definition same_cells :: "NodeInfo \<Rightarrow> NodeInfo \<Rightarrow> bool" where
  "same_cells n n' \<longleftrightarrow> ni_requestedResource n' = ni_requestedResource n \<and>
     ni_nonzeroRequest n' = ni_nonzeroRequest n"

definition heap_frame :: "NodeInfo \<Rightarrow> heap \<Rightarrow> heap \<Rightarrow> bool" where
  "heap_frame n h h' \<longleftrightarrow> h_next h' = h_next h \<and> (\<forall>a. a \<notin> cells_of n \<longrightarrow> h_cell h' a = h_cell h a)"

lemma NodeInfo_addPod_ok:
  assumes ok: "info_ok h P nd n" and sep: "ni_requestedResource n \<noteq> ni_nonzeroRequest n"
    and new: "pod_key pod \<notin> pod_key ` P" and run: "NodeInfo_addPod pod n h = (n', h')"
  shows "info_ok h' (insert pod P) nd n' \<and> same_cells n n' \<and> heap_frame n h h'"
  using assms
  by (auto simp: NodeInfo_addPod_def info_ok_def requested_total_def nonzero_total_def
      same_cells_def heap_frame_def cells_of_def Let_def split: prod.splits)

lemma NodeInfo_removePod_ok:
  assumes ok: "info_ok h P nd n" and sep: "ni_requestedResource n \<noteq> ni_nonzeroRequest n"
    and p0: "p0 \<in> P" and eq: "pod_key pod = pod_key p0" "calculateResource pod = calculateResource p0"
  shows "\<exists>n' h'. NodeInfo_removePod pod n h = Some (None, n', h') \<and>
           info_ok h' (P - {p0}) nd n' \<and> same_cells n n' \<and> heap_frame n h h'"
proof -
  have P: "set (ni_pods n) = P" and dist: "distinct (map pod_key (ni_pods n))"
    using ok by (simp_all add: info_ok_def)
  have "pod_key pod \<in> pod_key ` set (ni_pods n)" using P p0 eq by auto
  then obtain i where ix: "pod_index (pod_key pod) (ni_pods n) = Some i"
    using pod_index_None by (metis not_None_eq)
  have i: "i < length (ni_pods n)" and ki: "pod_key (ni_pods n ! i) = pod_key pod"
    using pod_index_Some [OF ix] by simp_all
  have p0i: "ni_pods n ! i = p0"
    using dist i ki p0 P eq(1) by (metis distinct_map inj_onD nth_mem)
  have ms: "mset (ni_pods n) = add_mset p0 (mset (delete_swap i (ni_pods n)))"
    using delete_swap_mset [OF i] p0i by simp
  have ms': "mset (map pod_key (ni_pods n)) = add_mset (pod_key p0) (mset (map pod_key (delete_swap i (ni_pods n))))"
    using ms by simp
  have dist': "distinct (pod_key p0 # map pod_key (delete_swap i (ni_pods n)))"
    using dist ms' by (metis mset.simps(2) mset_eq_imp_distinct_iff)
  have set': "set (delete_swap i (ni_pods n)) = P - {p0}"
  proof -
    have "P = insert p0 (set (delete_swap i (ni_pods n)))"
      using ms P by (metis set_mset_add_mset_insert set_mset_mset)
    moreover have "p0 \<notin> set (delete_swap i (ni_pods n))" using dist' by auto
    ultimately show ?thesis by auto
  qed
  obtain cpu mem gpu cpu0 mem0 where cr: "calculateResource p0 = (cpu, mem, gpu, cpu0, mem0)"
    by (metis prod_cases5)
  show ?thesis
    using ok sep dist' set' eq(2)
    by (simp add: NodeInfo_removePod_def ix info_ok_def requested_total_def nonzero_total_def
        same_cells_def heap_frame_def cells_of_def Let_def p0i cr sum_list_delete_swap [OF i])
qed

section \<open>All nodes\<close>

definition owned :: "(string \<rightharpoonup> NodeInfo) \<Rightarrow> nat \<Rightarrow> bool" where
  "owned nodes nx \<longleftrightarrow>
     (\<forall>name n. nodes name = Some n \<longrightarrow>
        ni_requestedResource n \<noteq> ni_nonzeroRequest n \<and> cells_of n \<subseteq> {..<nx}) \<and>
     (\<forall>name name' n n'. nodes name = Some n \<and> nodes name' = Some n' \<and> name \<noteq> name' \<longrightarrow>
        cells_of n \<inter> cells_of n' = {})"

definition keyed :: "(string \<rightharpoonup> Pod) \<Rightarrow> bool" where
  "keyed M \<longleftrightarrow> (\<forall>k p. M k = Some p \<longrightarrow> pod_key p = k)"

definition nodes_ok :: "(string \<rightharpoonup> Pod) \<Rightarrow> (string \<rightharpoonup> Node) \<Rightarrow> schedulerCache \<Rightarrow> bool" where
  "nodes_ok M N c \<longleftrightarrow> keyed M \<and> owned (sc_nodes c) (h_next (sc_heap c)) \<and>
     (\<forall>name. case sc_nodes c name of
               None \<Rightarrow> pods_on M name = {} \<and> N name = None
             | Some n \<Rightarrow> info_ok (sc_heap c) (pods_on M name) (N name) n)"

definition no_idle :: "schedulerCache \<Rightarrow> bool" where
  "no_idle c \<longleftrightarrow> (\<forall>name n. sc_nodes c name = Some n \<longrightarrow> ni_pods n \<noteq> [] \<or> ni_node n \<noteq> None)"

text \<open>The part of the cache that the node operations leave alone.\<close>

definition same_states :: "schedulerCache \<Rightarrow> schedulerCache \<Rightarrow> bool" where
  "same_states c c' \<longleftrightarrow> sc_ttl c' = sc_ttl c \<and> sc_assumedPods c' = sc_assumedPods c \<and>
     sc_podStates c' = sc_podStates c"

lemma nodes_okD:
  assumes "nodes_ok M N c" and "sc_nodes c name = Some n"
  shows "info_ok (sc_heap c) (pods_on M name) (N name) n"
    and "ni_requestedResource n \<noteq> ni_nonzeroRequest n"
  using assms by (auto simp: nodes_ok_def owned_def split: option.splits)

lemma nodes_ok_None:
  assumes "nodes_ok M N c" and "sc_nodes c name = None"
  shows "pods_on M name = {}" "N name = None"
proof -
  have "case sc_nodes c name of None \<Rightarrow> pods_on M name = {} \<and> N name = None
        | Some n \<Rightarrow> info_ok (sc_heap c) (pods_on M name) (N name) n"
    using assms(1) by (simp add: nodes_ok_def)
  then show "pods_on M name = {}" "N name = None" using assms(2) by simp_all
qed

lemma nodes_okI:
  assumes "keyed M" and "owned (sc_nodes c) (h_next (sc_heap c))"
    and "\<And>x. sc_nodes c x = None \<Longrightarrow> pods_on M x = {} \<and> N x = None"
    and "\<And>x n. sc_nodes c x = Some n \<Longrightarrow> info_ok (sc_heap c) (pods_on M x) (N x) n"
  shows "nodes_ok M N c"
  using assms unfolding nodes_ok_def by (simp split: option.split)

lemma ownedI:
  assumes "\<And>x m. nodes x = Some m \<Longrightarrow> ni_requestedResource m \<noteq> ni_nonzeroRequest m \<and> cells_of m \<subseteq> {..<nx}"
    and "\<And>x y m m'. nodes x = Some m \<Longrightarrow> nodes y = Some m' \<Longrightarrow> x \<noteq> y \<Longrightarrow> cells_of m \<inter> cells_of m' = {}"
  shows "owned nodes nx"
  using assms unfolding owned_def by blast

lemma ownedD:
  assumes "owned nodes nx"
  shows "nodes x = Some m \<Longrightarrow> ni_requestedResource m \<noteq> ni_nonzeroRequest m \<and> cells_of m \<subseteq> {..<nx}"
    and "nodes x = Some m \<Longrightarrow> nodes y = Some m' \<Longrightarrow> x \<noteq> y \<Longrightarrow> cells_of m \<inter> cells_of m' = {}"
  using assms unfolding owned_def by blast+

lemma owned_replace:
  assumes own: "owned nodes nx" and n: "nodes name = Some n" and same: "same_cells n n'"
  shows "owned (nodes(name \<mapsto> n')) nx"
proof -
  have cells: "cells_of n' = cells_of n" using same by (simp add: same_cells_def cells_of_def)
  show ?thesis
  proof (rule ownedI)
    fix x m
    assume "(nodes(name \<mapsto> n')) x = Some m"
    then show "ni_requestedResource m \<noteq> ni_nonzeroRequest m \<and> cells_of m \<subseteq> {..<nx}"
      using ownedD(1) [OF own n] ownedD(1) [OF own, of x m] same cells
      by (auto simp: same_cells_def split: if_splits)
  next
    fix x y m m'
    assume "(nodes(name \<mapsto> n')) x = Some m" "(nodes(name \<mapsto> n')) y = Some m'" "x \<noteq> y"
    then show "cells_of m \<inter> cells_of m' = {}"
      using ownedD(2) [OF own, of x m y m'] ownedD(2) [OF own n, of y m'] ownedD(2) [OF own _ n, of x m] cells
      by (simp split: if_splits)
  qed
qed

lemma owned_apart:
  assumes "owned nodes nx" and "nodes name = Some n" and "nodes name' = Some n'" and "name' \<noteq> name"
  shows "ni_requestedResource n' \<notin> cells_of n" "ni_nonzeroRequest n' \<notin> cells_of n"
proof -
  have "cells_of n' \<inter> cells_of n = {}" using ownedD(2) [OF assms(1,3,2,4)] .
  then show "ni_requestedResource n' \<notin> cells_of n" "ni_nonzeroRequest n' \<notin> cells_of n"
    by (auto simp: cells_of_def)
qed

lemma nodes_ok_replace:
  assumes ok: "nodes_ok M N c" and n: "sc_nodes c name = Some n"
    and cells: "same_cells n n'" "heap_frame n (sc_heap c) h'"
    and info: "info_ok h' (pods_on M' name) (N' name) n'"
    and frame: "\<And>name'. name' \<noteq> name \<Longrightarrow> pods_on M' name' = pods_on M name' \<and> N' name' = N name'"
    and M': "keyed M'"
    and c': "sc_nodes c' = (sc_nodes c)(name \<mapsto> n')" "sc_heap c' = h'"
  shows "nodes_ok M' N' c'"
proof -
  have own: "owned (sc_nodes c) (h_next (sc_heap c))" using ok by (simp add: nodes_ok_def)
  have nx: "h_next h' = h_next (sc_heap c)" using cells(2) by (simp add: heap_frame_def)
  have "case sc_nodes c' x of None \<Rightarrow> pods_on M' x = {} \<and> N' x = None
        | Some m \<Rightarrow> info_ok (sc_heap c') (pods_on M' x) (N' x) m" for x
  proof (cases "x = name")
    case True
    then show ?thesis using info c' by simp
  next
    case False
    have old: "case sc_nodes c x of None \<Rightarrow> pods_on M x = {} \<and> N x = None
        | Some m \<Rightarrow> info_ok (sc_heap c) (pods_on M x) (N x) m"
      using ok by (simp add: nodes_ok_def)
    show ?thesis
    proof (cases "sc_nodes c x")
      case None
      then show ?thesis using old False frame [OF False] c' by simp
    next
      case (Some m)
      have "h_cell h' (ni_requestedResource m) = h_cell (sc_heap c) (ni_requestedResource m)"
        "h_cell h' (ni_nonzeroRequest m) = h_cell (sc_heap c) (ni_nonzeroRequest m)"
        using owned_apart [OF own n Some False] cells(2) by (simp_all add: heap_frame_def)
      then show ?thesis using old Some False frame [OF False] c' by (simp add: info_ok_def)
    qed
  qed
  then show ?thesis
    using M' owned_replace [OF own n cells(1)] c' nx by (simp add: nodes_ok_def)
qed

lemma NewNodeInfo_empty:
  "NewNodeInfo [] h =
     (\<lparr>ni_node = None, ni_requestedResource = h_next h, ni_pods = [], ni_nonzeroRequest = h_next h + 1\<rparr>,
      h\<lparr>h_cell := (h_cell h)(h_next h := emptyResource, h_next h + 1 := emptyResource),
        h_next := h_next h + 2\<rparr>)"
  by (simp add: NewNodeInfo_def alloc_def)

lemma owned_fresh:
  assumes own: "owned nodes nx" and free: "nodes name = None" and cells: "cells_of n = {nx, nx + 1}"
    and n: "ni_requestedResource n \<noteq> ni_nonzeroRequest n"
  shows "owned (nodes(name \<mapsto> n)) (nx + 2)"
proof (rule ownedI)
  fix x m
  assume "(nodes(name \<mapsto> n)) x = Some m"
  then show "ni_requestedResource m \<noteq> ni_nonzeroRequest m \<and> cells_of m \<subseteq> {..<nx + 2}"
    using ownedD(1) [OF own, of x m] n cells by (fastforce split: if_splits)
next
  have new: "cells_of m \<inter> cells_of n = {}" if "nodes x = Some m" for x m
    using ownedD(1) [OF own that] cells by auto
  fix x y m m'
  assume "(nodes(name \<mapsto> n)) x = Some m" "(nodes(name \<mapsto> n)) y = Some m'" "x \<noteq> y"
  then show "cells_of m \<inter> cells_of m' = {}"
    using ownedD(2) [OF own, of x m y m'] new [of x m] new [of y m'] by (auto split: if_splits)
qed

lemma nodes_ok_nodeInfo:
  assumes ok: "nodes_ok M N c" and run: "cache_nodeInfo name c = (n, c1)"
  shows "nodes_ok M N c1 \<and> sc_nodes c1 name = Some n \<and> same_states c c1 \<and>
         (\<forall>x. x \<noteq> name \<longrightarrow> sc_nodes c1 x = sc_nodes c x)"
proof (cases "sc_nodes c name")
  case (Some m)
  then show ?thesis using assms by (auto simp: cache_nodeInfo_def same_states_def)
next
  case None
  define h where "h = sc_heap c"
  define n0 where "n0 = \<lparr>ni_node = None, ni_requestedResource = h_next h, ni_pods = [], ni_nonzeroRequest = h_next h + 1\<rparr>"
  define h1 where "h1 = h\<lparr>h_cell := (h_cell h)(h_next h := emptyResource, h_next h + 1 := emptyResource), h_next := h_next h + 2\<rparr>"
  have res: "n = n0" "c1 = c\<lparr>sc_nodes := (sc_nodes c)(name \<mapsto> n0), sc_heap := h1\<rparr>"
    using run None by (auto simp: cache_nodeInfo_def NewNodeInfo_empty h_def n0_def h1_def)
  have own: "owned (sc_nodes c) (h_next h)" using ok by (simp add: nodes_ok_def h_def)
  have own1: "owned ((sc_nodes c)(name \<mapsto> n0)) (h_next h + 2)"
    by (rule owned_fresh [OF own None]) (simp_all add: n0_def cells_of_def)
  have old: "info_ok h1 P nd m" if "sc_nodes c x = Some m" "info_ok h P nd m" for x m P nd
  proof -
    have "cells_of m \<subseteq> {..<h_next h}" using own that(1) unfolding owned_def by blast
    then show ?thesis using that(2) by (auto simp: info_ok_def h1_def cells_of_def)
  qed
  have new: "info_ok h1 (pods_on M name) (N name) n0"
    using nodes_ok_None [OF ok None]
    by (simp add: info_ok_def n0_def h1_def requested_total_def nonzero_total_def emptyResource_def)
  have "case sc_nodes c1 x of None \<Rightarrow> pods_on M x = {} \<and> N x = None
        | Some m \<Rightarrow> info_ok (sc_heap c1) (pods_on M x) (N x) m" for x
    using new res nodes_ok_None [OF ok, of x] old [OF _ nodes_okD(1) [OF ok, of x, folded h_def], of x]
    by (cases "x = name"; cases "sc_nodes c x") simp_all
  moreover have "keyed M" using ok by (simp add: nodes_ok_def)
  moreover have "owned (sc_nodes c1) (h_next (sc_heap c1))" using own1 res by (simp add: h1_def)
  ultimately have "nodes_ok M N c1" unfolding nodes_ok_def by blast
  then show ?thesis using res by (simp add: same_states_def)
qed

lemma nodes_ok_drop:
  assumes ok: "nodes_ok M N c" and n: "sc_nodes c name = Some n" "ni_pods n = []" "ni_node n = None"
  shows "nodes_ok M N (c\<lparr>sc_nodes := map_delete name (sc_nodes c)\<rparr>)"
proof -
  have "pods_on M name = {}" "N name = None"
    using nodes_okD(1) [OF ok n(1)] n by (auto simp: info_ok_def)
  moreover have own: "owned (sc_nodes c) (h_next (sc_heap c))" using ok by (simp add: nodes_ok_def)
  have "owned (map_delete name (sc_nodes c)) (h_next (sc_heap c))"
    using ownedD [OF own] by (intro ownedI) (simp_all split: if_splits)
  ultimately show ?thesis
    using ok nodes_ok_None [OF ok] nodes_okD(1) [OF ok]
    by (intro nodes_okI) (auto simp: nodes_ok_def split: if_splits)
qed

section \<open>Adding and removing pods\<close>

lemma pods_on_add:
  assumes "M k = None"
  shows "pods_on (M(k \<mapsto> p)) name = (if pod_NodeName p = name then insert p (pods_on M name) else pods_on M name)"
  using assms by (auto simp: pods_on_def)

lemma pods_on_remove:
  assumes "keyed M" and "M k = Some p"
  shows "pods_on (M(k := None)) name = (if pod_NodeName p = name then pods_on M name - {p} else pods_on M name)"
proof -
  have "ran (M(k := None)) = ran M - {p}"
  proof (intro equalityI subsetI)
    fix q
    assume "q \<in> ran (M(k := None))"
    then obtain x where "x \<noteq> k" "M x = Some q" by (auto simp: ran_def split: if_splits)
    then show "q \<in> ran M - {p}" using assms unfolding keyed_def by (auto simp: ran_def)
  next
    fix q
    assume "q \<in> ran M - {p}"
    then obtain x where "M x = Some q" "q \<noteq> p" by (auto simp: ran_def)
    then have "(M(k := None)) x = Some q" using assms(2) by auto
    then show "q \<in> ran (M(k := None))" by (rule ranI)
  qed
  then show ?thesis by (auto simp: pods_on_def)
qed

lemma cache_addPod_ok:
  assumes ok: "nodes_ok M N c" and new: "M (pod_key pod) = None"
  shows "nodes_ok (M(pod_key pod \<mapsto> pod)) N (cache_addPod pod c) \<and> same_states c (cache_addPod pod c) \<and>
         (no_idle c \<longrightarrow> no_idle (cache_addPod pod c))"
proof -
  obtain n c1 where 1: "cache_nodeInfo (pod_NodeName pod) c = (n, c1)" by fastforce
  obtain n' h' where 2: "NodeInfo_addPod pod n (sc_heap c1) = (n', h')" by fastforce
  have c1: "nodes_ok M N c1" "sc_nodes c1 (pod_NodeName pod) = Some n" "same_states c c1"
    "\<forall>x. x \<noteq> pod_NodeName pod \<longrightarrow> sc_nodes c1 x = sc_nodes c x"
    using nodes_ok_nodeInfo [OF ok 1] by simp_all
  have key: "pod_key pod \<notin> pod_key ` pods_on M (pod_NodeName pod)"
    using ok new by (auto simp: nodes_ok_def keyed_def pods_on_def ran_def)
  have n': "info_ok h' (insert pod (pods_on M (pod_NodeName pod))) (N (pod_NodeName pod)) n'"
    "same_cells n n'" "heap_frame n (sc_heap c1) h'"
    using NodeInfo_addPod_ok [OF nodes_okD [OF c1(1,2)] key 2] by simp_all
  have add: "cache_addPod pod c = c1\<lparr>sc_nodes := (sc_nodes c1)(pod_NodeName pod \<mapsto> n'), sc_heap := h'\<rparr>"
    by (simp add: cache_addPod_def 1 2)
  have "nodes_ok (M(pod_key pod \<mapsto> pod)) N (cache_addPod pod c)"
    by (rule nodes_ok_replace [OF c1(1,2) n'(2,3)])
      (use ok n'(1) new in \<open>simp_all add: add pods_on_add nodes_ok_def keyed_def\<close>)
  moreover have "pod \<in> set (ni_pods n')" using n'(1) by (simp add: info_ok_def)
  ultimately show ?thesis
    using c1(3,4) by (auto simp: add same_states_def no_idle_def)
qed

lemma cache_removePod_ok:
  assumes ok: "nodes_ok M N c" and M: "M (pod_key pod) = Some p" and ag: "agrees pod p"
  shows "\<exists>c'. cache_removePod pod c = Some (None, c') \<and> nodes_ok (M(pod_key pod := None)) N c' \<and>
           same_states c c' \<and> (no_idle c \<longrightarrow> no_idle c')"
proof -
  define x where "x = pod_NodeName pod"
  have px: "pod_NodeName p = x" and pk: "pod_key pod = pod_key p"
    and res: "calculateResource pod = calculateResource p"
    using ag by (simp_all add: agrees_def x_def)
  have pin: "p \<in> pods_on M x" using M px by (auto simp: pods_on_def intro: ranI)
  then obtain n where n: "sc_nodes c x = Some n"
    using nodes_ok_None [OF ok, of x] by (cases "sc_nodes c x") auto
  obtain n' h' where run: "NodeInfo_removePod pod n (sc_heap c) = Some (None, n', h')"
    and n': "info_ok h' (pods_on M x - {p}) (N x) n'" "same_cells n n'" "heap_frame n (sc_heap c) h'"
    using NodeInfo_removePod_ok [OF nodes_okD [OF ok n] pin pk res] by blast
  define c1 where "c1 = c\<lparr>sc_nodes := (sc_nodes c)(x \<mapsto> n'), sc_heap := h'\<rparr>"
  have km: "keyed M" using ok by (simp add: nodes_ok_def)
  have c1: "nodes_ok (M(pod_key pod := None)) N c1"
    by (rule nodes_ok_replace [OF ok n n'(2,3)])
      (use n'(1) km px in \<open>simp_all add: c1_def pods_on_remove [OF km M] keyed_def\<close>)
  show ?thesis
  proof (cases "ni_pods n' = [] \<and> ni_node n' = None")
    case True
    define c2 where "c2 = c1\<lparr>sc_nodes := map_delete x (sc_nodes c1)\<rparr>"
    have "nodes_ok (M(pod_key pod := None)) N c2"
      unfolding c2_def by (rule nodes_ok_drop [OF c1, of x n']) (use True in \<open>simp_all add: c1_def\<close>)
    moreover have "cache_removePod pod c = Some (None, c2)"
      using n run True by (simp add: cache_removePod_def c2_def c1_def x_def)
    moreover have "same_states c c2 \<and> (no_idle c \<longrightarrow> no_idle c2)"
      by (auto simp: c2_def c1_def same_states_def no_idle_def split: if_splits)
    ultimately show ?thesis by blast
  next
    case False
    have "cache_removePod pod c = Some (None, c1)"
      using n run False by (auto simp: cache_removePod_def c1_def x_def)
    moreover have "same_states c c1 \<and> (no_idle c \<longrightarrow> no_idle c1)"
      using False by (auto simp: c1_def same_states_def no_idle_def split: if_splits)
    ultimately show ?thesis using c1 by blast
  qed
qed

lemma cache_setNode_ok:
  assumes ok: "nodes_ok M N c"
  shows "nodes_ok M (N(node_Name nd \<mapsto> nd)) (AddNode nd c) \<and> same_states c (AddNode nd c) \<and>
         (no_idle c \<longrightarrow> no_idle (AddNode nd c))"
proof -
  obtain n c1 where 1: "cache_nodeInfo (node_Name nd) c = (n, c1)" by fastforce
  have c1: "nodes_ok M N c1" "sc_nodes c1 (node_Name nd) = Some n" "same_states c c1"
    "\<forall>x. x \<noteq> node_Name nd \<longrightarrow> sc_nodes c1 x = sc_nodes c x"
    using nodes_ok_nodeInfo [OF ok 1] by simp_all
  have add: "AddNode nd c = c1\<lparr>sc_nodes := (sc_nodes c1)(node_Name nd \<mapsto> n\<lparr>ni_node := Some nd\<rparr>)\<rparr>"
    by (simp add: AddNode_def NodeInfo_SetNode_def 1)
  have "nodes_ok M (N(node_Name nd \<mapsto> nd)) (AddNode nd c)"
    by (rule nodes_ok_replace [OF c1(1,2), where n' = "n\<lparr>ni_node := Some nd\<rparr>" and h' = "sc_heap c1"])
      (use ok nodes_okD(1) [OF c1(1,2)] in
        \<open>simp_all add: add same_cells_def heap_frame_def info_ok_def nodes_ok_def\<close>)
  then show ?thesis
    using c1(3,4) by (auto simp: add same_states_def no_idle_def)
qed

lemma cache_removeNode_ok:
  assumes ok: "nodes_ok M N c" and known: "N (node_Name nd) \<noteq> None \<or> pods_on M (node_Name nd) \<noteq> {}"
  shows "\<exists>c'. RemoveNode nd c = Some c' \<and> nodes_ok M (N(node_Name nd := None)) c' \<and>
           same_states c c' \<and> (no_idle c \<longrightarrow> no_idle c')"
proof -
  define x where "x = node_Name nd"
  obtain n where n: "sc_nodes c x = Some n"
    using nodes_ok_None [OF ok, of x] known by (cases "sc_nodes c x") (auto simp: x_def)
  define c1 where "c1 = c\<lparr>sc_nodes := (sc_nodes c)(x \<mapsto> n\<lparr>ni_node := None\<rparr>)\<rparr>"
  have c1: "nodes_ok M (N(x := None)) c1"
    by (rule nodes_ok_replace [OF ok n, where n' = "n\<lparr>ni_node := None\<rparr>" and h' = "sc_heap c"])
      (use ok nodes_okD(1) [OF ok n] in
        \<open>simp_all add: c1_def same_cells_def heap_frame_def info_ok_def nodes_ok_def\<close>)
  show ?thesis
  proof (cases "ni_pods n = []")
    case True
    define c2 where "c2 = c1\<lparr>sc_nodes := map_delete x (sc_nodes c1)\<rparr>"
    have "nodes_ok M (N(x := None)) c2"
      unfolding c2_def
      by (rule nodes_ok_drop [OF c1, of x "n\<lparr>ni_node := None\<rparr>"]) (use True in \<open>simp_all add: c1_def\<close>)
    moreover have "RemoveNode nd c = Some c2"
      using n True by (simp add: RemoveNode_def NodeInfo_RemoveNode_def c2_def c1_def x_def)
    moreover have "same_states c c2 \<and> (no_idle c \<longrightarrow> no_idle c2)"
      by (auto simp: c2_def c1_def same_states_def no_idle_def split: if_splits)
    ultimately show ?thesis unfolding x_def by blast
  next
    case False
    have "RemoveNode nd c = Some c1"
      using n False by (simp add: RemoveNode_def NodeInfo_RemoveNode_def c1_def x_def)
    moreover have "same_states c c1 \<and> (no_idle c \<longrightarrow> no_idle c1)"
      using False by (auto simp: c1_def same_states_def no_idle_def split: if_splits)
    ultimately show ?thesis using c1 unfolding x_def by blast
  qed
qed

section \<open>The cache refines the table\<close>

fun entry_ok :: "(int option \<times> Pod) option \<Rightarrow> podState option \<Rightarrow> bool option \<Rightarrow> bool" where
  "entry_ok None ps a \<longleftrightarrow> ps = None \<and> a = None"
| "entry_ok (Some (None, p)) ps a \<longleftrightarrow> (\<exists>x. ps = Some x \<and> ps_deadline x = None) \<and> a = None"
| "entry_ok (Some (Some d, p)) ps a \<longleftrightarrow> ps = Some \<lparr>ps_pod = p, ps_deadline = Some d\<rparr> \<and> a = Some True"

definition cache_refines :: "sched_spec \<Rightarrow> schedulerCache \<Rightarrow> bool" where
  "cache_refines s c \<longleftrightarrow> nodes_ok (pods_of s) (sp_nodes s) c \<and> no_idle c \<and>
     (\<forall>k. entry_ok (sp_pods s k) (sc_podStates c k) (sc_assumedPods c k))"

lemma cache_refines_entry_ok:
  "cache_refines s c \<Longrightarrow> entry_ok (sp_pods s k) (sc_podStates c k) (sc_assumedPods c k)"
  by (simp add: cache_refines_def)

lemma cache_refines_None:
  assumes "cache_refines s c" and "sp_pods s k = None"
  shows "sc_podStates c k = None" "sc_assumedPods c k = None" "pods_of s k = None"
  using cache_refines_entry_ok [OF assms(1), of k] assms(2) by (simp_all add: pods_of_def)

lemma cache_refines_Added:
  assumes "cache_refines s c" and "sp_pods s k = Some (None, p)"
  shows "\<exists>ps. sc_podStates c k = Some ps \<and> ps_deadline ps = None" "sc_assumedPods c k = None"
    "pods_of s k = Some p"
  using cache_refines_entry_ok [OF assms(1), of k] assms(2) by (simp_all add: pods_of_def)

lemma cache_refines_Assumed:
  assumes "cache_refines s c" and "sp_pods s k = Some (Some d, p)"
  shows "sc_podStates c k = Some \<lparr>ps_pod = p, ps_deadline = Some d\<rparr>" "sc_assumedPods c k = Some True"
    "pods_of s k = Some p"
  using cache_refines_entry_ok [OF assms(1), of k] assms(2) by (simp_all add: pods_of_def)

lemma cache_refines_keyed: "cache_refines s c \<Longrightarrow> pods_of s k = Some p \<Longrightarrow> pod_key p = k"
  by (simp add: cache_refines_def nodes_ok_def keyed_def)

text \<open>One entry of the table changes, and the states of its key with it.\<close>

lemma cache_refines_entry:
  assumes "cache_refines s c" and "nodes_ok (pods_of s') (sp_nodes s') c'" and "no_idle c'"
    and "sp_pods s' = (sp_pods s)(k := e)"
    and "\<And>x. x \<noteq> k \<Longrightarrow> sc_podStates c' x = sc_podStates c x \<and> sc_assumedPods c' x = sc_assumedPods c x"
    and "entry_ok e (sc_podStates c' k) (sc_assumedPods c' k)"
  shows "cache_refines s' c'"
proof -
  have "entry_ok (sp_pods s' x) (sc_podStates c' x) (sc_assumedPods c' x)" for x
    using cache_refines_entry_ok [OF assms(1), of x] assms(4,6) assms(5) [of x] by (cases "x = k") simp_all
  then show ?thesis using assms(2,3) by (simp add: cache_refines_def)
qed

lemma nodes_ok_states:
  "nodes_ok M N (c\<lparr>sc_podStates := f, sc_assumedPods := g\<rparr>) = nodes_ok M N c"
  "nodes_ok M N (c\<lparr>sc_podStates := f\<rparr>) = nodes_ok M N c"
  "nodes_ok M N (c\<lparr>sc_assumedPods := g\<rparr>) = nodes_ok M N c"
  "no_idle (c\<lparr>sc_podStates := f\<rparr>) = no_idle c"
  "no_idle (c\<lparr>sc_assumedPods := g\<rparr>) = no_idle c"
  by (simp_all add: nodes_ok_def no_idle_def cong: option.case_cong)

lemma pods_of_upd [simp]:
  "pods_of (s\<lparr>sp_pods := (sp_pods s)(k \<mapsto> (d, p))\<rparr>) = (pods_of s)(k \<mapsto> p)"
  "pods_of (s\<lparr>sp_pods := (sp_pods s)(k := None)\<rparr>) = (pods_of s)(k := None)"
  "pods_of (s\<lparr>sp_nodes := N\<rparr>) = pods_of s"
  by (auto simp: pods_of_def)

lemmas refine_simps = nodes_ok_states same_states_def

lemma refine_assume:
  assumes R: "cache_refines s c" and ttl: "sc_ttl c = ttl"
  shows "\<exists>c'. assumePod pod now c = (fst (spec_apply ttl (CallAssume pod now) s), c') \<and>
           cache_refines (snd (spec_apply ttl (CallAssume pod now) s)) c' \<and> sc_ttl c' = ttl"
proof (cases "sp_pods s (pod_key pod)")
  case None
  note st = cache_refines_None [OF R None]
  have ok: "nodes_ok (pods_of s) (sp_nodes s) c" "no_idle c" using R by (simp_all add: cache_refines_def)
  note add = cache_addPod_ok [OF ok(1) st(3)]
  define c' where "c' = (cache_addPod pod c)
    \<lparr>sc_podStates := (sc_podStates (cache_addPod pod c))(pod_key pod \<mapsto> \<lparr>ps_pod = pod, ps_deadline = Some (now + ttl)\<rparr>),
     sc_assumedPods := (sc_assumedPods (cache_addPod pod c))(pod_key pod \<mapsto> True)\<rparr>"
  have "assumePod pod now c = (None, c')"
    using st add ttl by (simp add: assumePod_def c'_def same_states_def)
  moreover have "cache_refines (s\<lparr>sp_pods := (sp_pods s)(pod_key pod \<mapsto> (Some (now + ttl), pod))\<rparr>) c'"
    by (rule cache_refines_entry [OF R, where k = "pod_key pod" and e = "Some (Some (now + ttl), pod)"])
      (use add ok st in \<open>simp_all add: c'_def refine_simps\<close>)
  moreover have "sc_ttl c' = ttl" using add ttl by (simp add: c'_def same_states_def)
  ultimately show ?thesis using None by simp
next
  case (Some e)
  then have "sc_podStates c (pod_key pod) \<noteq> None"
    using cache_refines_entry_ok [OF R, of "pod_key pod"] by (cases e; cases "fst e") auto
  then show ?thesis using R Some ttl by (simp add: assumePod_def)
qed

lemma refine_add:
  assumes R: "cache_refines s c" and ttl: "sc_ttl c = ttl"
  shows "\<exists>c'. AddPod pod c = (fst (spec_apply ttl (CallAdd pod) s), c') \<and>
           cache_refines (snd (spec_apply ttl (CallAdd pod) s)) c' \<and> sc_ttl c' = ttl"
proof -
  have ok: "nodes_ok (pods_of s) (sp_nodes s) c" "no_idle c" using R by (simp_all add: cache_refines_def)
  consider "sp_pods s (pod_key pod) = None"
    | p where "sp_pods s (pod_key pod) = Some (None, p)"
    | d p where "sp_pods s (pod_key pod) = Some (Some d, p)"
    by (metis not_None_eq surj_pair)
  then show ?thesis
  proof cases
    case 1
    note st = cache_refines_None [OF R 1]
    note add = cache_addPod_ok [OF ok(1) st(3)]
    define c' where "c' = (cache_addPod pod c)\<lparr>sc_podStates :=
      (sc_podStates (cache_addPod pod c))(pod_key pod \<mapsto> \<lparr>ps_pod = pod, ps_deadline = None\<rparr>)\<rparr>"
    have "AddPod pod c = (None, c')" using st add by (simp add: AddPod_def c'_def Let_def)
    moreover have "cache_refines (s\<lparr>sp_pods := (sp_pods s)(pod_key pod \<mapsto> (None, pod))\<rparr>) c'"
      by (rule cache_refines_entry [OF R, where k = "pod_key pod" and e = "Some (None, pod)"])
        (use add ok st in \<open>simp_all add: c'_def refine_simps\<close>)
    moreover have "sc_ttl c' = ttl" using add ttl by (simp add: c'_def same_states_def)
    ultimately show ?thesis using 1 by simp
  next
    case 2
    then show ?thesis using R ttl cache_refines_Added [OF R 2] by (auto simp: AddPod_def)
  next
    case 3
    note st = cache_refines_Assumed [OF R 3]
    define c' where "c' = c\<lparr>sc_assumedPods := map_delete (pod_key pod) (sc_assumedPods c),
      sc_podStates := (sc_podStates c)(pod_key pod \<mapsto> \<lparr>ps_pod = p, ps_deadline = None\<rparr>)\<rparr>"
    have "AddPod pod c = (None, c')" using st by (simp add: AddPod_def c'_def)
    moreover have "cache_refines (s\<lparr>sp_pods := (sp_pods s)(pod_key pod \<mapsto> (None, p))\<rparr>) c'"
      by (rule cache_refines_entry [OF R, where k = "pod_key pod" and e = "Some (None, p)"])
        (use ok st in \<open>simp_all add: c'_def refine_simps fun_upd_idem\<close>)
    ultimately show ?thesis using 3 ttl by (simp add: c'_def)
  qed
qed

lemma refine_update:
  assumes R: "cache_refines s c" and ttl: "sc_ttl c = ttl" and ok: "call_ok (CallUpdate oldPod newPod) s"
  shows "\<exists>c'. UpdatePod oldPod newPod c = Some (fst (spec_apply ttl (CallUpdate oldPod newPod) s), c') \<and>
           cache_refines (snd (spec_apply ttl (CallUpdate oldPod newPod) s)) c' \<and> sc_ttl c' = ttl"
proof -
  consider "sp_pods s (pod_key oldPod) = None"
    | p where "sp_pods s (pod_key oldPod) = Some (None, p)"
    | d p where "sp_pods s (pod_key oldPod) = Some (Some d, p)"
    by (metis not_None_eq surj_pair)
  then show ?thesis
  proof cases
    case 1
    then show ?thesis using R ttl cache_refines_None [OF R 1] by (simp add: UpdatePod_def)
  next
    case 2
    note st = cache_refines_Added [OF R 2]
    have nk: "nodes_ok (pods_of s) (sp_nodes s) c" "no_idle c" using R by (simp_all add: cache_refines_def)
    have ag: "agrees oldPod p" and key: "pod_key newPod = pod_key oldPod" using ok 2 by simp_all
    obtain c1 where c1: "cache_removePod oldPod c = Some (None, c1)"
      "nodes_ok ((pods_of s)(pod_key oldPod := None)) (sp_nodes s) c1" "same_states c c1" "no_idle c1"
      using cache_removePod_ok [OF nk(1) st(3) ag] nk(2) by blast
    have free: "((pods_of s)(pod_key oldPod := None)) (pod_key newPod) = None" using key by simp
    note add = cache_addPod_ok [OF c1(2) free, unfolded key fun_upd_upd]
    have "UpdatePod oldPod newPod c = Some (None, cache_addPod newPod c1)"
      using st c1 by (auto simp: UpdatePod_def updatePod_def)
    moreover have "cache_refines (s\<lparr>sp_pods := (sp_pods s)(pod_key oldPod \<mapsto> (None, newPod))\<rparr>) (cache_addPod newPod c1)"
      by (rule cache_refines_entry [OF R, where k = "pod_key oldPod" and e = "Some (None, newPod)"])
        (use add c1 st key in \<open>simp_all add: refine_simps\<close>)
    moreover have "sc_ttl (cache_addPod newPod c1) = ttl" using add c1 ttl by (simp add: same_states_def)
    ultimately show ?thesis using 2 by simp
  next
    case 3
    then show ?thesis using R ttl cache_refines_Assumed [OF R 3] by (simp add: UpdatePod_def)
  qed
qed

lemma refine_remove:
  assumes R: "cache_refines s c" and ttl: "sc_ttl c = ttl" and ok: "call_ok (CallRemove pod) s"
  shows "\<exists>c'. RemovePod pod c = Some (fst (spec_apply ttl (CallRemove pod) s), c') \<and>
           cache_refines (snd (spec_apply ttl (CallRemove pod) s)) c' \<and> sc_ttl c' = ttl"
proof -
  consider "sp_pods s (pod_key pod) = None"
    | p where "sp_pods s (pod_key pod) = Some (None, p)"
    | d p where "sp_pods s (pod_key pod) = Some (Some d, p)"
    by (metis not_None_eq surj_pair)
  then show ?thesis
  proof cases
    case 1
    then show ?thesis using R ttl cache_refines_None [OF R 1] by (simp add: RemovePod_def)
  next
    case 2
    note st = cache_refines_Added [OF R 2]
    have nk: "nodes_ok (pods_of s) (sp_nodes s) c" "no_idle c" using R by (simp_all add: cache_refines_def)
    have ag: "agrees pod p" using ok 2 by simp
    obtain c1 where c1: "cache_removePod pod c = Some (None, c1)"
      "nodes_ok ((pods_of s)(pod_key pod := None)) (sp_nodes s) c1" "same_states c c1" "no_idle c1"
      using cache_removePod_ok [OF nk(1) st(3) ag] nk(2) by blast
    define c' where "c' = c1\<lparr>sc_podStates := map_delete (pod_key pod) (sc_podStates c1)\<rparr>"
    have "RemovePod pod c = Some (None, c')" using st c1 by (auto simp: RemovePod_def c'_def)
    moreover have "cache_refines (s\<lparr>sp_pods := (sp_pods s)(pod_key pod := None)\<rparr>) c'"
      by (rule cache_refines_entry [OF R, where k = "pod_key pod" and e = None])
        (use c1 st in \<open>simp_all add: c'_def refine_simps\<close>)
    moreover have "sc_ttl c' = ttl" using c1 ttl by (simp add: c'_def same_states_def)
    ultimately show ?thesis using 2 by simp
  next
    case 3
    then show ?thesis using R ttl cache_refines_Assumed [OF R 3] by (simp add: RemovePod_def)
  qed
qed

lemma cache_refines_nodes:
  assumes "cache_refines s c" and "nodes_ok (pods_of s) N c'" and "no_idle c'" and "same_states c c'"
  shows "cache_refines (s\<lparr>sp_nodes := N\<rparr>) c'"
  using assms by (simp add: cache_refines_def same_states_def)

lemma refine_add_node:
  assumes "cache_refines s c" and "sc_ttl c = ttl"
  shows "cache_refines (s\<lparr>sp_nodes := (sp_nodes s)(node_Name nd \<mapsto> nd)\<rparr>) (AddNode nd c) \<and> sc_ttl (AddNode nd c) = ttl"
  using cache_setNode_ok [of "pods_of s" "sp_nodes s" c nd] cache_refines_nodes [OF assms(1)] assms
  by (simp add: cache_refines_def same_states_def)

lemma UpdateNode_AddNode: "UpdateNode oldNode newNode c = AddNode newNode c"
  by (simp add: UpdateNode_def AddNode_def)

lemma refine_remove_node:
  assumes R: "cache_refines s c" and ttl: "sc_ttl c = ttl" and ok: "call_ok (CallRemoveNode nd) s"
  shows "\<exists>c'. RemoveNode nd c = Some c' \<and>
           cache_refines (s\<lparr>sp_nodes := (sp_nodes s)(node_Name nd := None)\<rparr>) c' \<and> sc_ttl c' = ttl"
proof -
  have nk: "nodes_ok (pods_of s) (sp_nodes s) c" "no_idle c" using R by (simp_all add: cache_refines_def)
  obtain c' where c': "RemoveNode nd c = Some c'" "nodes_ok (pods_of s) ((sp_nodes s)(node_Name nd := None)) c'"
    "same_states c c'" "no_idle c'"
    using cache_removeNode_ok [OF nk(1), of nd] ok nk(2) by auto
  then show ?thesis using cache_refines_nodes [OF R c'(2,4,3)] ttl by (auto simp: same_states_def)
qed

definition expired :: "int \<Rightarrow> string set \<Rightarrow> (string \<rightharpoonup> int option \<times> Pod) \<Rightarrow> string \<rightharpoonup> int option \<times> Pod" where
  "expired now K m = (\<lambda>k. case m k of
       Some (Some deadline, p) \<Rightarrow> if now > deadline \<and> k \<in> K then None else m k
     | entry \<Rightarrow> entry)"

definition expire :: "int \<Rightarrow> string list \<Rightarrow> sched_spec \<Rightarrow> sched_spec" where
  "expire now ks s = s\<lparr>sp_pods := expired now (set ks) (sp_pods s)\<rparr>"

lemma expire_Nil: "expire now [] s = s"
proof -
  have "expired now {} (sp_pods s) = sp_pods s"
    by (rule ext) (auto simp: expired_def split: option.splits)
  then show ?thesis by (simp add: expire_def)
qed

lemma expire_Cons_late:
  assumes "sp_pods s k = Some (Some d, p)" and "now > d"
  shows "expire now (k # ks) s = expire now ks (s\<lparr>sp_pods := (sp_pods s)(k := None)\<rparr>)"
proof -
  have "expired now (insert k K) (sp_pods s) = expired now K ((sp_pods s)(k := None))" for K
    using assms by (intro ext) (auto simp: expired_def split: option.splits)
  then show ?thesis by (simp add: expire_def)
qed

lemma expire_Cons_early:
  assumes "sp_pods s k = Some (Some d, p)" and "\<not> now > d"
  shows "expire now (k # ks) s = expire now ks s"
proof -
  have "expired now (insert k K) (sp_pods s) = expired now K (sp_pods s)" for K
    using assms by (intro ext) (auto simp: expired_def split: option.splits)
  then show ?thesis by (simp add: expire_def)
qed

lemma agrees_refl [simp]: "agrees p p"
  by (simp add: agrees_def)

lemma refine_expire:
  assumes R: "cache_refines s c" and k: "sp_pods s k = Some (Some d, p)"
  shows "\<exists>c'. expirePod k \<lparr>ps_pod = p, ps_deadline = Some d\<rparr> c = Some (None, c') \<and>
           cache_refines (s\<lparr>sp_pods := (sp_pods s)(k := None)\<rparr>) c' \<and> sc_ttl c' = sc_ttl c"
proof -
  note st = cache_refines_Assumed [OF R k]
  have pk: "pod_key p = k" using cache_refines_keyed [OF R st(3)] .
  have nk: "nodes_ok (pods_of s) (sp_nodes s) c" "no_idle c" using R by (simp_all add: cache_refines_def)
  obtain c1 where c1: "cache_removePod p c = Some (None, c1)"
    "nodes_ok ((pods_of s)(k := None)) (sp_nodes s) c1" "same_states c c1" "no_idle c1"
    using cache_removePod_ok [OF nk(1), of p p] st(3) pk nk(2) by auto
  define c' where "c' = c1\<lparr>sc_assumedPods := map_delete k (sc_assumedPods c1),
    sc_podStates := map_delete k (sc_podStates c1)\<rparr>"
  have "expirePod k \<lparr>ps_pod = p, ps_deadline = Some d\<rparr> c = Some (None, c')"
    using c1 by (simp add: expirePod_def c'_def)
  moreover have "cache_refines (s\<lparr>sp_pods := (sp_pods s)(k := None)\<rparr>) c'"
    by (rule cache_refines_entry [OF R, where k = k and e = None])
      (use c1 st in \<open>simp_all add: c'_def refine_simps\<close>)
  moreover have "sc_ttl c' = sc_ttl c" using c1 by (simp add: c'_def same_states_def)
  ultimately show ?thesis by blast
qed

lemma refine_cleanup:
  assumes "cache_refines s c" and "distinct ks" and "\<forall>k\<in>set ks. \<exists>d p. sp_pods s k = Some (Some d, p)"
  shows "\<exists>c'. cleanupAssumedPods ks now c = Some c' \<and> cache_refines (expire now ks s) c' \<and> sc_ttl c' = sc_ttl c"
  using assms
proof (induction ks arbitrary: s c)
  case Nil
  then show ?case by (simp add: expire_Nil)
next
  case (Cons k ks)
  obtain d p where k: "sp_pods s k = Some (Some d, p)" using Cons.prems(3) by auto
  note st = cache_refines_Assumed [OF Cons.prems(1) k]
  show ?case
  proof (cases "now > d")
    case True
    obtain c1 where c1: "expirePod k \<lparr>ps_pod = p, ps_deadline = Some d\<rparr> c = Some (None, c1)"
      "cache_refines (s\<lparr>sp_pods := (sp_pods s)(k := None)\<rparr>) c1" "sc_ttl c1 = sc_ttl c"
      using refine_expire [OF Cons.prems(1) k] by blast
    have "\<forall>x\<in>set ks. \<exists>d p. sp_pods (s\<lparr>sp_pods := (sp_pods s)(k := None)\<rparr>) x = Some (Some d, p)"
      using Cons.prems(2,3) by auto
    then show ?thesis
      using Cons.IH [OF c1(2)] Cons.prems(2) st c1 True by (simp add: expire_Cons_late [OF k True])
  next
    case False
    then show ?thesis
      using Cons.IH [OF Cons.prems(1)] Cons.prems st by (simp add: expire_Cons_early [OF k False])
  qed
qed

lemma expire_all:
  assumes "set ks = {k. \<exists>d p. sp_pods s k = Some (Some d, p)}"
  shows "expire now ks s = snd (spec_apply ttl (CallCleanup ks now) s)"
proof -
  have "expired now (set ks) (sp_pods s) =
      (\<lambda>k. case sp_pods s k of Some (Some deadline, p) \<Rightarrow> if now > deadline then None else sp_pods s k
           | entry \<Rightarrow> entry)"
    using assms by (intro ext) (auto simp: expired_def split: option.splits)
  then show ?thesis by (simp add: expire_def)
qed

lemma refine_call:
  assumes R: "cache_refines s c" and ttl: "sc_ttl c = ttl" and ok: "call_ok call s"
  shows "\<exists>c'. sched_apply call c = Some (fst (spec_apply ttl call s), c') \<and>
           cache_refines (snd (spec_apply ttl call s)) c' \<and> sc_ttl c' = ttl"
proof (cases call)
  case (CallAssume pod now)
  then show ?thesis using refine_assume [OF R ttl, of pod now] by simp
next
  case (CallAdd pod)
  then show ?thesis using refine_add [OF R ttl, of pod] by simp
next
  case (CallUpdate p p')
  then show ?thesis using refine_update [OF R ttl, of p p'] ok by simp
next
  case (CallRemove pod)
  then show ?thesis using refine_remove [OF R ttl, of pod] ok by simp
next
  case (CallAddNode nd)
  then show ?thesis using refine_add_node [OF R ttl] by simp
next
  case (CallUpdateNode nd nd')
  then show ?thesis using refine_add_node [OF R ttl] by (simp add: UpdateNode_AddNode)
next
  case (CallRemoveNode nd)
  then show ?thesis using refine_remove_node [OF R ttl, of nd] ok by auto
next
  case (CallCleanup ks now)
  then have ks: "distinct ks" "set ks = {k. \<exists>d p. sp_pods s k = Some (Some d, p)}" using ok by simp_all
  obtain c' where "cleanupAssumedPods ks now c = Some c'" "cache_refines (expire now ks s) c'" "sc_ttl c' = sc_ttl c"
    using refine_cleanup [OF R ks(1), of now] ks(2) by auto
  then show ?thesis using expire_all [OF ks(2), of now ttl] ttl CallCleanup by simp
qed

lemma refine_run:
  assumes "cache_refines s c" and "sc_ttl c = ttl" and "calls_ok ttl calls s"
  shows "\<exists>c'. sched_run calls c = Some (fst (spec_run ttl calls s), c') \<and>
           cache_refines (snd (spec_run ttl calls s)) c'"
  using assms
proof (induction calls arbitrary: s c)
  case Nil
  then show ?case by simp
next
  case (Cons call calls)
  obtain c1 where c1: "sched_apply call c = Some (fst (spec_apply ttl call s), c1)"
    "cache_refines (snd (spec_apply ttl call s)) c1" "sc_ttl c1 = ttl"
    using refine_call [OF Cons.prems(1,2)] Cons.prems(3) by auto
  then show ?case
    using Cons.IH [OF c1(2,3)] Cons.prems(3) by (auto simp: split_beta)
qed

lemma cache_refines_new: "cache_refines spec_empty (newSchedulerCache ttl)"
  by (simp add: cache_refines_def spec_empty_def newSchedulerCache_def nodes_ok_def keyed_def owned_def
      no_idle_def pods_of_def pods_on_def)

section \<open>Properties\<close>

lemma cache_refines_node:
  assumes R: "cache_refines s c" and n: "sc_nodes c name = Some n"
  shows "set (ni_pods n) = pods_on (pods_of s) name" "distinct (map pod_key (ni_pods n))"
    "ni_node n = sp_nodes s name" "RequestedResource (sc_heap c) (Some n) = requested_total (ni_pods n)"
    "NonZeroRequest (sc_heap c) (Some n) = nonzero_total (ni_pods n)"
  using R nodes_okD(1) [OF _ n, of "pods_of s" "sp_nodes s"]
  by (auto simp: cache_refines_def info_ok_def RequestedResource_def NonZeroRequest_def)

lemma cache_refines_known:
  assumes R: "cache_refines s c"
  shows "sc_nodes c name = None \<longleftrightarrow> sp_nodes s name = None \<and> pods_on (pods_of s) name = {}"
proof (cases "sc_nodes c name")
  case None
  then show ?thesis using R nodes_ok_None [of "pods_of s" "sp_nodes s" c name] by (simp add: cache_refines_def)
next
  case (Some n)
  have "ni_pods n \<noteq> [] \<or> ni_node n \<noteq> None" using R Some unfolding cache_refines_def no_idle_def by blast
  then show ?thesis using Some cache_refines_node [OF R Some] by auto
qed

lemma Clone_fields [simp]:
  "ni_pods (NodeInfo_Clone n) = ni_pods n" "ni_node (NodeInfo_Clone n) = ni_node n"
  "RequestedResource h (Some (NodeInfo_Clone n)) = RequestedResource h (Some n)"
  "NonZeroRequest h (Some (NodeInfo_Clone n)) = NonZeroRequest h (Some n)"
  by (simp_all add: NodeInfo_Clone_def RequestedResource_def NonZeroRequest_def)

text \<open>C8. Whatever sequence of calls the scheduler and the watches make, as long as updates and
  removals name pods the way the cache knows them and only known nodes are removed, the cache
  does not panic, it returns exactly the errors of the abstract table, and afterwards it knows
  exactly the nodes that exist or have pods; for each of them it lists exactly the pods the table
  places there, once each, and its requested and non-zero totals are the sums over these pods.\<close>

theorem scheduler_cache_refines_table:
  assumes "calls_ok ttl calls spec_empty"
  defines "s \<equiv> snd (spec_run ttl calls spec_empty)"
  shows "\<exists>c. sched_run calls (newSchedulerCache ttl) = Some (fst (spec_run ttl calls spec_empty), c) \<and>
     (\<forall>name. case GetNodeNameToInfoMap c name of
        None \<Rightarrow> sp_nodes s name = None \<and> pods_on (pods_of s) name = {}
      | Some n \<Rightarrow> (sp_nodes s name \<noteq> None \<or> pods_on (pods_of s) name \<noteq> {}) \<and>
          ni_node n = sp_nodes s name \<and> set (ni_pods n) = pods_on (pods_of s) name \<and>
          distinct (map pod_key (ni_pods n)) \<and>
          RequestedResource (sc_heap c) (Some n) = requested_total (ni_pods n) \<and>
          NonZeroRequest (sc_heap c) (Some n) = nonzero_total (ni_pods n))"
proof -
  obtain c where c: "sched_run calls (newSchedulerCache ttl) = Some (fst (spec_run ttl calls spec_empty), c)"
    and R: "cache_refines s c"
    using refine_run [OF cache_refines_new, of ttl ttl calls] assms by (auto simp: newSchedulerCache_def)
  have "case GetNodeNameToInfoMap c name of
        None \<Rightarrow> sp_nodes s name = None \<and> pods_on (pods_of s) name = {}
      | Some n \<Rightarrow> (sp_nodes s name \<noteq> None \<or> pods_on (pods_of s) name \<noteq> {}) \<and>
          ni_node n = sp_nodes s name \<and> set (ni_pods n) = pods_on (pods_of s) name \<and>
          distinct (map pod_key (ni_pods n)) \<and>
          RequestedResource (sc_heap c) (Some n) = requested_total (ni_pods n) \<and>
          NonZeroRequest (sc_heap c) (Some n) = nonzero_total (ni_pods n)" for name
    using cache_refines_known [OF R, of name] cache_refines_node [OF R, of name]
    by (cases "sc_nodes c name") (simp_all add: GetNodeNameToInfoMap_def)
  then show ?thesis using c by blast
qed

text \<open>C28. A snapshot is not one: GetNodeNameToInfoMap copies the pods of a node but shares its
  totals with the cache, so when a pod is assumed on the node afterwards the totals of the
  earlier snapshot grow by its requests while its list of pods does not.\<close>

theorem scheduler_snapshot_shares_totals:
  assumes "calls_ok ttl calls spec_empty" and "sched_run calls (newSchedulerCache ttl) = Some (es, c)"
    and "GetNodeNameToInfoMap c (pod_NodeName pod) = Some snap"
    and "sp_pods (snd (spec_run ttl calls spec_empty)) (pod_key pod) = None"
  shows "pod \<notin> set (ni_pods snap) \<and>
     RequestedResource (sc_heap c) (Some snap) = requested_total (ni_pods snap) \<and>
     RequestedResource (sc_heap (snd (assumePod pod now c))) (Some snap) = requested_total (ni_pods snap @ [pod])"
proof -
  define s where "s = snd (spec_run ttl calls spec_empty)"
  have R: "cache_refines s c"
    using refine_run [OF cache_refines_new, of ttl ttl calls] assms(1,2) by (auto simp: s_def newSchedulerCache_def)
  have free: "sp_pods s (pod_key pod) = None" using assms(4) by (simp add: s_def)
  note st = cache_refines_None [OF R free]
  obtain n where n: "sc_nodes c (pod_NodeName pod) = Some n" and snap: "snap = NodeInfo_Clone n"
    using assms(3) by (auto simp: GetNodeNameToInfoMap_def)
  have ok: "nodes_ok (pods_of s) (sp_nodes s) c" using R by (simp add: cache_refines_def)
  note node = cache_refines_node [OF R n]
  have "pod \<notin> set (ni_pods n)"
    using node(1) ok st(3) by (auto simp: pods_on_def ran_def nodes_ok_def keyed_def)
  moreover have "RequestedResource (sc_heap (snd (assumePod pod now c))) (Some n) = requested_total (ni_pods n @ [pod])"
    using st n node(4) nodes_okD(2) [OF ok n]
    by (auto simp: assumePod_def cache_addPod_def cache_nodeInfo_def NodeInfo_addPod_def RequestedResource_def
        requested_total_def Let_def split: prod.splits)
  ultimately show ?thesis using node(4) snap by simp
qed


section \<open>Witnesses\<close>

definition example_container :: "int64 \<Rightarrow> int64 \<Rightarrow> Container" where
  "example_container cpu mem = \<lparr>ct_Image = ''nginx'',
     ct_Requests = [ResourceCPU \<mapsto> \<lparr>q_Value = 1, q_MilliValue = cpu\<rparr>,
                    ResourceMemory \<mapsto> \<lparr>q_Value = mem, q_MilliValue = mem * 1000\<rparr>],
     ct_HostPorts = []\<rparr>"

definition example_pod :: "string \<Rightarrow> string \<Rightarrow> int64 \<Rightarrow> int64 \<Rightarrow> Pod" where
  "example_pod name nodeName cpu mem = \<lparr>pod_Name = name, pod_Namespace = ''ns'', pod_Labels = Map.empty,
     pod_Annotations = Map.empty, pod_NodeName = nodeName, pod_NodeSelector = Map.empty,
     pod_Containers = [example_container cpu mem], pod_InitContainers = [], pod_Volumes = []\<rparr>"

definition example_node :: "string \<Rightarrow> int64 \<Rightarrow> int64 \<Rightarrow> Node" where
  "example_node name cpu mem = \<lparr>node_Name = name, node_Labels = Map.empty, node_Annotations = Map.empty,
     node_Allocatable = [ResourceCPU \<mapsto> \<lparr>q_Value = 1, q_MilliValue = cpu\<rparr>,
                         ResourceMemory \<mapsto> \<lparr>q_Value = mem, q_MilliValue = mem * 1000\<rparr>,
                         ResourcePods \<mapsto> \<lparr>q_Value = 10, q_MilliValue = 10000\<rparr>],
     node_Conditions = [], node_Images = []\<rparr>"

definition example_calls :: "sched_call list" where
  "example_calls =
     [CallAddNode (example_node ''n1'' 1000 64),
      CallAssume (example_pod ''a'' ''n1'' 100 8) 0,
      CallAssume (example_pod ''b'' ''n1'' 200 16) 0,
      CallAdd (example_pod ''b'' ''n1'' 200 16),
      CallCleanup [''ns/a''] 31,
      CallUpdate (example_pod ''b'' ''n1'' 200 16) (example_pod ''b'' ''n1'' 300 16)]"

lemma example_pod_simps [simp]:
  "pod_key (example_pod name nodeName cpu mem) = ''ns/'' @ name"
  "pod_NodeName (example_pod name nodeName cpu mem) = nodeName"
  "node_Name (example_node name cpu mem) = name"
  by (simp_all add: example_pod_def example_node_def pod_key_def)

lemma example_calls_ok: "calls_ok 30 example_calls spec_empty"
  by (auto simp: example_calls_def spec_empty_def)

lemma example_calls_spec:
  "sp_pods (snd (spec_run 30 example_calls spec_empty)) =
     [''ns/b'' \<mapsto> (None, example_pod ''b'' ''n1'' 300 16)]"
  by (auto simp: example_calls_def spec_empty_def fun_eq_iff)

theorem scheduler_cache_refines_table_witness:
  "calls_ok 30 example_calls spec_empty \<and>
   (\<exists>c. sched_run example_calls (newSchedulerCache 30) = Some (fst (spec_run 30 example_calls spec_empty), c) \<and>
     (case GetNodeNameToInfoMap c ''n1'' of
        None \<Rightarrow> False
      | Some n \<Rightarrow> set (ni_pods n) = {example_pod ''b'' ''n1'' 300 16} \<and>
          RequestedResource (sc_heap c) (Some n) = requested_total (ni_pods n)))"
proof -
  have on: "pods_on (pods_of (snd (spec_run 30 example_calls spec_empty))) ''n1'' = {example_pod ''b'' ''n1'' 300 16}"
    by (auto simp: pods_on_def pods_of_def example_calls_spec ran_def)
  show ?thesis
    using scheduler_cache_refines_table [OF example_calls_ok] example_calls_ok on
    by (fastforce split: option.splits)
qed

theorem scheduler_snapshot_shares_totals_witness:
  "\<exists>es c snap. sched_run example_calls (newSchedulerCache 30) = Some (es, c) \<and>
     GetNodeNameToInfoMap c ''n1'' = Some snap \<and>
     RequestedResource (sc_heap (snd (assumePod (example_pod ''x'' ''n1'' 5 5) 40 c))) (Some snap) =
       requested_total (ni_pods snap @ [example_pod ''x'' ''n1'' 5 5])"
proof -
  have on: "pods_on (pods_of (snd (spec_run 30 example_calls spec_empty))) ''n1'' \<noteq> {}"
    by (auto simp: pods_on_def pods_of_def example_calls_spec ran_def)
  obtain c where c: "sched_run example_calls (newSchedulerCache 30) = Some (fst (spec_run 30 example_calls spec_empty), c)"
    and R: "cache_refines (snd (spec_run 30 example_calls spec_empty)) c"
    using refine_run [OF cache_refines_new, of 30 30 example_calls] example_calls_ok
    by (auto simp: newSchedulerCache_def)
  obtain snap where snap: "GetNodeNameToInfoMap c ''n1'' = Some snap"
    using cache_refines_known [OF R, of "''n1''"] on by (auto simp: GetNodeNameToInfoMap_def)
  have "sp_pods (snd (spec_run 30 example_calls spec_empty)) (pod_key (example_pod ''x'' ''n1'' 5 5)) = None"
    by (simp add: example_calls_spec)
  then show ?thesis
    using scheduler_snapshot_shares_totals [OF example_calls_ok c, of "example_pod ''x'' ''n1'' 5 5" snap 40] c snap
    by auto
qed


end
