(* ===== verification/Scheduler_Predicates.thy ===== *)
theory Scheduler_Predicates
  imports Scheduler_Cache
begin

text \<open>
  The fit predicates of plugin/pkg/scheduler/algorithm/predicates/predicates.go that decide from
  a pod and a NodeInfo alone, with the affinity, taint and toleration helpers of
  pkg/api/helpers.go. A predicate answers whether the pod fits and, if not, why; \<open>None\<close> is a nil
  dereference. Quantities are int64, so comparisons are on \<open>sint\<close> and sums wrap around.

  The annotations hold JSON: what \<^verbatim>\<open>json.Unmarshal\<close> makes of them is part of \<open>pred_env\<close>, next to
  \<^verbatim>\<open>strconv.ParseFloat\<close>, the unstable sort and the order in which a label map is visited.
\<close>

section \<open>Affinity, taints and tolerations\<close>

record NodeSelectorRequirement =
  nsr_Key :: string
  nsr_Operator :: string
  nsr_Values :: "string list"

text \<open>A term is its list of match expressions, a required node affinity its list of terms.\<close>

type_synonym NodeSelectorTerm = "NodeSelectorRequirement list"

record NodeAffinity =
  na_Required :: "NodeSelectorTerm list option"

record Affinity =
  aff_NodeAffinity :: "NodeAffinity option"

record Taint =
  taint_Key :: string
  taint_Value :: string
  taint_Effect :: string

record Toleration =
  tol_Key :: string
  tol_Operator :: string
  tol_Value :: string
  tol_Effect :: string

record 'f pred_env =
  pe_parseFloat :: "string \<Rightarrow> 'f option"
  pe_sort :: "Requirement list \<Rightarrow> Requirement list"
  pe_order :: "Set \<Rightarrow> string list"
  pe_affinity :: "string \<Rightarrow> Affinity option"
  pe_tolerations :: "string \<Rightarrow> Toleration list option"
  pe_taints :: "string \<Rightarrow> Taint list option"

definition AffinityAnnotationKey :: string where
  "AffinityAnnotationKey = ''scheduler.alpha.kubernetes.io/affinity''"

definition TolerationsAnnotationKey :: string where
  "TolerationsAnnotationKey = ''scheduler.alpha.kubernetes.io/tolerations''"

definition TaintsAnnotationKey :: string where
  "TaintsAnnotationKey = ''scheduler.alpha.kubernetes.io/taints''"

definition GetAffinityFromPodAnnotations :: "'f pred_env \<Rightarrow> Set \<Rightarrow> Affinity option" where
  "GetAffinityFromPodAnnotations env annotations =
     (if map_get '''' annotations AffinityAnnotationKey \<noteq> ''''
      then pe_affinity env (map_get '''' annotations AffinityAnnotationKey)
      else Some \<lparr>aff_NodeAffinity = None\<rparr>)"

definition GetTolerationsFromPodAnnotations :: "'f pred_env \<Rightarrow> Set \<Rightarrow> Toleration list option" where
  "GetTolerationsFromPodAnnotations env annotations =
     (if map_get '''' annotations TolerationsAnnotationKey \<noteq> ''''
      then pe_tolerations env (map_get '''' annotations TolerationsAnnotationKey)
      else Some [])"

definition GetTaintsFromNodeAnnotations :: "'f pred_env \<Rightarrow> Set \<Rightarrow> Taint list option" where
  "GetTaintsFromNodeAnnotations env annotations =
     (if map_get '''' annotations TaintsAnnotationKey \<noteq> ''''
      then pe_taints env (map_get '''' annotations TaintsAnnotationKey)
      else Some [])"

definition TolerationToleratesTaint :: "Toleration \<Rightarrow> Taint \<Rightarrow> bool" where
  "TolerationToleratesTaint toleration taint =
     (if length (tol_Effect toleration) \<noteq> 0 \<and> tol_Effect toleration \<noteq> taint_Effect taint then False
      else if tol_Key toleration \<noteq> taint_Key taint then False
      else if (length (tol_Operator toleration) = 0 \<or> tol_Operator toleration = ''Equal'') \<and>
              tol_Value toleration = taint_Value taint then True
      else if tol_Operator toleration = ''Exists'' then True
      else False)"

fun TaintToleratedByTolerations :: "Taint \<Rightarrow> Toleration list \<Rightarrow> bool" where
  "TaintToleratedByTolerations taint [] = False"
| "TaintToleratedByTolerations taint (toleration # tolerations) =
     (if TolerationToleratesTaint toleration taint then True
      else TaintToleratedByTolerations taint tolerations)"

definition nodeSelectorOperator :: "string \<Rightarrow> Operator option" where
  "nodeSelectorOperator op =
     (if op = ''In'' then Some InOperator
      else if op = ''NotIn'' then Some NotInOperator
      else if op = ''Exists'' then Some ExistsOperator
      else if op = ''DoesNotExist'' then Some DoesNotExistOperator
      else if op = ''Gt'' then Some GreaterThanOperator
      else if op = ''Lt'' then Some LessThanOperator
      else None)"

fun add_expressions :: "'f pred_env \<Rightarrow> NodeSelectorRequirement list \<Rightarrow> Selector \<Rightarrow> Selector option" where
  "add_expressions env [] selector = Some selector"
| "add_expressions env (expr # nsm) selector =
     (case nodeSelectorOperator (nsr_Operator expr) of
        None \<Rightarrow> None
      | Some op \<Rightarrow>
        (case NewRequirement (pe_parseFloat env) (nsr_Key expr) op (set (nsr_Values expr)) of
           Inl err \<Rightarrow> None
         | Inr r \<Rightarrow> add_expressions env nsm (Selector_Add (pe_sort env) [r] selector)))"

definition NodeSelectorRequirementsAsSelector ::
  "'f pred_env \<Rightarrow> NodeSelectorRequirement list \<Rightarrow> Selector option" where
  "NodeSelectorRequirementsAsSelector env nsm =
     (if length nsm = 0 then Some Nothing else add_expressions env nsm NewSelector)"

section \<open>Results of a predicate\<close>

datatype predicate_error =
    InsufficientResourceError string int64 int64 int64
  | PredicateFailureError string
  | NodeNotFound
  | AnnotationError

type_synonym fit_result = "(bool \<times> predicate_error option) option"

type_synonym FitPredicate = "heap \<Rightarrow> Pod \<Rightarrow> NodeInfo option \<Rightarrow> fit_result"

abbreviation fits_ok :: fit_result where "fits_ok \<equiv> Some (True, None)"

abbreviation fails_with :: "predicate_error \<Rightarrow> fit_result" where
  "fails_with e \<equiv> Some (False, Some e)"

definition ErrDiskConflict :: predicate_error where
  "ErrDiskConflict = PredicateFailureError ''NoDiskConflict''"
definition ErrNodeSelectorNotMatch :: predicate_error where
  "ErrNodeSelectorNotMatch = PredicateFailureError ''MatchNodeSelector''"
definition ErrTaintsTolerationsNotMatch :: predicate_error where
  "ErrTaintsTolerationsNotMatch = PredicateFailureError ''PodToleratesNodeTaints''"
definition ErrPodNotMatchHostName :: predicate_error where
  "ErrPodNotMatchHostName = PredicateFailureError ''HostName''"
definition ErrPodNotFitsHostPorts :: predicate_error where
  "ErrPodNotFitsHostPorts = PredicateFailureError ''PodFitsHostPorts''"
definition ErrNodeLabelPresenceViolated :: predicate_error where
  "ErrNodeLabelPresenceViolated = PredicateFailureError ''CheckNodeLabelPresence''"

section \<open>Volumes\<close>

fun haveSame :: "string list \<Rightarrow> string list \<Rightarrow> bool" where
  "haveSame [] a2 = False"
| "haveSame (val1 # a1) a2 = (if val1 \<in> set a2 then True else haveSame a1 a2)"

definition gce_conflict :: "Volume \<Rightarrow> Volume \<Rightarrow> bool" where
  "gce_conflict volume existingVolume =
     (case (vol_GCEPersistentDisk volume, vol_GCEPersistentDisk existingVolume) of
        (Some disk, Some existingDisk) \<Rightarrow>
          gce_PDName disk = gce_PDName existingDisk \<and> \<not> (gce_ReadOnly disk \<and> gce_ReadOnly existingDisk)
      | _ \<Rightarrow> False)"

definition ebs_conflict :: "Volume \<Rightarrow> Volume \<Rightarrow> bool" where
  "ebs_conflict volume existingVolume =
     (case (vol_AWSElasticBlockStore volume, vol_AWSElasticBlockStore existingVolume) of
        (Some volumeID, Some existingID) \<Rightarrow> volumeID = existingID
      | _ \<Rightarrow> False)"

definition rbd_conflict :: "Volume \<Rightarrow> Volume \<Rightarrow> bool" where
  "rbd_conflict volume existingVolume =
     (case (vol_RBD volume, vol_RBD existingVolume) of
        (Some r, Some er) \<Rightarrow>
          haveSame (rbd_CephMonitors r) (rbd_CephMonitors er) \<and> rbd_RBDPool r = rbd_RBDPool er \<and>
          rbd_RBDImage r = rbd_RBDImage er
      | _ \<Rightarrow> False)"

fun volume_conflicts :: "Volume \<Rightarrow> Volume list \<Rightarrow> bool" where
  "volume_conflicts volume [] = False"
| "volume_conflicts volume (existingVolume # vs) =
     (if gce_conflict volume existingVolume then True
      else if ebs_conflict volume existingVolume then True
      else if rbd_conflict volume existingVolume then True
      else volume_conflicts volume vs)"

definition isVolumeConflict :: "Volume \<Rightarrow> Pod \<Rightarrow> bool" where
  "isVolumeConflict volume pod =
     (if vol_GCEPersistentDisk volume = None \<and> vol_AWSElasticBlockStore volume = None \<and> vol_RBD volume = None
      then False
      else volume_conflicts volume (pod_Volumes pod))"

definition NoDiskConflict :: FitPredicate where
  "NoDiskConflict h pod nodeInfo =
     (if \<exists>v \<in> set (pod_Volumes pod). \<exists>ev \<in> set (NodeInfo_Pods nodeInfo). isVolumeConflict v ev
      then fails_with ErrDiskConflict else fits_ok)"

section \<open>Resources\<close>

record resourceRequest =
  rr_milliCPU :: int64
  rr_memory :: int64
  rr_nvidiaGPU :: int64

definition add_container :: "resourceRequest \<Rightarrow> Container \<Rightarrow> resourceRequest" where
  "add_container result container =
     (let requests = ct_Requests container
      in \<lparr>rr_milliCPU = rr_milliCPU result + q_MilliValue (ResourceList_Cpu requests),
          rr_memory = rr_memory result + q_Value (ResourceList_Memory requests),
          rr_nvidiaGPU = rr_nvidiaGPU result + q_Value (ResourceList_NvidiaGPU requests)\<rparr>)"

definition max_container :: "resourceRequest \<Rightarrow> Container \<Rightarrow> resourceRequest" where
  "max_container result container =
     (let requests = ct_Requests container;
          mem = q_Value (ResourceList_Memory requests);
          cpu = q_MilliValue (ResourceList_Cpu requests);
          result = (if sint mem > sint (rr_memory result) then result\<lparr>rr_memory := mem\<rparr> else result)
      in if sint cpu > sint (rr_milliCPU result) then result\<lparr>rr_milliCPU := cpu\<rparr> else result)"

definition getResourceRequest :: "Pod \<Rightarrow> resourceRequest" where
  "getResourceRequest pod =
     foldl max_container
       (foldl add_container \<lparr>rr_milliCPU = 0, rr_memory = 0, rr_nvidiaGPU = 0\<rparr> (pod_Containers pod))
       (pod_InitContainers pod)"

record free_check =
  fc_requested :: resourceRequest
  fc_fitting :: "Pod list"
  fc_notFittingCPU :: "Pod list"
  fc_notFittingMemory :: "Pod list"
  fc_notFittingNvidiaGPU :: "Pod list"

definition check_free :: "ResourceList \<Rightarrow> free_check \<Rightarrow> Pod \<Rightarrow> free_check" where
  "check_free allocatable s pod =
     (let totalMilliCPU = q_MilliValue (ResourceList_Cpu allocatable);
          totalMemory = q_Value (ResourceList_Memory allocatable);
          totalNvidiaGPU = q_Value (ResourceList_NvidiaGPU allocatable);
          podRequest = getResourceRequest pod;
          used = fc_requested s;
          fitsCPU = (sint (totalMilliCPU - rr_milliCPU used) \<ge> sint (rr_milliCPU podRequest));
          fitsMemory = (sint (totalMemory - rr_memory used) \<ge> sint (rr_memory podRequest));
          fitsNVidiaGPU = (sint (totalNvidiaGPU - rr_nvidiaGPU used) \<ge> sint (rr_nvidiaGPU podRequest))
      in if \<not> fitsCPU then s\<lparr>fc_notFittingCPU := fc_notFittingCPU s @ [pod]\<rparr>
         else if \<not> fitsMemory then s\<lparr>fc_notFittingMemory := fc_notFittingMemory s @ [pod]\<rparr>
         else if \<not> fitsNVidiaGPU then s\<lparr>fc_notFittingNvidiaGPU := fc_notFittingNvidiaGPU s @ [pod]\<rparr>
         else s\<lparr>fc_requested := \<lparr>rr_milliCPU = rr_milliCPU used + rr_milliCPU podRequest,
                                 rr_memory = rr_memory used + rr_memory podRequest,
                                 rr_nvidiaGPU = rr_nvidiaGPU used + rr_nvidiaGPU podRequest\<rparr>,
                fc_fitting := fc_fitting s @ [pod]\<rparr>)"

definition CheckPodsExceedingFreeResources :: "Pod list \<Rightarrow> ResourceList \<Rightarrow> free_check" where
  "CheckPodsExceedingFreeResources pods allocatable =
     foldl (check_free allocatable)
       \<lparr>fc_requested = \<lparr>rr_milliCPU = 0, rr_memory = 0, rr_nvidiaGPU = 0\<rparr>, fc_fitting = [],
        fc_notFittingCPU = [], fc_notFittingMemory = [], fc_notFittingNvidiaGPU = []\<rparr> pods"

definition PodFitsResources :: FitPredicate where
  "PodFitsResources h pod nodeInfo =
     (case NodeInfo_Node nodeInfo of
        None \<Rightarrow> fails_with NodeNotFound
      | Some node \<Rightarrow>
        let allocatable = node_Allocatable node;
            allowedPodNumber = q_Value (ResourceList_Pods allocatable);
            pods = word_of_nat (length (NodeInfo_Pods nodeInfo))
        in if sint (pods + 1) > sint allowedPodNumber
           then fails_with (InsufficientResourceError ''PodCount'' 1 pods allowedPodNumber)
           else
             let podRequest = getResourceRequest pod
             in if rr_milliCPU podRequest = 0 \<and> rr_memory podRequest = 0 \<and> rr_nvidiaGPU podRequest = 0
                then fits_ok
                else
                  let totalMilliCPU = q_MilliValue (ResourceList_Cpu allocatable);
                      totalMemory = q_Value (ResourceList_Memory allocatable);
                      totalNvidiaGPU = q_Value (ResourceList_NvidiaGPU allocatable);
                      used = RequestedResource h nodeInfo
                  in if sint totalMilliCPU < sint (rr_milliCPU podRequest + r_MilliCPU used)
                     then fails_with (InsufficientResourceError ''CPU'' (rr_milliCPU podRequest) (r_MilliCPU used) totalMilliCPU)
                     else if sint totalMemory < sint (rr_memory podRequest + r_Memory used)
                     then fails_with (InsufficientResourceError ''Memory'' (rr_memory podRequest) (r_Memory used) totalMemory)
                     else if sint totalNvidiaGPU < sint (rr_nvidiaGPU podRequest + r_NvidiaGPU used)
                     then fails_with (InsufficientResourceError ''NvidiaGpu'' (rr_nvidiaGPU podRequest) (r_NvidiaGPU used) totalNvidiaGPU)
                     else fits_ok)"

section \<open>Node labels, host name and ports\<close>

fun nodeMatchesNodeSelectorTerms :: "('f :: ord) pred_env \<Rightarrow> Node \<Rightarrow> NodeSelectorTerm list \<Rightarrow> bool" where
  "nodeMatchesNodeSelectorTerms env node [] = False"
| "nodeMatchesNodeSelectorTerms env node (req # nodeSelectorTerms) =
     (case NodeSelectorRequirementsAsSelector env req of
        None \<Rightarrow> False
      | Some nodeSelector \<Rightarrow>
          if Selector_Matches (pe_parseFloat env) nodeSelector (node_Labels node) then True
          else nodeMatchesNodeSelectorTerms env node nodeSelectorTerms)"

definition PodMatchesNodeLabels :: "('f :: ord) pred_env \<Rightarrow> Pod \<Rightarrow> Node \<Rightarrow> bool" where
  "PodMatchesNodeLabels env pod node =
     (if pod_NodeSelector pod \<noteq> Map.empty \<and>
         \<not> Selector_Matches (pe_parseFloat env)
             (SelectorFromSet (pe_parseFloat env) (pe_sort env) (pe_order env (pod_NodeSelector pod))
               (pod_NodeSelector pod)) (node_Labels node)
      then False
      else
        (case GetAffinityFromPodAnnotations env (pod_Annotations pod) of
           None \<Rightarrow> False
         | Some affinity \<Rightarrow>
           (case aff_NodeAffinity affinity of
              None \<Rightarrow> True
            | Some nodeAffinity \<Rightarrow>
              (case na_Required nodeAffinity of
                 None \<Rightarrow> True
               | Some nodeSelectorTerms \<Rightarrow> nodeMatchesNodeSelectorTerms env node nodeSelectorTerms))))"

definition PodSelectorMatches :: "('f :: ord) pred_env \<Rightarrow> FitPredicate" where
  "PodSelectorMatches env h pod nodeInfo =
     (case NodeInfo_Node nodeInfo of
        None \<Rightarrow> fails_with NodeNotFound
      | Some node \<Rightarrow>
          if PodMatchesNodeLabels env pod node then fits_ok else fails_with ErrNodeSelectorNotMatch)"

definition PodFitsHost :: FitPredicate where
  "PodFitsHost h pod nodeInfo =
     (if length (pod_NodeName pod) = 0 then fits_ok
      else
        (case NodeInfo_Node nodeInfo of
           None \<Rightarrow> fails_with NodeNotFound
         | Some node \<Rightarrow>
             if pod_NodeName pod = node_Name node then fits_ok else fails_with ErrPodNotMatchHostName))"

fun check_labels :: "string list \<Rightarrow> bool \<Rightarrow> Set \<Rightarrow> bool" where
  "check_labels [] presence nodeLabels = True"
| "check_labels (label # labels) presence nodeLabels =
     (let exists = Set_Has nodeLabels label
      in if (exists \<and> \<not> presence) \<or> (\<not> exists \<and> presence) then False
         else check_labels labels presence nodeLabels)"

definition CheckNodeLabelPresence :: "string list \<Rightarrow> bool \<Rightarrow> FitPredicate" where
  "CheckNodeLabelPresence labels presence h pod nodeInfo =
     (case NodeInfo_Node nodeInfo of
        None \<Rightarrow> fails_with NodeNotFound
      | Some node \<Rightarrow>
          if check_labels labels presence (node_Labels node) then fits_ok
          else fails_with ErrNodeLabelPresenceViolated)"

text \<open>The map of used ports holds \<^verbatim>\<open>true\<close> only, so it is its set of keys.\<close>

definition getUsedPorts :: "Pod list \<Rightarrow> int set" where
  "getUsedPorts pods =
     foldl (\<lambda>ports pod.
       foldl (\<lambda>ports container.
         foldl (\<lambda>ports hostPort. if hostPort \<noteq> 0 then insert hostPort ports else ports)
           ports (ct_HostPorts container))
         ports (pod_Containers pod))
       {} pods"

definition PodFitsHostPorts :: FitPredicate where
  "PodFitsHostPorts h pod nodeInfo =
     (let wantPorts = getUsedPorts [pod]
      in if wantPorts = {} then fits_ok
         else
           let existingPorts = getUsedPorts (NodeInfo_Pods nodeInfo)
           in if \<exists>wport \<in> wantPorts. wport \<noteq> 0 \<and> wport \<in> existingPorts
              then fails_with ErrPodNotFitsHostPorts
              else fits_ok)"

definition GeneralPredicates :: "('f :: ord) pred_env \<Rightarrow> FitPredicate" where
  "GeneralPredicates env h pod nodeInfo =
     (case PodFitsResources h pod nodeInfo of
        None \<Rightarrow> None
      | Some (fit, err) \<Rightarrow>
        if \<not> fit then Some (fit, err)
        else
          (case PodFitsHost h pod nodeInfo of
             None \<Rightarrow> None
           | Some (fit, err) \<Rightarrow>
             if \<not> fit then Some (fit, err)
             else
               (case PodFitsHostPorts h pod nodeInfo of
                  None \<Rightarrow> None
                | Some (fit, err) \<Rightarrow>
                  if \<not> fit then Some (fit, err)
                  else
                    (case PodSelectorMatches env h pod nodeInfo of
                       None \<Rightarrow> None
                     | Some (fit, err) \<Rightarrow> if \<not> fit then Some (fit, err) else fits_ok))))"

section \<open>Taints\<close>

fun all_tolerated :: "Toleration list \<Rightarrow> Taint list \<Rightarrow> bool" where
  "all_tolerated tolerations [] = True"
| "all_tolerated tolerations (taint # taints) =
     (if taint_Effect taint = ''PreferNoSchedule'' then all_tolerated tolerations taints
      else if \<not> TaintToleratedByTolerations taint tolerations then False
      else all_tolerated tolerations taints)"

definition tolerationsToleratesTaints :: "Toleration list \<Rightarrow> Taint list \<Rightarrow> bool" where
  "tolerationsToleratesTaints tolerations taints =
     (if length taints = 0 then True
      else if length tolerations = 0 then False
      else all_tolerated tolerations taints)"

definition PodToleratesNodeTaints :: "'f pred_env \<Rightarrow> FitPredicate" where
  "PodToleratesNodeTaints env h pod nodeInfo =
     (case NodeInfo_Node nodeInfo of
        None \<Rightarrow> None
      | Some node \<Rightarrow>
        (case GetTaintsFromNodeAnnotations env (node_Annotations node) of
           None \<Rightarrow> fails_with AnnotationError
         | Some taints \<Rightarrow>
           (case GetTolerationsFromPodAnnotations env (pod_Annotations pod) of
              None \<Rightarrow> fails_with AnnotationError
            | Some tolerations \<Rightarrow>
                if tolerationsToleratesTaints tolerations taints then fits_ok
                else fails_with ErrTaintsTolerationsNotMatch)))"

section \<open>Signed sums\<close>

lemma sint_add:
  fixes a b :: int64
  assumes "- (2 ^ 63) \<le> sint a + sint b" and "sint a + sint b < 2 ^ 63"
  shows "sint (a + b) = sint a + sint b"
  using assms by (simp add: sint_word_ariths signed_take_bit_int_eq_self)

lemma sint_diff:
  fixes a b :: int64
  assumes "- (2 ^ 63) \<le> sint a - sint b" and "sint a - sint b < 2 ^ 63"
  shows "sint (a - b) = sint a - sint b"
  using assms by (simp add: sint_word_ariths signed_take_bit_int_eq_self)

text \<open>A sum of words that are not negative reads as the sum of their values if that is in range.\<close>

lemma sint_sum_list:
  fixes f :: "'a \<Rightarrow> int64"
  assumes "\<And>x. x \<in> set xs \<Longrightarrow> 0 \<le> sint (f x)" and "(\<Sum>x\<leftarrow>xs. sint (f x)) < 2 ^ 63"
  shows "sint (\<Sum>x\<leftarrow>xs. f x) = (\<Sum>x\<leftarrow>xs. sint (f x))"
  using assms
proof (induction xs)
  case (Cons x xs)
  have nn: "0 \<le> (\<Sum>x\<leftarrow>xs. sint (f x))" using Cons.prems(1) by (intro sum_list_nonneg) auto
  have x: "0 \<le> sint (f x)" using Cons.prems(1) by simp
  have "sint (\<Sum>x\<leftarrow>xs. f x) = (\<Sum>x\<leftarrow>xs. sint (f x))"
  proof (rule Cons.IH)
    show "(\<Sum>x\<leftarrow>xs. sint (f x)) < 2 ^ 63" using Cons.prems(2) x by simp
  qed (simp add: Cons.prems(1))
  then show ?case using Cons.prems(2) nn x by (simp add: sint_add)
qed simp

section \<open>Lemmas on the predicates\<close>

lemma haveSame_iff: "haveSame a1 a2 \<longleftrightarrow> set a1 \<inter> set a2 \<noteq> {}"
  by (induction a1) auto

lemma volume_conflicts_iff:
  "volume_conflicts v vs \<longleftrightarrow> (\<exists>w \<in> set vs. gce_conflict v w \<or> ebs_conflict v w \<or> rbd_conflict v w)"
  by (induction vs) auto

lemma conflict_sym:
  "gce_conflict v w = gce_conflict w v" "ebs_conflict v w = ebs_conflict w v" "rbd_conflict v w = rbd_conflict w v"
  by (auto simp: gce_conflict_def ebs_conflict_def rbd_conflict_def haveSame_iff split: option.splits)

definition pods_conflict :: "Pod \<Rightarrow> Pod \<Rightarrow> bool" where
  "pods_conflict p q \<longleftrightarrow> (\<exists>v \<in> set (pod_Volumes p). \<exists>w \<in> set (pod_Volumes q).
     gce_conflict v w \<or> ebs_conflict v w \<or> rbd_conflict v w)"

lemma pods_conflict_sym: "pods_conflict p q \<longleftrightarrow> pods_conflict q p"
  unfolding pods_conflict_def by (metis conflict_sym)

lemma isVolumeConflict_iff:
  "isVolumeConflict v q \<longleftrightarrow> (\<exists>w \<in> set (pod_Volumes q). gce_conflict v w \<or> ebs_conflict v w \<or> rbd_conflict v w)"
  by (auto simp: isVolumeConflict_def volume_conflicts_iff gce_conflict_def ebs_conflict_def rbd_conflict_def)

lemma NoDiskConflict_fits:
  "NoDiskConflict h pod info = Some (fit, err) \<Longrightarrow> fit \<Longrightarrow>
   \<forall>q \<in> set (NodeInfo_Pods info). \<not> pods_conflict pod q"
  by (auto simp: NoDiskConflict_def isVolumeConflict_iff pods_conflict_def split: if_splits)

definition host_ports :: "Pod \<Rightarrow> int set" where
  "host_ports pod = (\<Union>c \<in> set (pod_Containers pod). set (ct_HostPorts c)) - {0}"

lemma foldl_ports:
  "foldl (\<lambda>ports hostPort. if hostPort \<noteq> 0 then insert hostPort ports else ports) S xs = S \<union> (set xs - {0})"
  by (induction xs arbitrary: S) auto

lemma foldl_Un: "foldl (\<lambda>S x. S \<union> f x) S xs = S \<union> (\<Union>x \<in> set xs. f x)"
  by (induction xs arbitrary: S) auto

lemma getUsedPorts_eq: "getUsedPorts pods = (\<Union>p \<in> set pods. host_ports p)"
  by (auto simp: getUsedPorts_def foldl_ports foldl_Un host_ports_def)

lemma PodFitsHostPorts_iff:
  "PodFitsHostPorts h pod info =
     (if host_ports pod \<inter> (\<Union>q \<in> set (NodeInfo_Pods info). host_ports q) = {} then fits_ok
      else fails_with ErrPodNotFitsHostPorts)"
proof -
  have "0 \<notin> host_ports q" for q by (simp add: host_ports_def)
  then show ?thesis by (auto simp: PodFitsHostPorts_def getUsedPorts_eq Let_def)
qed

text \<open>The containers' part of the request is what the cache accounts for the pod.\<close>

lemma calculateResource_foldl:
  "foldl (\<lambda>(cpu, mem, nvidia_gpu, non0_cpu, non0_mem) c.
        let req = ct_Requests c;
            (non0_cpu_req, non0_mem_req) = GetNonzeroRequests req
        in (cpu + q_MilliValue (ResourceList_Cpu req),
            mem + q_Value (ResourceList_Memory req),
            nvidia_gpu + q_Value (ResourceList_NvidiaGPU req),
            non0_cpu + non0_cpu_req,
            non0_mem + non0_mem_req)) (a, b, c, d, e) cs = (a', b', c', d', e') \<Longrightarrow>
   foldl add_container \<lparr>rr_milliCPU = a, rr_memory = b, rr_nvidiaGPU = c\<rparr> cs =
     \<lparr>rr_milliCPU = a', rr_memory = b', rr_nvidiaGPU = c'\<rparr>"
  by (induction cs arbitrary: a b c d e) (auto simp: add_container_def Let_def split: prod.splits)

definition container_request :: "Pod \<Rightarrow> resourceRequest" where
  "container_request pod = foldl add_container \<lparr>rr_milliCPU = 0, rr_memory = 0, rr_nvidiaGPU = 0\<rparr> (pod_Containers pod)"

lemma calculateResource_request:
  "fst (calculateResource pod) = rr_milliCPU (container_request pod)"
  "fst (snd (calculateResource pod)) = rr_memory (container_request pod)"
  "fst (snd (snd (calculateResource pod))) = rr_nvidiaGPU (container_request pod)"
proof -
  obtain a b c d e where cr: "calculateResource pod = (a, b, c, d, e)" by (metis prod_cases5)
  then have "container_request pod = \<lparr>rr_milliCPU = a, rr_memory = b, rr_nvidiaGPU = c\<rparr>"
    unfolding container_request_def calculateResource_def by (rule calculateResource_foldl)
  with cr show "fst (calculateResource pod) = rr_milliCPU (container_request pod)"
    "fst (snd (calculateResource pod)) = rr_memory (container_request pod)"
    "fst (snd (snd (calculateResource pod))) = rr_nvidiaGPU (container_request pod)" by simp_all
qed

lemma foldl_max_container:
  "sint (rr_milliCPU r) \<le> sint (rr_milliCPU (foldl max_container r cs)) \<and>
   sint (rr_memory r) \<le> sint (rr_memory (foldl max_container r cs)) \<and>
   rr_nvidiaGPU (foldl max_container r cs) = rr_nvidiaGPU r"
proof (induction cs arbitrary: r)
  case (Cons c cs)
  have "sint (rr_milliCPU r) \<le> sint (rr_milliCPU (max_container r c)) \<and>
    sint (rr_memory r) \<le> sint (rr_memory (max_container r c)) \<and> rr_nvidiaGPU (max_container r c) = rr_nvidiaGPU r"
    by (simp add: max_container_def Let_def)
  with Cons.IH [of "max_container r c"] show ?case by (auto intro: order.trans)
qed simp

lemma getResourceRequest_ge:
  "sint (rr_milliCPU (container_request pod)) \<le> sint (rr_milliCPU (getResourceRequest pod))"
  "sint (rr_memory (container_request pod)) \<le> sint (rr_memory (getResourceRequest pod))"
  "rr_nvidiaGPU (getResourceRequest pod) = rr_nvidiaGPU (container_request pod)"
  using foldl_max_container [of "container_request pod" "pod_InitContainers pod"]
  by (simp_all add: getResourceRequest_def container_request_def)

lemma PodFitsResources_fits:
  assumes "PodFitsResources h pod info = Some (fit, err)" and "fit"
  obtains node where "NodeInfo_Node info = Some node"
    and "sint (word_of_nat (length (NodeInfo_Pods info)) + 1 :: int64) \<le> sint (q_Value (ResourceList_Pods (node_Allocatable node)))"
    and "(rr_milliCPU (getResourceRequest pod) = 0 \<and> rr_memory (getResourceRequest pod) = 0 \<and>
          rr_nvidiaGPU (getResourceRequest pod) = 0) \<or>
         (sint (rr_milliCPU (getResourceRequest pod) + r_MilliCPU (RequestedResource h info)) \<le>
            sint (q_MilliValue (ResourceList_Cpu (node_Allocatable node))) \<and>
          sint (rr_memory (getResourceRequest pod) + r_Memory (RequestedResource h info)) \<le>
            sint (q_Value (ResourceList_Memory (node_Allocatable node))) \<and>
          sint (rr_nvidiaGPU (getResourceRequest pod) + r_NvidiaGPU (RequestedResource h info)) \<le>
            sint (q_Value (ResourceList_NvidiaGPU (node_Allocatable node))))"
proof (cases "NodeInfo_Node info")
  case None
  then show ?thesis using assms by (simp add: PodFitsResources_def)
next
  case (Some node)
  show ?thesis
    by (rule that [OF Some])
      (use assms Some in \<open>auto simp: PodFitsResources_def Let_def split: if_splits\<close>)
qed

lemma GeneralPredicates_fits:
  assumes "GeneralPredicates env h pod info = Some (fit, err)" and "fit"
  shows "\<exists>err. PodFitsResources h pod info = Some (True, err)" "PodFitsHostPorts h pod info = fits_ok"
    "\<exists>err. PodSelectorMatches env h pod info = Some (True, err)"
  using assms
  by (auto simp: GeneralPredicates_def PodFitsHostPorts_iff split: option.splits prod.splits if_splits)

lemma TaintToleratedByTolerations_iff:
  "TaintToleratedByTolerations taint ts \<longleftrightarrow> (\<exists>t \<in> set ts. TolerationToleratesTaint t taint)"
  by (induction ts) auto

lemma all_tolerated_iff:
  "all_tolerated ts taints \<longleftrightarrow>
     (\<forall>taint \<in> set taints. taint_Effect taint = ''PreferNoSchedule'' \<or> (\<exists>t \<in> set ts. TolerationToleratesTaint t taint))"
  by (induction taints) (auto simp: TaintToleratedByTolerations_iff)

section \<open>Properties\<close>

definition within :: "resourceRequest \<Rightarrow> Resource \<Rightarrow> ResourceList \<Rightarrow> bool" where
  "within r used allocatable \<longleftrightarrow>
     sint (rr_milliCPU r) + sint (r_MilliCPU used) \<le> sint (q_MilliValue (ResourceList_Cpu allocatable)) \<and>
     sint (rr_memory r) + sint (r_Memory used) \<le> sint (q_Value (ResourceList_Memory allocatable)) \<and>
     sint (rr_nvidiaGPU r) + sint (r_NvidiaGPU used) \<le> sint (q_Value (ResourceList_NvidiaGPU allocatable))"

text \<open>No int64 sum of the predicate leaves the range of int64.\<close>

definition in_range :: "resourceRequest \<Rightarrow> Resource \<Rightarrow> bool" where
  "in_range r used \<longleftrightarrow>
     0 \<le> sint (rr_milliCPU r) \<and> 0 \<le> sint (r_MilliCPU used) \<and> sint (rr_milliCPU r) + sint (r_MilliCPU used) < 2 ^ 63 \<and>
     0 \<le> sint (rr_memory r) \<and> 0 \<le> sint (r_Memory used) \<and> sint (rr_memory r) + sint (r_Memory used) < 2 ^ 63 \<and>
     0 \<le> sint (rr_nvidiaGPU r) \<and> 0 \<le> sint (r_NvidiaGPU used) \<and>
     sint (rr_nvidiaGPU r) + sint (r_NvidiaGPU used) < 2 ^ 63"

lemma in_range_sums:
  assumes "in_range r used"
  shows "sint (rr_milliCPU r + r_MilliCPU used) = sint (rr_milliCPU r) + sint (r_MilliCPU used)"
    "sint (rr_memory r + r_Memory used) = sint (rr_memory r) + sint (r_Memory used)"
    "sint (rr_nvidiaGPU r + r_NvidiaGPU used) = sint (rr_nvidiaGPU r) + sint (r_NvidiaGPU used)"
  using assms by (auto simp: in_range_def intro!: sint_add)

lemma sint_of_length:
  assumes "length xs < 2 ^ 62"
  shows "sint (word_of_nat (length xs) + 1 :: int64) = int (length xs) + 1"
proof -
  have l: "sint (word_of_nat (length xs) :: int64) = int (length xs)"
    using assms by (simp add: signed_of_nat signed_take_bit_int_eq_self)
  show ?thesis using assms by (subst sint_add) (simp_all add: l)
qed

text \<open>C19. As long as no int64 sum overflows, PodFitsResources accepts a pod exactly if the node is
  known, one more pod is allowed, and either the pod requests nothing at all or its requests
  (the sum over its containers, or a larger init container) and what the pods of the node
  request fit together into what the node can allocate, for CPU, memory and GPUs.\<close>

theorem pod_fits_resources_iff:
  assumes "in_range (getResourceRequest pod) (RequestedResource h info)"
    and "length (NodeInfo_Pods info) < 2 ^ 62"
  shows "PodFitsResources h pod info = fits_ok \<longleftrightarrow>
     (\<exists>node. NodeInfo_Node info = Some node \<and>
        int (length (NodeInfo_Pods info)) + 1 \<le> sint (q_Value (ResourceList_Pods (node_Allocatable node))) \<and>
        (getResourceRequest pod = \<lparr>rr_milliCPU = 0, rr_memory = 0, rr_nvidiaGPU = 0\<rparr> \<or>
         within (getResourceRequest pod) (RequestedResource h info) (node_Allocatable node)))"
proof (cases "NodeInfo_Node info")
  case None
  then show ?thesis by (simp add: PodFitsResources_def)
next
  case (Some node)
  have zero: "getResourceRequest pod = \<lparr>rr_milliCPU = 0, rr_memory = 0, rr_nvidiaGPU = 0\<rparr> \<longleftrightarrow>
      rr_milliCPU (getResourceRequest pod) = 0 \<and> rr_memory (getResourceRequest pod) = 0 \<and>
      rr_nvidiaGPU (getResourceRequest pod) = 0"
    by (cases "getResourceRequest pod") simp
  show ?thesis
    unfolding zero
    by (auto simp: PodFitsResources_def Some Let_def within_def in_range_sums [OF assms(1)]
        sint_of_length [OF assms(2)])
qed

text \<open>C2. Without that assumption the check is wrong: on a node with 64 bytes of memory that
  already runs a pod of one byte, a pod that requests the largest int64 number of bytes fits,
  because the sum wraps around to a negative number.\<close>

definition example_info :: "Node \<Rightarrow> Pod list \<Rightarrow> heap \<Rightarrow> NodeInfo \<times> heap" where
  "example_info node pods h = (let (n, h) = NewNodeInfo pods h in (NodeInfo_SetNode node n, h))"

theorem pod_fits_resources_overflow:
  "let (n, h) = example_info (example_node ''n1'' 1000 64) [example_pod ''a'' ''n1'' 1 1]
                  \<lparr>h_cell = (\<lambda>_. emptyResource), h_next = 0\<rparr>;
       pod = example_pod ''big'' '''' 1 (2 ^ 63 - 1)
   in sint (rr_memory (getResourceRequest pod)) = 2 ^ 63 - 1 \<and>
      sint (q_Value (ResourceList_Memory (node_Allocatable (example_node ''n1'' 1000 64)))) = 64 \<and>
      PodFitsResources h pod (Some n) = fits_ok"
  by (simp add: example_info_def NewNodeInfo_def alloc_def NodeInfo_addPod_def NodeInfo_SetNode_def
      example_node_def example_pod_def example_container_def calculateResource_def GetNonzeroRequests_def
      PodFitsResources_def getResourceRequest_def add_container_def NodeInfo_Node_def NodeInfo_Pods_def
      RequestedResource_def emptyResource_def ResourceList_Cpu_def ResourceList_Memory_def
      ResourceList_NvidiaGPU_def ResourceList_Pods_def ResourceCPU_def ResourceMemory_def
      ResourceNvidiaGPU_def ResourcePods_def zeroQuantity_def)

section \<open>Checking a list of pods against free resources\<close>

definition requests_nonneg :: "Pod \<Rightarrow> bool" where
  "requests_nonneg p \<longleftrightarrow> 0 \<le> sint (rr_milliCPU (getResourceRequest p)) \<and>
     0 \<le> sint (rr_memory (getResourceRequest p)) \<and> 0 \<le> sint (rr_nvidiaGPU (getResourceRequest p))"

definition alloc_nonneg :: "ResourceList \<Rightarrow> bool" where
  "alloc_nonneg a \<longleftrightarrow> 0 \<le> sint (q_MilliValue (ResourceList_Cpu a)) \<and>
     0 \<le> sint (q_Value (ResourceList_Memory a)) \<and> 0 \<le> sint (q_Value (ResourceList_NvidiaGPU a))"

text \<open>One resource: \<open>used\<close> stands for the sum \<open>n\<close> of what was accepted so far out of \<open>cap\<close>.\<close>

definition tally :: "int64 \<Rightarrow> int \<Rightarrow> int64 \<Rightarrow> bool" where
  "tally used n cap \<longleftrightarrow> sint used = n \<and> 0 \<le> n \<and> n \<le> sint cap"

lemma tally_fits:
  assumes "tally used n cap" and "0 \<le> sint req"
  shows "sint (cap - used) \<ge> sint req \<longleftrightarrow> n + sint req \<le> sint cap"
    and "n + sint req \<le> sint cap \<Longrightarrow> tally (used + req) (n + sint req) cap"
proof -
  have b: "sint cap < 2 ^ 63" using sint_lt [of cap] by simp
  have d: "sint (cap - used) = sint cap - sint used"
    using assms b by (intro sint_diff) (auto simp: tally_def)
  show "sint (cap - used) \<ge> sint req \<longleftrightarrow> n + sint req \<le> sint cap"
    using assms by (auto simp: d tally_def)
  show "tally (used + req) (n + sint req) cap" if "n + sint req \<le> sint cap"
    using assms that b by (simp add: tally_def sint_add)
qed

definition free_inv :: "ResourceList \<Rightarrow> Pod list \<Rightarrow> free_check \<Rightarrow> bool" where
  "free_inv a seen s \<longleftrightarrow>
     tally (rr_milliCPU (fc_requested s)) (\<Sum>p\<leftarrow>fc_fitting s. sint (rr_milliCPU (getResourceRequest p)))
       (q_MilliValue (ResourceList_Cpu a)) \<and>
     tally (rr_memory (fc_requested s)) (\<Sum>p\<leftarrow>fc_fitting s. sint (rr_memory (getResourceRequest p)))
       (q_Value (ResourceList_Memory a)) \<and>
     tally (rr_nvidiaGPU (fc_requested s)) (\<Sum>p\<leftarrow>fc_fitting s. sint (rr_nvidiaGPU (getResourceRequest p)))
       (q_Value (ResourceList_NvidiaGPU a)) \<and>
     mset seen = mset (fc_fitting s) + mset (fc_notFittingCPU s) + mset (fc_notFittingMemory s) +
       mset (fc_notFittingNvidiaGPU s)"

lemma free_inv_step:
  assumes inv: "free_inv a seen s" and p: "requests_nonneg p"
  shows "free_inv a (seen @ [p]) (check_free a s p)"
proof -
  define r where "r = getResourceRequest p"
  have r: "0 \<le> sint (rr_milliCPU r)" "0 \<le> sint (rr_memory r)" "0 \<le> sint (rr_nvidiaGPU r)"
    using p by (simp_all add: requests_nonneg_def r_def)
  note t = inv [unfolded free_inv_def]
  note cpu = tally_fits [OF conjunct1 [OF t] r(1)]
    and mem = tally_fits [OF conjunct1 [OF conjunct2 [OF t]] r(2)]
    and gpu = tally_fits [OF conjunct1 [OF conjunct2 [OF conjunct2 [OF t]]] r(3)]
  show ?thesis
    using t cpu mem gpu by (auto simp: free_inv_def check_free_def Let_def r_def [symmetric] not_le)
qed

lemma free_inv_foldl:
  assumes "free_inv a seen s" and "\<forall>p \<in> set ps. requests_nonneg p"
  shows "free_inv a (seen @ ps) (foldl (check_free a) s ps)"
  using assms
proof (induction ps arbitrary: seen s)
  case (Cons p ps)
  have "free_inv a (seen @ [p]) (check_free a s p)" using free_inv_step [OF Cons.prems(1)] Cons.prems(2) by simp
  from Cons.IH [OF this] Cons.prems(2) show ?case by simp
qed simp


section \<open>Taints and affinity terms\<close>

text \<open>C35. A pod is kept off a node by its taints exactly if the node has a taint and the pod
  either tolerates nothing at all or does not tolerate a taint that is not merely preferred: a
  pod without tolerations is refused even by taints that are only a preference.\<close>

theorem taints_keep_pods_off:
  assumes "GetTaintsFromNodeAnnotations env (node_Annotations node) = Some taints"
    and "GetTolerationsFromPodAnnotations env (pod_Annotations pod) = Some tolerations"
    and "NodeInfo_Node info = Some node"
  shows "PodToleratesNodeTaints env h pod info = fails_with ErrTaintsTolerationsNotMatch \<longleftrightarrow>
     taints \<noteq> [] \<and>
     (tolerations = [] \<or>
      (\<exists>taint \<in> set taints. taint_Effect taint \<noteq> ''PreferNoSchedule'' \<and>
         (\<forall>t \<in> set tolerations. \<not> TolerationToleratesTaint t taint)))"
  using assms by (auto simp: PodToleratesNodeTaints_def tolerationsToleratesTaints_def all_tolerated_iff)

text \<open>The terms of a node affinity are alternatives, but only up to the first invalid one: a
  node matches exactly if it matches some term and every term before that one is valid.\<close>

theorem node_affinity_terms:
  "nodeMatchesNodeSelectorTerms env node terms \<longleftrightarrow>
     (\<exists>i < length terms.
        (\<exists>sel. NodeSelectorRequirementsAsSelector env (terms ! i) = Some sel \<and>
           Selector_Matches (pe_parseFloat env) sel (node_Labels node)) \<and>
        (\<forall>j < i. NodeSelectorRequirementsAsSelector env (terms ! j) \<noteq> None))"
proof (induction terms)
  case (Cons t terms)
  show ?case
  proof (cases "NodeSelectorRequirementsAsSelector env t")
    case None
    then have "\<not> (\<forall>j < i. NodeSelectorRequirementsAsSelector env ((t # terms) ! j) \<noteq> None)" if "0 < i" for i
      using that by auto
    then show ?thesis using None by (auto simp: gr0_conv_Suc nth_Cons split: nat.splits)
  next
    case (Some sel)
    then show ?thesis
      using Cons.IH by (auto simp: ex_simps Ex_less_Suc2 All_less_Suc2)
  qed
qed simp

section \<open>Witnesses\<close>

lemmas example_simps = example_info_def NewNodeInfo_def alloc_def NodeInfo_addPod_def NodeInfo_SetNode_def
  example_node_def example_pod_def example_container_def calculateResource_def GetNonzeroRequests_def
  PodFitsResources_def getResourceRequest_def add_container_def NodeInfo_Node_def NodeInfo_Pods_def
  RequestedResource_def emptyResource_def ResourceList_Cpu_def ResourceList_Memory_def
  ResourceList_NvidiaGPU_def ResourceList_Pods_def ResourceCPU_def ResourceMemory_def
  ResourceNvidiaGPU_def ResourcePods_def zeroQuantity_def

definition example_heap :: heap where
  "example_heap = \<lparr>h_cell = (\<lambda>_. emptyResource), h_next = 0\<rparr>"

definition example_node_info :: "NodeInfo \<times> heap" where
  "example_node_info = example_info (example_node ''n1'' 1000 64) [example_pod ''a'' ''n1'' 1 1] example_heap"

theorem pod_fits_resources_iff_witness:
  "in_range (getResourceRequest (example_pod ''b'' '''' 500 32)) (RequestedResource (snd example_node_info) (Some (fst example_node_info))) \<and>
   PodFitsResources (snd example_node_info) (example_pod ''b'' '''' 500 32) (Some (fst example_node_info)) = fits_ok"
proof -
  have range: "in_range (getResourceRequest (example_pod ''b'' '''' 500 32))
      (RequestedResource (snd example_node_info) (Some (fst example_node_info)))"
    and len: "length (NodeInfo_Pods (Some (fst example_node_info))) < 2 ^ 62"
    by (simp_all add: in_range_def example_node_info_def example_heap_def example_simps)
  show ?thesis
    using pod_fits_resources_iff [OF range len] range
    by (simp add: within_def example_node_info_def example_heap_def example_simps)
qed


definition example_env :: "int pred_env" where
  "example_env = \<lparr>pe_parseFloat = (\<lambda>_. None), pe_sort = sort_key req_key,
     pe_order = (\<lambda>m. sorted_list_of_set (dom m)), pe_affinity = (\<lambda>_. None),
     pe_tolerations = (\<lambda>_. Some []),
     pe_taints = (\<lambda>_. Some [\<lparr>taint_Key = ''k'', taint_Value = ''v'', taint_Effect = ''PreferNoSchedule''\<rparr>])\<rparr>"

definition tainted_node :: Node where
  "tainted_node = (example_node ''n1'' 1000 64)\<lparr>node_Annotations := [TaintsAnnotationKey \<mapsto> ''json'']\<rparr>"

theorem taints_keep_pods_off_witness:
  "PodToleratesNodeTaints example_env example_heap (example_pod ''b'' '''' 1 1)
     (Some ((fst example_node_info)\<lparr>ni_node := Some tainted_node\<rparr>)) = fails_with ErrTaintsTolerationsNotMatch"
proof -
  have taints: "GetTaintsFromNodeAnnotations example_env (node_Annotations tainted_node) =
      Some [\<lparr>taint_Key = ''k'', taint_Value = ''v'', taint_Effect = ''PreferNoSchedule''\<rparr>]"
    and tols: "GetTolerationsFromPodAnnotations example_env (pod_Annotations (example_pod ''b'' '''' 1 1)) = Some []"
    and node: "NodeInfo_Node (Some ((fst example_node_info)\<lparr>ni_node := Some tainted_node\<rparr>)) = Some tainted_node"
    by (simp_all add: GetTaintsFromNodeAnnotations_def GetTolerationsFromPodAnnotations_def example_env_def
        tainted_node_def example_pod_def NodeInfo_Node_def)
  show ?thesis using taints_keep_pods_off [OF taints tols node, of example_heap] by simp
qed

end
