(* ===== verification/Generic_Scheduler.thy ===== *)
theory Generic_Scheduler
  imports Scheduler_Predicates Work_Queue "HOL-Library.Signed_Division" "HOL-Library.Product_Lexorder"
begin

text \<open>
  The scheduling algorithm: generic\_scheduler.go, scheduleOne of scheduler.go and the integer
  priority functions of algorithm/priorities/priorities.go, all under plugin/pkg/scheduler.

  Predicates, priority functions and extenders are arguments of the algorithm, as in the code.
  What the runtime chooses is one more argument, \<open>choices\<close>: the order in which the goroutines of
  findNodesThatFit and PrioritizeNodes finish, how many of the latter are done when the errors
  are looked at, and the visiting orders of maps. The theory shows what Schedule chooses, for all
  choices, and that a cluster whose pods are placed by it alone is never overcommitted.
\<close>

section \<open>Interfaces of the algorithm\<close>

record HostPriority =
  hp_Host :: string
  hp_Score :: int64

text \<open>A NodeLister is what its List returns.\<close>

type_synonym NodeLister = "string + Node list"

type_synonym PriorityFunction =
  "heap \<Rightarrow> Pod \<Rightarrow> (string \<rightharpoonup> NodeInfo) \<Rightarrow> NodeLister \<Rightarrow> string + HostPriority list"

record PriorityConfig =
  pc_Function :: PriorityFunction
  pc_Weight :: int64

record SchedulerExtender =
  ext_Filter :: "Pod \<Rightarrow> Node list \<Rightarrow> string + Node list"
  ext_Prioritize :: "Pod \<Rightarrow> Node list \<Rightarrow> string + HostPriority list \<times> int64"

datatype fit_error =
    FitDespiteError predicate_error
  | PredicateError predicate_error
  | UnexpectedFailure

datatype schedule_error =
    NodeListError string
  | ErrNoNodesAvailable
  | PredicateErrors "fit_error list"
  | ExtenderError string
  | FitError Pod "string \<rightharpoonup> string"
  | PriorityErrors "string list"
  | EmptyPriorityList

record genericScheduler =
  gs_predicates :: "string \<rightharpoonup> FitPredicate"
  gs_prioritizers :: "PriorityConfig list"
  gs_extenders :: "SchedulerExtender list"
  gs_lastNodeIndex :: "64 word"

record choices =
  ch_nodes :: "nat list"
  ch_predicates :: "nat \<Rightarrow> string list"
  ch_priorities :: "PriorityConfig list"
  ch_early :: nat
  ch_extenders :: "SchedulerExtender list"
  ch_hosts :: "(string \<rightharpoonup> int64) \<Rightarrow> string list"

section \<open>Finding the nodes that fit\<close>

text \<open>The loop of podFitsOnNode over the predicates, in the order they are visited.\<close>

fun podFitsOnNode ::
  "heap \<Rightarrow> Pod \<Rightarrow> NodeInfo option \<Rightarrow> FitPredicate list \<Rightarrow> (bool \<times> string \<times> fit_error option) option" where
  "podFitsOnNode h pod info [] = Some (True, '''', None)"
| "podFitsOnNode h pod info (predicate # predicateFuncs) =
     (case predicate h pod info of
        None \<Rightarrow> None
      | Some (fit, None) \<Rightarrow>
          if \<not> fit then Some (False, '''', Some UnexpectedFailure)
          else podFitsOnNode h pod info predicateFuncs
      | Some (fit, Some (InsufficientResourceError name requested used capacity)) \<Rightarrow>
          if fit then Some (False, '''', Some (FitDespiteError (InsufficientResourceError name requested used capacity)))
          else Some (False, ''Insufficient '' @ name, None)
      | Some (fit, Some (PredicateFailureError name)) \<Rightarrow>
          if fit then Some (False, '''', Some (FitDespiteError (PredicateFailureError name)))
          else Some (False, name, None)
      | Some (fit, Some e) \<Rightarrow> Some (False, '''', Some (PredicateError e)))"

record fit_state =
  fs_filtered :: "Node list"
  fs_failed :: "string \<rightharpoonup> string"
  fs_errs :: "fit_error list"

definition checkNode ::
  "choices \<Rightarrow> heap \<Rightarrow> Pod \<Rightarrow> (string \<rightharpoonup> NodeInfo) \<Rightarrow> (string \<rightharpoonup> FitPredicate) \<Rightarrow> Node list \<Rightarrow> nat \<Rightarrow>
   fit_state \<Rightarrow> fit_state option" where
  "checkNode ch h pod nodeNameToInfo predicateFuncs nodes i s =
     (let nodeName = node_Name (nodes ! i)
      in case podFitsOnNode h pod (nodeNameToInfo nodeName) (map (the \<circ> predicateFuncs) (ch_predicates ch i)) of
           None \<Rightarrow> None
         | Some (fits, failedPredicate, Some err) \<Rightarrow> Some (s\<lparr>fs_errs := fs_errs s @ [err]\<rparr>)
         | Some (fits, failedPredicate, None) \<Rightarrow>
             if fits then Some (s\<lparr>fs_filtered := fs_filtered s @ [nodes ! i]\<rparr>)
             else Some (s\<lparr>fs_failed := (fs_failed s)(nodeName \<mapsto> failedPredicate)\<rparr>))"

fun check_nodes :: "(nat \<Rightarrow> fit_state \<Rightarrow> fit_state option) \<Rightarrow> nat list \<Rightarrow> fit_state \<Rightarrow> fit_state option" where
  "check_nodes check [] s = Some s"
| "check_nodes check (i # is) s =
     (case check i s of None \<Rightarrow> None | Some s \<Rightarrow> check_nodes check is s)"

fun filter_extenders :: "SchedulerExtender list \<Rightarrow> Pod \<Rightarrow> Node list \<Rightarrow> string + Node list" where
  "filter_extenders [] pod filtered = Inr filtered"
| "filter_extenders (extender # extenders) pod filtered =
     (case ext_Filter extender pod filtered of
        Inl err \<Rightarrow> Inl err
      | Inr filtered \<Rightarrow> if length filtered = 0 then Inr filtered else filter_extenders extenders pod filtered)"

definition findNodesThatFit ::
  "choices \<Rightarrow> heap \<Rightarrow> Pod \<Rightarrow> (string \<rightharpoonup> NodeInfo) \<Rightarrow> (string \<rightharpoonup> FitPredicate) \<Rightarrow> Node list \<Rightarrow>
   SchedulerExtender list \<Rightarrow> (schedule_error + Node list \<times> (string \<rightharpoonup> string)) option" where
  "findNodesThatFit ch h pod nodeNameToInfo predicateFuncs nodes extenders =
     (case check_nodes (checkNode ch h pod nodeNameToInfo predicateFuncs nodes) (ch_nodes ch)
             \<lparr>fs_filtered = [], fs_failed = Map.empty, fs_errs = []\<rparr> of
        None \<Rightarrow> None
      | Some s \<Rightarrow>
        if length (fs_errs s) > 0 then Some (Inl (PredicateErrors (fs_errs s)))
        else if length (fs_filtered s) > 0 \<and> length extenders \<noteq> 0
        then (case filter_extenders extenders pod (fs_filtered s) of
                Inl err \<Rightarrow> Some (Inl (ExtenderError err))
              | Inr filtered \<Rightarrow> Some (Inr (filtered, fs_failed s)))
        else Some (Inr (fs_filtered s, fs_failed s)))"

section \<open>Ranking the nodes\<close>

definition add_scores :: "int64 \<Rightarrow> (string \<rightharpoonup> int64) \<Rightarrow> HostPriority list \<Rightarrow> (string \<rightharpoonup> int64)" where
  "add_scores weight combinedScores prioritizedList =
     foldl (\<lambda>m hp. m(hp_Host hp \<mapsto> map_get 0 m (hp_Host hp) + hp_Score hp * weight))
       combinedScores prioritizedList"

definition run_priority ::
  "heap \<Rightarrow> Pod \<Rightarrow> (string \<rightharpoonup> NodeInfo) \<Rightarrow> NodeLister \<Rightarrow> (string \<rightharpoonup> int64) \<times> string list \<Rightarrow> PriorityConfig \<Rightarrow>
   (string \<rightharpoonup> int64) \<times> string list" where
  "run_priority h pod nodeNameToInfo nodeLister s config =
     (case pc_Function config h pod nodeNameToInfo nodeLister of
        Inl err \<Rightarrow> (fst s, snd s @ [err])
      | Inr prioritizedList \<Rightarrow> (add_scores (pc_Weight config) (fst s) prioritizedList, snd s))"

definition run_extender :: "Pod \<Rightarrow> Node list \<Rightarrow> (string \<rightharpoonup> int64) \<Rightarrow> SchedulerExtender \<Rightarrow> (string \<rightharpoonup> int64)" where
  "run_extender pod nodes combinedScores ext =
     (case ext_Prioritize ext pod nodes of
        Inl err \<Rightarrow> combinedScores
      | Inr (prioritizedList, weight) \<Rightarrow> add_scores weight combinedScores prioritizedList)"

definition EqualPriority :: PriorityFunction where
  "EqualPriority h pod nodeNameToInfo nodeLister =
     (case nodeLister of
        Inl err \<Rightarrow> Inl err
      | Inr nodes \<Rightarrow> Inr (map (\<lambda>node. \<lparr>hp_Host = node_Name node, hp_Score = 1\<rparr>) nodes))"

definition PrioritizeNodes ::
  "choices \<Rightarrow> heap \<Rightarrow> Pod \<Rightarrow> (string \<rightharpoonup> NodeInfo) \<Rightarrow> PriorityConfig list \<Rightarrow> NodeLister \<Rightarrow>
   SchedulerExtender list \<Rightarrow> schedule_error + HostPriority list" where
  "PrioritizeNodes ch h pod nodeNameToInfo priorityConfigs nodeLister extenders =
     (if length priorityConfigs = 0 \<and> length extenders = 0
      then (case EqualPriority h pod nodeNameToInfo nodeLister of
              Inl err \<Rightarrow> Inl (NodeListError err)
            | Inr result \<Rightarrow> Inr result)
      else
        let run = run_priority h pod nodeNameToInfo nodeLister;
            early = foldl run (Map.empty, []) (take (ch_early ch) (ch_priorities ch))
        in if length (snd early) \<noteq> 0 then Inl (PriorityErrors (snd early))
           else
             let combinedScores = fst (foldl run early (drop (ch_early ch) (ch_priorities ch)))
             in if length extenders \<noteq> 0
                then (case nodeLister of
                        Inl err \<Rightarrow> Inl (NodeListError err)
                      | Inr nodes \<Rightarrow>
                          let combinedScores = foldl (run_extender pod nodes) combinedScores (ch_extenders ch)
                          in Inr (map (\<lambda>host. \<lparr>hp_Host = host, hp_Score = map_get 0 combinedScores host\<rparr>)
                                (ch_hosts ch combinedScores)))
                else Inr (map (\<lambda>host. \<lparr>hp_Host = host, hp_Score = map_get 0 combinedScores host\<rparr>)
                       (ch_hosts ch combinedScores)))"

section \<open>Selecting the host\<close>

text \<open>
  \<^verbatim>\<open>Less\<close> orders by score and then by host name, so \<^verbatim>\<open>sort.Reverse\<close> leaves no choice to the
  unstable sort: entries that compare equal are equal.
\<close>

definition HostPriority_key :: "HostPriority \<Rightarrow> int \<times> string" where
  "HostPriority_key hp = (sint (hp_Score hp), hp_Host hp)"

definition HostPriorityList_Less :: "HostPriority \<Rightarrow> HostPriority \<Rightarrow> bool" where
  "HostPriorityList_Less a b =
     (if hp_Score a = hp_Score b then hp_Host a < hp_Host b else sint (hp_Score a) < sint (hp_Score b))"

definition sort_reverse :: "HostPriority list \<Rightarrow> HostPriority list" where
  "sort_reverse l = rev (sort_key HostPriority_key l)"

definition selectHost ::
  "HostPriority list \<Rightarrow> 64 word \<Rightarrow> (schedule_error + string) \<times> 64 word" where
  "selectHost priorityList lastNodeIndex =
     (if length priorityList = 0 then (Inl EmptyPriorityList, lastNodeIndex)
      else
        let l = sort_reverse priorityList;
            maxScore = hp_Score (l ! 0);
            firstAfterMaxScore = sort_Search (length l) (\<lambda>i. sint (hp_Score (l ! i)) < sint maxScore);
            ix = unat (lastNodeIndex mod word_of_nat firstAfterMaxScore)
        in (Inr (hp_Host (l ! ix)), lastNodeIndex + 1))"

section \<open>Schedule\<close>

definition Schedule ::
  "choices \<Rightarrow> schedulerCache \<Rightarrow> Pod \<Rightarrow> NodeLister \<Rightarrow> genericScheduler \<Rightarrow>
   ((schedule_error + string) \<times> genericScheduler) option" where
  "Schedule ch cache pod nodeLister g =
     (case nodeLister of
        Inl err \<Rightarrow> Some (Inl (NodeListError err), g)
      | Inr nodes \<Rightarrow>
        if length nodes = 0 then Some (Inl ErrNoNodesAvailable, g)
        else
          let nodeNameToInfo = GetNodeNameToInfoMap cache;
              h = sc_heap cache
          in case findNodesThatFit ch h pod nodeNameToInfo (gs_predicates g) nodes (gs_extenders g) of
               None \<Rightarrow> None
             | Some (Inl err) \<Rightarrow> Some (Inl err, g)
             | Some (Inr (filteredNodes, failedPredicateMap)) \<Rightarrow>
                 if length filteredNodes = 0 then Some (Inl (FitError pod failedPredicateMap), g)
                 else
                   (case PrioritizeNodes ch h pod nodeNameToInfo (gs_prioritizers g) (Inr filteredNodes)
                           (gs_extenders g) of
                      Inl err \<Rightarrow> Some (Inl err, g)
                    | Inr priorityList \<Rightarrow>
                        let (res, idx) = selectHost priorityList (gs_lastNodeIndex g)
                        in Some (res, g\<lparr>gs_lastNodeIndex := idx\<rparr>)))"

text \<open>
  The synchronous part of scheduleOne: what it returns is the binding that the background
  goroutine sends to the server, or the error that goes to the error handler.
\<close>

definition scheduleOne ::
  "choices \<Rightarrow> int \<Rightarrow> Pod \<Rightarrow> NodeLister \<Rightarrow> genericScheduler \<times> schedulerCache \<Rightarrow>
   ((schedule_error + string) \<times> genericScheduler \<times> schedulerCache) option" where
  "scheduleOne ch now pod nodeLister s =
     (case Schedule ch (snd s) pod nodeLister (fst s) of
        None \<Rightarrow> None
      | Some (Inl err, g) \<Rightarrow> Some (Inl err, g, snd s)
      | Some (Inr dest, g) \<Rightarrow>
          let assumed = pod\<lparr>pod_NodeName := dest\<rparr>
          in Some (Inr dest, g, snd (assumePod assumed now (snd s))))"

section \<open>Predicates on a node\<close>

definition node_fits :: "(string \<rightharpoonup> FitPredicate) \<Rightarrow> heap \<Rightarrow> Pod \<Rightarrow> NodeInfo option \<Rightarrow> bool" where
  "node_fits preds h pod info \<longleftrightarrow> (\<forall>p \<in> ran preds. p h pod info = fits_ok)"

lemma podFitsOnNode_fits:
  "podFitsOnNode h pod info ps = Some (True, reason, err) \<longleftrightarrow>
   reason = '''' \<and> err = None \<and> (\<forall>p \<in> set ps. p h pod info = fits_ok)"
  by (induction ps) (auto split: option.splits prod.splits predicate_error.splits)

text \<open>A predicate that answers as it should: it fits, or it fails with one of the two failures.\<close>

definition answers :: "fit_result \<Rightarrow> bool" where
  "answers r \<longleftrightarrow> r = fits_ok \<or> (\<exists>name q u c. r = fails_with (InsufficientResourceError name q u c)) \<or>
     (\<exists>name. r = fails_with (PredicateFailureError name))"

lemma podFitsOnNode_answers:
  assumes "\<forall>p \<in> set ps. answers (p h pod info)"
  shows "\<exists>fit reason. podFitsOnNode h pod info ps = Some (fit, reason, None)"
  using assms by (induction ps) (auto simp: answers_def)

lemma range_of_ran: "range_of m ks \<Longrightarrow> set (map (the \<circ> m) ks) = ran m"
  by (force simp: range_of_def ran_def)

lemma podFitsOnNode_node_fits:
  assumes "range_of preds ks"
  shows "podFitsOnNode h pod info (map (the \<circ> preds) ks) = Some (True, reason, err) \<longleftrightarrow>
     reason = '''' \<and> err = None \<and> node_fits preds h pod info"
  unfolding podFitsOnNode_fits node_fits_def range_of_ran [OF assms] by (rule refl)

definition valid_choices :: "choices \<Rightarrow> genericScheduler \<Rightarrow> Node list \<Rightarrow> bool" where
  "valid_choices ch g nodes \<longleftrightarrow>
     mset (ch_nodes ch) = mset [0..<length nodes] \<and>
     (\<forall>i. range_of (gs_predicates g) (ch_predicates ch i)) \<and>
     mset (ch_priorities ch) = mset (filter (\<lambda>c. pc_Weight c \<noteq> 0) (gs_prioritizers g)) \<and>
     mset (ch_extenders ch) = mset (gs_extenders g) \<and>
     (\<forall>m. finite (dom m) \<longrightarrow> range_of m (ch_hosts ch m))"

lemma valid_choicesD:
  assumes "valid_choices ch g nodes"
  shows "mset (ch_nodes ch) = mset [0..<length nodes]"
    and "\<And>i. range_of (gs_predicates g) (ch_predicates ch i)"
    and "mset (ch_priorities ch) = mset (filter (\<lambda>c. pc_Weight c \<noteq> 0) (gs_prioritizers g))"
    and "set (ch_priorities ch) = {c \<in> set (gs_prioritizers g). pc_Weight c \<noteq> 0}"
    and "set (ch_extenders ch) = set (gs_extenders g)"
    and "\<And>m. finite (dom m) \<Longrightarrow> range_of m (ch_hosts ch m)"
proof -
  show p: "mset (ch_priorities ch) = mset (filter (\<lambda>c. pc_Weight c \<noteq> 0) (gs_prioritizers g))"
    using assms by (simp add: valid_choices_def)
  show "set (ch_priorities ch) = {c \<in> set (gs_prioritizers g). pc_Weight c \<noteq> 0}"
    using mset_eq_setD [OF p] by simp
  show "set (ch_extenders ch) = set (gs_extenders g)"
    using assms by (auto simp: valid_choices_def dest!: mset_eq_setD)
qed (use assms in \<open>simp_all add: valid_choices_def\<close>)

lemma check_nodes_spec:
  assumes "check_nodes (checkNode ch h pod infos preds nodes) is s = Some s'"
    and "\<And>i. range_of preds (ch_predicates ch i)"
  shows "fs_filtered s' = fs_filtered s @ map ((!) nodes) (filter (\<lambda>i. node_fits preds h pod (infos (node_Name (nodes ! i)))) is) \<and>
         (fs_errs s' = [] \<longrightarrow> fs_errs s = [] \<and> dom (fs_failed s') = dom (fs_failed s) \<union>
            (\<lambda>i. node_Name (nodes ! i)) ` {i \<in> set is. \<not> node_fits preds h pod (infos (node_Name (nodes ! i)))})"
  using assms(1)
proof (induction "is" arbitrary: s)
  case (Cons i "is")
  let ?info = "infos (node_Name (nodes ! i))" and ?ps = "map (the \<circ> preds) (ch_predicates ch i)"
  obtain s1 where s1: "checkNode ch h pod infos preds nodes i s = Some s1"
    "check_nodes (checkNode ch h pod infos preds nodes) is s1 = Some s'"
    using Cons.prems by (auto split: option.splits)
  obtain fit reason err where r: "podFitsOnNode h pod ?info ?ps = Some (fit, reason, err)"
    using s1(1) by (auto simp: checkNode_def Let_def split: option.splits)
  note fits_iff = podFitsOnNode_node_fits [OF assms(2) [of i], of h pod ?info]
  have fits: "fit \<longleftrightarrow> node_fits preds h pod ?info"
    using r fits_iff [of reason err] fits_iff [of "''''" None] by (cases fit) auto
  have err: "fit \<Longrightarrow> err = None" using r fits_iff [of reason err] by simp
  have split: "(\<lambda>i. node_Name (nodes ! i)) ` {j \<in> set (i # is). \<not> node_fits preds h pod (infos (node_Name (nodes ! j)))} =
      (if fit then {} else {node_Name (nodes ! i)}) \<union>
      (\<lambda>i. node_Name (nodes ! i)) ` {j \<in> set is. \<not> node_fits preds h pod (infos (node_Name (nodes ! j)))}"
    using fits by auto
  show ?case
    unfolding split using Cons.IH [OF s1(2)] s1(1) r fits err
    by (cases err; cases fit) (auto simp: checkNode_def Let_def)
qed simp

lemma check_nodes_total:
  assumes "\<And>i. i \<in> set is \<Longrightarrow> \<forall>p \<in> set (map (the \<circ> preds) (ch_predicates ch i)). answers (p h pod (infos (node_Name (nodes ! i))))"
    and "fs_errs s = []"
  shows "\<exists>s'. check_nodes (checkNode ch h pod infos preds nodes) is s = Some s' \<and> fs_errs s' = []"
  using assms
proof (induction "is" arbitrary: s)
  case (Cons i "is")
  obtain fit reason where r: "podFitsOnNode h pod (infos (node_Name (nodes ! i)))
      (map (the \<circ> preds) (ch_predicates ch i)) = Some (fit, reason, None)"
    using podFitsOnNode_answers Cons.prems(1) [of i] by (metis list.set_intros(1))
  then obtain s1 where "checkNode ch h pod infos preds nodes i s = Some s1" "fs_errs s1 = []"
    using Cons.prems(2) by (cases fit) (auto simp: checkNode_def Let_def)
  then show ?case using Cons.IH [of s1] Cons.prems(1) by auto
qed simp

lemma findNodesThatFit_spec:
  assumes run: "findNodesThatFit ch h pod infos preds nodes [] = Some (Inr (filtered, failed))"
    and nodes: "mset (ch_nodes ch) = mset [0..<length nodes]"
    and preds: "\<And>i. range_of preds (ch_predicates ch i)"
  shows "mset filtered = mset (filter (\<lambda>n. node_fits preds h pod (infos (node_Name n))) nodes)"
    and "dom failed = node_Name ` {n \<in> set nodes. \<not> node_fits preds h pod (infos (node_Name n))}"
proof -
  obtain s where s: "check_nodes (checkNode ch h pod infos preds nodes) (ch_nodes ch)
      \<lparr>fs_filtered = [], fs_failed = Map.empty, fs_errs = []\<rparr> = Some s"
    "fs_errs s = []" "filtered = fs_filtered s" "failed = fs_failed s"
    using run by (auto simp: findNodesThatFit_def split: option.splits if_splits)
  note spec = check_nodes_spec [OF s(1) preds]
  let ?P = "\<lambda>n. node_fits preds h pod (infos (node_Name n))"
  have "mset filtered = image_mset ((!) nodes) (filter_mset (?P \<circ> (!) nodes) (mset [0..<length nodes]))"
    using spec s(3) nodes [symmetric] by (simp add: comp_def)
  also have "\<dots> = mset (filter ?P (map ((!) nodes) [0..<length nodes]))"
    by (simp only: filter_map mset_filter mset_map)
  finally show "mset filtered = mset (filter ?P nodes)" by (simp add: map_nth)
  have "set (ch_nodes ch) = {0..<length nodes}" using nodes mset_eq_setD by fastforce
  then have "dom failed = (\<lambda>i. node_Name (nodes ! i)) ` {i \<in> {0..<length nodes}. \<not> ?P (nodes ! i)}"
    using spec s(2,4) by simp
  also have "\<dots> = node_Name ` {n \<in> set nodes. \<not> ?P n}"
    by (auto simp: set_conv_nth)
  finally show "dom failed = node_Name ` {n \<in> set nodes. \<not> ?P n}" .
qed

lemma filter_extenders_subset:
  assumes "\<forall>e \<in> set es. \<forall>ns l. ext_Filter e pod ns = Inr l \<longrightarrow> set l \<subseteq> set ns"
    and "filter_extenders es pod ns = Inr l"
  shows "set l \<subseteq> set ns"
  using assms by (induction es arbitrary: ns) (fastforce split: sum.splits if_splits)+

lemma findNodesThatFit_sound:
  assumes run: "findNodesThatFit ch h pod infos preds nodes es = Some (Inr (filtered, failed))"
    and nodes: "mset (ch_nodes ch) = mset [0..<length nodes]"
    and preds: "\<And>i. range_of preds (ch_predicates ch i)"
    and es: "\<forall>e \<in> set es. \<forall>ns l. ext_Filter e pod ns = Inr l \<longrightarrow> set l \<subseteq> set ns"
  shows "set filtered \<subseteq> {n \<in> set nodes. node_fits preds h pod (infos (node_Name n))}"
proof -
  obtain filtered0 where f0: "findNodesThatFit ch h pod infos preds nodes [] = Some (Inr (filtered0, failed))"
    and sub: "set filtered \<subseteq> set filtered0"
    using run filter_extenders_subset [OF es]
    by (auto simp: findNodesThatFit_def split: option.splits if_splits sum.splits)
  have "set filtered0 = {n \<in> set nodes. node_fits preds h pod (infos (node_Name n))}"
    using mset_eq_setD [OF findNodesThatFit_spec(1) [OF f0 nodes preds]] by simp
  with sub show ?thesis by simp
qed

section \<open>Scores\<close>

definition host_score :: "int64 \<Rightarrow> HostPriority list \<Rightarrow> string \<Rightarrow> int64" where
  "host_score weight l host = (\<Sum>hp\<leftarrow>l. if hp_Host hp = host then hp_Score hp * weight else 0)"

definition prioritized ::
  "heap \<Rightarrow> Pod \<Rightarrow> (string \<rightharpoonup> NodeInfo) \<Rightarrow> NodeLister \<Rightarrow> PriorityConfig \<Rightarrow> HostPriority list" where
  "prioritized h pod infos lister c = (case pc_Function c h pod infos lister of Inl _ \<Rightarrow> [] | Inr l \<Rightarrow> l)"

definition total_score ::
  "heap \<Rightarrow> Pod \<Rightarrow> (string \<rightharpoonup> NodeInfo) \<Rightarrow> NodeLister \<Rightarrow> PriorityConfig list \<Rightarrow> string \<Rightarrow> int64" where
  "total_score h pod infos lister cs host =
     (\<Sum>c\<leftarrow>cs. host_score (pc_Weight c) (prioritized h pod infos lister c) host)"

lemma add_scores_Nil [simp]: "add_scores w m [] = m"
  by (simp add: add_scores_def)

lemma add_scores_Cons:
  "add_scores w m (hp # l) = add_scores w (m(hp_Host hp \<mapsto> map_get 0 m (hp_Host hp) + hp_Score hp * w)) l"
  by (simp add: add_scores_def)

lemma add_scores_get: "map_get 0 (add_scores w m l) host = map_get 0 m host + host_score w l host"
  by (induction l arbitrary: m) (simp_all add: add_scores_Cons host_score_def)

lemma add_scores_dom: "dom (add_scores w m l) = dom m \<union> hp_Host ` set l"
  by (induction l arbitrary: m) (simp_all add: add_scores_Cons insert_commute)

lemma run_priority_fst:
  "fst (run_priority h pod infos lister s c) = add_scores (pc_Weight c) (fst s) (prioritized h pod infos lister c)"
  by (simp add: run_priority_def prioritized_def split: sum.split)

lemma run_priority_snd:
  "snd (run_priority h pod infos lister s c) =
     snd s @ (case pc_Function c h pod infos lister of Inl e \<Rightarrow> [e] | Inr _ \<Rightarrow> [])"
  by (simp add: run_priority_def split: sum.split)

lemma run_priorities_get:
  "map_get 0 (fst (foldl (run_priority h pod infos lister) s cs)) host =
   map_get 0 (fst s) host + total_score h pod infos lister cs host"
  by (induction cs arbitrary: s) (simp_all add: run_priority_fst add_scores_get total_score_def)

lemma run_priorities_dom:
  "dom (fst (foldl (run_priority h pod infos lister) s cs)) =
   dom (fst s) \<union> (\<Union>c \<in> set cs. hp_Host ` set (prioritized h pod infos lister c))"
  by (induction cs arbitrary: s) (simp_all add: run_priority_fst add_scores_dom Un_assoc)

lemma run_priorities_errs:
  "snd (foldl (run_priority h pod infos lister) s cs) =
   snd s @ concat (map (\<lambda>c. case pc_Function c h pod infos lister of Inl e \<Rightarrow> [e] | Inr _ \<Rightarrow> []) cs)"
  by (induction cs arbitrary: s) (simp_all add: run_priority_snd)

lemma host_score_zero [simp]: "host_score 0 l host = 0"
  by (induction l) (simp_all add: host_score_def)

lemma total_score_mset: "mset cs = mset cs' \<Longrightarrow> total_score h pod infos lister cs host = total_score h pod infos lister cs' host"
  by (simp only: total_score_def sum_mset_sum_list [symmetric] mset_map)

lemma total_score_nonzero:
  "total_score h pod infos lister (filter (\<lambda>c. pc_Weight c \<noteq> 0) cs) host = total_score h pod infos lister cs host"
  by (induction cs) (simp_all add: total_score_def)

definition fails :: "heap \<Rightarrow> Pod \<Rightarrow> (string \<rightharpoonup> NodeInfo) \<Rightarrow> NodeLister \<Rightarrow> PriorityConfig \<Rightarrow> bool" where
  "fails h pod infos lister c \<longleftrightarrow> (\<exists>e. pc_Function c h pod infos lister = Inl e)"

lemma no_errs:
  "concat (map (\<lambda>c. case pc_Function c h pod infos lister of Inl e \<Rightarrow> [e] | Inr _ \<Rightarrow> []) cs) = [] \<longleftrightarrow>
   (\<forall>c \<in> set cs. \<not> fails h pod infos lister c)"
  by (auto simp: fails_def split: sum.splits)

lemma foldl_take_drop: "foldl f (foldl f s (take n xs)) (drop n xs) = foldl f s xs"
  unfolding foldl_append [symmetric] append_take_drop_id by (rule refl)

lemma PrioritizeNodes_run:
  assumes "gs_prioritizers g \<noteq> []" and "gs_extenders g = []"
  shows "PrioritizeNodes ch h pod infos (gs_prioritizers g) lister (gs_extenders g) =
     (let errs = concat (map (\<lambda>c. case pc_Function c h pod infos lister of Inl e \<Rightarrow> [e] | Inr _ \<Rightarrow> [])
                   (take (ch_early ch) (ch_priorities ch)));
          m = fst (foldl (run_priority h pod infos lister) (Map.empty, []) (ch_priorities ch))
      in if errs \<noteq> [] then Inl (PriorityErrors errs)
         else Inr (map (\<lambda>host. \<lparr>hp_Host = host, hp_Score = map_get 0 m host\<rparr>) (ch_hosts ch m)))"
  using assms by (simp add: PrioritizeNodes_def Let_def run_priorities_errs foldl_take_drop)

lemma PrioritizeNodes_scores:
  assumes "valid_choices ch g nodes" and "gs_prioritizers g \<noteq> []" and "gs_extenders g = []"
  shows "case PrioritizeNodes ch h pod infos (gs_prioritizers g) lister (gs_extenders g) of
      Inl err \<Rightarrow> \<exists>c \<in> set (take (ch_early ch) (ch_priorities ch)). fails h pod infos lister c
    | Inr l \<Rightarrow> (\<forall>c \<in> set (take (ch_early ch) (ch_priorities ch)). \<not> fails h pod infos lister c) \<and>
        distinct (map hp_Host l) \<and>
        hp_Host ` set l = (\<Union>c \<in> {c \<in> set (gs_prioritizers g). pc_Weight c \<noteq> 0}. hp_Host ` set (prioritized h pod infos lister c)) \<and>
        (\<forall>hp \<in> set l. hp_Score hp = total_score h pod infos lister (gs_prioritizers g) (hp_Host hp))"
proof -
  define m where "m = fst (foldl (run_priority h pod infos lister) (Map.empty, []) (ch_priorities ch))"
  note runs = valid_choicesD(3) [OF assms(1)]
  have dom: "dom m = (\<Union>c \<in> set (ch_priorities ch). hp_Host ` set (prioritized h pod infos lister c))"
    by (simp add: m_def run_priorities_dom)
  then have "range_of m (ch_hosts ch m)" by (intro valid_choicesD(6) [OF assms(1)]) simp
  then have hosts: "distinct (ch_hosts ch m)" "set (ch_hosts ch m) = dom m" by (simp_all add: range_of_def)
  have score: "map_get 0 m host = total_score h pod infos lister (gs_prioritizers g) host" for host
    using total_score_mset [OF runs] total_score_nonzero by (simp add: m_def run_priorities_get)
  show ?thesis
    unfolding PrioritizeNodes_run [OF assms(2,3)] m_def [symmetric] Let_def
    using hosts dom score valid_choicesD(4) [OF assms(1)]
      no_errs [of h pod infos lister "take (ch_early ch) (ch_priorities ch)"]
    by (simp add: comp_def image_image)
qed


section \<open>Selection\<close>

lemma HostPriorityList_Less_key: "HostPriorityList_Less a b \<longleftrightarrow> HostPriority_key a < HostPriority_key b"
proof -
  have "hp_Score a \<noteq> hp_Score b \<Longrightarrow> sint (hp_Score a) \<noteq> sint (hp_Score b)" by (auto dest: signed_word_eqI)
  then show ?thesis by (auto simp: HostPriorityList_Less_def HostPriority_key_def less_prod_def)
qed

definition top_score :: "HostPriority list \<Rightarrow> int" where
  "top_score pl = Max ((\<lambda>hp. sint (hp_Score hp)) ` set pl)"

definition tops :: "HostPriority list \<Rightarrow> HostPriority list" where
  "tops pl = filter (\<lambda>hp. sint (hp_Score hp) = top_score pl) (sort_reverse pl)"

lemma sort_reverse_mset [simp]: "mset (sort_reverse pl) = mset pl"
  by (simp add: sort_reverse_def)

lemma sort_reverse_length [simp]: "length (sort_reverse pl) = length pl"
  by (simp add: sort_reverse_def)

lemma sort_reverse_mono:
  assumes "i \<le> j" and "j < length pl"
  shows "sint (hp_Score (sort_reverse pl ! j)) \<le> sint (hp_Score (sort_reverse pl ! i))"
proof -
  have "sorted (map HostPriority_key (sort_key HostPriority_key pl))" by simp
  then have "sorted_wrt (\<ge>) (map HostPriority_key (sort_reverse pl))"
    by (simp add: sort_reverse_def sorted_wrt_rev flip: rev_map)
  then have "HostPriority_key (sort_reverse pl ! j) \<le> HostPriority_key (sort_reverse pl ! i)"
    using assms by (cases "i = j") (auto simp: sorted_wrt_iff_nth_less)
  then show ?thesis by (auto simp: HostPriority_key_def less_eq_prod_def)
qed

lemma sort_reverse_first:
  assumes "pl \<noteq> []"
  shows "sint (hp_Score (sort_reverse pl ! 0)) = top_score pl"
proof -
  have set: "set pl = set (sort_reverse pl)" by (metis mset_eq_setD sort_reverse_mset)
  show ?thesis
    unfolding top_score_def set
  proof (rule Max_eqI [symmetric])
    show "sint (hp_Score (sort_reverse pl ! 0)) \<in> (\<lambda>hp. sint (hp_Score hp)) ` set (sort_reverse pl)"
      using assms by (intro imageI nth_mem) simp
  qed (use sort_reverse_mono [of 0 _ pl] in \<open>auto simp: in_set_conv_nth\<close>)
qed

lemma search_tops:
  assumes "pl \<noteq> []"
  defines "l \<equiv> sort_reverse pl"
  defines "m \<equiv> sort_Search (length l) (\<lambda>i. sint (hp_Score (l ! i)) < sint (hp_Score (l ! 0)))"
  shows "tops pl = take m l" and "0 < m" and "m \<le> length l"
proof -
  have len: "length l = length pl" by (simp add: l_def)
  have "m \<le> length l \<and> (\<forall>i < m. \<not> sint (hp_Score (l ! i)) < sint (hp_Score (l ! 0))) \<and>
      (\<forall>i. m \<le> i \<and> i < length l \<longrightarrow> sint (hp_Score (l ! i)) < sint (hp_Score (l ! 0)))"
    unfolding m_def
    by (rule sort_Search_boundary) (use sort_reverse_mono [of _ _ pl] in \<open>fastforce simp: l_def\<close>)
  then have m: "m \<le> length l" "\<And>i. i < m \<Longrightarrow> \<not> sint (hp_Score (l ! i)) < sint (hp_Score (l ! 0))"
    "\<And>i. m \<le> i \<Longrightarrow> i < length l \<Longrightarrow> sint (hp_Score (l ! i)) < sint (hp_Score (l ! 0))" by auto
  have top: "top_score pl = sint (hp_Score (l ! 0))" using sort_reverse_first [OF assms(1)] by (simp add: l_def)
  show "m \<le> length l" by (rule m(1))
  show "0 < m" using m(3) [of 0] assms(1) len by (cases "m = 0") auto
  have "filter (\<lambda>hp. sint (hp_Score hp) = top_score pl) (take m l) = take m l"
  proof (rule filter_True, rule ballI)
    fix hp
    assume "hp \<in> set (take m l)"
    then obtain i where i: "i < m" "i < length l" "hp = l ! i" by (auto simp: in_set_conv_nth)
    show "sint (hp_Score hp) = top_score pl"
      using m(2) [OF i(1)] sort_reverse_mono [of 0 i pl] i len by (simp add: top l_def)
  qed
  moreover have "filter (\<lambda>hp. sint (hp_Score hp) = top_score pl) (drop m l) = []"
  proof (rule filter_False, rule ballI)
    fix hp
    assume "hp \<in> set (drop m l)"
    then obtain i where "m \<le> i" "i < length l" "hp = l ! i"
      by (metis (no_types, lifting) add.commute in_set_conv_nth le_add1 length_drop less_diff_conv nth_drop m(1))
    then show "sint (hp_Score hp) \<noteq> top_score pl" using m(3) [of i] top by simp
  qed
  ultimately show "tops pl = take m l"
    unfolding tops_def l_def [symmetric] by (metis append_Nil2 append_take_drop_id filter_append)
qed

lemma selectHost_eq:
  assumes "pl \<noteq> []" and "length pl < 2 ^ 64"
  shows "selectHost pl idx = (Inr (hp_Host (tops pl ! (unat idx mod length (tops pl)))), idx + 1)"
    and "0 < length (tops pl)"
proof -
  define l where "l = sort_reverse pl"
  define m where "m = sort_Search (length l) (\<lambda>i. sint (hp_Score (l ! i)) < sint (hp_Score (l ! 0)))"
  note m = search_tops [OF assms(1), folded l_def, folded m_def]
  have "m < 2 ^ 64" using m(3) assms(2) by (simp add: l_def)
  then have "unat (word_of_nat m :: 64 word) = m" by (simp add: unat_of_nat)
  then have ix: "unat (idx mod word_of_nat m) = unat idx mod m" by (simp add: unat_mod_distrib)
  have len: "length (tops pl) = m" using m by simp
  have "unat idx mod m < m" using m(2) by simp
  then have "l ! (unat idx mod m) = tops pl ! (unat idx mod m)" by (simp add: m(1))
  then show "selectHost pl idx = (Inr (hp_Host (tops pl ! (unat idx mod length (tops pl)))), idx + 1)"
    using assms(1) by (simp add: selectHost_def Let_def l_def [symmetric] m_def [symmetric] ix len)
  show "0 < length (tops pl)" using len m(2) by simp
qed

lemma tops_mem: "hp \<in> set (tops pl) \<longleftrightarrow> hp \<in> set pl \<and> sint (hp_Score hp) = top_score pl"
  by (metis (mono_tags, lifting) mem_Collect_eq mset_eq_setD set_filter sort_reverse_mset tops_def)

lemma selectHost_max:
  assumes "pl \<noteq> []" and "length pl < 2 ^ 64"
  shows "\<exists>hp \<in> set pl. fst (selectHost pl idx) = Inr (hp_Host hp) \<and>
           (\<forall>hp' \<in> set pl. sint (hp_Score hp') \<le> sint (hp_Score hp))"
proof -
  let ?hp = "tops pl ! (unat idx mod length (tops pl))"
  have "?hp \<in> set (tops pl)" using selectHost_eq(2) [OF assms] by (intro nth_mem) simp
  then have "?hp \<in> set pl" "sint (hp_Score ?hp) = top_score pl" by (simp_all add: tops_mem)
  then show ?thesis using selectHost_eq(1) [OF assms] by (intro bexI [of _ ?hp]) (simp_all add: top_score_def)
qed

fun select_hosts :: "nat \<Rightarrow> HostPriority list \<Rightarrow> 64 word \<Rightarrow> (schedule_error + string) list" where
  "select_hosts 0 pl idx = []"
| "select_hosts (Suc n) pl idx = (let (r, idx) = selectHost pl idx in r # select_hosts n pl idx)"

lemma select_hosts_eq:
  assumes "pl \<noteq> []" and "length pl < 2 ^ 64" and "unat idx + n < 2 ^ 64"
  shows "select_hosts n pl idx =
     map (\<lambda>j. Inr (hp_Host (tops pl ! ((unat idx + j) mod length (tops pl))))) [0..<n]"
  using assms(3)
proof (induction n arbitrary: idx)
  case (Suc n)
  have idx: "unat (idx + 1) = Suc (unat idx)" using Suc.prems by (simp add: unat_word_ariths)
  have "select_hosts n pl (idx + 1) =
      map (\<lambda>j. Inr (hp_Host (tops pl ! ((unat idx + Suc j) mod length (tops pl))))) [0..<n]"
    using Suc.IH [of "idx + 1"] Suc.prems by (simp add: idx)
  moreover have "[0..<Suc n] = 0 # map Suc [0..<n]" by (simp add: upt_conv_Cons map_Suc_upt del: upt_Suc)
  ultimately show ?case
    by (simp only: select_hosts.simps selectHost_eq(1) [OF assms(1,2)] Let_def prod.case list.map map_map comp_def add_0_right)
qed simp

text \<open>C2. selectHost is fair: on a list with \<open>m\<close> entries of the highest score, \<open>m\<close> calls in a row
  choose each of these entries exactly once, whatever the counter was, as long as it does not
  wrap around.\<close>

theorem select_host_round_robin:
  assumes "pl \<noteq> []" and "length pl < 2 ^ 64"
    and "m = length (filter (\<lambda>hp. \<forall>hp' \<in> set pl. sint (hp_Score hp') \<le> sint (hp_Score hp)) pl)"
    and "unat idx + m < 2 ^ 64"
  shows "mset (select_hosts m pl idx) =
     image_mset (\<lambda>hp. Inr (hp_Host hp)) (mset (filter (\<lambda>hp. \<forall>hp' \<in> set pl. sint (hp_Score hp') \<le> sint (hp_Score hp)) pl))"
proof -
  have top: "(\<forall>hp' \<in> set pl. sint (hp_Score hp') \<le> sint (hp_Score hp)) \<longleftrightarrow> sint (hp_Score hp) = top_score pl"
    if "hp \<in> set pl" for hp
  proof
    assume "\<forall>hp' \<in> set pl. sint (hp_Score hp') \<le> sint (hp_Score hp)"
    then show "sint (hp_Score hp) = top_score pl"
      unfolding top_score_def using that by (intro Max_eqI [symmetric]) auto
  next
    assume "sint (hp_Score hp) = top_score pl"
    then show "\<forall>hp' \<in> set pl. sint (hp_Score hp') \<le> sint (hp_Score hp)" by (simp add: top_score_def)
  qed
  have "filter (\<lambda>hp. \<forall>hp' \<in> set pl. sint (hp_Score hp') \<le> sint (hp_Score hp)) pl =
      filter (\<lambda>hp. sint (hp_Score hp) = top_score pl) pl"
    by (rule filter_cong) (use top in auto)
  then have ms: "mset (filter (\<lambda>hp. \<forall>hp' \<in> set pl. sint (hp_Score hp') \<le> sint (hp_Score hp)) pl) = mset (tops pl)"
    by (simp add: tops_def)
  have m: "m = length (tops pl)" using arg_cong [OF ms, of size] assms(3) by (simp only: size_mset)
  have "select_hosts m pl idx = map (\<lambda>hp. Inr (hp_Host hp)) (rotate (unat idx) (tops pl))"
    unfolding select_hosts_eq [OF assms(1,2,4)]
    by (rule nth_equalityI) (simp_all add: m nth_rotate add.commute)
  then have "mset (select_hosts m pl idx) = image_mset (\<lambda>hp. Inr (hp_Host hp)) (mset (rotate (unat idx) (tops pl)))"
    by simp
  moreover have "mset (rotate n xs) = mset xs" for n and xs :: "HostPriority list"
  proof (induction n)
    case (Suc n)
    then show ?case by (cases "rotate n xs") simp_all
  qed simp
  ultimately show ?thesis unfolding ms by simp
qed

section \<open>Priority functions as an interface\<close>

text \<open>What the algorithm relies on: a priority function scores only nodes it was given.\<close>

locale node_prioritizer =
  fixes f :: PriorityFunction
  assumes scores_listed: "f h pod infos (Inr nodes) = Inr l \<Longrightarrow> hp_Host ` set l \<subseteq> node_Name ` set nodes"
begin

lemma prioritized_listed:
  "hp_Host ` set (prioritized h pod infos (Inr nodes) \<lparr>pc_Function = f, pc_Weight = w\<rparr>) \<subseteq> node_Name ` set nodes"
proof (cases "f h pod infos (Inr nodes)")
  case (Inr l)
  then show ?thesis using scores_listed [OF Inr] by (simp add: prioritized_def)
qed (simp add: prioritized_def)

end

text \<open>Most of them score every node and fail only if the nodes cannot be listed.\<close>

locale total_prioritizer = node_prioritizer +
  assumes scores_all: "\<exists>l. f h pod infos (Inr nodes) = Inr l \<and> node_Name ` set nodes \<subseteq> hp_Host ` set l"
begin

lemma prioritized_all:
  "hp_Host ` set (prioritized h pod infos (Inr nodes) \<lparr>pc_Function = f, pc_Weight = w\<rparr>) = node_Name ` set nodes"
proof -
  obtain l where l: "f h pod infos (Inr nodes) = Inr l" "node_Name ` set nodes \<subseteq> hp_Host ` set l"
    using scores_all by blast
  then show ?thesis using scores_listed [OF l(1)] by (auto simp: prioritized_def)
qed

lemma never_fails: "\<not> fails h pod infos (Inr nodes) \<lparr>pc_Function = f, pc_Weight = w\<rparr>"
  using scores_all [of h pod infos nodes] by (auto simp: fails_def)

end

interpretation equal: total_prioritizer EqualPriority
  by unfold_locales (auto simp: EqualPriority_def image_image)

lemma prioritized_subset:
  assumes "node_prioritizer (pc_Function c)"
  shows "hp_Host ` set (prioritized h pod infos (Inr nodes) c) \<subseteq> node_Name ` set nodes"
  using node_prioritizer.prioritized_listed [OF assms, of h pod infos nodes "pc_Weight c"]
  by (simp add: prioritized_def)

lemma prioritized_total:
  assumes "total_prioritizer (pc_Function c)"
  shows "hp_Host ` set (prioritized h pod infos (Inr nodes) c) = node_Name ` set nodes"
    and "\<not> fails h pod infos (Inr nodes) c"
  using total_prioritizer.prioritized_all [OF assms, of h pod infos nodes "pc_Weight c"]
    total_prioritizer.never_fails [OF assms, of h pod infos nodes "pc_Weight c"]
  by (simp_all add: prioritized_def fails_def)

section \<open>What Schedule chooses\<close>

text \<open>The contract of an extender: it filters the nodes it is given and scores only those.\<close>

definition extender_ok :: "SchedulerExtender \<Rightarrow> bool" where
  "extender_ok e \<longleftrightarrow>
     (\<forall>pod ns l. ext_Filter e pod ns = Inr l \<longrightarrow> set l \<subseteq> set ns) \<and>
     (\<forall>pod ns l w. ext_Prioritize e pod ns = Inr (l, w) \<longrightarrow> hp_Host ` set l \<subseteq> node_Name ` set ns)"

lemma run_extenders_dom:
  assumes "\<forall>e \<in> set es. extender_ok e" and "dom m \<subseteq> node_Name ` set ns"
  shows "dom (foldl (run_extender pod ns) m es) \<subseteq> node_Name ` set ns"
proof (rule foldl_invariant [where P = "\<lambda>m. dom m \<subseteq> node_Name ` set ns"])
  show "dom (run_extender pod ns m e) \<subseteq> node_Name ` set ns"
    if m: "dom m \<subseteq> node_Name ` set ns" and e: "e \<in> set es" for m e
  proof (cases "ext_Prioritize e pod ns")
    case (Inr lw)
    obtain l w where lw: "lw = (l, w)" by fastforce
    have "hp_Host ` set l \<subseteq> node_Name ` set ns" using assms(1) e Inr lw unfolding extender_ok_def by blast
    then show ?thesis using m Inr lw by (simp add: run_extender_def add_scores_dom)
  qed (use m in \<open>simp add: run_extender_def\<close>)
qed (rule assms(2))

lemma PrioritizeNodes_listed:
  assumes ch: "valid_choices ch g nodes"
    and prios: "\<forall>c \<in> set (gs_prioritizers g). node_prioritizer (pc_Function c)"
    and exts: "\<forall>e \<in> set (gs_extenders g). extender_ok e"
    and run: "PrioritizeNodes ch h pod infos (gs_prioritizers g) (Inr ns) (gs_extenders g) = Inr pl"
  shows "hp_Host ` set pl \<subseteq> node_Name ` set ns \<and>
    (length pl \<le> card (node_Name ` set ns) \<or> length pl = length ns \<and> gs_prioritizers g = [] \<and> gs_extenders g = [])"
proof (cases "gs_prioritizers g = [] \<and> gs_extenders g = []")
  case True
  then show ?thesis using run by (auto simp: PrioritizeNodes_def EqualPriority_def)
next
  case False
  define m0 where "m0 = fst (foldl (run_priority h pod infos (Inr ns)) (Map.empty, []) (ch_priorities ch))"
  define m where "m = (if gs_extenders g \<noteq> [] then foldl (run_extender pod ns) m0 (ch_extenders ch) else m0)"
  have pl: "pl = map (\<lambda>host. \<lparr>hp_Host = host, hp_Score = map_get 0 m host\<rparr>) (ch_hosts ch m)"
    using run False by (auto simp: PrioritizeNodes_def Let_def foldl_take_drop m0_def m_def split: if_splits)
  note prio_set = valid_choicesD(4) [OF ch] and ext_set = valid_choicesD(5) [OF ch]
  have "dom m0 = (\<Union>c \<in> set (ch_priorities ch). hp_Host ` set (prioritized h pod infos (Inr ns) c))"
    by (simp add: m0_def run_priorities_dom)
  also have "\<dots> \<subseteq> node_Name ` set ns"
    by (intro UN_least prioritized_subset) (use prios prio_set in auto)
  finally have dom: "dom m \<subseteq> node_Name ` set ns"
    using run_extenders_dom [of "ch_extenders ch" m0 ns pod] exts ext_set by (auto simp: m_def)
  then have "range_of m (ch_hosts ch m)" by (intro valid_choicesD(6) [OF ch] finite_subset [OF dom]) simp
  then have hosts: "distinct (ch_hosts ch m)" "set (ch_hosts ch m) = dom m" by (simp_all add: range_of_def)
  have "length (ch_hosts ch m) = card (dom m)" using hosts distinct_card by metis
  then show ?thesis using pl hosts dom card_mono [OF _ dom] by (simp add: image_image)
qed

lemma Schedule_cases:
  assumes "Schedule ch cache pod (Inr nodes) g = Some (Inr host, g')"
  obtains filtered failed pl where
    "findNodesThatFit ch (sc_heap cache) pod (GetNodeNameToInfoMap cache) (gs_predicates g) nodes (gs_extenders g) =
       Some (Inr (filtered, failed))"
    "filtered \<noteq> []"
    "PrioritizeNodes ch (sc_heap cache) pod (GetNodeNameToInfoMap cache) (gs_prioritizers g) (Inr filtered)
       (gs_extenders g) = Inr pl"
    "fst (selectHost pl (gs_lastNodeIndex g)) = Inr host"
    "g' = g\<lparr>gs_lastNodeIndex := snd (selectHost pl (gs_lastNodeIndex g))\<rparr>"
  using assms by (auto simp: Schedule_def Let_def split: option.splits sum.splits if_splits prod.splits)

lemma Schedule_host:
  assumes run: "Schedule ch cache pod (Inr nodes) g = Some (Inr host, g')"
    and ch: "valid_choices ch g nodes" and len: "length nodes < 2 ^ 64"
    and prios: "\<forall>c \<in> set (gs_prioritizers g). node_prioritizer (pc_Function c)"
    and exts: "\<forall>e \<in> set (gs_extenders g). extender_ok e"
  shows "\<exists>node \<in> set nodes. node_Name node = host \<and>
     node_fits (gs_predicates g) (sc_heap cache) pod (GetNodeNameToInfoMap cache host)"
proof -
  let ?infos = "GetNodeNameToInfoMap cache" and ?h = "sc_heap cache"
  obtain filtered failed pl where find: "findNodesThatFit ch ?h pod ?infos (gs_predicates g) nodes (gs_extenders g) =
       Some (Inr (filtered, failed))"
    and prio: "PrioritizeNodes ch ?h pod ?infos (gs_prioritizers g) (Inr filtered) (gs_extenders g) = Inr pl"
    and sel: "fst (selectHost pl (gs_lastNodeIndex g)) = Inr host"
    using Schedule_cases [OF run] by metis
  note ch' = valid_choicesD(1,2) [OF ch]
  have sub: "set filtered \<subseteq> {n \<in> set nodes. node_fits (gs_predicates g) ?h pod (?infos (node_Name n))}"
    by (rule findNodesThatFit_sound [OF find ch']) (use exts in \<open>auto simp: extender_ok_def\<close>)
  have listed: "hp_Host ` set pl \<subseteq> node_Name ` set filtered"
    and len_pl: "length pl \<le> card (node_Name ` set filtered) \<or> length pl = length filtered \<and> gs_prioritizers g = [] \<and> gs_extenders g = []"
    using PrioritizeNodes_listed [OF ch prios exts prio] by auto
  have "card (node_Name ` set filtered) \<le> card (node_Name ` set nodes)"
    by (rule card_mono) (use sub in auto)
  also have "\<dots> \<le> length nodes" using card_length [of "map node_Name nodes"] by simp
  finally have "card (node_Name ` set filtered) \<le> length nodes" .
  moreover have "length filtered \<le> length nodes" if "gs_extenders g = []"
    using arg_cong [OF findNodesThatFit_spec(1) [OF find [unfolded that] ch'], of size]
    by (simp only: size_mset length_filter_le)
  ultimately have "length pl < 2 ^ 64" using len_pl len by linarith
  moreover have "pl \<noteq> []" using sel by (auto simp: selectHost_def)
  ultimately obtain hp where "hp \<in> set pl" "host = hp_Host hp"
    using selectHost_max [of pl "gs_lastNodeIndex g"] sel by auto
  then have "host \<in> node_Name ` set filtered" using listed by auto
  then obtain n where "n \<in> set filtered" "node_Name n = host" by auto
  then show ?thesis using sub by auto
qed

text \<open>C16. The host that Schedule returns is one of the listed nodes, and every predicate accepted
  the pod on it, whatever the order in which goroutines finish and maps are visited; priority
  functions and extenders are only relied on to score and keep nodes they were given.\<close>

theorem schedule_picks_fitting_node:
  assumes "Schedule ch cache pod (Inr nodes) g = Some (Inr host, g')"
    and "valid_choices ch g nodes" and "length nodes < 2 ^ 64"
    and "\<forall>c \<in> set (gs_prioritizers g). node_prioritizer (pc_Function c)"
    and "\<forall>e \<in> set (gs_extenders g). extender_ok e"
  shows "\<exists>node \<in> set nodes. node_Name node = host \<and>
     (\<forall>p \<in> ran (gs_predicates g). p (sc_heap cache) pod (GetNodeNameToInfoMap cache host) = fits_ok)"
  using Schedule_host [OF assms] by (simp add: node_fits_def)

definition final_score :: "genericScheduler \<Rightarrow> schedulerCache \<Rightarrow> Pod \<Rightarrow> Node list \<Rightarrow> string \<Rightarrow> int64" where
  "final_score g cache pod filtered host =
     (if gs_prioritizers g = [] then 1
      else total_score (sc_heap cache) pod (GetNodeNameToInfoMap cache) (Inr filtered) (gs_prioritizers g) host)"

lemma findNodesThatFit_total:
  assumes ch: "valid_choices ch g nodes"
    and answers: "\<forall>p \<in> ran (gs_predicates g). \<forall>n \<in> set nodes. answers (p h pod (infos (node_Name n)))"
  shows "\<exists>filtered failed. findNodesThatFit ch h pod infos (gs_predicates g) nodes [] = Some (Inr (filtered, failed))"
proof -
  have "set (ch_nodes ch) = {0..<length nodes}" using mset_eq_setD [OF valid_choicesD(1) [OF ch]] by simp
  then have "\<forall>p \<in> set (map (the \<circ> gs_predicates g) (ch_predicates ch i)). answers (p h pod (infos (node_Name (nodes ! i))))"
    if "i \<in> set (ch_nodes ch)" for i
    using answers that unfolding range_of_ran [OF valid_choicesD(2) [OF ch]] by auto
  then obtain s where "check_nodes (checkNode ch h pod infos (gs_predicates g) nodes) (ch_nodes ch)
      \<lparr>fs_filtered = [], fs_failed = Map.empty, fs_errs = []\<rparr> = Some s" "fs_errs s = []"
    using check_nodes_total [of "ch_nodes ch" "gs_predicates g" ch h pod infos nodes
        "\<lparr>fs_filtered = [], fs_failed = Map.empty, fs_errs = []\<rparr>"] by auto
  then show ?thesis by (simp add: findNodesThatFit_def)
qed

lemma PrioritizeNodes_total:
  assumes ch: "valid_choices ch g nodes" and exts: "gs_extenders g = []"
    and prios: "\<forall>c \<in> set (gs_prioritizers g). pc_Weight c \<noteq> 0 \<longrightarrow> total_prioritizer (pc_Function c)"
    and some: "gs_prioritizers g = [] \<or> (\<exists>c \<in> set (gs_prioritizers g). pc_Weight c \<noteq> 0)"
  shows "\<exists>pl. PrioritizeNodes ch (sc_heap cache) pod (GetNodeNameToInfoMap cache) (gs_prioritizers g) (Inr ns)
      (gs_extenders g) = Inr pl \<and> hp_Host ` set pl = node_Name ` set ns \<and> length pl \<le> length ns \<and>
      (\<forall>hp \<in> set pl. hp_Score hp = final_score g cache pod ns (hp_Host hp))"
proof (cases "gs_prioritizers g = []")
  case True
  then show ?thesis
    using exts by (auto simp: PrioritizeNodes_def EqualPriority_def final_score_def image_image)
next
  case False
  let ?h = "sc_heap cache" and ?infos = "GetNodeNameToInfoMap cache"
  let ?r = "PrioritizeNodes ch ?h pod ?infos (gs_prioritizers g) (Inr ns) (gs_extenders g)"
  note scores = PrioritizeNodes_scores [OF ch False exts, of ?h pod ?infos "Inr ns"]
  have early: "c \<in> set (gs_prioritizers g) \<and> pc_Weight c \<noteq> 0"
    if "c \<in> set (take (ch_early ch) (ch_priorities ch))" for c
    using in_set_takeD [OF that] valid_choicesD(4) [OF ch] by simp
  have "\<not> fails ?h pod ?infos (Inr ns) c" if "c \<in> set (take (ch_early ch) (ch_priorities ch))" for c
    using early [OF that] prios prioritized_total(2) by blast
  then obtain pl where pl: "?r = Inr pl" using scores by (cases ?r) auto
  have hosts: "hp_Host ` set pl = (\<Union>c \<in> {c \<in> set (gs_prioritizers g). pc_Weight c \<noteq> 0}.
      hp_Host ` set (prioritized ?h pod ?infos (Inr ns) c))" and dist: "distinct (map hp_Host pl)"
    and score: "\<forall>hp \<in> set pl. hp_Score hp = final_score g cache pod ns (hp_Host hp)"
    using scores pl False by (simp_all add: final_score_def)
  have "hp_Host ` set pl = (\<Union>c \<in> {c \<in> set (gs_prioritizers g). pc_Weight c \<noteq> 0}. node_Name ` set ns)"
    unfolding hosts by (intro SUP_cong refl prioritized_total(1)) (use prios in auto)
  also have "\<dots> = node_Name ` set ns" using some False by auto
  finally have all: "hp_Host ` set pl = node_Name ` set ns" .
  have "length pl = card (node_Name ` set ns)"
    using distinct_card [OF dist] all by simp
  then have "length pl \<le> length ns" using card_length [of "map node_Name ns"] by simp
  then show ?thesis using pl all score by blast
qed


section \<open>Witnesses\<close>

text \<open>Two nodes; the pod asks for more than the first one has left. One priority function fails.\<close>

definition example_scheduler :: genericScheduler where
  "example_scheduler = \<lparr>gs_predicates = [''GeneralPredicates'' \<mapsto> GeneralPredicates example_env, ''NoDiskConflict'' \<mapsto> NoDiskConflict],
     gs_prioritizers = [], gs_extenders = [], gs_lastNodeIndex = 7\<rparr>"

definition example_choices :: "PriorityConfig list \<Rightarrow> nat \<Rightarrow> choices" where
  "example_choices runs early = \<lparr>ch_nodes = [1, 0], ch_predicates = (\<lambda>_. [''NoDiskConflict'', ''GeneralPredicates'']),
     ch_priorities = runs, ch_early = early, ch_extenders = [], ch_hosts = (\<lambda>m. sorted_list_of_set (dom m))\<rparr>"

definition example_nodes :: "Node list" where
  "example_nodes = [example_node ''n1'' 100 64, example_node ''n2'' 1000 64]"

definition example_cache :: schedulerCache where
  "example_cache = AddNode (example_node ''n2'' 1000 64) (AddNode (example_node ''n1'' 100 64) (newSchedulerCache 30))"

definition failing :: PriorityFunction where
  "failing h pod infos lister = Inl ''no''"

lemma example_choices_valid:
  assumes "gs_predicates g = gs_predicates example_scheduler" and "gs_extenders g = []"
    and "mset runs = mset (filter (\<lambda>c. pc_Weight c \<noteq> 0) (gs_prioritizers g))"
  shows "valid_choices (example_choices runs early) g example_nodes"
  using assms
  by (auto simp: valid_choices_def example_choices_def example_nodes_def example_scheduler_def range_of_def
      numeral_2_eq_2 add_mset_commute)

lemma Collect_mem_filter: "\<forall>x \<in> A. P x \<Longrightarrow> {x \<in> A. P x} = A"
  by blast

definition two_prioritizers :: "PriorityConfig list" where
  "two_prioritizers = [\<lparr>pc_Function = failing, pc_Weight = 1\<rparr>, \<lparr>pc_Function = EqualPriority, pc_Weight = 2\<rparr>]"


definition example_priorities :: "HostPriority list" where
  "example_priorities =
     [\<lparr>hp_Host = ''a'', hp_Score = 3\<rparr>, \<lparr>hp_Host = ''b'', hp_Score = 1\<rparr>, \<lparr>hp_Host = ''c'', hp_Score = 3\<rparr>]"

theorem select_host_round_robin_witness:
  "mset (select_hosts 2 example_priorities 5) = {#Inr ''a'', Inr ''c''#}"
proof -
  have pl: "example_priorities \<noteq> []" and len: "length example_priorities < 2 ^ 64"
    by (simp_all add: example_priorities_def)
  have best: "filter (\<lambda>hp. \<forall>hp' \<in> set example_priorities. sint (hp_Score hp') \<le> sint (hp_Score hp)) example_priorities =
      [\<lparr>hp_Host = ''a'', hp_Score = 3\<rparr>, \<lparr>hp_Host = ''c'', hp_Score = 3\<rparr>]"
    by (simp add: example_priorities_def)
  have idx: "unat (5 :: 64 word) + 2 < 2 ^ 64" by simp
  have two: "2 = length (filter (\<lambda>hp. \<forall>hp' \<in> set example_priorities. sint (hp_Score hp') \<le> sint (hp_Score hp)) example_priorities)"
    unfolding best by simp
  show ?thesis
    using select_host_round_robin [OF pl len two idx] unfolding best by (simp only: mset.simps image_mset_single image_mset_add_mset HostPriority.select_convs image_mset_empty)
qed

lemma example_infos:
  "GetNodeNameToInfoMap example_cache = [''n1'' \<mapsto> \<lparr>ni_node = Some (example_node ''n1'' 100 64), ni_requestedResource = 0, ni_pods = [], ni_nonzeroRequest = 1\<rparr>,
     ''n2'' \<mapsto> \<lparr>ni_node = Some (example_node ''n2'' 1000 64), ni_requestedResource = 2, ni_pods = [], ni_nonzeroRequest = 3\<rparr>]"
  "h_cell (sc_heap example_cache) = (\<lambda>_. emptyResource)"
  by (auto simp: fun_eq_iff GetNodeNameToInfoMap_def example_cache_def AddNode_def cache_nodeInfo_def NewNodeInfo_empty
      newSchedulerCache_def NodeInfo_SetNode_def NodeInfo_Clone_def)

lemma example_answers:
  "GeneralPredicates example_env (sc_heap example_cache) (example_pod ''p'' '''' 500 32) (GetNodeNameToInfoMap example_cache ''n1'') =
     fails_with (InsufficientResourceError ''CPU'' 500 0 100)"
  "GeneralPredicates example_env (sc_heap example_cache) (example_pod ''p'' '''' 500 32) (GetNodeNameToInfoMap example_cache ''n2'') = fits_ok"
  "NoDiskConflict (sc_heap example_cache) (example_pod ''p'' '''' 500 32) info = fits_ok"
  by (simp_all add: example_infos GeneralPredicates_def PodFitsHost_def PodFitsHostPorts_def getUsedPorts_def
      PodSelectorMatches_def PodMatchesNodeLabels_def GetAffinityFromPodAnnotations_def NoDiskConflict_def example_simps)

lemma example_fits:
  "node_fits (gs_predicates example_scheduler) (sc_heap example_cache) (example_pod ''p'' '''' 500 32) (GetNodeNameToInfoMap example_cache ''n2'')"
  "\<not> node_fits (gs_predicates example_scheduler) (sc_heap example_cache) (example_pod ''p'' '''' 500 32) (GetNodeNameToInfoMap example_cache ''n1'')"
  by (simp_all add: node_fits_def example_scheduler_def example_answers)

lemma example_schedule_ok:
  "valid_choices (example_choices [] 0) example_scheduler example_nodes" "length example_nodes < 2 ^ 64"
  "gs_extenders example_scheduler = []" "gs_prioritizers example_scheduler = []"
  "\<forall>p \<in> ran (gs_predicates example_scheduler). \<forall>n \<in> set example_nodes.
     answers (p (sc_heap example_cache) (example_pod ''p'' '''' 500 32) (GetNodeNameToInfoMap example_cache (node_Name n)))"
proof -
  show "valid_choices (example_choices [] 0) example_scheduler example_nodes"
    by (rule example_choices_valid) (simp_all add: example_scheduler_def)
  show "\<forall>p \<in> ran (gs_predicates example_scheduler). \<forall>n \<in> set example_nodes.
     answers (p (sc_heap example_cache) (example_pod ''p'' '''' 500 32) (GetNodeNameToInfoMap example_cache (node_Name n)))"
    by (simp add: example_scheduler_def example_nodes_def example_answers answers_def)
qed (simp_all add: example_nodes_def example_scheduler_def)


lemma example_schedule:
  "Schedule (example_choices [] 0) example_cache (example_pod ''p'' '''' 500 32) (Inr example_nodes) example_scheduler =
     Some (Inr ''n2'', example_scheduler\<lparr>gs_lastNodeIndex := 8\<rparr>)"
proof -
  have "findNodesThatFit (example_choices [] 0) (sc_heap example_cache) (example_pod ''p'' '''' 500 32)
      (GetNodeNameToInfoMap example_cache) (gs_predicates example_scheduler) example_nodes [] =
      Some (Inr ([example_node ''n2'' 1000 64], [''n1'' \<mapsto> ''Insufficient CPU'']))"
    using example_answers
    by (simp add: findNodesThatFit_def checkNode_def example_choices_def example_nodes_def example_scheduler_def Let_def)
  moreover have "selectHost [\<lparr>hp_Host = ''n2'', hp_Score = 1\<rparr>] 7 = (Inr ''n2'', 8)"
    using selectHost_eq(2) [of "[\<lparr>hp_Host = ''n2'', hp_Score = 1\<rparr>]"]
    by (subst selectHost_eq(1)) (simp_all add: tops_def sort_reverse_def top_score_def)
  ultimately show ?thesis
    by (simp add: Schedule_def example_schedule_ok(3,4) PrioritizeNodes_def EqualPriority_def)
      (simp add: example_nodes_def example_scheduler_def)
qed

theorem schedule_picks_fitting_node_witness:
  "(\<exists>g'. Schedule (example_choices [] 0) example_cache (example_pod ''p'' '''' 500 32) (Inr example_nodes) example_scheduler =
     Some (Inr ''n2'', g')) \<and>
   GeneralPredicates example_env (sc_heap example_cache) (example_pod ''p'' '''' 500 32) (GetNodeNameToInfoMap example_cache ''n2'') = fits_ok"
proof -
  have "\<forall>c \<in> set (gs_prioritizers example_scheduler). node_prioritizer (pc_Function c)"
    "\<forall>e \<in> set (gs_extenders example_scheduler). extender_ok e"
    by (simp_all add: example_scheduler_def)
  from schedule_picks_fitting_node [OF example_schedule example_schedule_ok(1,2) this] example_schedule
  show ?thesis by (simp add: example_scheduler_def)
qed

end
