(* ===== verification/Scheduler_Priorities.thy ===== *)
theory Scheduler_Priorities
  imports Generic_Scheduler
begin

text \<open>
  The priority functions of plugin/pkg/scheduler/algorithm/priorities/priorities.go that compute
  with integers: least requested resources, node labels and image locality (the balanced
  allocation computes with floating point numbers). Go's int is 64 bits wide, and its division
  truncates towards zero.

  Every function is shown to satisfy the interface the scheduling algorithm relies on, and its
  scores to lie between 0 and 10.
\<close>

section \<open>Least requested\<close>

definition go_div :: "int64 \<Rightarrow> int64 \<Rightarrow> int64" where
  "go_div a b = word_of_int (sint a sdiv sint b)"

definition calculateScore :: "int64 \<Rightarrow> int64 \<Rightarrow> int64" where
  "calculateScore requested capacity =
     (if capacity = 0 then 0
      else if sint requested > sint capacity then 0
      else go_div ((capacity - requested) * 10) capacity)"

definition calculateResourceOccupancy :: "heap \<Rightarrow> Pod \<Rightarrow> Node \<Rightarrow> NodeInfo option \<Rightarrow> HostPriority" where
  "calculateResourceOccupancy h pod node nodeInfo =
     (let totalMilliCPU = r_MilliCPU (NonZeroRequest h nodeInfo);
          totalMemory = r_Memory (NonZeroRequest h nodeInfo);
          capacityMilliCPU = q_MilliValue (ResourceList_Cpu (node_Allocatable node));
          capacityMemory = q_Value (ResourceList_Memory (node_Allocatable node));
          (totalMilliCPU, totalMemory) =
            foldl (\<lambda>(totalMilliCPU, totalMemory) container.
                let (cpu, memory) = GetNonzeroRequests (ct_Requests container)
                in (totalMilliCPU + cpu, totalMemory + memory))
              (totalMilliCPU, totalMemory) (pod_Containers pod);
          cpuScore = calculateScore totalMilliCPU capacityMilliCPU;
          memoryScore = calculateScore totalMemory capacityMemory
      in \<lparr>hp_Host = node_Name node, hp_Score = go_div (cpuScore + memoryScore) 2\<rparr>)"

definition LeastRequestedPriority :: PriorityFunction where
  "LeastRequestedPriority h pod nodeNameToInfo nodeLister =
     (case nodeLister of
        Inl err \<Rightarrow> Inl err
      | Inr nodes \<Rightarrow>
          Inr (map (\<lambda>node. calculateResourceOccupancy h pod node (nodeNameToInfo (node_Name node))) nodes))"

section \<open>Node labels\<close>

text \<open>\<open>order\<close> is the order in which the map of nodes is visited.\<close>

definition CalculateNodeLabelPriority ::
  "((string \<rightharpoonup> bool) \<Rightarrow> string list) \<Rightarrow> string \<Rightarrow> bool \<Rightarrow> PriorityFunction" where
  "CalculateNodeLabelPriority order label presence h pod nodeNameToInfo nodeLister =
     (case nodeLister of
        Inl err \<Rightarrow> Inl err
      | Inr nodes \<Rightarrow>
          let labeledNodes = foldl (\<lambda>m node.
                let exists = Set_Has (node_Labels node) label
                in m(node_Name node \<mapsto> (exists \<and> presence) \<or> (\<not> exists \<and> \<not> presence))) Map.empty nodes
          in Inr (map (\<lambda>nodeName. \<lparr>hp_Host = nodeName,
                        hp_Score = (if map_get False labeledNodes nodeName then 10 else 0)\<rparr>)
                (order labeledNodes)))"

section \<open>Image locality\<close>

definition mb :: int64 where "mb = 1024 * 1024"
definition minImgSize :: int64 where "minImgSize = 23 * mb"
definition maxImgSize :: int64 where "maxImgSize = 1000 * mb"

fun checkContainerImageOnNode :: "(string list \<times> int64) list \<Rightarrow> string \<Rightarrow> int64" where
  "checkContainerImageOnNode [] img = 0"
| "checkContainerImageOnNode ((names, sizeBytes) # images) img =
     (if img \<in> set names then sizeBytes else checkContainerImageOnNode images img)"

definition calculateScoreFromSize :: "int64 \<Rightarrow> int64" where
  "calculateScoreFromSize sumSize =
     (if sumSize = 0 \<or> sint sumSize < sint minImgSize then 0
      else if sint sumSize \<ge> sint maxImgSize then 10
      else go_div (10 * (sumSize - minImgSize)) (maxImgSize - minImgSize) + 1)"

definition ImageLocalityPriority :: "((string \<rightharpoonup> int64) \<Rightarrow> string list) \<Rightarrow> PriorityFunction" where
  "ImageLocalityPriority order h pod nodeNameToInfo nodeLister =
     (case nodeLister of
        Inl err \<Rightarrow> Inl err
      | Inr nodes \<Rightarrow>
          let sumSizeMap = foldl (\<lambda>m container.
                foldl (\<lambda>m node. m(node_Name node \<mapsto> map_get 0 m (node_Name node) +
                    checkContainerImageOnNode (node_Images node) (ct_Image container))) m nodes)
                Map.empty (pod_Containers pod)
          in Inr (map (\<lambda>nodeName. \<lparr>hp_Host = nodeName,
                        hp_Score = calculateScoreFromSize (map_get 0 sumSizeMap nodeName)\<rparr>)
                (order sumSizeMap)))"

section \<open>The interface\<close>

lemma occupancy_host [simp]: "hp_Host (calculateResourceOccupancy h pod node info) = node_Name node"
  by (simp add: calculateResourceOccupancy_def Let_def split_beta)

interpretation least_requested: total_prioritizer LeastRequestedPriority
  by unfold_locales (auto simp: LeastRequestedPriority_def image_image)

lemma dom_foldl_upd: "dom (foldl (\<lambda>m n. m(f n \<mapsto> g m n)) m xs) = dom m \<union> f ` set xs"
  by (induction xs arbitrary: m) auto

lemma node_label_total:
  assumes "\<And>m. finite (dom m) \<Longrightarrow> range_of m (order m)"
  shows "total_prioritizer (CalculateNodeLabelPriority order label presence)"
proof
  fix h pod infos and nodes :: "Node list"
  define m :: "string \<rightharpoonup> bool" where "m = foldl (\<lambda>m node.
      let exists = Set_Has (node_Labels node) label
      in m(node_Name node \<mapsto> (exists \<and> presence) \<or> (\<not> exists \<and> \<not> presence))) Map.empty nodes"
  have "dom m = node_Name ` set nodes" by (simp add: m_def Let_def dom_foldl_upd)
  then have order: "set (order m) = node_Name ` set nodes" using assms [of m] by (simp add: range_of_def)
  have run: "CalculateNodeLabelPriority order label presence h pod infos (Inr nodes) =
      Inr (map (\<lambda>nodeName. \<lparr>hp_Host = nodeName, hp_Score = (if map_get False m nodeName then 10 else 0)\<rparr>) (order m))"
    by (simp add: CalculateNodeLabelPriority_def m_def Let_def)
  show "\<exists>l. CalculateNodeLabelPriority order label presence h pod infos (Inr nodes) = Inr l \<and>
      node_Name ` set nodes \<subseteq> hp_Host ` set l"
    using run order by (simp add: image_image)
  show "hp_Host ` set l \<subseteq> node_Name ` set nodes"
    if "CalculateNodeLabelPriority order label presence h pod infos (Inr nodes) = Inr l" for l
    using run that order by (auto simp: image_image)
qed

lemma image_sizes_dom:
  "dom (foldl (\<lambda>m container. foldl (\<lambda>m node. m(node_Name node \<mapsto> g m node container)) m nodes) m cs) =
   dom m \<union> (if cs = [] then {} else node_Name ` set nodes)"
  by (induction cs arbitrary: m) (auto simp: dom_foldl_upd)

lemma image_locality_listed:
  assumes "\<And>m. finite (dom m) \<Longrightarrow> range_of m (order m)"
  shows "node_prioritizer (ImageLocalityPriority order)"
proof
  fix h infos l and pod :: Pod and nodes :: "Node list"
  define m where "m = foldl (\<lambda>m container. foldl (\<lambda>m node. m(node_Name node \<mapsto> map_get 0 m (node_Name node) +
      checkContainerImageOnNode (node_Images node) (ct_Image container))) m nodes) Map.empty (pod_Containers pod)"
  have "dom m \<subseteq> node_Name ` set nodes" unfolding m_def image_sizes_dom by simp
  moreover from this have "set (order m) = dom m"
    using assms [of m] finite_subset by (fastforce simp: range_of_def)
  moreover assume "ImageLocalityPriority order h pod infos (Inr nodes) = Inr l"
  then have "l = map (\<lambda>nodeName. \<lparr>hp_Host = nodeName, hp_Score = calculateScoreFromSize (map_get 0 m nodeName)\<rparr>) (order m)"
    by (auto simp: ImageLocalityPriority_def m_def [symmetric] Let_def)
  ultimately show "hp_Host ` set l \<subseteq> node_Name ` set nodes" by (simp add: image_image)
qed

section \<open>Scores\<close>

lemma sdiv_nonneg: "0 \<le> a \<Longrightarrow> 0 \<le> b \<Longrightarrow> a sdiv b = a div (b::int)"
  by (cases "a = 0"; cases "b = 0") (auto simp: signed_divide_int_def sgn_if)

lemma sint_go_div:
  assumes "0 \<le> sint a" and "0 < sint b"
  shows "sint (go_div a b) = sint a div sint b"
proof -
  have "0 \<le> sint a div sint b" using assms by (simp add: pos_imp_zdiv_nonneg_iff)
  moreover have "sint a div sint b \<le> sint a" using zdiv_mono2 [of "sint a" 1 "sint b"] assms by simp
  moreover have "sint a < 2 ^ 63" using sint_lt [of a] by simp
  ultimately show ?thesis
    using assms by (simp add: go_div_def sdiv_nonneg signed_of_int signed_take_bit_int_eq_self)
qed

lemma sint_mult_10:
  fixes a :: int64
  assumes "0 \<le> sint a" and "sint a * 10 < 2 ^ 63"
  shows "sint (a * 10) = sint a * 10"
  using assms by (simp add: sint_word_ariths signed_take_bit_int_eq_self)

lemma calculateScore_eq:
  assumes "0 \<le> sint r" and "0 \<le> sint c" and "sint c * 10 < 2 ^ 63"
  shows "sint (calculateScore r c) = (if sint c = 0 \<or> sint r > sint c then 0 else ((sint c - sint r) * 10) div sint c)"
proof (cases "sint c = 0 \<or> sint r > sint c")
  case True
  then have "c = 0 \<or> sint r > sint c" using signed_word_eqI [of c 0] by auto
  then show ?thesis using True by (auto simp: calculateScore_def)
next
  case False
  have d: "sint (c - r) = sint c - sint r" using assms False by (intro sint_diff) auto
  have m: "sint ((c - r) * 10) = (sint c - sint r) * 10"
    using assms False by (subst sint_mult_10) (auto simp: d)
  have "0 \<le> sint ((c - r) * 10)" "0 < sint c" unfolding m using assms(2) False by simp_all
  note q = sint_go_div [OF this, unfolded m]
  have "c \<noteq> 0" using False by auto
  then show ?thesis using False q unfolding calculateScore_def by (simp only: if_False de_Morgan_disj simp_thms)
qed

lemma calculateScore_bounds:
  assumes "0 \<le> sint r" and "0 \<le> sint c" and "sint c * 10 < 2 ^ 63"
  shows "0 \<le> sint (calculateScore r c)" "sint (calculateScore r c) \<le> 10"
proof -
  show "0 \<le> sint (calculateScore r c)"
    unfolding calculateScore_eq [OF assms] using assms by (auto intro!: div_int_pos_iff [THEN iffD2])
  have "((sint c - sint r) * 10) div sint c \<le> (sint c * 10) div sint c" if "0 < sint c"
    using that assms(1) by (intro zdiv_mono1) auto
  then show "sint (calculateScore r c) \<le> 10"
    unfolding calculateScore_eq [OF assms] using assms by auto
qed

text \<open>The score of LeastRequestedPriority for one resource is the free share of the capacity
  in tenths, rounded down, between 0 and 10; asking for more of the resource never raises it.\<close>

theorem least_requested_score:
  assumes "0 \<le> sint r" and "sint r \<le> sint r'" and "0 \<le> sint c" and "sint c * 10 < 2 ^ 63"
  shows "sint (calculateScore r c) = (if sint c = 0 \<or> sint r > sint c then 0 else ((sint c - sint r) * 10) div sint c) \<and>
     0 \<le> sint (calculateScore r c) \<and> sint (calculateScore r c) \<le> 10 \<and>
     sint (calculateScore r' c) \<le> sint (calculateScore r c)"
proof -
  have r': "0 \<le> sint r'" using assms by simp
  have "((sint c - sint r') * 10) div sint c \<le> ((sint c - sint r) * 10) div sint c" if "0 < sint c"
    using that assms(2) by (intro zdiv_mono1) auto
  then have "sint (calculateScore r' c) \<le> sint (calculateScore r c)"
    using calculateScore_bounds(1) [OF assms(1,3,4)] assms(2,3)
    unfolding calculateScore_eq [OF assms(1,3,4)] calculateScore_eq [OF r' assms(3,4)] by auto
  then show ?thesis
    using calculateScore_eq [OF assms(1,3,4)] calculateScore_bounds [OF assms(1,3,4)] by simp
qed

lemma img_consts: "sint minImgSize = 24117248" "sint maxImgSize = 1048576000"
  "sint (maxImgSize - minImgSize) = 1024458752"
  by (simp_all add: minImgSize_def maxImgSize_def mb_def)

lemma calculateScoreFromSize_eq:
  "sint (calculateScoreFromSize s) =
     (if sint s < 24117248 then 0 else if 1048576000 \<le> sint s then 10
      else (10 * (sint s - 24117248)) div 1024458752 + 1)"
proof (cases "24117248 \<le> sint s \<and> sint s < 1048576000")
  case False
  then show ?thesis by (auto simp: calculateScoreFromSize_def img_consts)
next
  case True
  have d: "sint (s - minImgSize) = sint s - 24117248"
    using True by (subst sint_diff) (simp_all add: img_consts)
  have "sint ((s - minImgSize) * 10) = (sint s - 24117248) * 10"
    using True by (subst sint_mult_10) (simp_all add: d)
  then have m: "sint (10 * (s - minImgSize)) = 10 * (sint s - 24117248)" by (simp add: mult.commute)
  have "0 \<le> sint (10 * (s - minImgSize))" "0 < sint (maxImgSize - minImgSize)"
    unfolding m img_consts using True by simp_all
  note q = sint_go_div [OF this, unfolded m img_consts]
  define g where "g = go_div (10 * (s - minImgSize)) (maxImgSize - minImgSize)"
  have "0 \<le> sint g" "sint g < 10"
    unfolding g_def q using True by (auto intro: pos_imp_zdiv_nonneg_iff [THEN iffD2] simp: div_less_iff_less_mult)
  then have "sint (g + 1) = sint g + 1" by (subst sint_add) simp_all
  then have "sint (go_div (10 * (s - minImgSize)) (maxImgSize - minImgSize) + 1) = (10 * (sint s - 24117248)) div 1024458752 + 1"
    unfolding g_def q .
  moreover have "s \<noteq> 0" using True by auto
  ultimately show ?thesis using True unfolding calculateScoreFromSize_def img_consts by auto
qed

text \<open>The image locality score lies between 0 and 10 for every int64 size, is 0 exactly below
  the smallest size that counts, 10 from the largest on, and never falls when the size grows.\<close>

theorem image_score_monotone:
  "0 \<le> sint (calculateScoreFromSize s) \<and> sint (calculateScoreFromSize s) \<le> 10 \<and>
   (sint (calculateScoreFromSize s) = 0 \<longleftrightarrow> sint s < sint minImgSize) \<and>
   (sint maxImgSize \<le> sint s \<longrightarrow> sint (calculateScoreFromSize s) = 10) \<and>
   (sint s \<le> sint s' \<longrightarrow> sint (calculateScoreFromSize s) \<le> sint (calculateScoreFromSize s'))"
proof -
  have lo: "0 \<le> (10 * (sint s - 24117248)) div 1024458752" if "24117248 \<le> sint s" for s :: int64
    using that by (simp add: pos_imp_zdiv_nonneg_iff)
  have hi: "(10 * (sint s - 24117248)) div 1024458752 < 10" if "sint s < 1048576000" for s :: int64
    using that by (simp add: div_less_iff_less_mult)
  have mono: "(10 * (sint s - 24117248)) div 1024458752 \<le> (10 * (sint s' - 24117248)) div 1024458752" if "sint s \<le> sint s'"
    using that by (intro zdiv_mono1) auto
  show ?thesis
    using lo [of s] hi [of s] lo [of s'] hi [of s'] mono
    by (auto simp: calculateScoreFromSize_eq img_consts)
qed

section \<open>Witnesses\<close>

theorem image_score_monotone_witness:
  "sint (calculateScoreFromSize (100 * mb)) \<le> sint (calculateScoreFromSize (900 * mb)) \<and>
   sint (calculateScoreFromSize maxImgSize) = 10"
  using image_score_monotone [of "100 * mb" "900 * mb"] image_score_monotone [of maxImgSize maxImgSize]
  by (simp add: mb_def)

end
