(* ===== verification/Scheduler_Safety.thy ===== *)
theory Scheduler_Safety
  imports Scheduler_Priorities
begin

text \<open>
  The scheduler as a whole: scheduleOne, the cache and the events of the watches as one
  transition system. If all pods of the cluster are placed by this scheduler, with at least the
  general predicates and the disk conflict predicate configured, no node ever has more requested
  of it than it can allocate, runs more pods than it allows, or runs two pods that want the same
  host port or conflicting volumes.

  \<open>cluster\<close> pairs the concrete state with the abstract table of the cache; the assumptions of its
  rules say which events are considered: pods are confirmed while they are still assumed, their
  demands do not change, and nodes keep their allocatable resources while they exist.
\<close>

section \<open>The transition system\<close>

definition pod_sane :: "Pod \<Rightarrow> bool" where
  "pod_sane p \<longleftrightarrow>
     0 \<le> sint (rr_milliCPU (container_request p)) \<and> sint (rr_milliCPU (getResourceRequest p)) < 2 ^ 62 \<and>
     0 \<le> sint (rr_memory (container_request p)) \<and> sint (rr_memory (getResourceRequest p)) < 2 ^ 62 \<and>
     0 \<le> sint (rr_nvidiaGPU (container_request p)) \<and> sint (rr_nvidiaGPU (getResourceRequest p)) < 2 ^ 62"

definition node_sane :: "Node \<Rightarrow> bool" where
  "node_sane nd \<longleftrightarrow>
     0 \<le> sint (q_MilliValue (ResourceList_Cpu (node_Allocatable nd))) \<and>
     sint (q_MilliValue (ResourceList_Cpu (node_Allocatable nd))) < 2 ^ 62 \<and>
     0 \<le> sint (q_Value (ResourceList_Memory (node_Allocatable nd))) \<and>
     sint (q_Value (ResourceList_Memory (node_Allocatable nd))) < 2 ^ 62 \<and>
     0 \<le> sint (q_Value (ResourceList_NvidiaGPU (node_Allocatable nd))) \<and>
     sint (q_Value (ResourceList_NvidiaGPU (node_Allocatable nd))) < 2 ^ 62 \<and>
     0 \<le> sint (q_Value (ResourceList_Pods (node_Allocatable nd))) \<and>
     sint (q_Value (ResourceList_Pods (node_Allocatable nd))) < 2 ^ 62"

definition same_demand :: "Pod \<Rightarrow> Pod \<Rightarrow> bool" where
  "same_demand p q \<longleftrightarrow> pod_NodeName p = pod_NodeName q \<and> pod_Containers p = pod_Containers q \<and>
     pod_InitContainers p = pod_InitContainers q \<and> pod_Volumes p = pod_Volumes q"

fun event_ok :: "sched_call \<Rightarrow> sched_spec \<Rightarrow> bool" where
  "event_ok (CallAssume pod now) s = False"
| "event_ok (CallAdd pod) s = (sp_pods s (pod_key pod) \<noteq> None)"
| "event_ok (CallUpdate oldPod newPod) s =
     (case sp_pods s (pod_key oldPod) of Some (None, p) \<Rightarrow> same_demand newPod p | _ \<Rightarrow> True)"
| "event_ok (CallAddNode nd) s =
     (node_sane nd \<and> sp_nodes s (node_Name nd) = None \<and> pods_on (pods_of s) (node_Name nd) = {})"
| "event_ok (CallUpdateNode nd nd') s =
     (case sp_nodes s (node_Name nd') of Some nd0 \<Rightarrow> node_Allocatable nd' = node_Allocatable nd0 | None \<Rightarrow> False)"
| "event_ok _ s = True"

inductive cluster ::
  "int \<Rightarrow> genericScheduler \<Rightarrow> genericScheduler \<Rightarrow> schedulerCache \<Rightarrow> sched_spec \<Rightarrow> bool" for ttl g0 where
  start: "cluster ttl g0 g0 (newSchedulerCache ttl) spec_empty"
| schedule:
  "cluster ttl g0 g c s \<Longrightarrow> valid_choices ch g nodes \<Longrightarrow> length nodes < 2 ^ 64 \<Longrightarrow> pod_sane pod \<Longrightarrow>
   sp_pods s (pod_key pod) = None \<Longrightarrow>
   scheduleOne ch now pod (Inr nodes) (g, c) = Some (Inr dest, g', c') \<Longrightarrow>
   cluster ttl g0 g' c' (snd (spec_apply ttl (CallAssume (pod\<lparr>pod_NodeName := dest\<rparr>) now) s))"
| unschedulable:
  "cluster ttl g0 g c s \<Longrightarrow> scheduleOne ch now pod lister (g, c) = Some (Inl err, g', c') \<Longrightarrow>
   cluster ttl g0 g' c' s"
| watch_event:
  "cluster ttl g0 g c s \<Longrightarrow> call_ok call s \<Longrightarrow> event_ok call s \<Longrightarrow> sched_apply call c = Some (e, c') \<Longrightarrow>
   cluster ttl g0 g c' (snd (spec_apply ttl call s))"

section \<open>What fits on a node\<close>

definition within_node :: "Node \<Rightarrow> Pod set \<Rightarrow> bool" where
  "within_node nd P \<longleftrightarrow>
     (\<Sum>p \<in> P. sint (rr_milliCPU (container_request p))) \<le> sint (q_MilliValue (ResourceList_Cpu (node_Allocatable nd))) \<and>
     (\<Sum>p \<in> P. sint (rr_memory (container_request p))) \<le> sint (q_Value (ResourceList_Memory (node_Allocatable nd))) \<and>
     (\<Sum>p \<in> P. sint (rr_nvidiaGPU (container_request p))) \<le> sint (q_Value (ResourceList_NvidiaGPU (node_Allocatable nd))) \<and>
     int (card P) \<le> sint (q_Value (ResourceList_Pods (node_Allocatable nd))) \<and>
     (\<forall>p \<in> P. \<forall>q \<in> P. p \<noteq> q \<longrightarrow> host_ports p \<inter> host_ports q = {} \<and> \<not> pods_conflict p q)"

lemma within_node_empty: "node_sane nd \<Longrightarrow> within_node nd {}"
  by (simp add: within_node_def node_sane_def)

lemma within_node_mono:
  assumes "within_node nd P" and "finite P" and "Q \<subseteq> P" and "\<forall>p \<in> P. pod_sane p"
  shows "within_node nd Q"
proof -
  have "(\<Sum>p \<in> Q. f p) \<le> (\<Sum>p \<in> P. f p)" if "\<And>p. p \<in> P \<Longrightarrow> 0 \<le> f p" for f :: "Pod \<Rightarrow> int"
    using assms(2,3) that by (intro sum_mono2) auto
  note le = this [of "\<lambda>p. sint (rr_milliCPU (container_request p))"]
    this [of "\<lambda>p. sint (rr_memory (container_request p))"]
    this [of "\<lambda>p. sint (rr_nvidiaGPU (container_request p))"]
  have sums: "(\<Sum>p \<in> Q. sint (rr_milliCPU (container_request p))) \<le> (\<Sum>p \<in> P. sint (rr_milliCPU (container_request p)))"
    "(\<Sum>p \<in> Q. sint (rr_memory (container_request p))) \<le> (\<Sum>p \<in> P. sint (rr_memory (container_request p)))"
    "(\<Sum>p \<in> Q. sint (rr_nvidiaGPU (container_request p))) \<le> (\<Sum>p \<in> P. sint (rr_nvidiaGPU (container_request p)))"
    using le assms(4) by (simp_all add: pod_sane_def)
  have pairs: "\<forall>p \<in> Q. \<forall>q \<in> Q. p \<noteq> q \<longrightarrow> host_ports p \<inter> host_ports q = {} \<and> \<not> pods_conflict p q"
    using assms(1,3) unfolding within_node_def by blast
  show ?thesis
    unfolding within_node_def
    by (intro conjI pairs; use assms(1) sums card_mono [OF assms(2,3)] in \<open>simp add: within_node_def\<close>)
qed

lemma same_demand_facts:
  assumes "same_demand p q"
  shows "container_request p = container_request q" "getResourceRequest p = getResourceRequest q"
    "host_ports p = host_ports q" "pods_conflict p = pods_conflict q" "pod_sane p = pod_sane q"
proof -
  show c: "container_request p = container_request q" "getResourceRequest p = getResourceRequest q"
    "host_ports p = host_ports q" "pods_conflict p = pods_conflict q"
    using assms
    by (simp_all add: same_demand_def container_request_def getResourceRequest_def host_ports_def
        pods_conflict_def fun_eq_iff)
  show "pod_sane p = pod_sane q" by (simp add: pod_sane_def c)
qed

lemma pods_conflict_cong: "same_demand p q \<Longrightarrow> pods_conflict r p = pods_conflict r q"
  using same_demand_facts(4) pods_conflict_sym by metis

lemma within_node_swap:
  assumes w: "within_node nd (insert q P)" and fin: "finite P" and q: "q \<notin> P" and p: "p \<notin> P" and d: "same_demand p q"
  shows "within_node nd (insert p P)"
proof -
  note facts = same_demand_facts [OF d] pods_conflict_cong [OF d]
  have "(\<Sum>x \<in> insert p P. f x) = (\<Sum>x \<in> insert q P. f x)" if "f p = f q" for f :: "Pod \<Rightarrow> int"
    using fin p q that by simp
  moreover have "card (insert p P) = card (insert q P)" using fin p q by simp
  moreover have "host_ports x \<inter> host_ports y = {} \<and> \<not> pods_conflict x y"
    if xy: "x \<in> insert p P" "y \<in> insert p P" "x \<noteq> y" for x y
  proof -
    have old: "host_ports x \<inter> host_ports y = {} \<and> \<not> pods_conflict x y"
      if "x \<in> insert q P" "y \<in> insert q P" "x \<noteq> y" for x y
      using w that unfolding within_node_def by blast
    define f where "f = (\<lambda>x. if x = p then q else x)"
    have f: "host_ports (f z) = host_ports z" "pods_conflict (f z) = pods_conflict z"
      "pods_conflict r (f z) = pods_conflict r z" for z r
      using facts by (simp_all add: f_def)
    have "f x \<in> insert q P" "f y \<in> insert q P" "f x \<noteq> f y" using xy p q by (auto simp: f_def)
    from old [OF this] show ?thesis by (simp add: f)
  qed
  ultimately show ?thesis using w unfolding within_node_def by (simp add: facts)
qed

text \<open>The sums the predicate computes are the real ones on a node that is not overcommitted.\<close>

lemma requested_total_sums:
  assumes sane: "\<forall>p \<in> set ps. pod_sane p" and dist: "distinct ps"
    and w: "within_node nd (set ps)" and nd: "node_sane nd"
  shows "sint (r_MilliCPU (requested_total ps)) = (\<Sum>p \<in> set ps. sint (rr_milliCPU (container_request p)))"
    "sint (r_Memory (requested_total ps)) = (\<Sum>p \<in> set ps. sint (rr_memory (container_request p)))"
    "sint (r_NvidiaGPU (requested_total ps)) = (\<Sum>p \<in> set ps. sint (rr_nvidiaGPU (container_request p)))"
proof -
  have sum: "sint (\<Sum>p\<leftarrow>ps. f p) = (\<Sum>p \<in> set ps. sint (f p))"
    if "\<And>p. p \<in> set ps \<Longrightarrow> 0 \<le> sint (f p)" "(\<Sum>p \<in> set ps. sint (f p)) < 2 ^ 62" for f :: "Pod \<Rightarrow> int64"
    using that by (subst sint_sum_list) (simp_all add: sum_list_distinct_conv_sum_set [OF dist])
  show "sint (r_MilliCPU (requested_total ps)) = (\<Sum>p \<in> set ps. sint (rr_milliCPU (container_request p)))"
    unfolding requested_total_def Resource.select_convs calculateResource_request
    by (rule sum) (use sane w nd in \<open>auto simp: pod_sane_def within_node_def node_sane_def\<close>)
  show "sint (r_Memory (requested_total ps)) = (\<Sum>p \<in> set ps. sint (rr_memory (container_request p)))"
    unfolding requested_total_def Resource.select_convs calculateResource_request
    by (rule sum) (use sane w nd in \<open>auto simp: pod_sane_def within_node_def node_sane_def\<close>)
  show "sint (r_NvidiaGPU (requested_total ps)) = (\<Sum>p \<in> set ps. sint (rr_nvidiaGPU (container_request p)))"
    unfolding requested_total_def Resource.select_convs calculateResource_request
    by (rule sum) (use sane w nd in \<open>auto simp: pod_sane_def within_node_def node_sane_def\<close>)
qed

lemma resource_step:
  fixes r u :: int64
  assumes "0 \<le> c" and "c \<le> sint r" and "sint r < 2 ^ 62" and "sint u = S" and "0 \<le> S" and "S \<le> A" and "A < 2 ^ 62"
    and "r = 0 \<or> sint (r + u) \<le> A"
  shows "c + S \<le> A"
proof (cases "r = 0")
  case True
  then show ?thesis using assms by simp
next
  case False
  have "sint (r + u) = sint r + sint u" using assms by (intro sint_add) auto
  then show ?thesis using False assms by linarith
qed

lemma fits_resources_step:
  assumes fit: "PodFitsResources h pod (Some info) = Some (True, err)" and nd: "ni_node info = Some nd"
    and used: "RequestedResource h (Some info) = requested_total (ni_pods info)"
    and dist: "distinct (ni_pods info)" and sane: "\<forall>p \<in> set (ni_pods info). pod_sane p" "pod_sane pod" "node_sane nd"
    and w: "within_node nd (set (ni_pods info))"
  shows "sint (rr_milliCPU (container_request pod)) + (\<Sum>p \<in> set (ni_pods info). sint (rr_milliCPU (container_request p)))
      \<le> sint (q_MilliValue (ResourceList_Cpu (node_Allocatable nd)))"
    "sint (rr_memory (container_request pod)) + (\<Sum>p \<in> set (ni_pods info). sint (rr_memory (container_request p)))
      \<le> sint (q_Value (ResourceList_Memory (node_Allocatable nd)))"
    "sint (rr_nvidiaGPU (container_request pod)) + (\<Sum>p \<in> set (ni_pods info). sint (rr_nvidiaGPU (container_request p)))
      \<le> sint (q_Value (ResourceList_NvidiaGPU (node_Allocatable nd)))"
    "int (length (ni_pods info)) + 1 \<le> sint (q_Value (ResourceList_Pods (node_Allocatable nd)))"
proof -
  note sums = requested_total_sums [OF sane(1) dist w sane(3), folded used]
  have nn: "0 \<le> (\<Sum>p \<in> set (ni_pods info). sint (rr_milliCPU (container_request p)))"
    "0 \<le> (\<Sum>p \<in> set (ni_pods info). sint (rr_memory (container_request p)))"
    "0 \<le> (\<Sum>p \<in> set (ni_pods info). sint (rr_nvidiaGPU (container_request p)))"
    using sane(1) by (auto simp: pod_sane_def intro!: sum_nonneg)
  obtain count: "sint (word_of_nat (length (ni_pods info)) + 1 :: int64) \<le> sint (q_Value (ResourceList_Pods (node_Allocatable nd)))"
    and res: "(rr_milliCPU (getResourceRequest pod) = 0 \<and> rr_memory (getResourceRequest pod) = 0 \<and>
          rr_nvidiaGPU (getResourceRequest pod) = 0) \<or>
         (sint (rr_milliCPU (getResourceRequest pod) + r_MilliCPU (RequestedResource h (Some info))) \<le>
            sint (q_MilliValue (ResourceList_Cpu (node_Allocatable nd))) \<and>
          sint (rr_memory (getResourceRequest pod) + r_Memory (RequestedResource h (Some info))) \<le>
            sint (q_Value (ResourceList_Memory (node_Allocatable nd))) \<and>
          sint (rr_nvidiaGPU (getResourceRequest pod) + r_NvidiaGPU (RequestedResource h (Some info))) \<le>
            sint (q_Value (ResourceList_NvidiaGPU (node_Allocatable nd))))"
    using PodFitsResources_fits [OF fit] nd by (fastforce simp: NodeInfo_Node_def NodeInfo_Pods_def)
  note le = getResourceRequest_ge [of pod]
  note facts = sane(2,3) [unfolded pod_sane_def node_sane_def] w [unfolded within_node_def]
  show "sint (rr_milliCPU (container_request pod)) + (\<Sum>p \<in> set (ni_pods info). sint (rr_milliCPU (container_request p)))
      \<le> sint (q_MilliValue (ResourceList_Cpu (node_Allocatable nd)))"
    by (rule resource_step [where r = "rr_milliCPU (getResourceRequest pod)" and u = "r_MilliCPU (RequestedResource h (Some info))"])
      (use facts sums(1) nn(1) le res in auto)
  show "sint (rr_memory (container_request pod)) + (\<Sum>p \<in> set (ni_pods info). sint (rr_memory (container_request p)))
      \<le> sint (q_Value (ResourceList_Memory (node_Allocatable nd)))"
    by (rule resource_step [where r = "rr_memory (getResourceRequest pod)" and u = "r_Memory (RequestedResource h (Some info))"])
      (use facts sums(2) nn(2) le res in auto)
  show "sint (rr_nvidiaGPU (container_request pod)) + (\<Sum>p \<in> set (ni_pods info). sint (rr_nvidiaGPU (container_request p)))
      \<le> sint (q_Value (ResourceList_NvidiaGPU (node_Allocatable nd)))"
    by (rule resource_step [where r = "rr_nvidiaGPU (getResourceRequest pod)" and u = "r_NvidiaGPU (RequestedResource h (Some info))"])
      (use facts sums(3) nn(3) le res in auto)
  have "length (ni_pods info) < 2 ^ 62"
    using facts distinct_card [OF dist] by simp
  then show "int (length (ni_pods info)) + 1 \<le> sint (q_Value (ResourceList_Pods (node_Allocatable nd)))"
    using count by (simp add: sint_of_length)
qed

definition placed :: "Pod \<Rightarrow> string \<Rightarrow> Pod" where
  "placed pod dest = pod\<lparr>pod_NodeName := dest\<rparr>"

lemma placed_facts [simp]:
  "container_request (placed pod dest) = container_request pod" "host_ports (placed pod dest) = host_ports pod"
  "pods_conflict (placed pod dest) q = pods_conflict pod q" "pod_sane (placed pod dest) = pod_sane pod"
  "pod_NodeName (placed pod dest) = dest" "pod_key (placed pod dest) = pod_key pod"
  by (simp_all add: placed_def container_request_def host_ports_def pods_conflict_def pod_sane_def
      getResourceRequest_def pod_key_def)

lemma within_node_add:
  assumes gen: "GeneralPredicates env h pod (Some info) = fits_ok" and disk: "NoDiskConflict h pod (Some info) = fits_ok"
    and nd: "ni_node info = Some nd"
    and used: "RequestedResource h (Some info) = requested_total (ni_pods info)"
    and dist: "distinct (ni_pods info)" and sane: "\<forall>p \<in> set (ni_pods info). pod_sane p" "pod_sane pod" "node_sane nd"
    and w: "within_node nd (set (ni_pods info))" and new: "placed pod dest \<notin> set (ni_pods info)"
  shows "within_node nd (insert (placed pod dest) (set (ni_pods info)))"
proof -
  obtain err where fit: "PodFitsResources h pod (Some info) = Some (True, err)"
    using GeneralPredicates_fits(1) [OF gen] by auto
  note steps = fits_resources_step [OF fit nd used dist sane w]
  have ports: "host_ports pod \<inter> host_ports q = {}" if "q \<in> set (ni_pods info)" for q
    using GeneralPredicates_fits(2) [OF gen] that
    by (auto simp: PodFitsHostPorts_iff NodeInfo_Pods_def split: if_splits)
  have vols: "\<not> pods_conflict pod q \<and> \<not> pods_conflict q pod" if "q \<in> set (ni_pods info)" for q
    using NoDiskConflict_fits [OF disk] that pods_conflict_sym by (auto simp: NodeInfo_Pods_def)
  have conf: "pods_conflict q (placed pod dest) = pods_conflict q pod" for q
    by (simp add: pods_conflict_sym [of q])
  have pairs: "\<forall>p \<in> insert (placed pod dest) (set (ni_pods info)). \<forall>q \<in> insert (placed pod dest) (set (ni_pods info)).
      p \<noteq> q \<longrightarrow> host_ports p \<inter> host_ports q = {} \<and> \<not> pods_conflict p q"
    using w ports vols conf unfolding within_node_def by (auto simp: Int_commute)
  show ?thesis
    unfolding within_node_def
    by (intro conjI pairs; use steps new distinct_card [OF dist] in simp)
qed

section \<open>The invariant\<close>

definition cluster_safe :: "sched_spec \<Rightarrow> bool" where
  "cluster_safe s \<longleftrightarrow> (\<forall>p \<in> ran (pods_of s). pod_sane p) \<and>
     (\<forall>name nd. sp_nodes s name = Some nd \<longrightarrow> node_sane nd \<and> within_node nd (pods_on (pods_of s) name))"

lemma finite_pods_on:
  assumes "cache_refines s c"
  shows "finite (pods_on (pods_of s) name)"
proof (cases "sc_nodes c name")
  case None
  then show ?thesis using cache_refines_known [OF assms] by simp
next
  case (Some n)
  show ?thesis by (simp flip: cache_refines_node(1) [OF assms Some])
qed

lemma cluster_safe_submap:
  assumes safe: "cluster_safe s" and R: "cache_refines s c"
    and sub: "pods_of s' \<subseteq>\<^sub>m pods_of s" "sp_nodes s' \<subseteq>\<^sub>m sp_nodes s"
  shows "cluster_safe s'"
proof -
  have ran: "ran (pods_of s') \<subseteq> ran (pods_of s)"
    using sub(1) unfolding ran_def map_le_def by (auto simp: dom_def) metis
  then have on: "pods_on (pods_of s') name \<subseteq> pods_on (pods_of s) name" for name by (auto simp: pods_on_def)
  have "node_sane nd \<and> within_node nd (pods_on (pods_of s') name)" if "sp_nodes s' name = Some nd" for name nd
  proof -
    have "sp_nodes s name = Some nd" using sub(2) that by (auto simp: map_le_def dom_def)
    then have "node_sane nd" "within_node nd (pods_on (pods_of s) name)" using safe by (simp_all add: cluster_safe_def)
    moreover have "\<forall>p \<in> pods_on (pods_of s) name. pod_sane p" using safe by (simp add: cluster_safe_def pods_on_def)
    ultimately show ?thesis using within_node_mono [OF _ finite_pods_on [OF R] on] by blast
  qed
  then show ?thesis using safe ran by (auto simp: cluster_safe_def)
qed

lemma cluster_safe_add:
  assumes safe: "cluster_safe s" and sane: "pod_sane p" and free: "pods_of s k = None"
    and fit: "\<And>nd. sp_nodes s (pod_NodeName p) = Some nd \<Longrightarrow> within_node nd (insert p (pods_on (pods_of s) (pod_NodeName p)))"
  shows "cluster_safe (s\<lparr>sp_pods := (sp_pods s)(k \<mapsto> (d, p))\<rparr>)"
  using assms by (auto simp: cluster_safe_def pods_on_add)

lemma cluster_safe_update:
  assumes safe: "cluster_safe s" and R: "cache_refines s c" and p: "pods_of s k = Some p"
    and key: "pod_key new = k" and d: "same_demand new p"
  shows "cluster_safe (s\<lparr>sp_pods := (sp_pods s)(k \<mapsto> (None, new))\<rparr>)"
proof -
  have km: "keyed (pods_of s)" using R by (simp add: cache_refines_def nodes_ok_def)
  define M where "M = (pods_of s)(k := None)"
  have new: "new \<notin> ran M" using km key unfolding M_def keyed_def by (auto simp: ran_def)
  have sane: "\<forall>q \<in> ran M. pod_sane q" "pod_sane p"
    using safe p by (auto simp: cluster_safe_def M_def ran_def split: if_splits)
  have nn: "pod_NodeName new = pod_NodeName p" using d by (simp add: same_demand_def)
  have on: "pods_on (M(k \<mapsto> new)) name =
      (if pod_NodeName p = name then insert new (pods_on (pods_of s) name - {p}) else pods_on (pods_of s) name)" for name
    using pods_on_add [of M k new name] pods_on_remove [OF km p, of name] nn by (simp add: M_def)
  have "within_node nd (pods_on (M(k \<mapsto> new)) name)" if nd: "sp_nodes s name = Some nd" for name nd
  proof (cases "pod_NodeName p = name")
    case True
    let ?P = "pods_on (pods_of s) name"
    have ins: "insert p (?P - {p}) = ?P" using p True by (auto simp: pods_on_def intro: ranI)
    have "new \<notin> ?P - {p}"
      using new pods_on_remove [OF km p, of name] True by (auto simp: M_def pods_on_def)
    then have "within_node nd (insert new (?P - {p}))"
      using within_node_swap [of nd p "?P - {p}" new] safe nd finite_pods_on [OF R] d ins
      by (simp add: cluster_safe_def)
    then show ?thesis using on True by simp
  qed (use safe nd on in \<open>simp add: cluster_safe_def\<close>)
  moreover have "pods_of (s\<lparr>sp_pods := (sp_pods s)(k \<mapsto> (None, new))\<rparr>) = M(k \<mapsto> new)" by (simp add: M_def)
  moreover have "M k = None" by (simp add: M_def)
  ultimately show ?thesis
    using safe sane same_demand_facts(5) [OF d] by (simp add: cluster_safe_def)
qed

lemma cluster_safe_node:
  assumes "cluster_safe s" and "node_sane nd" and "within_node nd (pods_on (pods_of s) (node_Name nd))"
  shows "cluster_safe (s\<lparr>sp_nodes := (sp_nodes s)(node_Name nd \<mapsto> nd)\<rparr>)"
  using assms by (simp add: cluster_safe_def)

lemma cluster_safe_event:
  assumes safe: "cluster_safe s" and R: "cache_refines s c" and ok: "call_ok call s" "event_ok call s"
  shows "cluster_safe (snd (spec_apply ttl call s))"
proof (cases call)
  case (CallAdd pod)
  consider p where "sp_pods s (pod_key pod) = Some (None, p)" | d p where "sp_pods s (pod_key pod) = Some (Some d, p)"
    using ok CallAdd by (auto simp: not_None_eq) (metis option.exhaust)
  then show ?thesis
  proof cases
    case 2
    then have "pods_of s (pod_key pod) = Some p" by (simp add: pods_of_def)
    then show ?thesis using safe CallAdd 2 by (simp add: cluster_safe_def fun_upd_idem)
  qed (use safe CallAdd in simp)
next
  case (CallUpdate p p')
  show ?thesis
  proof (cases "\<exists>q. sp_pods s (pod_key p) = Some (None, q)")
    case True
    then obtain q where q: "sp_pods s (pod_key p) = Some (None, q)" by blast
    then show ?thesis
      using cluster_safe_update [OF safe R cache_refines_Added(3) [OF R q], of p'] ok CallUpdate by simp
  qed (use safe CallUpdate in \<open>auto split: option.splits\<close>)
next
  case (CallRemove pod)
  have "pods_of (snd (spec_apply ttl call s)) \<subseteq>\<^sub>m pods_of s" "sp_nodes (snd (spec_apply ttl call s)) \<subseteq>\<^sub>m sp_nodes s"
    using CallRemove by (auto simp: map_le_def split: option.splits)
  then show ?thesis by (rule cluster_safe_submap [OF safe R])
next
  case (CallAddNode nd)
  then show ?thesis using cluster_safe_node [OF safe, of nd] ok by (simp add: within_node_empty)
next
  case (CallUpdateNode nd0 nd)
  then obtain nd1 where nd1: "sp_nodes s (node_Name nd) = Some nd1" "node_Allocatable nd = node_Allocatable nd1"
    using ok by (auto split: option.splits)
  then have "node_sane nd" "within_node nd (pods_on (pods_of s) (node_Name nd))"
    using safe by (auto simp: cluster_safe_def node_sane_def within_node_def)
  then show ?thesis using cluster_safe_node [OF safe] CallUpdateNode by simp
next
  case (CallRemoveNode nd)
  have "pods_of (snd (spec_apply ttl call s)) \<subseteq>\<^sub>m pods_of s" "sp_nodes (snd (spec_apply ttl call s)) \<subseteq>\<^sub>m sp_nodes s"
    using CallRemoveNode by (auto simp: map_le_def)
  then show ?thesis by (rule cluster_safe_submap [OF safe R])
next
  case (CallCleanup ks now)
  have "pods_of (snd (spec_apply ttl call s)) \<subseteq>\<^sub>m pods_of s" "sp_nodes (snd (spec_apply ttl call s)) \<subseteq>\<^sub>m sp_nodes s"
    using CallCleanup by (auto simp: map_le_def pods_of_def split: option.splits if_splits)
  then show ?thesis by (rule cluster_safe_submap [OF safe R])
qed (use ok in simp)

section \<open>Scheduling keeps it\<close>

definition same_config :: "genericScheduler \<Rightarrow> genericScheduler \<Rightarrow> bool" where
  "same_config g g' \<longleftrightarrow> gs_predicates g' = gs_predicates g \<and> gs_prioritizers g' = gs_prioritizers g \<and>
     gs_extenders g' = gs_extenders g"

lemma Schedule_config: "Schedule ch c pod lister g = Some (r, g') \<Longrightarrow> same_config g g'"
  by (auto simp: Schedule_def same_config_def Let_def split: sum.splits option.splits if_splits prod.splits)

lemma scheduleOne_config: "scheduleOne ch now pod lister (g, c) = Some (r, g', c') \<Longrightarrow> same_config g g'"
  by (auto simp: scheduleOne_def Let_def split: option.splits sum.splits dest!: Schedule_config)

lemma scheduleOne_Inr:
  assumes "scheduleOne ch now pod lister (g, c) = Some (Inr dest, g', c')"
  shows "Schedule ch c pod lister g = Some (Inr dest, g')" "c' = snd (assumePod (placed pod dest) now c)"
  using assms by (auto simp: scheduleOne_def Let_def placed_def split: option.splits sum.splits)

lemma scheduleOne_Inl: "scheduleOne ch now pod lister (g, c) = Some (Inl err, g', c') \<Longrightarrow> c' = c"
  by (auto simp: scheduleOne_def Let_def split: option.splits sum.splits)

definition config_ok :: "('f :: ord) pred_env \<Rightarrow> genericScheduler \<Rightarrow> bool" where
  "config_ok env g \<longleftrightarrow> GeneralPredicates env \<in> ran (gs_predicates g) \<and> NoDiskConflict \<in> ran (gs_predicates g) \<and>
     (\<forall>c \<in> set (gs_prioritizers g). node_prioritizer (pc_Function c)) \<and> (\<forall>e \<in> set (gs_extenders g). extender_ok e)"

lemma cluster_safe_schedule:
  assumes safe: "cluster_safe s" and R: "cache_refines s c" and cfg: "config_ok env g"
    and ch: "valid_choices ch g nodes" "length nodes < 2 ^ 64" and sane: "pod_sane pod"
    and free: "sp_pods s (pod_key pod) = None"
    and run: "Schedule ch c pod (Inr nodes) g = Some (Inr dest, g')"
  shows "cluster_safe (snd (spec_apply ttl (CallAssume (placed pod dest) now) s))"
proof -
  note st = cache_refines_None [OF R free]
  have fits: "node_fits (gs_predicates g) (sc_heap c) pod (GetNodeNameToInfoMap c dest)"
    using Schedule_host [OF run ch] cfg by (auto simp: config_ok_def)
  then have gen: "GeneralPredicates env (sc_heap c) pod (GetNodeNameToInfoMap c dest) = fits_ok"
    and disk: "NoDiskConflict (sc_heap c) pod (GetNodeNameToInfoMap c dest) = fits_ok"
    using cfg by (simp_all add: node_fits_def config_ok_def)
  have "within_node nd (insert (placed pod dest) (pods_on (pods_of s) dest))" if nd: "sp_nodes s dest = Some nd" for nd
  proof -
    obtain n where n: "sc_nodes c dest = Some n" using cache_refines_known [OF R, of dest] nd by (cases "sc_nodes c dest") auto
    note node = cache_refines_node [OF R n]
    have info: "GetNodeNameToInfoMap c dest = Some (NodeInfo_Clone n)" by (simp add: GetNodeNameToInfoMap_def n)
    have new: "placed pod dest \<notin> set (ni_pods n)"
      using node(1) st(3) cache_refines_keyed [OF R] by (fastforce simp: pods_on_def ran_def)
    have "within_node nd (insert (placed pod dest) (set (ni_pods (NodeInfo_Clone n))))"
      by (rule within_node_add [OF gen [unfolded info] disk [unfolded info]])
        (use node nd safe sane new in \<open>auto simp: cluster_safe_def distinct_map pods_on_def\<close>)
    then show ?thesis using node(1) by simp
  qed
  then have "cluster_safe (s\<lparr>sp_pods := (sp_pods s)(pod_key pod \<mapsto> (Some (now + ttl), placed pod dest))\<rparr>)"
    using sane by (intro cluster_safe_add [OF safe _ st(3)]) simp_all
  then show ?thesis using free by simp
qed

lemma cluster_inv:
  assumes "cluster ttl g0 g c s" and "config_ok env g0"
  shows "cluster_safe s \<and> cache_refines s c \<and> sc_ttl c = ttl \<and> same_config g0 g"
  using assms(1)
proof induction
  case start
  have "cluster_safe spec_empty" by (simp add: cluster_safe_def spec_empty_def pods_of_def)
  moreover have "sc_ttl (newSchedulerCache ttl) = ttl" by (simp add: newSchedulerCache_def)
  ultimately show ?case by (simp add: cache_refines_new same_config_def)
next
  case (schedule g c s ch nodes pod now dest g' c')
  have cfg: "config_ok env g" using assms(2) schedule.IH by (simp add: config_ok_def same_config_def)
  note run = scheduleOne_Inr [OF schedule.hyps(6)]
  have "cluster_safe (snd (spec_apply ttl (CallAssume (placed pod dest) now) s))"
    using cluster_safe_schedule [OF _ _ cfg schedule.hyps(2,3,4,5) run(1)] schedule.IH by blast
  moreover obtain c1 where "assumePod (placed pod dest) now c = (fst (spec_apply ttl (CallAssume (placed pod dest) now) s), c1)"
    "cache_refines (snd (spec_apply ttl (CallAssume (placed pod dest) now) s)) c1" "sc_ttl c1 = ttl"
    using refine_assume [of s c ttl "placed pod dest" now] schedule.IH by auto
  moreover have "same_config g0 g'"
    using scheduleOne_config [OF schedule.hyps(6)] schedule.IH by (simp add: same_config_def)
  ultimately show ?case using run(2) by (simp add: placed_def)
next
  case (unschedulable g c s ch now pod lister err g' c')
  then show ?case using scheduleOne_Inl scheduleOne_config by (fastforce simp: same_config_def)
next
  case (watch_event g c s call e c')
  then show ?case
    using cluster_safe_event [of s c call ttl] refine_call [of s c ttl call] by auto
qed


section \<open>Witnesses\<close>

definition example_spec :: sched_spec where
  "example_spec = snd (spec_run 30 [CallAddNode (example_node ''n1'' 100 64), CallAddNode (example_node ''n2'' 1000 64)] spec_empty)"

lemma example_node_sane: "node_sane (example_node ''n1'' 100 64)" "node_sane (example_node ''n2'' 1000 64)"
  by (simp_all add: node_sane_def example_simps)

lemma example_config_ok: "config_ok example_env example_scheduler"
  by (simp add: config_ok_def example_scheduler_def)

lemma example_cluster: "cluster 30 example_scheduler example_scheduler example_cache example_spec"
proof -
  let ?n1 = "example_node ''n1'' 100 64" and ?n2 = "example_node ''n2'' 1000 64"
  have 1: "cluster 30 example_scheduler example_scheduler (AddNode ?n1 (newSchedulerCache 30))
      (snd (spec_apply 30 (CallAddNode ?n1) spec_empty))"
    by (rule watch_event [OF start, where call = "CallAddNode ?n1" and e = None])
      (simp_all add: example_node_sane, simp_all add: spec_empty_def pods_of_def pods_on_def)
  have "cluster 30 example_scheduler example_scheduler (AddNode ?n2 (AddNode ?n1 (newSchedulerCache 30)))
      (snd (spec_apply 30 (CallAddNode ?n2) (snd (spec_apply 30 (CallAddNode ?n1) spec_empty))))"
    by (rule watch_event [OF 1, where call = "CallAddNode ?n2" and e = None])
      (simp_all add: example_node_sane, simp_all add: spec_empty_def pods_of_def pods_on_def)
  then show ?thesis by (simp add: example_cache_def example_spec_def)
qed

lemma example_spec_pods: "sp_pods example_spec = Map.empty" "sp_nodes example_spec ''n2'' = Some (example_node ''n2'' 1000 64)"
  by (simp_all add: example_spec_def spec_empty_def)


end
