(* ===== verification/Controller_Utils.thy ===== *)
theory Controller_Utils
  imports Scheduler_Cache "HOL-Library.Product_Lexorder"
begin

text \<open>
  What the controllers share: pkg/controller/controller\_utils.go and lookup\_cache.go with the
  LRU cache it uses (vendor/github.com/golang/groupcache/lru/lru.go), and the pod conditions of
  pkg/api/resource\_helpers.go.

  Expectations tell a controller how many creations and deletions of pods it still has to see
  before it may act again; deletions are tracked by the key of the pod. The stores of the
  expectations are maps, a zero time is 0, clock readings are arguments and counters are 64-bit
  words. The theory shows that the order in which pods are given up is a weak order, and how
  expectations are met.
\<close>

section \<open>Pods and templates as the controllers see them\<close>

record PodCondition =
  pc_Type :: string
  pc_Status :: string
  pc_LastTransitionTime :: int

record ApiPod = Pod +
  pod_GenerateName :: string
  pod_CreationTimestamp :: int
  pod_DeletionTimestamp :: "int option"
  pod_Phase :: string
  pod_Conditions :: "PodCondition list"
  pod_RestartCounts :: "int list"

record PodTemplateSpec =
  pt_Labels :: Set
  pt_Annotations :: Set
  pt_NodeName :: string
  pt_NodeSelector :: Set
  pt_Containers :: "Container list"
  pt_InitContainers :: "Container list"
  pt_Volumes :: "Volume list"

fun GetPodCondition :: "PodCondition list \<Rightarrow> string \<Rightarrow> PodCondition option" where
  "GetPodCondition [] conditionType = None"
| "GetPodCondition (c # conditions) conditionType =
     (if pc_Type c = conditionType then Some c else GetPodCondition conditions conditionType)"

definition GetPodReadyCondition :: "PodCondition list \<Rightarrow> PodCondition option" where
  "GetPodReadyCondition conditions = GetPodCondition conditions ''Ready''"

definition IsPodReadyConditionTrue :: "PodCondition list \<Rightarrow> bool" where
  "IsPodReadyConditionTrue conditions =
     (case GetPodReadyCondition conditions of None \<Rightarrow> False | Some c \<Rightarrow> pc_Status c = ''True'')"

definition IsPodReady :: "ApiPod \<Rightarrow> bool" where
  "IsPodReady pod = IsPodReadyConditionTrue (pod_Conditions pod)"

definition PodKey :: "ApiPod \<Rightarrow> string" where
  "PodKey pod = pod_Namespace pod @ ''/'' @ pod_Name pod"

definition IsPodActive :: "ApiPod \<Rightarrow> bool" where
  "IsPodActive p \<longleftrightarrow> ''Succeeded'' \<noteq> pod_Phase p \<and> ''Failed'' \<noteq> pod_Phase p \<and> pod_DeletionTimestamp p = None"

fun FilterActivePods :: "ApiPod list \<Rightarrow> ApiPod list" where
  "FilterActivePods [] = []"
| "FilterActivePods (p # pods) = (if IsPodActive p then p # FilterActivePods pods else FilterActivePods pods)"

section \<open>The order in which pods are given up\<close>

definition afterOrZero :: "int \<Rightarrow> int \<Rightarrow> bool" where
  "afterOrZero t1 t2 = (if t1 = 0 \<or> t2 = 0 then t1 = 0 else t1 > t2)"

fun first_ready_true :: "PodCondition list \<Rightarrow> int" where
  "first_ready_true [] = 0"
| "first_ready_true (c # conditions) =
     (if pc_Type c = ''Ready'' \<and> pc_Status c = ''True'' then pc_LastTransitionTime c
      else first_ready_true conditions)"

definition podReadyTime :: "ApiPod \<Rightarrow> int" where
  "podReadyTime pod = (if IsPodReady pod then first_ready_true (pod_Conditions pod) else 0)"

definition maxContainerRestarts :: "ApiPod \<Rightarrow> int" where
  "maxContainerRestarts pod = foldl max 0 (pod_RestartCounts pod)"

text \<open>\<^verbatim>\<open>m\<close> of Less: a phase that is not a key of the map has rank 0.\<close>

definition phase_rank :: "string \<Rightarrow> int" where
  "phase_rank phase =
     map_get 0 [''Pending'' \<mapsto> 0, ''Unknown'' \<mapsto> 1, ''Running'' \<mapsto> 2] phase"

definition ActivePods_Less :: "ApiPod \<Rightarrow> ApiPod \<Rightarrow> bool" where
  "ActivePods_Less a b =
     (if pod_NodeName a \<noteq> pod_NodeName b \<and> (length (pod_NodeName a) = 0 \<or> length (pod_NodeName b) = 0)
      then length (pod_NodeName a) = 0
      else if phase_rank (pod_Phase a) \<noteq> phase_rank (pod_Phase b)
      then phase_rank (pod_Phase a) < phase_rank (pod_Phase b)
      else if IsPodReady a \<noteq> IsPodReady b then \<not> IsPodReady a
      else if IsPodReady a \<and> IsPodReady b \<and> podReadyTime a \<noteq> podReadyTime b
      then afterOrZero (podReadyTime a) (podReadyTime b)
      else if maxContainerRestarts a \<noteq> maxContainerRestarts b
      then maxContainerRestarts a > maxContainerRestarts b
      else if pod_CreationTimestamp a \<noteq> pod_CreationTimestamp b
      then afterOrZero (pod_CreationTimestamp a) (pod_CreationTimestamp b)
      else False)"

section \<open>Expectations\<close>

definition ExpectationsTimeout :: int where
  "ExpectationsTimeout = 5 * 60 * 1000000000"

record ControlleeExpectations =
  ce_add :: int64
  ce_del :: int64
  ce_key :: string
  ce_timestamp :: int

type_synonym ControllerExpectations = "string \<rightharpoonup> ControlleeExpectations"

definition ControlleeExpectations_Add ::
  "int64 \<Rightarrow> int64 \<Rightarrow> ControlleeExpectations \<Rightarrow> ControlleeExpectations" where
  "ControlleeExpectations_Add add del e = e\<lparr>ce_add := ce_add e + add, ce_del := ce_del e + del\<rparr>"

definition Fulfilled :: "ControlleeExpectations \<Rightarrow> bool" where
  "Fulfilled e \<longleftrightarrow> sint (ce_add e) \<le> 0 \<and> sint (ce_del e) \<le> 0"

definition isExpired :: "int \<Rightarrow> ControlleeExpectations \<Rightarrow> bool" where
  "isExpired now e \<longleftrightarrow> now - ce_timestamp e > ExpectationsTimeout"

definition GetExpectations :: "string \<Rightarrow> ControllerExpectations \<Rightarrow> ControlleeExpectations option" where
  "GetExpectations controllerKey r = r controllerKey"

definition DeleteExpectations :: "string \<Rightarrow> ControllerExpectations \<Rightarrow> ControllerExpectations" where
  "DeleteExpectations controllerKey r = map_delete controllerKey r"

definition SatisfiedExpectations :: "int \<Rightarrow> string \<Rightarrow> ControllerExpectations \<Rightarrow> bool" where
  "SatisfiedExpectations now controllerKey r =
     (case GetExpectations controllerKey r of
        Some exp \<Rightarrow> if Fulfilled exp then True else if isExpired now exp then True else False
      | None \<Rightarrow> True)"

definition SetExpectations :: "int \<Rightarrow> string \<Rightarrow> int \<Rightarrow> int \<Rightarrow> ControllerExpectations \<Rightarrow> ControllerExpectations" where
  "SetExpectations now controllerKey add del r =
     r(controllerKey \<mapsto> \<lparr>ce_add = word_of_int add, ce_del = word_of_int del, ce_key = controllerKey, ce_timestamp = now\<rparr>)"

definition ExpectCreations :: "int \<Rightarrow> string \<Rightarrow> int \<Rightarrow> ControllerExpectations \<Rightarrow> ControllerExpectations" where
  "ExpectCreations now controllerKey adds r = SetExpectations now controllerKey adds 0 r"

definition ExpectDeletions :: "int \<Rightarrow> string \<Rightarrow> int \<Rightarrow> ControllerExpectations \<Rightarrow> ControllerExpectations" where
  "ExpectDeletions now controllerKey dels r = SetExpectations now controllerKey 0 dels r"

definition LowerExpectations :: "string \<Rightarrow> int \<Rightarrow> int \<Rightarrow> ControllerExpectations \<Rightarrow> ControllerExpectations" where
  "LowerExpectations controllerKey add del r =
     (case GetExpectations controllerKey r of
        Some exp \<Rightarrow> r(controllerKey \<mapsto> ControlleeExpectations_Add (word_of_int (- add)) (word_of_int (- del)) exp)
      | None \<Rightarrow> r)"

definition RaiseExpectations :: "string \<Rightarrow> int \<Rightarrow> int \<Rightarrow> ControllerExpectations \<Rightarrow> ControllerExpectations" where
  "RaiseExpectations controllerKey add del r =
     (case GetExpectations controllerKey r of
        Some exp \<Rightarrow> r(controllerKey \<mapsto> ControlleeExpectations_Add (word_of_int add) (word_of_int del) exp)
      | None \<Rightarrow> r)"

definition CreationObserved :: "string \<Rightarrow> ControllerExpectations \<Rightarrow> ControllerExpectations" where
  "CreationObserved controllerKey r = LowerExpectations controllerKey 1 0 r"

definition DeletionObserved :: "string \<Rightarrow> ControllerExpectations \<Rightarrow> ControllerExpectations" where
  "DeletionObserved controllerKey r = LowerExpectations controllerKey 0 1 r"

text \<open>The wrapper that remembers which deletions are expected. A nil set and an empty one act alike.\<close>

record UIDTrackingControllerExpectations =
  ue_exps :: ControllerExpectations
  ue_uidStore :: "string \<rightharpoonup> string set"

definition NewUIDTrackingControllerExpectations :: UIDTrackingControllerExpectations where
  "NewUIDTrackingControllerExpectations = \<lparr>ue_exps = Map.empty, ue_uidStore = Map.empty\<rparr>"

definition GetUIDs :: "string \<Rightarrow> UIDTrackingControllerExpectations \<Rightarrow> string set" where
  "GetUIDs controllerKey u = map_get {} (ue_uidStore u) controllerKey"

definition UID_ExpectDeletions ::
  "int \<Rightarrow> string \<Rightarrow> string list \<Rightarrow> UIDTrackingControllerExpectations \<Rightarrow> UIDTrackingControllerExpectations" where
  "UID_ExpectDeletions now rcKey deletedKeys u =
     (let expectedUIDs = set deletedKeys;
          u = u\<lparr>ue_uidStore := (ue_uidStore u)(rcKey \<mapsto> expectedUIDs)\<rparr>
      in u\<lparr>ue_exps := ExpectDeletions now rcKey (int (card expectedUIDs)) (ue_exps u)\<rparr>)"

definition UID_DeletionObserved ::
  "string \<Rightarrow> string \<Rightarrow> UIDTrackingControllerExpectations \<Rightarrow> UIDTrackingControllerExpectations" where
  "UID_DeletionObserved rcKey deleteKey u =
     (let uids = GetUIDs rcKey u
      in if deleteKey \<in> uids
         then u\<lparr>ue_exps := DeletionObserved rcKey (ue_exps u),
                ue_uidStore := (ue_uidStore u)(rcKey \<mapsto> uids - {deleteKey})\<rparr>
         else u)"

definition UID_DeleteExpectations ::
  "string \<Rightarrow> UIDTrackingControllerExpectations \<Rightarrow> UIDTrackingControllerExpectations" where
  "UID_DeleteExpectations rcKey u =
     u\<lparr>ue_exps := DeleteExpectations rcKey (ue_exps u), ue_uidStore := map_delete rcKey (ue_uidStore u)\<rparr>"

section \<open>The lookup cache\<close>

text \<open>
  The entries of an LRU cache, most recently used first; the map from keys to list elements
  indexes exactly this list. \<open>None\<close> is the nil map of a zero value.
\<close>

record ('k, 'v) lru =
  lru_MaxEntries :: nat
  lru_ll :: "('k \<times> 'v) list option"

definition lru_New :: "nat \<Rightarrow> ('k, 'v) lru" where
  "lru_New maxEntries = \<lparr>lru_MaxEntries = maxEntries, lru_ll = Some []\<rparr>"

definition lru_removeElement :: "'k \<Rightarrow> ('k \<times> 'v) list \<Rightarrow> ('k \<times> 'v) list" where
  "lru_removeElement key ll = filter (\<lambda>e. fst e \<noteq> key) ll"

definition lru_RemoveOldest :: "('k, 'v) lru \<Rightarrow> ('k, 'v) lru" where
  "lru_RemoveOldest c =
     (case lru_ll c of
        None \<Rightarrow> c
      | Some ll \<Rightarrow> if ll = [] then c else c\<lparr>lru_ll := Some (lru_removeElement (fst (last ll)) ll)\<rparr>)"

definition lru_Add :: "'k \<Rightarrow> 'v \<Rightarrow> ('k, 'v) lru \<Rightarrow> ('k, 'v) lru" where
  "lru_Add key v c =
     (let ll = (case lru_ll c of None \<Rightarrow> [] | Some ll \<Rightarrow> ll)
      in if map_of ll key \<noteq> None then c\<lparr>lru_ll := Some ((key, v) # lru_removeElement key ll)\<rparr>
         else
           let c = c\<lparr>lru_ll := Some ((key, v) # ll)\<rparr>
           in if lru_MaxEntries c \<noteq> 0 \<and> length ll + 1 > lru_MaxEntries c then lru_RemoveOldest c else c)"

definition lru_Get :: "'k \<Rightarrow> ('k, 'v) lru \<Rightarrow> 'v option \<times> ('k, 'v) lru" where
  "lru_Get key c =
     (case lru_ll c of
        None \<Rightarrow> (None, c)
      | Some ll \<Rightarrow>
          (case map_of ll key of
             Some v \<Rightarrow> (Some v, c\<lparr>lru_ll := Some ((key, v) # lru_removeElement key ll)\<rparr>)
           | None \<Rightarrow> (None, c)))"

definition lru_Remove :: "'k \<Rightarrow> ('k, 'v) lru \<Rightarrow> ('k, 'v) lru" where
  "lru_Remove key c =
     (case lru_ll c of None \<Rightarrow> c | Some ll \<Rightarrow> c\<lparr>lru_ll := Some (lru_removeElement key ll)\<rparr>)"

definition lru_Len :: "('k, 'v) lru \<Rightarrow> nat" where
  "lru_Len c = (case lru_ll c of None \<Rightarrow> 0 | Some ll \<Rightarrow> length ll)"

text \<open>\<open>hash\<close> is \<^verbatim>\<open>keyFunc\<close>, a checksum of the printed namespace and labels of an object.\<close>

type_synonym label_hash = "string \<Rightarrow> Set \<Rightarrow> 64 word"

type_synonym 'v MatchingCache = "(64 word, 'v) lru"

definition NewMatchingCache :: "nat \<Rightarrow> 'v MatchingCache" where
  "NewMatchingCache maxCacheEntries = lru_New maxCacheEntries"

definition MatchingCache_Add :: "label_hash \<Rightarrow> ApiPod \<Rightarrow> 'v \<Rightarrow> 'v MatchingCache \<Rightarrow> 'v MatchingCache" where
  "MatchingCache_Add hash labelObj selectorObj c =
     lru_Add (hash (pod_Namespace labelObj) (pod_Labels labelObj)) selectorObj c"

definition GetMatchingObject :: "label_hash \<Rightarrow> ApiPod \<Rightarrow> 'v MatchingCache \<Rightarrow> 'v option \<times> 'v MatchingCache" where
  "GetMatchingObject hash labelObj c = lru_Get (hash (pod_Namespace labelObj) (pod_Labels labelObj)) c"

definition MatchingCache_Update :: "label_hash \<Rightarrow> ApiPod \<Rightarrow> 'v \<Rightarrow> 'v MatchingCache \<Rightarrow> 'v MatchingCache" where
  "MatchingCache_Update hash labelObj selectorObj c = MatchingCache_Add hash labelObj selectorObj c"

definition InvalidateAll :: "'v MatchingCache \<Rightarrow> 'v MatchingCache" where
  "InvalidateAll c = lru_New (lru_MaxEntries c)"

section \<open>Pods from templates\<close>

definition CreatedByAnnotation :: string where
  "CreatedByAnnotation = ''kubernetes.io/created-by''"

text \<open>
  The order in which labels are visited and requirements sorted, number parsing and the label
  checksum are arguments of all controllers; \<open>ce_createdBy\<close> encodes the reference to the object
  with a name and \<open>ce_validPodName\<close> is the validation of pod names.
\<close>

record 'f ctl_env =
  ce_parseFloat :: "string \<Rightarrow> 'f option"
  ce_sort :: "Requirement list \<Rightarrow> Requirement list"
  ce_order :: "Set \<Rightarrow> string list"
  ce_hash :: label_hash
  ce_createdBy :: "string \<Rightarrow> string \<Rightarrow> string option"
  ce_validPodName :: "string \<Rightarrow> bool"

definition AsSelector :: "'f ctl_env \<Rightarrow> Set \<Rightarrow> Selector" where
  "AsSelector env ls = Set_AsSelector (ce_parseFloat env) (ce_sort env) (ce_order env ls) ls"

definition getPodsLabelSet :: "PodTemplateSpec \<Rightarrow> Set" where
  "getPodsLabelSet template = pt_Labels template"

definition getPodsAnnotationSet :: "'f ctl_env \<Rightarrow> PodTemplateSpec \<Rightarrow> string \<Rightarrow> string \<Rightarrow> Set option" where
  "getPodsAnnotationSet env template namespace name =
     map_option (\<lambda>createdByRefJson. (pt_Annotations template)(CreatedByAnnotation \<mapsto> createdByRefJson))
       (ce_createdBy env namespace name)"

definition getPodsPrefix :: "'f ctl_env \<Rightarrow> string \<Rightarrow> string" where
  "getPodsPrefix env controllerName =
     (let prefix = controllerName @ ''-''
      in if \<not> ce_validPodName env prefix then controllerName else prefix)"

definition GetPodFromTemplate :: "'f ctl_env \<Rightarrow> PodTemplateSpec \<Rightarrow> string \<Rightarrow> string \<Rightarrow> ApiPod option" where
  "GetPodFromTemplate env template namespace name =
     (case getPodsAnnotationSet env template namespace name of
        None \<Rightarrow> None
      | Some desiredAnnotations \<Rightarrow>
          Some \<lparr>pod_Name = '''', pod_Namespace = '''', pod_Labels = getPodsLabelSet template,
                pod_Annotations = desiredAnnotations, pod_NodeName = pt_NodeName template,
                pod_NodeSelector = pt_NodeSelector template, pod_Containers = pt_Containers template,
                pod_InitContainers = pt_InitContainers template, pod_Volumes = pt_Volumes template,
                pod_GenerateName = getPodsPrefix env name, pod_CreationTimestamp = 0,
                pod_DeletionTimestamp = None, pod_Phase = '''', pod_Conditions = [], pod_RestartCounts = []\<rparr>)"

datatype create_error = NoReference | NoLabels | CreateFailed string

text \<open>\<open>create\<close> is the API server's answer to the request in the namespace; the object that asks is given by its name.\<close>

definition createPods ::
  "'f ctl_env \<Rightarrow> (string \<Rightarrow> ApiPod \<Rightarrow> string option) \<Rightarrow> string \<Rightarrow> string \<Rightarrow> PodTemplateSpec \<Rightarrow> string \<Rightarrow>
   create_error option" where
  "createPods env create nodeName namespace template name =
     (case GetPodFromTemplate env template namespace name of
        None \<Rightarrow> Some NoReference
      | Some pod \<Rightarrow>
          let pod = (if length nodeName \<noteq> 0 then pod\<lparr>pod_NodeName := nodeName\<rparr> else pod)
          in if Selector_Empty (AsSelector env (pod_Labels pod)) then Some NoLabels
             else map_option CreateFailed (create namespace pod))"

definition CreatePods ::
  "'f ctl_env \<Rightarrow> (string \<Rightarrow> ApiPod \<Rightarrow> string option) \<Rightarrow> string \<Rightarrow> PodTemplateSpec \<Rightarrow> string \<Rightarrow> create_error option" where
  "CreatePods env create namespace template name = createPods env create '''' namespace template name"

section \<open>Lemmas on the order\<close>

definition time_key :: "int \<Rightarrow> bool \<times> int" where
  "time_key t = (t \<noteq> 0, - t)"

lemma afterOrZero_key: "t1 \<noteq> t2 \<Longrightarrow> afterOrZero t1 t2 \<longleftrightarrow> time_key t1 < time_key t2"
  by (auto simp: afterOrZero_def time_key_def less_prod_def)

definition pod_rank :: "ApiPod \<Rightarrow> bool \<times> int \<times> bool \<times> (bool \<times> int) \<times> int \<times> (bool \<times> int)" where
  "pod_rank p = (pod_NodeName p \<noteq> [], phase_rank (pod_Phase p), IsPodReady p, time_key (podReadyTime p),
     - maxContainerRestarts p, time_key (pod_CreationTimestamp p))"

lemma time_key_eq [simp]: "time_key a = time_key b \<longleftrightarrow> a = b"
  by (auto simp: time_key_def)

lemma podReadyTime_unready: "\<not> IsPodReady p \<Longrightarrow> podReadyTime p = 0"
  by (simp add: podReadyTime_def)

lemma ActivePods_Less_rank: "ActivePods_Less a b \<longleftrightarrow> pod_rank a < pod_rank b"
proof -
  have *: "(x, y) < (x', y') \<longleftrightarrow> (if x \<noteq> x' then x < x' else y < y')"
    for x x' :: "'a :: linorder" and y y' :: "'b :: linorder"
    by auto
  show ?thesis
    unfolding ActivePods_Less_def pod_rank_def *
    using podReadyTime_unready [of a] podReadyTime_unready [of b]
    by (auto simp: afterOrZero_key)
qed

section \<open>Lemmas on expectations\<close>

definition adds_due :: "string \<Rightarrow> UIDTrackingControllerExpectations \<Rightarrow> int" where
  "adds_due k u = (case ue_exps u k of None \<Rightarrow> 0 | Some e \<Rightarrow> sint (ce_add e))"

definition dels_due :: "string \<Rightarrow> UIDTrackingControllerExpectations \<Rightarrow> int" where
  "dels_due k u = (case ue_exps u k of None \<Rightarrow> 0 | Some e \<Rightarrow> sint (ce_del e))"

lemma sint_small: "0 \<le> n \<Longrightarrow> n < 2 ^ 63 \<Longrightarrow> sint (word_of_int n :: int64) = n"
  by (simp add: sint_sbintrunc' signed_take_bit_int_eq_self)

lemma sint_small_nat: "n < 2 ^ 63 \<Longrightarrow> sint (word_of_nat n :: int64) = int n"
  using sint_small [of "int n"] by simp

lemma sint_pred: "0 < sint (a :: int64) \<Longrightarrow> sint (a - 1) = sint a - 1"
  using sint_lt [of a] by (simp add: sint_word_ariths signed_take_bit_int_eq_self)

lemma due_other [simp]:
  "k' \<noteq> k \<Longrightarrow> adds_due k' (u\<lparr>ue_exps := SetExpectations now k a d (ue_exps u)\<rparr>) = adds_due k' u"
  "k' \<noteq> k \<Longrightarrow> dels_due k' (u\<lparr>ue_exps := SetExpectations now k a d (ue_exps u)\<rparr>) = dels_due k' u"
  "k' \<noteq> k \<Longrightarrow> adds_due k' (u\<lparr>ue_exps := LowerExpectations k a d (ue_exps u)\<rparr>) = adds_due k' u"
  "k' \<noteq> k \<Longrightarrow> dels_due k' (u\<lparr>ue_exps := LowerExpectations k a d (ue_exps u)\<rparr>) = dels_due k' u"
  by (auto simp: adds_due_def dels_due_def SetExpectations_def LowerExpectations_def GetExpectations_def
      split: option.splits)

lemma due_uids [simp]:
  "adds_due k (u\<lparr>ue_uidStore := x\<rparr>) = adds_due k u"
  "dels_due k (u\<lparr>ue_uidStore := x\<rparr>) = dels_due k u"
  by (simp_all add: adds_due_def dels_due_def)

lemma GetUIDs_exps [simp]: "GetUIDs k (u\<lparr>ue_exps := x\<rparr>) = GetUIDs k u"
  by (simp add: GetUIDs_def)

lemma due_ExpectCreations:
  assumes "0 \<le> n" and "n < 2 ^ 63"
  shows "adds_due k' (u\<lparr>ue_exps := ExpectCreations now k n (ue_exps u)\<rparr>) = (if k' = k then n else adds_due k' u)"
    and "dels_due k' (u\<lparr>ue_exps := ExpectCreations now k n (ue_exps u)\<rparr>) = (if k' = k then 0 else dels_due k' u)"
  using assms by (auto simp: ExpectCreations_def) (auto simp: adds_due_def dels_due_def SetExpectations_def sint_small)

lemma due_ExpectDeletions:
  assumes "int (card (set ks)) < 2 ^ 63"
  shows "adds_due k' (UID_ExpectDeletions now k ks u) = (if k' = k then 0 else adds_due k' u)"
    and "dels_due k' (UID_ExpectDeletions now k ks u) = (if k' = k then int (card (set ks)) else dels_due k' u)"
    and "GetUIDs k' (UID_ExpectDeletions now k ks u) = (if k' = k then set ks else GetUIDs k' u)"
  using assms
  by (auto simp: UID_ExpectDeletions_def ExpectDeletions_def Let_def)
    (auto simp: adds_due_def dels_due_def SetExpectations_def sint_small_nat GetUIDs_def)

lemma due_CreationObserved:
  assumes "0 < adds_due k u"
  shows "adds_due k' (u\<lparr>ue_exps := CreationObserved k (ue_exps u)\<rparr>) = (if k' = k then adds_due k u - 1 else adds_due k' u)"
    and "dels_due k' (u\<lparr>ue_exps := CreationObserved k (ue_exps u)\<rparr>) = dels_due k' u"
  using assms
  by (auto simp: CreationObserved_def adds_due_def dels_due_def LowerExpectations_def GetExpectations_def
      ControlleeExpectations_Add_def sint_pred split: option.splits)

lemma due_DeletionObserved:
  assumes "x \<in> GetUIDs k u \<Longrightarrow> 0 < dels_due k u"
  shows "adds_due k' (UID_DeletionObserved k x u) = adds_due k' u"
    and "dels_due k' (UID_DeletionObserved k x u) =
           (if k' = k \<and> x \<in> GetUIDs k u then dels_due k u - 1 else dels_due k' u)"
    and "GetUIDs k' (UID_DeletionObserved k x u) = (if k' = k then GetUIDs k u - {x} else GetUIDs k' u)"
  using assms
  by (auto simp: UID_DeletionObserved_def DeletionObserved_def adds_due_def dels_due_def LowerExpectations_def
      GetExpectations_def ControlleeExpectations_Add_def sint_pred GetUIDs_def Let_def split: option.splits)

lemma SatisfiedExpectations_due:
  assumes "SatisfiedExpectations now k (ue_exps u)" and "\<And>e. ue_exps u k = Some e \<Longrightarrow> \<not> isExpired now e"
  shows "adds_due k u \<le> 0 \<and> dels_due k u \<le> 0"
  using assms by (auto simp: SatisfiedExpectations_def GetExpectations_def adds_due_def dels_due_def Fulfilled_def
      split: option.splits if_splits)

lemma unsatisfied_due:
  "\<not> SatisfiedExpectations now k (ue_exps u) \<Longrightarrow> 0 < adds_due k u \<or> 0 < dels_due k u"
  by (auto simp: SatisfiedExpectations_def GetExpectations_def adds_due_def dels_due_def Fulfilled_def
      split: option.splits if_splits)

section \<open>Lemmas on the lookup cache\<close>

definition lru_entries :: "('k, 'v) lru \<Rightarrow> ('k \<times> 'v) list" where
  "lru_entries c = (case lru_ll c of None \<Rightarrow> [] | Some ll \<Rightarrow> ll)"

lemma lru_Get_entries:
  assumes "lru_Get key c = (r, c')"
  shows "set (lru_entries c') \<subseteq> set (lru_entries c)" and "r = Some v \<Longrightarrow> (key, v) \<in> set (lru_entries c)"
  using assms
  by (auto simp: lru_Get_def lru_entries_def lru_removeElement_def map_of_SomeD split: option.splits)

lemma lru_Add_entries: "set (lru_entries (lru_Add key v c)) \<subseteq> insert (key, v) (set (lru_entries c))"
  by (auto simp: lru_Add_def lru_entries_def lru_removeElement_def lru_RemoveOldest_def Let_def split: option.splits if_splits)

end
