(* ===== verification/Replication_Manager.thy ===== *)
theory Replication_Manager
  imports Controller_Utils Work_Queue
begin

text \<open>
  The replication manager: pkg/controller/replication/replication\_controller.go and
  replication\_controller\_utils.go, with the listers it uses from pkg/client/cache/listers.go.

  The manager keeps local copies of the replication controllers and the pods. Its handlers are
  called for every change of a pod or a controller; they update the expectations and queue the
  key of the controller. Workers take keys from the queue and synchronize: if the expectations
  of the controller are met, they create or delete pods until the number is right. A
  synchronization is written as its consecutive parts, between which other goroutines run, and
  as the function that composes them. The stores are maps by key, which the store component
  keeps; the orders in which they are visited are arguments. The replica count of a controller is
  an integer, which the code computes with in \<^verbatim>\<open>int\<close>.
\<close>

section \<open>Objects and state\<close>

record ReplicationControllerStatus =
  rcs_Replicas :: "32 word"
  rcs_FullyLabeledReplicas :: "32 word"
  rcs_ObservedGeneration :: int

record ReplicationController =
  rc_Name :: string
  rc_Namespace :: string
  rc_CreationTimestamp :: int
  rc_Generation :: int
  rc_Replicas :: int
  rc_Selector :: Set
  rc_Template :: PodTemplateSpec
  rc_Status :: ReplicationControllerStatus

definition KeyFunc :: "ReplicationController \<Rightarrow> (ReplicationController cache_error, string) result" where
  "KeyFunc rc = MetaNamespaceKeyFunc (\<lambda>r. Some (rc_Namespace r, rc_Name r)) (Obj rc)"

record ReplicationManager =
  rm_burstReplicas :: nat
  rm_expectations :: UIDTrackingControllerExpectations
  rm_rcStore :: "string \<rightharpoonup> ReplicationController"
  rm_podStore :: "string \<rightharpoonup> ApiPod"
  rm_podStoreSynced :: bool
  rm_lookupCache :: "ReplicationController MatchingCache"
  rm_queue :: "string Type"

definition newReplicationManagerInternal :: "nat \<Rightarrow> nat \<Rightarrow> ReplicationManager" where
  "newReplicationManagerInternal burstReplicas lookupCacheSize =
     \<lparr>rm_burstReplicas = burstReplicas, rm_expectations = NewUIDTrackingControllerExpectations,
      rm_rcStore = Map.empty, rm_podStore = Map.empty, rm_podStoreSynced = False,
      rm_lookupCache = NewMatchingCache lookupCacheSize, rm_queue = New\<rparr>"

section \<open>Listers\<close>

fun items_of :: "('k \<rightharpoonup> 'v) \<Rightarrow> 'k list \<Rightarrow> 'v list" where
  "items_of m [] = []"
| "items_of m (k # ks) = (case m k of None \<Rightarrow> items_of m ks | Some v \<Rightarrow> v # items_of m ks)"

definition Pods_List ::
  "('f :: ord) ctl_env \<Rightarrow> string list \<Rightarrow> string \<Rightarrow> Selector \<Rightarrow> (string \<rightharpoonup> ApiPod) \<Rightarrow> ApiPod list" where
  "Pods_List env order namespace selector store =
     (if namespace = '''' then filter (\<lambda>pod. Selector_Matches (ce_parseFloat env) selector (pod_Labels pod)) (items_of store order)
      else
        let objs = filter (\<lambda>pod. pod_Namespace pod = namespace) (items_of store order)
        in filter (\<lambda>pod. Selector_Matches (ce_parseFloat env) selector (pod_Labels pod)) objs)"

definition rc_Exists :: "ReplicationController \<Rightarrow> (string \<rightharpoonup> ReplicationController) \<Rightarrow> bool option" where
  "rc_Exists controller store =
     (case KeyFunc controller of Inl _ \<Rightarrow> None | Inr key \<Rightarrow> Some (store key \<noteq> None))"

fun matching_controllers ::
  "('f :: ord) ctl_env \<Rightarrow> ApiPod \<Rightarrow> ReplicationController list \<Rightarrow> ReplicationController list" where
  "matching_controllers env pod [] = []"
| "matching_controllers env pod (rc # objs) =
     (if Selector_Empty (AsSelector env (rc_Selector rc)) \<or>
         \<not> Selector_Matches (ce_parseFloat env) (AsSelector env (rc_Selector rc)) (pod_Labels pod)
      then matching_controllers env pod objs
      else rc # matching_controllers env pod objs)"

definition GetPodControllers ::
  "('f :: ord) ctl_env \<Rightarrow> string list \<Rightarrow> ApiPod \<Rightarrow> (string \<rightharpoonup> ReplicationController) \<Rightarrow> ReplicationController list option" where
  "GetPodControllers env order pod store =
     (if pod_Labels pod = Map.empty then None
      else
        let objs = filter (\<lambda>rc. rc_Namespace rc = pod_Namespace pod) (items_of store order);
            controllers = matching_controllers env pod objs
        in if length controllers = 0 then None else Some controllers)"

section \<open>The controller of a pod\<close>

definition overlapping_key :: "ReplicationController \<Rightarrow> int \<times> string" where
  "overlapping_key rc = (rc_CreationTimestamp rc, rc_Name rc)"

definition OverlappingControllers_Less :: "ReplicationController \<Rightarrow> ReplicationController \<Rightarrow> bool" where
  "OverlappingControllers_Less a b =
     (if rc_CreationTimestamp a = rc_CreationTimestamp b then rc_Name a < rc_Name b
      else rc_CreationTimestamp a < rc_CreationTimestamp b)"

definition isControllerMatch :: "('f :: ord) ctl_env \<Rightarrow> ApiPod \<Rightarrow> ReplicationController \<Rightarrow> bool" where
  "isControllerMatch env pod rc =
     (if rc_Namespace rc \<noteq> pod_Namespace pod then False
      else
        let selector = AsSelector env (rc_Selector rc)
        in if Selector_Empty selector \<or> \<not> Selector_Matches (ce_parseFloat env) selector (pod_Labels pod)
           then False else True)"

definition isCacheValid :: "('f :: ord) ctl_env \<Rightarrow> ApiPod \<Rightarrow> ReplicationController \<Rightarrow> ReplicationManager \<Rightarrow> bool" where
  "isCacheValid env pod cachedRC rm =
     (case rc_Exists cachedRC (rm_rcStore rm) of
        None \<Rightarrow> False
      | Some exists \<Rightarrow> if \<not> exists \<or> \<not> isControllerMatch env pod cachedRC then False else True)"

text \<open>The names of the controllers of one namespace differ, so the sort has one result.\<close>

definition search_controller ::
  "('f :: ord) ctl_env \<Rightarrow> string list \<Rightarrow> ApiPod \<Rightarrow> ReplicationManager \<Rightarrow> ReplicationController option \<times> ReplicationManager" where
  "search_controller env order pod rm =
     (case GetPodControllers env order pod (rm_rcStore rm) of
        None \<Rightarrow> (None, rm)
      | Some controllers \<Rightarrow>
          let controllers = (if length controllers > 1 then sort_key overlapping_key controllers else controllers)
          in (Some (controllers ! 0),
              rm\<lparr>rm_lookupCache := MatchingCache_Update (ce_hash env) pod (controllers ! 0) (rm_lookupCache rm)\<rparr>))"

definition getPodController ::
  "('f :: ord) ctl_env \<Rightarrow> string list \<Rightarrow> ApiPod \<Rightarrow> ReplicationManager \<Rightarrow> ReplicationController option \<times> ReplicationManager" where
  "getPodController env order pod rm =
     (let (obj, c) = GetMatchingObject (ce_hash env) pod (rm_lookupCache rm);
          rm = rm\<lparr>rm_lookupCache := c\<rparr>
      in case obj of
           Some controller \<Rightarrow>
             if isCacheValid env pod controller rm then (Some controller, rm)
             else search_controller env order pod rm
         | None \<Rightarrow> search_controller env order pod rm)"

section \<open>Handlers\<close>

definition enqueueController :: "ReplicationController \<Rightarrow> ReplicationManager \<Rightarrow> ReplicationManager" where
  "enqueueController rc rm =
     (case KeyFunc rc of Inl _ \<Rightarrow> rm | Inr key \<Rightarrow> rm\<lparr>rm_queue := Type_Add key (rm_queue rm)\<rparr>)"

definition pod_of_deleted :: "ApiPod iface \<Rightarrow> ApiPod option" where
  "pod_of_deleted obj =
     (case obj of Obj pod \<Rightarrow> Some pod
      | DeletedFinalStateUnknown key (Obj pod) \<Rightarrow> Some pod
      | _ \<Rightarrow> None)"

definition deletePod ::
  "('f :: ord) ctl_env \<Rightarrow> string list \<Rightarrow> ApiPod iface \<Rightarrow> ReplicationManager \<Rightarrow> ReplicationManager" where
  "deletePod env order obj rm =
     (case pod_of_deleted obj of
        None \<Rightarrow> rm
      | Some pod \<Rightarrow>
          (case getPodController env order pod rm of
             (None, rm) \<Rightarrow> rm
           | (Some rc, rm) \<Rightarrow>
               (case KeyFunc rc of
                  Inl _ \<Rightarrow> rm
                | Inr rcKey \<Rightarrow>
                    enqueueController rc
                      (rm\<lparr>rm_expectations := UID_DeletionObserved rcKey (PodKey pod) (rm_expectations rm)\<rparr>))))"

definition creation_observed :: "string \<Rightarrow> ReplicationManager \<Rightarrow> ReplicationManager" where
  "creation_observed rcKey rm =
     rm\<lparr>rm_expectations := (rm_expectations rm)\<lparr>ue_exps := CreationObserved rcKey (ue_exps (rm_expectations rm))\<rparr>\<rparr>"

definition addPod ::
  "('f :: ord) ctl_env \<Rightarrow> string list \<Rightarrow> string list \<Rightarrow> ApiPod \<Rightarrow> ReplicationManager \<Rightarrow> ReplicationManager" where
  "addPod env order order' pod rm =
     (case getPodController env order pod rm of
        (None, rm) \<Rightarrow> rm
      | (Some rc, rm) \<Rightarrow>
          (case KeyFunc rc of
             Inl _ \<Rightarrow> rm
           | Inr rcKey \<Rightarrow>
               if pod_DeletionTimestamp pod \<noteq> None then deletePod env order' (Obj pod) rm
               else enqueueController rc (creation_observed rcKey rm)))"

definition enqueue_owner ::
  "('f :: ord) ctl_env \<Rightarrow> string list \<Rightarrow> ApiPod \<Rightarrow> ReplicationManager \<Rightarrow> ReplicationManager" where
  "enqueue_owner env order pod rm =
     (case getPodController env order pod rm of
        (None, rm) \<Rightarrow> rm
      | (Some rc, rm) \<Rightarrow> enqueueController rc rm)"

definition ReplicationManager_updatePod ::
  "('f :: ord) ctl_env \<Rightarrow> string list \<Rightarrow> string list \<Rightarrow> ApiPod \<Rightarrow> ApiPod \<Rightarrow> ReplicationManager \<Rightarrow> ReplicationManager" where
  "ReplicationManager_updatePod env order order' oldPod curPod rm =
     (if oldPod = curPod then rm
      else
        let labelChanged = (pod_Labels curPod \<noteq> pod_Labels oldPod)
        in if pod_DeletionTimestamp curPod \<noteq> None
           then
             let rm = deletePod env order (Obj curPod) rm
             in if labelChanged then deletePod env order' (Obj oldPod) rm else rm
           else
             let rm = enqueue_owner env order curPod rm
             in if labelChanged then enqueue_owner env order' oldPod rm else rm)"

text \<open>The handler of changed controllers; added and deleted ones are queued by \<^const>\<open>enqueueController\<close>.\<close>

definition update_rc :: "ReplicationController \<Rightarrow> ReplicationController \<Rightarrow> ReplicationManager \<Rightarrow> ReplicationManager" where
  "update_rc oldRC curRC rm =
     enqueueController curRC
       (if rc_Selector oldRC \<noteq> rc_Selector curRC then rm\<lparr>rm_lookupCache := InvalidateAll (rm_lookupCache rm)\<rparr> else rm)"

section \<open>Creating and deleting pods\<close>

datatype task = CreateTask | DeleteTask ApiPod

text \<open>
  \<^verbatim>\<open>manageReplicas\<close> decides what to do and records the expectations (\<open>manage_plan\<close>), then starts a
  goroutine for each pod and waits for all of them; \<open>task_done\<close> is what a goroutine does once the
  API server has answered. \<open>srt\<close> is \<^verbatim>\<open>sort.Sort\<close> with the order of the pods. Validation keeps
  the replica count from being negative, so there are at least as many pods as are deleted.
\<close>

definition manage_plan ::
  "int \<Rightarrow> (ApiPod list \<Rightarrow> ApiPod list) \<Rightarrow> ApiPod list \<Rightarrow> ReplicationController \<Rightarrow> ReplicationManager \<Rightarrow>
   task list \<times> ReplicationManager" where
  "manage_plan now srt filteredPods rc rm =
     (let diff = int (length filteredPods) - rc_Replicas rc
      in case KeyFunc rc of
           Inl _ \<Rightarrow> ([], rm)
         | Inr rcKey \<Rightarrow>
             if diff < 0 then
               let diff = - diff;
                   diff = (if diff > int (rm_burstReplicas rm) then int (rm_burstReplicas rm) else diff)
               in (replicate (nat diff) CreateTask,
                   rm\<lparr>rm_expectations := (rm_expectations rm)\<lparr>ue_exps := ExpectCreations now rcKey diff (ue_exps (rm_expectations rm))\<rparr>\<rparr>)
             else if diff > 0 then
               let diff = (if diff > int (rm_burstReplicas rm) then int (rm_burstReplicas rm) else diff);
                   filteredPods = (if rc_Replicas rc \<noteq> 0 then srt filteredPods else filteredPods);
                   deletedPodKeys = map PodKey (take (nat diff) filteredPods)
               in (map DeleteTask (take (nat diff) filteredPods),
                   rm\<lparr>rm_expectations := UID_ExpectDeletions now rcKey deletedPodKeys (rm_expectations rm)\<rparr>)
             else ([], rm))"

definition task_done :: "ReplicationController \<Rightarrow> task \<Rightarrow> bool \<Rightarrow> ReplicationManager \<Rightarrow> ReplicationManager" where
  "task_done rc t ok rm =
     (if ok then rm
      else
        case KeyFunc rc of
          Inl _ \<Rightarrow> rm
        | Inr rcKey \<Rightarrow>
            (case t of
               CreateTask \<Rightarrow> enqueueController rc (creation_observed rcKey rm)
             | DeleteTask pod \<Rightarrow>
                 enqueueController rc
                   (rm\<lparr>rm_expectations := UID_DeletionObserved rcKey (PodKey pod) (rm_expectations rm)\<rparr>)))"

text \<open>\<open>finish\<close> gives the order in which the goroutines end and whether the request of each succeeded.\<close>

definition manageReplicas ::
  "int \<Rightarrow> (ApiPod list \<Rightarrow> ApiPod list) \<Rightarrow> (task list \<Rightarrow> (task \<times> bool) list) \<Rightarrow> ApiPod list \<Rightarrow>
   ReplicationController \<Rightarrow> ReplicationManager \<Rightarrow> ReplicationManager" where
  "manageReplicas now srt finish filteredPods rc rm =
     (case manage_plan now srt filteredPods rc rm of
        (ts, rm) \<Rightarrow> foldl (\<lambda>rm (t, ok). task_done rc t ok rm) rm (finish ts))"

section \<open>Synchronization\<close>

definition statusUpdateRetries :: nat where "statusUpdateRetries = 1"

definition with_status ::
  "int \<Rightarrow> nat \<Rightarrow> nat \<Rightarrow> ReplicationController \<Rightarrow> ReplicationController" where
  "with_status generation numReplicas numFullyLabeledReplicas rc =
     rc\<lparr>rc_Status := \<lparr>rcs_Replicas = word_of_nat numReplicas,
          rcs_FullyLabeledReplicas = word_of_nat numFullyLabeledReplicas, rcs_ObservedGeneration = generation\<rparr>\<rparr>"

text \<open>
  \<open>update\<close> and \<open>get\<close> are the answers of the API server to the \<open>i\<close>th request. The result is the error
  and the controllers that were sent.
\<close>

function update_status_loop ::
  "(nat \<Rightarrow> ReplicationController \<Rightarrow> string option) \<Rightarrow> (nat \<Rightarrow> string + ReplicationController) \<Rightarrow> int \<Rightarrow> nat \<Rightarrow> nat \<Rightarrow>
   nat \<Rightarrow> ReplicationController \<Rightarrow> string option \<times> ReplicationController list" where
  "update_status_loop update get generation n m i rc =
     (let rc = with_status generation n m rc;
          updateErr = update i rc
      in if updateErr = None \<or> i \<ge> statusUpdateRetries then (updateErr, [rc])
         else
           case get i of
             Inl getErr \<Rightarrow> (Some getErr, [rc])
           | Inr rc' \<Rightarrow>
               let (err, sent) = update_status_loop update get generation n m (i + 1) rc'
               in (err, rc # sent))"
  by auto

termination
  by (relation "measure (\<lambda>(_, _, _, _, _, i, _). statusUpdateRetries - i)") auto

definition updateReplicaCount ::
  "(nat \<Rightarrow> ReplicationController \<Rightarrow> string option) \<Rightarrow> (nat \<Rightarrow> string + ReplicationController) \<Rightarrow>
   ReplicationController \<Rightarrow> nat \<Rightarrow> nat \<Rightarrow> string option \<times> ReplicationController list" where
  "updateReplicaCount update get controller numReplicas numFullyLabeledReplicas =
     (if sint (rcs_Replicas (rc_Status controller)) = int numReplicas \<and>
         sint (rcs_FullyLabeledReplicas (rc_Status controller)) = int numFullyLabeledReplicas \<and>
         rc_Generation controller = rcs_ObservedGeneration (rc_Status controller)
      then (None, [])
      else update_status_loop update get (rc_Generation controller) numReplicas numFullyLabeledReplicas 0 controller)"

datatype sync_start =
    NotSynced
  | Deleted_rc
  | Restored ReplicationController bool

definition sync_begin :: "int \<Rightarrow> string \<Rightarrow> ReplicationManager \<Rightarrow> sync_start \<times> ReplicationManager" where
  "sync_begin now key rm =
     (if \<not> rm_podStoreSynced rm then (NotSynced, rm\<lparr>rm_queue := Type_Add key (rm_queue rm)\<rparr>)
      else
        case rm_rcStore rm key of
          None \<Rightarrow> (Deleted_rc, rm\<lparr>rm_expectations := UID_DeleteExpectations key (rm_expectations rm)\<rparr>)
        | Some rc \<Rightarrow>
            (case KeyFunc rc of
               Inl _ \<Rightarrow> (NotSynced, rm)
             | Inr rcKey \<Rightarrow> (Restored rc (SatisfiedExpectations now rcKey (ue_exps (rm_expectations rm))), rm)))"

definition sync_list ::
  "('f :: ord) ctl_env \<Rightarrow> string list \<Rightarrow> ReplicationController \<Rightarrow> ReplicationManager \<Rightarrow> ApiPod list" where
  "sync_list env order rc rm =
     FilterActivePods (Pods_List env order (rc_Namespace rc) (AsSelector env (rc_Selector rc)) (rm_podStore rm))"

definition fully_labeled :: "('f :: ord) ctl_env \<Rightarrow> ReplicationController \<Rightarrow> ApiPod list \<Rightarrow> nat" where
  "fully_labeled env rc filteredPods =
     length (filter (\<lambda>pod. Selector_Matches (ce_parseFloat env) (AsSelector env (pt_Labels (rc_Template rc))) (pod_Labels pod)) filteredPods)"

definition sync_end ::
  "('f :: ord) ctl_env \<Rightarrow> (nat \<Rightarrow> ReplicationController \<Rightarrow> string option) \<Rightarrow> (nat \<Rightarrow> string + ReplicationController) \<Rightarrow>
   ApiPod list \<Rightarrow> ReplicationController \<Rightarrow> ReplicationManager \<Rightarrow> ReplicationManager" where
  "sync_end env update get filteredPods rc rm =
     (if fst (updateReplicaCount update get rc (length filteredPods) (fully_labeled env rc filteredPods)) \<noteq> None
      then enqueueController rc rm else rm)"

record sync_choices =
  sy_now :: int
  sy_order :: "string list"
  sy_sort :: "ApiPod list \<Rightarrow> ApiPod list"
  sy_finish :: "task list \<Rightarrow> (task \<times> bool) list"
  sy_update :: "nat \<Rightarrow> ReplicationController \<Rightarrow> string option"
  sy_get :: "nat \<Rightarrow> string + ReplicationController"

definition syncReplicationController ::
  "('f :: ord) ctl_env \<Rightarrow> sync_choices \<Rightarrow> string \<Rightarrow> ReplicationManager \<Rightarrow> ReplicationManager" where
  "syncReplicationController env ch key rm =
     (case sync_begin (sy_now ch) key rm of
        (Restored rc rcNeedsSync, rm) \<Rightarrow>
          let filteredPods = sync_list env (sy_order ch) rc rm;
              rm = (if rcNeedsSync then manageReplicas (sy_now ch) (sy_sort ch) (sy_finish ch) filteredPods rc rm else rm)
          in sync_end env (sy_update ch) (sy_get ch) filteredPods rc rm
      | (_, rm) \<Rightarrow> rm)"

text \<open>One turn of a worker; \<open>None\<close> if it waits for an item, the flag is \<^verbatim>\<open>quit\<close>.\<close>

definition worker_turn ::
  "('f :: ord) ctl_env \<Rightarrow> sync_choices \<Rightarrow> ReplicationManager \<Rightarrow> (bool \<times> ReplicationManager) option" where
  "worker_turn env ch rm =
     (case Type_Get (rm_queue rm) of
        None \<Rightarrow> None
      | Some ((key, quit), q) \<Rightarrow>
          let rm = rm\<lparr>rm_queue := q\<rparr>
          in case key of
               Some key \<Rightarrow> if quit then Some (True, rm)
                 else
                   let rm = syncReplicationController env ch key rm
                   in Some (False, rm\<lparr>rm_queue := Type_Done key (rm_queue rm)\<rparr>)
             | None \<Rightarrow> Some (True, rm))"

section \<open>Lemmas on the lookup of controllers\<close>

definition rc_key :: "ReplicationController \<Rightarrow> string" where
  "rc_key rc = (if rc_Namespace rc = [] then rc_Name rc else rc_Namespace rc @ ''/'' @ rc_Name rc)"

lemma KeyFunc_eq [simp]: "KeyFunc rc = Inr (rc_key rc)"
  by (simp add: KeyFunc_def MetaNamespaceKeyFunc_def meta_of_def rc_key_def)

lemma set_items_of: "set (items_of m ks) = {v. \<exists>k \<in> set ks. m k = Some v}"
  by (induction ks) (auto split: option.splits)

lemma set_items_of_range: "range_of m ks \<Longrightarrow> set (items_of m ks) = ran m"
  by (auto simp: set_items_of ran_def range_of_def)

lemma distinct_items_of:
  "distinct ks \<Longrightarrow> (\<And>k v. m k = Some v \<Longrightarrow> f v = k) \<Longrightarrow> distinct (map f (items_of m ks))"
  by (induction ks) (auto simp: set_items_of split: option.splits)

lemma set_matching_controllers:
  "set (matching_controllers env pod rcs) =
     {rc \<in> set rcs. \<not> Selector_Empty (AsSelector env (rc_Selector rc)) \<and>
        Selector_Matches (ce_parseFloat env) (AsSelector env (rc_Selector rc)) (pod_Labels pod)}"
  by (induction rcs) auto

lemma isControllerMatch_iff:
  "isControllerMatch env pod rc \<longleftrightarrow>
     rc_Namespace rc = pod_Namespace pod \<and> \<not> Selector_Empty (AsSelector env (rc_Selector rc)) \<and>
     Selector_Matches (ce_parseFloat env) (AsSelector env (rc_Selector rc)) (pod_Labels pod)"
  by (simp add: isControllerMatch_def Let_def)

lemma GetPodControllers_set:
  assumes "range_of store order"
  shows "GetPodControllers env order pod store = Some l \<Longrightarrow>
           l \<noteq> [] \<and> set l = {rc \<in> ran store. isControllerMatch env pod rc}"
    and "GetPodControllers env order pod store = None \<Longrightarrow> pod_Labels pod \<noteq> Map.empty \<Longrightarrow>
           \<forall>rc \<in> ran store. \<not> isControllerMatch env pod rc"
proof -
  define rcs where "rcs = matching_controllers env pod (filter (\<lambda>rc. rc_Namespace rc = pod_Namespace pod) (items_of store order))"
  have set: "set rcs = {rc \<in> ran store. isControllerMatch env pod rc}"
    using set_items_of_range [OF assms] by (auto simp: rcs_def set_matching_controllers isControllerMatch_iff)
  have eq: "GetPodControllers env order pod store = (if pod_Labels pod = Map.empty \<or> rcs = [] then None else Some rcs)"
    by (simp add: GetPodControllers_def rcs_def Let_def)
  show "GetPodControllers env order pod store = Some l \<Longrightarrow> l \<noteq> [] \<and> set l = {rc \<in> ran store. isControllerMatch env pod rc}"
    using set by (auto simp: eq split: if_splits)
  show "GetPodControllers env order pod store = None \<Longrightarrow> pod_Labels pod \<noteq> Map.empty \<Longrightarrow>
      \<forall>rc \<in> ran store. \<not> isControllerMatch env pod rc"
    using set by (auto simp: eq split: if_splits)
qed

text \<open>The lookup cache does not change which controller is found: a controller of the store that matches, or none.\<close>

lemma getPodController_result:
  assumes order: "range_of (rm_rcStore rm) order"
    and cached: "\<And>h rc. (h, rc) \<in> set (lru_entries (rm_lookupCache rm)) \<Longrightarrow> P rc"
    and stored: "\<And>rc. rc \<in> ran (rm_rcStore rm) \<Longrightarrow> P rc"
    and labels: "\<And>rc. rc \<in> ran (rm_rcStore rm) \<Longrightarrow> isControllerMatch env pod rc \<Longrightarrow> pod_Labels pod \<noteq> Map.empty"
    and res: "getPodController env order pod rm = (r, rm')"
  obtains lc where "rm' = rm\<lparr>rm_lookupCache := lc\<rparr>" "\<And>h rc. (h, rc) \<in> set (lru_entries lc) \<Longrightarrow> P rc"
    "case r of None \<Rightarrow> \<forall>rc \<in> ran (rm_rcStore rm). \<not> isControllerMatch env pod rc
     | Some rc \<Rightarrow> P rc \<and> isControllerMatch env pod rc \<and> rm_rcStore rm (rc_key rc) \<noteq> None \<or>
         rc \<in> ran (rm_rcStore rm) \<and> isControllerMatch env pod rc"
proof -
  obtain obj c where get: "GetMatchingObject (ce_hash env) pod (rm_lookupCache rm) = (obj, c)" by fastforce
  note entries = lru_Get_entries [OF get [unfolded GetMatchingObject_def]]
  have c: "\<And>h rc. (h, rc) \<in> set (lru_entries c) \<Longrightarrow> P rc" using entries(1) cached by blast
  show ?thesis
  proof (cases "\<exists>rc. obj = Some rc \<and> isCacheValid env pod rc (rm\<lparr>rm_lookupCache := c\<rparr>)")
    case True
    then obtain rc where rc: "obj = Some rc" "isCacheValid env pod rc (rm\<lparr>rm_lookupCache := c\<rparr>)" by blast
    have "P rc" using entries(2) rc(1) cached by blast
    then show ?thesis
      using that [of c] c rc res get
      by (auto simp: getPodController_def isCacheValid_def rc_Exists_def Let_def split: option.splits if_splits)
  next
    case False
    then have srch: "search_controller env order pod (rm\<lparr>rm_lookupCache := c\<rparr>) = (r, rm')"
      using res get by (auto simp: getPodController_def Let_def split: option.splits if_splits)
    show ?thesis
    proof (cases "GetPodControllers env order pod (rm_rcStore rm)")
      case None
      then have "rm' = rm\<lparr>rm_lookupCache := c\<rparr>" "r = None" using srch by (simp_all add: search_controller_def)
      moreover have "\<forall>rc \<in> ran (rm_rcStore rm). \<not> isControllerMatch env pod rc"
        using GetPodControllers_set(2) [OF order None] labels by blast
      ultimately show ?thesis using that [of c] c by simp
    next
      case (Some l)
      note l = GetPodControllers_set(1) [OF order Some]
      define l' where "l' = (if length l > 1 then sort_key overlapping_key l else l)"
      have set: "set l' = set l" by (simp add: l'_def)
      then have "l' \<noteq> []" using l by fastforce
      then have hd: "l' ! 0 \<in> ran (rm_rcStore rm)" "isControllerMatch env pod (l' ! 0)"
        using l set nth_mem [of 0 l'] by auto
      define lc where "lc = MatchingCache_Update (ce_hash env) pod (l' ! 0) c"
      have "r = Some (l' ! 0)" "rm' = rm\<lparr>rm_lookupCache := lc\<rparr>"
        using srch Some by (simp_all add: search_controller_def Let_def l'_def lc_def)
      moreover have "P rc" if "(h, rc) \<in> set (lru_entries lc)" for h rc
        using that lru_Add_entries c stored [OF hd(1)] unfolding lc_def MatchingCache_Update_def MatchingCache_Add_def
        by fastforce
      ultimately show ?thesis using that [of lc] hd by simp
    qed
  qed
qed

end
