(* ===== verification/Replication_Cluster.thy ===== *)
theory Replication_Cluster
  imports Replication_Manager
begin

text \<open>
  The replication manager in its cluster: an API server that holds the pods and answers the
  requests of the manager, a stream of watch events to the manager's informer, the handlers that
  are notified after the informer has updated the local store, workers that synchronize
  controllers, and everybody else who changes, stops and removes pods. The steps interleave
  freely; a synchronization is one step for each of its parts and for every request.

  The theory shows that the expectations do their work: however the steps interleave and
  whatever requests fail, the manager never runs more pods than the most it was asked for, never
  goes below the least it was asked for, and never comes to rest with the wrong number.
\<close>

section \<open>The cluster\<close>

record 'f rep_config =
  c_env :: "'f ctl_env"
  c_rcs :: "string \<rightharpoonup> ReplicationController"
  c_lo :: "string \<Rightarrow> int"
  c_hi :: "string \<Rightarrow> int"
  c_outside :: bool

datatype pod_event = PodAdded ApiPod | PodModified ApiPod | PodDeleted ApiPod

datatype notification =
    NoteAdd ApiPod
  | NoteUpdate ApiPod ApiPod
  | NoteDelete ApiPod
  | NoteRC ReplicationController ReplicationController

datatype phase =
    Started
  | Checked ReplicationController bool
  | Listed ReplicationController bool "ApiPod list"
  | Acting ReplicationController "ApiPod list" "task list"

text \<open>\<open>s_seen\<close> are the namespaces and labels of all pods there ever were: names are not used twice.\<close>

record system =
  s_pods :: "string \<rightharpoonup> ApiPod"
  s_seen :: "string \<rightharpoonup> string \<times> Set"
  s_events :: "pod_event list"
  s_notes :: "notification list"
  s_rm :: ReplicationManager
  s_workers :: "string \<rightharpoonup> phase"

fun apply_event :: "pod_event \<Rightarrow> (string \<rightharpoonup> ApiPod) \<Rightarrow> (string \<rightharpoonup> ApiPod)" where
  "apply_event (PodAdded p) m = m(PodKey p \<mapsto> p)"
| "apply_event (PodModified p) m = m(PodKey p \<mapsto> p)"
| "apply_event (PodDeleted p) m = map_delete (PodKey p) m"

text \<open>What the informer tells the handlers, given its store before the event.\<close>

fun note_of :: "(string \<rightharpoonup> ApiPod) \<Rightarrow> pod_event \<Rightarrow> notification" where
  "note_of m (PodAdded p) = (case m (PodKey p) of None \<Rightarrow> NoteAdd p | Some old \<Rightarrow> NoteUpdate old p)"
| "note_of m (PodModified p) = (case m (PodKey p) of None \<Rightarrow> NoteAdd p | Some old \<Rightarrow> NoteUpdate old p)"
| "note_of m (PodDeleted p) = NoteDelete p"

fun handle_note ::
  "('f :: ord) ctl_env \<Rightarrow> string list \<Rightarrow> string list \<Rightarrow> notification \<Rightarrow> ReplicationManager \<Rightarrow> ReplicationManager" where
  "handle_note env o1 o2 (NoteAdd p) rm = addPod env o1 o2 p rm"
| "handle_note env o1 o2 (NoteUpdate old cur) rm = ReplicationManager_updatePod env o1 o2 old cur rm"
| "handle_note env o1 o2 (NoteDelete p) rm = deletePod env o1 (Obj p) rm"
| "handle_note env o1 o2 (NoteRC old cur) rm = update_rc old cur rm"

definition rc_version :: "ReplicationController \<Rightarrow> ReplicationController \<Rightarrow> bool" where
  "rc_version rc rc' \<longleftrightarrow>
     rc_Name rc = rc_Name rc' \<and> rc_Namespace rc = rc_Namespace rc' \<and> rc_Selector rc = rc_Selector rc' \<and>
     rc_Template rc = rc_Template rc' \<and> rc_CreationTimestamp rc = rc_CreationTimestamp rc'"

definition same_identity :: "ApiPod \<Rightarrow> ApiPod \<Rightarrow> bool" where
  "same_identity p p' \<longleftrightarrow>
     pod_Name p = pod_Name p' \<and> pod_Namespace p = pod_Namespace p' \<and> pod_Labels p = pod_Labels p'"

text \<open>A pod that ended or is being deleted does not come back.\<close>

definition pod_change :: "ApiPod \<Rightarrow> ApiPod \<Rightarrow> bool" where
  "pod_change p p' \<longleftrightarrow> same_identity p p' \<and> p \<noteq> p' \<and> (IsPodActive p' \<longrightarrow> IsPodActive p) \<and>
     (pod_DeletionTimestamp p \<noteq> None \<longrightarrow> pod_DeletionTimestamp p' \<noteq> None)"

definition sorts_pods :: "(ApiPod list \<Rightarrow> ApiPod list) \<Rightarrow> bool" where
  "sorts_pods srt \<longleftrightarrow> (\<forall>l. mset (srt l) = mset l \<and> sorted_wrt (\<lambda>a b. \<not> ActivePods_Less b a) (srt l))"

inductive rm_step :: "('f :: ord) rep_config \<Rightarrow> system \<Rightarrow> system \<Rightarrow> bool" for c where
  take: "Type_Get (rm_queue (s_rm s)) = Some ((Some k, False), q) \<Longrightarrow>
    rm_step c s (s\<lparr>s_rm := (s_rm s)\<lparr>rm_queue := q\<rparr>, s_workers := (s_workers s)(k \<mapsto> Started)\<rparr>)"
| begin_sync: "s_workers s k = Some Started \<Longrightarrow> sync_begin now k (s_rm s) = (Restored rc b, rm) \<Longrightarrow>
    (\<And>e. ue_exps (rm_expectations (s_rm s)) k = Some e \<Longrightarrow> \<not> isExpired now e) \<Longrightarrow>
    rm_step c s (s\<lparr>s_rm := rm, s_workers := (s_workers s)(k \<mapsto> Checked rc b)\<rparr>)"
| begin_not: "s_workers s k = Some Started \<Longrightarrow> sync_begin now k (s_rm s) = (r, rm) \<Longrightarrow>
    (\<And>rc b. r \<noteq> Restored rc b) \<Longrightarrow>
    rm_step c s (s\<lparr>s_rm := rm\<lparr>rm_queue := Type_Done k (rm_queue rm)\<rparr>, s_workers := (s_workers s)(k := None)\<rparr>)"
| list_pods: "s_workers s k = Some (Checked rc b) \<Longrightarrow> range_of (rm_podStore (s_rm s)) order \<Longrightarrow>
    rm_step c s (s\<lparr>s_workers := (s_workers s)(k \<mapsto> Listed rc b (sync_list (c_env c) order rc (s_rm s)))\<rparr>)"
| plan: "s_workers s k = Some (Listed rc b fp) \<Longrightarrow> sorts_pods srt \<Longrightarrow>
    (ts, rm) = (if b then manage_plan now srt fp rc (s_rm s) else ([], s_rm s)) \<Longrightarrow>
    rm_step c s (s\<lparr>s_rm := rm, s_workers := (s_workers s)(k \<mapsto> Acting rc fp ts)\<rparr>)"
| create_ok: "s_workers s k = Some (Acting rc fp (ts1 @ CreateTask # ts2)) \<Longrightarrow>
    CreatePods (c_env c) (\<lambda>_ _. None) (rc_Namespace rc) (rc_Template rc) (rc_Name rc) = None \<Longrightarrow>
    GetPodFromTemplate (c_env c) (rc_Template rc) (rc_Namespace rc) (rc_Name rc) = Some p0 \<Longrightarrow>
    p = p0\<lparr>pod_Name := name, pod_Namespace := rc_Namespace rc, pod_CreationTimestamp := now, pod_Phase := ''Pending''\<rparr> \<Longrightarrow>
    s_seen s (PodKey p) = None \<Longrightarrow>
    rm_step c s (s\<lparr>s_pods := (s_pods s)(PodKey p \<mapsto> p), s_seen := (s_seen s)(PodKey p \<mapsto> (pod_Namespace p, pod_Labels p)),
      s_events := s_events s @ [PodAdded p], s_workers := (s_workers s)(k \<mapsto> Acting rc fp (ts1 @ ts2))\<rparr>)"
| task_fails: "s_workers s k = Some (Acting rc fp (ts1 @ t # ts2)) \<Longrightarrow>
    rm_step c s (s\<lparr>s_rm := task_done rc t False (s_rm s), s_workers := (s_workers s)(k \<mapsto> Acting rc fp (ts1 @ ts2))\<rparr>)"
| delete_mark: "s_workers s k = Some (Acting rc fp (ts1 @ DeleteTask d # ts2)) \<Longrightarrow>
    s_pods s (PodKey d) = Some p \<Longrightarrow> pod_DeletionTimestamp p = None \<Longrightarrow> p' = p\<lparr>pod_DeletionTimestamp := Some t\<rparr> \<Longrightarrow>
    rm_step c s (s\<lparr>s_pods := (s_pods s)(PodKey d \<mapsto> p'), s_events := s_events s @ [PodModified p'],
      s_workers := (s_workers s)(k \<mapsto> Acting rc fp (ts1 @ ts2))\<rparr>)"
| delete_remove: "s_workers s k = Some (Acting rc fp (ts1 @ DeleteTask d # ts2)) \<Longrightarrow>
    s_pods s (PodKey d) = Some p \<Longrightarrow>
    rm_step c s (s\<lparr>s_pods := map_delete (PodKey d) (s_pods s), s_events := s_events s @ [PodDeleted p],
      s_workers := (s_workers s)(k \<mapsto> Acting rc fp (ts1 @ ts2))\<rparr>)"
| delete_already: "s_workers s k = Some (Acting rc fp (ts1 @ DeleteTask d # ts2)) \<Longrightarrow>
    s_pods s (PodKey d) = Some p \<Longrightarrow> pod_DeletionTimestamp p \<noteq> None \<Longrightarrow>
    rm_step c s (s\<lparr>s_workers := (s_workers s)(k \<mapsto> Acting rc fp (ts1 @ ts2))\<rparr>)"
| finish: "s_workers s k = Some (Acting rc fp []) \<Longrightarrow> rm = sync_end (c_env c) update get fp rc (s_rm s) \<Longrightarrow>
    rm_step c s (s\<lparr>s_rm := rm\<lparr>rm_queue := Type_Done k (rm_queue rm)\<rparr>, s_workers := (s_workers s)(k := None)\<rparr>)"
| informer: "s_events s = e # es \<Longrightarrow>
    rm_step c s (s\<lparr>s_events := es, s_notes := s_notes s @ [note_of (rm_podStore (s_rm s)) e],
      s_rm := (s_rm s)\<lparr>rm_podStore := apply_event e (rm_podStore (s_rm s))\<rparr>\<rparr>)"
| handler: "s_notes s = n # ns \<Longrightarrow> range_of (rm_rcStore (s_rm s)) o1 \<Longrightarrow> range_of (rm_rcStore (s_rm s)) o2 \<Longrightarrow>
    rm_step c s (s\<lparr>s_notes := ns, s_rm := handle_note (c_env c) o1 o2 n (s_rm s)\<rparr>)"
| modify: "s_pods s x = Some p \<Longrightarrow> pod_change p p' \<Longrightarrow> c_outside c \<or> IsPodActive p' = IsPodActive p \<Longrightarrow>
    rm_step c s (s\<lparr>s_pods := (s_pods s)(x \<mapsto> p'), s_events := s_events s @ [PodModified p']\<rparr>)"
| remove: "s_pods s x = Some p \<Longrightarrow> c_outside c \<or> \<not> IsPodActive p \<Longrightarrow>
    rm_step c s (s\<lparr>s_pods := map_delete x (s_pods s), s_events := s_events s @ [PodDeleted p]\<rparr>)"
| change_rc: "rm_rcStore (s_rm s) k = Some rc \<Longrightarrow> rc_version rc rc' \<Longrightarrow> c_lo c k \<le> rc_Replicas rc' \<Longrightarrow>
    rc_Replicas rc' \<le> c_hi c k \<Longrightarrow>
    rm_step c s (s\<lparr>s_rm := (s_rm s)\<lparr>rm_rcStore := (rm_rcStore (s_rm s))(k \<mapsto> rc')\<rparr>, s_notes := s_notes s @ [NoteRC rc rc']\<rparr>)"
| pods_synced: "rm_step c s (s\<lparr>s_rm := (s_rm s)\<lparr>rm_podStoreSynced := True\<rparr>\<rparr>)"

text \<open>The manager after it was started: it knows the controllers and pods and has queued the controllers.\<close>

definition started :: "ReplicationManager \<Rightarrow> string list \<Rightarrow> (string \<rightharpoonup> ReplicationController) \<Rightarrow> (string \<rightharpoonup> ApiPod) \<Rightarrow> notification list \<Rightarrow> system" where
  "started rm ks rcs pods notes =
     \<lparr>s_pods = pods, s_seen = (\<lambda>x. map_option (\<lambda>p. (pod_Namespace p, pod_Labels p)) (pods x)), s_events = [], s_notes = notes,
      s_rm = rm\<lparr>rm_rcStore := rcs, rm_podStore := pods, rm_queue := foldl (\<lambda>q k. Type_Add k q) (rm_queue rm) ks\<rparr>,
      s_workers = Map.empty\<rparr>"

inductive runs :: "('f :: ord) rep_config \<Rightarrow> system \<Rightarrow> system \<Rightarrow> bool" for c s0 where
  runs_start: "runs c s0 s0"
| runs_step: "runs c s0 s \<Longrightarrow> rm_step c s s' \<Longrightarrow> runs c s0 s'"

section \<open>Controllers and identities\<close>

type_synonym identity = "string \<times> Set"

definition pod_id :: "ApiPod \<Rightarrow> identity" where
  "pod_id p = (pod_Namespace p, pod_Labels p)"

definition selects :: "('f :: ord) ctl_env \<Rightarrow> ReplicationController \<Rightarrow> identity \<Rightarrow> bool" where
  "selects env rc i \<longleftrightarrow> rc_Namespace rc = fst i \<and> \<not> Selector_Empty (AsSelector env (rc_Selector rc)) \<and>
     Selector_Matches (ce_parseFloat env) (AsSelector env (rc_Selector rc)) (snd i)"

definition owns :: "('f :: ord) rep_config \<Rightarrow> string \<Rightarrow> identity \<Rightarrow> bool" where
  "owns c k i \<longleftrightarrow> (\<exists>rc. c_rcs c k = Some rc \<and> selects (c_env c) rc i)"

definition single :: "('f :: ord) rep_config \<Rightarrow> identity \<Rightarrow> bool" where
  "single c i \<longleftrightarrow> (\<forall>k k'. owns c k i \<longrightarrow> owns c k' i \<longrightarrow> k = k')"

text \<open>
  What the API server's validation and the users of the cluster see to: controllers are stored
  under their keys, in a namespace, with a selector that does not select everything and a
  template that it selects, and no pod belongs to two controllers.
\<close>

definition config_ok :: "('f :: ord) rep_config \<Rightarrow> bool" where
  "config_ok c \<longleftrightarrow>
     (\<forall>k rc. c_rcs c k = Some rc \<longrightarrow>
        rc_key rc = k \<and> rc_Namespace rc \<noteq> [] \<and> 0 \<le> c_lo c k \<and>
        c_lo c k \<le> rc_Replicas rc \<and> rc_Replicas rc \<le> c_hi c k \<and>
        \<not> Selector_Matches (ce_parseFloat (c_env c)) (AsSelector (c_env c) (rc_Selector rc)) Map.empty \<and>
        owns c k (rc_Namespace rc, pt_Labels (rc_Template rc)) \<and>
        single c (rc_Namespace rc, pt_Labels (rc_Template rc)))"

definition rc_ok :: "('f :: ord) rep_config \<Rightarrow> string \<Rightarrow> ReplicationController \<Rightarrow> bool" where
  "rc_ok c k rc \<longleftrightarrow> (\<exists>rc0. c_rcs c k = Some rc0 \<and> rc_version rc0 rc) \<and>
     c_lo c k \<le> rc_Replicas rc \<and> rc_Replicas rc \<le> c_hi c k"

lemma isControllerMatch_selects: "isControllerMatch env p rc \<longleftrightarrow> selects env rc (pod_id p)"
  by (simp add: isControllerMatch_iff selects_def pod_id_def)

lemma rc_ok_key: "config_ok c \<Longrightarrow> rc_ok c k rc \<Longrightarrow> rc_key rc = k"
  unfolding rc_ok_def config_ok_def rc_version_def rc_key_def by metis

lemma rc_ok_selects: "rc_ok c k rc \<Longrightarrow> selects (c_env c) rc i \<longleftrightarrow> owns c k i"
  by (auto simp: rc_ok_def owns_def selects_def rc_version_def)

lemma rc_ok_labels:
  assumes "config_ok c" and "rc_ok c k rc" and "selects (c_env c) rc i"
  shows "snd i \<noteq> Map.empty"
  using assms unfolding rc_ok_def config_ok_def rc_version_def selects_def by metis

definition rcs_ok :: "('f :: ord) rep_config \<Rightarrow> ReplicationManager \<Rightarrow> bool" where
  "rcs_ok c rm \<longleftrightarrow> (\<forall>k. rm_rcStore rm k = None \<longleftrightarrow> c_rcs c k = None) \<and>
     (\<forall>k rc. rm_rcStore rm k = Some rc \<longrightarrow> rc_ok c k rc) \<and>
     (\<forall>h rc. (h, rc) \<in> set (lru_entries (rm_lookupCache rm)) \<longrightarrow> (\<exists>k. rc_ok c k rc))"

lemma owner_found:
  assumes cfg: "config_ok c" and rcs: "rcs_ok c rm" and order: "range_of (rm_rcStore rm) order"
    and single: "single c (pod_id p)"
    and res: "getPodController (c_env c) order p rm = (r, rm')"
  obtains lc where "rm' = rm\<lparr>rm_lookupCache := lc\<rparr>" "rcs_ok c (rm\<lparr>rm_lookupCache := lc\<rparr>)"
    "case r of None \<Rightarrow> \<forall>k. \<not> owns c k (pod_id p) | Some rc \<Rightarrow> owns c (rc_key rc) (pod_id p)"
proof -
  have stored: "\<exists>k. rc_ok c k rc" if "rc \<in> ran (rm_rcStore rm)" for rc
    using that rcs by (auto simp: rcs_ok_def ran_def)
  have cached: "\<exists>k. rc_ok c k rc" if "(h, rc) \<in> set (lru_entries (rm_lookupCache rm))" for h rc
    using that rcs by (auto simp: rcs_ok_def)
  have labels: "pod_Labels p \<noteq> Map.empty" if "rc \<in> ran (rm_rcStore rm)" "isControllerMatch (c_env c) p rc" for rc
    using stored [OF that(1)] rc_ok_labels [OF cfg, of _ rc "pod_id p"] that(2)
    by (auto simp: isControllerMatch_selects pod_id_def)
  obtain lc where lc: "rm' = rm\<lparr>rm_lookupCache := lc\<rparr>" "\<And>h rc. (h, rc) \<in> set (lru_entries lc) \<Longrightarrow> \<exists>k. rc_ok c k rc"
    and r: "case r of None \<Rightarrow> \<forall>rc \<in> ran (rm_rcStore rm). \<not> isControllerMatch (c_env c) p rc
     | Some rc \<Rightarrow> (\<exists>k. rc_ok c k rc) \<and> isControllerMatch (c_env c) p rc \<and> rm_rcStore rm (rc_key rc) \<noteq> None \<or>
         rc \<in> ran (rm_rcStore rm) \<and> isControllerMatch (c_env c) p rc"
    by (rule getPodController_result [where P = "\<lambda>rc. \<exists>k. rc_ok c k rc", OF order cached stored labels res]) blast+
  have "case r of None \<Rightarrow> \<forall>k. \<not> owns c k (pod_id p) | Some rc \<Rightarrow> owns c (rc_key rc) (pod_id p)"
  proof (cases r)
    case None
    have "\<not> owns c k (pod_id p)" for k
    proof
      assume own: "owns c k (pod_id p)"
      then have "c_rcs c k \<noteq> None" by (auto simp: owns_def)
      then have "rm_rcStore rm k \<noteq> None" using rcs by (simp add: rcs_ok_def)
      then obtain rc where rc: "rm_rcStore rm k = Some rc" by blast
      then have "rc_ok c k rc" using rcs by (auto simp: rcs_ok_def)
      then have "isControllerMatch (c_env c) p rc" using own by (simp add: isControllerMatch_selects rc_ok_selects)
      then show False using r None rc by (auto simp: ran_def)
    qed
    then show ?thesis using None by simp
  next
    case (Some rc)
    then obtain k where "rc_ok c k rc" "isControllerMatch (c_env c) p rc" using r stored by auto
    then have "owns c (rc_key rc) (pod_id p)" using rc_ok_key [OF cfg] rc_ok_selects by (metis isControllerMatch_selects)
    then show ?thesis using Some by simp
  qed
  moreover have "rcs_ok c (rm\<lparr>rm_lookupCache := lc\<rparr>)" using rcs lc(2) by (auto simp: rcs_ok_def)
  ultimately show ?thesis using that lc(1) by blast
qed

section \<open>What the handlers do\<close>

fun note_pod :: "notification \<Rightarrow> ApiPod option" where
  "note_pod (NoteAdd p) = Some p"
| "note_pod (NoteUpdate old cur) = Some cur"
| "note_pod (NoteDelete p) = Some p"
| "note_pod (NoteRC old cur) = None"

fun note_owns :: "('f :: ord) rep_config \<Rightarrow> string \<Rightarrow> notification \<Rightarrow> bool" where
  "note_owns c k (NoteRC old cur) = (rc_key cur = k)"
| "note_owns c k n = owns c k (pod_id (the (note_pod n)))"

fun note_removes :: "notification \<Rightarrow> bool" where
  "note_removes (NoteUpdate old cur) = (pod_DeletionTimestamp cur \<noteq> None)"
| "note_removes (NoteDelete p) = True"
| "note_removes n = False"

fun note_adds :: "notification \<Rightarrow> bool" where
  "note_adds (NoteAdd p) = True"
| "note_adds n = False"

definition note_exps ::
  "string \<Rightarrow> notification \<Rightarrow> UIDTrackingControllerExpectations \<Rightarrow> UIDTrackingControllerExpectations" where
  "note_exps k n u =
     (if note_adds n then u\<lparr>ue_exps := CreationObserved k (ue_exps u)\<rparr>
      else if note_removes n then UID_DeletionObserved k (PodKey (the (note_pod n))) u else u)"

fun note_ok :: "('f :: ord) rep_config \<Rightarrow> notification \<Rightarrow> bool" where
  "note_ok c (NoteAdd p) \<longleftrightarrow> pod_DeletionTimestamp p = None"
| "note_ok c (NoteUpdate old cur) \<longleftrightarrow> old \<noteq> cur \<and> pod_id old = pod_id cur \<and> PodKey old = PodKey cur"
| "note_ok c (NoteDelete p) \<longleftrightarrow> True"
| "note_ok c (NoteRC old cur) \<longleftrightarrow> (\<exists>k. rc_ok c k old \<and> rc_ok c k cur)"

definition noted ::
  "('f :: ord) rep_config \<Rightarrow> notification \<Rightarrow> ReplicationManager \<Rightarrow> ReplicationManager \<Rightarrow> bool" where
  "noted c n rm rm' \<longleftrightarrow> (\<exists>lc. rcs_ok c (rm\<lparr>rm_lookupCache := lc\<rparr>) \<and>
     ((\<forall>k. \<not> note_owns c k n) \<and> rm' = rm\<lparr>rm_lookupCache := lc\<rparr> \<or>
      (\<exists>k. note_owns c k n \<and>
         rm' = rm\<lparr>rm_lookupCache := lc, rm_expectations := note_exps k n (rm_expectations rm),
                  rm_queue := Type_Add k (rm_queue rm)\<rparr>)))"

lemma enqueueController_eq [simp]: "enqueueController rc rm = rm\<lparr>rm_queue := Type_Add (rc_key rc) (rm_queue rm)\<rparr>"
  by (simp add: enqueueController_def)

lemma notedI:
  assumes "rcs_ok c (rm\<lparr>rm_lookupCache := lc\<rparr>)" and "note_owns c k n"
    and "rm' = rm\<lparr>rm_lookupCache := lc, rm_expectations := note_exps k n (rm_expectations rm), rm_queue := Type_Add k (rm_queue rm)\<rparr>"
  shows "noted c n rm rm'"
  using assms unfolding noted_def by blast

lemma deletePod_noted:
  assumes "config_ok c" "rcs_ok c rm" "range_of (rm_rcStore rm) order" "single c (pod_id p)"
    and n: "note_removes n" "note_pod n = Some p"
  shows "noted c n rm (deletePod (c_env c) order (Obj p) rm)"
proof -
  obtain r rm' where res: "getPodController (c_env c) order p rm = (r, rm')" by fastforce
  obtain lc where lc: "rm' = rm\<lparr>rm_lookupCache := lc\<rparr>" "rcs_ok c (rm\<lparr>rm_lookupCache := lc\<rparr>)"
    "case r of None \<Rightarrow> \<forall>k. \<not> owns c k (pod_id p) | Some rc \<Rightarrow> owns c (rc_key rc) (pod_id p)"
    using owner_found [OF assms(1-4) res] by blast
  have own: "note_owns c k n \<longleftrightarrow> owns c k (pod_id p)" and ex: "note_exps k n u = UID_DeletionObserved k (PodKey p) u" for k u
    using n by (cases n; simp add: note_exps_def)+
  show ?thesis
  proof (cases r)
    case None
    then show ?thesis using lc res unfolding noted_def by (auto simp: deletePod_def pod_of_deleted_def own)
  next
    case (Some rc)
    show ?thesis
      by (rule notedI [OF lc(2), of "rc_key rc"])
        (use Some lc res in \<open>simp_all add: own ex deletePod_def pod_of_deleted_def\<close>)
  qed
qed

lemma handle_noted:
  assumes "config_ok c" "rcs_ok c rm" "range_of (rm_rcStore rm) o1" "range_of (rm_rcStore rm) o2"
    and ok: "note_ok c n" and single: "\<And>p. note_pod n = Some p \<Longrightarrow> single c (pod_id p)"
  shows "noted c n rm (handle_note (c_env c) o1 o2 n rm)"
proof (cases n)
  case (NoteAdd p)
  obtain r rm' where res: "getPodController (c_env c) o1 p rm = (r, rm')" by fastforce
  obtain lc where lc: "rm' = rm\<lparr>rm_lookupCache := lc\<rparr>" "rcs_ok c (rm\<lparr>rm_lookupCache := lc\<rparr>)"
    "case r of None \<Rightarrow> \<forall>k. \<not> owns c k (pod_id p) | Some rc \<Rightarrow> owns c (rc_key rc) (pod_id p)"
    using owner_found [OF assms(1-3) _ res] single NoteAdd by auto
  show ?thesis
  proof (cases r)
    case None
    then show ?thesis using NoteAdd lc res unfolding noted_def by (auto simp: addPod_def)
  next
    case (Some rc)
    show ?thesis
      by (rule notedI [OF lc(2), of "rc_key rc"])
        (use Some NoteAdd ok lc res in \<open>simp_all add: addPod_def note_exps_def creation_observed_def\<close>)
  qed
next
  case (NoteUpdate old cur)
  then have upd: "handle_note (c_env c) o1 o2 n rm =
      (if pod_DeletionTimestamp cur \<noteq> None then deletePod (c_env c) o1 (Obj cur) rm else enqueue_owner (c_env c) o1 cur rm)"
    using ok by (simp add: ReplicationManager_updatePod_def pod_id_def)
  show ?thesis
  proof (cases "pod_DeletionTimestamp cur = None")
    case False
    then show ?thesis
      using deletePod_noted [OF assms(1-3), of cur n] single NoteUpdate upd by simp
  next
    case True
    obtain r rm' where res: "getPodController (c_env c) o1 cur rm = (r, rm')" by fastforce
    obtain lc where lc: "rm' = rm\<lparr>rm_lookupCache := lc\<rparr>" "rcs_ok c (rm\<lparr>rm_lookupCache := lc\<rparr>)"
      "case r of None \<Rightarrow> \<forall>k. \<not> owns c k (pod_id cur) | Some rc \<Rightarrow> owns c (rc_key rc) (pod_id cur)"
      using owner_found [OF assms(1-3) _ res] single NoteUpdate by auto
    show ?thesis
    proof (cases r)
      case None
      then show ?thesis using NoteUpdate True upd lc res unfolding noted_def by (auto simp: enqueue_owner_def)
    next
      case (Some rc)
      show ?thesis
        by (rule notedI [OF lc(2), of "rc_key rc"])
          (use Some NoteUpdate True upd lc res in \<open>simp_all add: enqueue_owner_def note_exps_def\<close>)
    qed
  qed
next
  case (NoteDelete p)
  then show ?thesis using deletePod_noted [OF assms(1-3), of p n] single by simp
next
  case (NoteRC old cur)
  then have "rc_Selector old = rc_Selector cur" using ok by (auto simp: rc_ok_def rc_version_def)
  then show ?thesis
    using NoteRC assms(2)
    by (intro notedI [where lc = "rm_lookupCache rm" and k = "rc_key cur"]) (simp_all add: update_rc_def note_exps_def)
qed

section \<open>The stream of events\<close>

fun ev_pod :: "pod_event \<Rightarrow> ApiPod" where
  "ev_pod (PodAdded p) = p"
| "ev_pod (PodModified p) = p"
| "ev_pod (PodDeleted p) = p"

fun ev_adds :: "pod_event \<Rightarrow> bool" where
  "ev_adds (PodAdded p) = True"
| "ev_adds e = False"

fun ev_legal :: "pod_event \<Rightarrow> (string \<rightharpoonup> ApiPod) \<Rightarrow> bool" where
  "ev_legal (PodAdded p) m \<longleftrightarrow> m (PodKey p) = None \<and> IsPodActive p"
| "ev_legal (PodModified p) m \<longleftrightarrow> (\<exists>p0. m (PodKey p) = Some p0 \<and> pod_change p0 p)"
| "ev_legal (PodDeleted p) m \<longleftrightarrow> m (PodKey p) = Some p"

fun legal :: "(string \<rightharpoonup> ApiPod) \<Rightarrow> pod_event list \<Rightarrow> (string \<rightharpoonup> ApiPod) \<Rightarrow> bool" where
  "legal m [] m' \<longleftrightarrow> m = m'"
| "legal m (e # es) m' \<longleftrightarrow> ev_legal e m \<and> legal (apply_event e m) es m'"

lemma legal_snoc: "legal m es m' \<Longrightarrow> ev_legal e m' \<Longrightarrow> legal m (es @ [e]) (apply_event e m')"
  by (induction m es m' rule: legal.induct) auto

definition live :: "(string \<rightharpoonup> ApiPod) \<Rightarrow> string \<Rightarrow> bool" where
  "live m x \<longleftrightarrow> (\<exists>p. m x = Some p \<and> IsPodActive p)"

definition ev_key :: "pod_event \<Rightarrow> string" where
  "ev_key e = PodKey (ev_pod e)"

definition added_keys :: "pod_event list \<Rightarrow> string list" where
  "added_keys es = map ev_key (filter ev_adds es)"

definition keyed :: "(string \<rightharpoonup> identity) \<Rightarrow> (string \<rightharpoonup> ApiPod) \<Rightarrow> bool" where
  "keyed seen m \<longleftrightarrow> (\<forall>x p. m x = Some p \<longrightarrow> PodKey p = x \<and> seen x = Some (pod_id p))"

definition note_inv ::
  "('f :: ord) rep_config \<Rightarrow> (string \<rightharpoonup> identity) \<Rightarrow> (string \<rightharpoonup> ApiPod) \<Rightarrow> notification \<Rightarrow> bool" where
  "note_inv c seen m n \<longleftrightarrow> note_ok c n \<and>
     (\<forall>p. note_pod n = Some p \<longrightarrow> seen (PodKey p) = Some (pod_id p) \<and> (note_removes n \<longrightarrow> \<not> live m (PodKey p)))"

definition note_about :: "string \<Rightarrow> notification \<Rightarrow> bool" where
  "note_about x n \<longleftrightarrow> (\<exists>p. note_pod n = Some p \<and> PodKey p = x)"

definition pods_inv ::
  "('f :: ord) rep_config \<Rightarrow> (string \<rightharpoonup> identity) \<Rightarrow> (string \<rightharpoonup> ApiPod) \<Rightarrow> (string \<rightharpoonup> ApiPod) \<Rightarrow> pod_event list \<Rightarrow>
   notification list \<Rightarrow> bool" where
  "pods_inv c seen P S E N \<longleftrightarrow>
     (\<forall>x i. seen x = Some i \<longrightarrow> single c i) \<and> keyed seen P \<and> keyed seen S \<and> legal S E P \<and> finite (dom P) \<and> finite (dom S) \<and>
     (\<forall>e \<in> set E. seen (ev_key e) = Some (pod_id (ev_pod e))) \<and>
     (\<forall>n \<in> set N. note_inv c seen S n) \<and>
     distinct (added_keys E) \<and> (\<forall>x \<in> set (added_keys E). S x = None \<and> (\<forall>n \<in> set N. \<not> note_about x n))"

lemma pods_invD:
  assumes "pods_inv c seen P S E N"
  shows "\<And>x i. seen x = Some i \<Longrightarrow> single c i" and "keyed seen P" and "keyed seen S" and "legal S E P"
    and "finite (dom P)" and "finite (dom S)"
    and "\<And>e. e \<in> set E \<Longrightarrow> seen (ev_key e) = Some (pod_id (ev_pod e))"
    and "\<And>n. n \<in> set N \<Longrightarrow> note_inv c seen S n" and "distinct (added_keys E)"
    and "\<And>x. x \<in> set (added_keys E) \<Longrightarrow> S x = None" and "\<And>x n. x \<in> set (added_keys E) \<Longrightarrow> n \<in> set N \<Longrightarrow> \<not> note_about x n"
  using assms by (auto simp: pods_inv_def)

lemma added_keys_simps [simp]:
  "added_keys [] = []" "added_keys (e # es) = (if ev_adds e then [ev_key e] else []) @ added_keys es"
  "added_keys (es @ es') = added_keys es @ added_keys es'"
  by (simp_all add: added_keys_def)

lemma added_keys_seen: "pods_inv c seen P S E N \<Longrightarrow> x \<in> set (added_keys E) \<Longrightarrow> seen x \<noteq> None"
  using pods_invD(7) by (fastforce simp: added_keys_def)

lemma pod_change_identity: "pod_change p p' \<Longrightarrow> PodKey p' = PodKey p \<and> pod_id p' = pod_id p"
  by (simp add: pod_change_def same_identity_def PodKey_def pod_id_def)

lemma note_inv_seen: "note_inv c seen m n \<Longrightarrow> seen x = None \<Longrightarrow> note_inv c (seen(x \<mapsto> i)) m n"
  by (auto simp: note_inv_def)

lemma keyed_seen: "keyed seen m \<Longrightarrow> seen x = None \<Longrightarrow> keyed (seen(x \<mapsto> i)) m \<and> m x = None"
  unfolding keyed_def by (metis fun_upd_other option.exhaust option.distinct(1))

lemma pods_inv_create:
  assumes inv: "pods_inv c seen P S E N" and new: "seen (PodKey p) = None" and p: "IsPodActive p" "single c (pod_id p)"
  shows "pods_inv c (seen(PodKey p \<mapsto> pod_id p)) (P(PodKey p \<mapsto> p)) S (E @ [PodAdded p]) N"
proof -
  note i = pods_invD [OF inv]
  have P: "keyed (seen(PodKey p \<mapsto> pod_id p)) P" "P (PodKey p) = None"
    and S: "keyed (seen(PodKey p \<mapsto> pod_id p)) S" "S (PodKey p) = None"
    using keyed_seen [OF i(2) new] keyed_seen [OF i(3) new] by simp_all
  have N: "note_inv c (seen(PodKey p \<mapsto> pod_id p)) S n" "\<not> note_about (PodKey p) n" if "n \<in> set N" for n
    using note_inv_seen [of c seen S n, OF i(8) [OF that] new] i(8) [OF that] new by (auto simp: note_inv_def note_about_def)
  have fresh: "PodKey p \<notin> set (added_keys E)" using added_keys_seen [OF inv] new by blast
  have "legal S (E @ [PodAdded p]) (P(PodKey p \<mapsto> p))"
    using legal_snoc [OF i(4), of "PodAdded p"] P(2) p by simp
  moreover have "(seen(PodKey p \<mapsto> pod_id p)) (ev_key e) = Some (pod_id (ev_pod e))" if "e \<in> set E" for e
    using i(7) [OF that] new by auto
  ultimately show ?thesis
    using i P S N fresh p unfolding pods_inv_def
    by (auto simp: keyed_def ev_key_def)
qed

lemma pods_inv_modify:
  assumes inv: "pods_inv c seen P S E N" and x: "P x = Some p" "pod_change p p'"
  shows "pods_inv c seen (P(x \<mapsto> p')) S (E @ [PodModified p']) N"
proof -
  note i = pods_invD [OF inv]
  have key: "PodKey p' = x" "seen x = Some (pod_id p')"
    using i(2) x pod_change_identity [OF x(2)] by (auto simp: keyed_def)
  then have "legal S (E @ [PodModified p']) (P(x \<mapsto> p'))"
    using legal_snoc [OF i(4), of "PodModified p'"] x by simp
  then show ?thesis using i key unfolding pods_inv_def by (auto simp: keyed_def ev_key_def)
qed

lemma pods_inv_remove:
  assumes inv: "pods_inv c seen P S E N" and x: "P x = Some p"
  shows "pods_inv c seen (map_delete x P) S (E @ [PodDeleted p]) N"
proof -
  note i = pods_invD [OF inv]
  have key: "PodKey p = x" "seen x = Some (pod_id p)" using i(2) x by (auto simp: keyed_def)
  then have "legal S (E @ [PodDeleted p]) (map_delete x P)"
    using legal_snoc [OF i(4), of "PodDeleted p"] x by simp
  then show ?thesis using i key unfolding pods_inv_def by (auto simp: keyed_def ev_key_def)
qed

lemma ev_legal_note:
  assumes "ev_legal e S" and "keyed seen S" and "seen (ev_key e) = Some (pod_id (ev_pod e))"
  shows "note_inv c seen (apply_event e S) (note_of S e)" and "note_pod (note_of S e) = Some (ev_pod e)"
    and "note_adds (note_of S e) = ev_adds e"
proof -
  have del: "pod_DeletionTimestamp p \<noteq> None \<Longrightarrow> \<not> IsPodActive p" for p by (simp add: IsPodActive_def)
  have "pod_change p0 p \<Longrightarrow> p0 \<noteq> p" for p0 p by (simp add: pod_change_def)
  then show "note_inv c seen (apply_event e S) (note_of S e)"
    using assms del by (cases e) (auto simp: note_inv_def live_def ev_key_def pod_change_identity IsPodActive_def)
  show "note_pod (note_of S e) = Some (ev_pod e)" "note_adds (note_of S e) = ev_adds e" using assms by (cases e; auto)+
qed

lemma live_apply_event:
  assumes "ev_legal e S" and "live (apply_event e S) x"
  shows "live S x \<or> ev_adds e \<and> ev_key e = x"
  using assms by (cases e) (auto simp: live_def pod_change_def ev_key_def split: if_splits)

lemma pods_inv_informer:
  assumes inv: "pods_inv c seen P S (e # E) N"
  shows "pods_inv c seen P (apply_event e S) E (N @ [note_of S e])"
proof -
  note i = pods_invD [OF inv]
  have e: "ev_legal e S" "legal (apply_event e S) E P" "seen (ev_key e) = Some (pod_id (ev_pod e))"
    using i(4) i(7) [of e] by simp_all
  note n = ev_legal_note [OF e(1) i(3) e(3)]
  have S: "keyed seen (apply_event e S)" using i(3) e(3) by (cases e) (simp_all add: keyed_def ev_key_def)
  have fin: "finite (dom (apply_event e S))" using i(6) by (cases e) simp_all
  have N: "note_inv c seen (apply_event e S) n" if "n \<in> set N" for n
  proof -
    have "\<not> live (apply_event e S) (PodKey p)" if "note_pod n = Some p" "\<not> live S (PodKey p)" for p
    proof
      assume "live (apply_event e S) (PodKey p)"
      then have "ev_adds e" "ev_key e = PodKey p" using live_apply_event [OF e(1)] that(2) by blast+
      then show False using i(11) [of "PodKey p" n] \<open>n \<in> set N\<close> that(1) by (simp add: note_about_def)
    qed
    then show ?thesis using i(8) [OF that] by (simp add: note_inv_def)
  qed
  have "apply_event e S x = None" "\<not> note_about x (note_of S e)" if "x \<in> set (added_keys E)" for x
  proof -
    have "ev_key e \<noteq> x"
    proof (cases "ev_adds e")
      case True
      then show ?thesis using i(9) that by force
    next
      case False
      then have "S (ev_key e) \<noteq> None" using e(1) by (cases e) (auto simp: ev_key_def)
      then show ?thesis using i(10) [of x] that by auto
    qed
    then show "apply_event e S x = None" "\<not> note_about x (note_of S e)"
      using i(10) [of x] that n(2) by (cases e; auto simp: ev_key_def note_about_def)+
  qed
  moreover have "\<And>e. e \<in> set E \<Longrightarrow> seen (ev_key e) = Some (pod_id (ev_pod e))" using i(7) by simp
  moreover have "distinct (added_keys E)" using i(9) by simp
  moreover have "\<And>x n. x \<in> set (added_keys E) \<Longrightarrow> n \<in> set N \<Longrightarrow> \<not> note_about x n" using i(11) by simp
  ultimately show ?thesis using i(1,2,5) e(2) S fin N n(1) [of c] unfolding pods_inv_def by auto
qed

lemma pods_inv_handler: "pods_inv c seen P S E (n # N) \<Longrightarrow> pods_inv c seen P S E N"
  by (simp add: pods_inv_def)

lemma pods_inv_rc:
  "pods_inv c seen P S E N \<Longrightarrow> rc_ok c k rc \<Longrightarrow> rc_ok c k rc' \<Longrightarrow> pods_inv c seen P S E (N @ [NoteRC rc rc'])"
  by (auto simp: pods_inv_def note_inv_def note_about_def)

section \<open>The invariant of one controller\<close>

text \<open>
  For a controller \<open>k\<close>: the pods that exist (\<open>P\<close>), the local store (\<open>S\<close>), pending events and
  notifications (\<open>E\<close>, \<open>N\<close>), the expected creations and deletions (\<open>a\<close>, \<open>d\<close>) and the keys of the
  latter (\<open>U\<close>), whether the key waits in the queue, the wanted number of replicas and the phase of the worker.
\<close>

fun phase_tasks :: "phase option \<Rightarrow> task list" where
  "phase_tasks (Some (Acting rc fp ts)) = ts"
| "phase_tasks ph = []"

fun del_keys :: "task list \<Rightarrow> string list" where
  "del_keys [] = []"
| "del_keys (CreateTask # ts) = del_keys ts"
| "del_keys (DeleteTask p # ts) = PodKey p # del_keys ts"

definition creates :: "phase option \<Rightarrow> nat" where
  "creates ph = count_list (phase_tasks ph) CreateTask"

definition dels :: "phase option \<Rightarrow> string list" where
  "dels ph = del_keys (phase_tasks ph)"

definition kown :: "('f :: ord) rep_config \<Rightarrow> (string \<rightharpoonup> identity) \<Rightarrow> string \<Rightarrow> string \<Rightarrow> bool" where
  "kown c seen k x \<longleftrightarrow> (\<exists>i. seen x = Some i \<and> owns c k i)"

definition acts :: "('f :: ord) rep_config \<Rightarrow> (string \<rightharpoonup> identity) \<Rightarrow> string \<Rightarrow> (string \<rightharpoonup> ApiPod) \<Rightarrow> string set" where
  "acts c seen k m = {x. live m x \<and> kown c seen k x}"

definition ev_owns :: "('f :: ord) rep_config \<Rightarrow> string \<Rightarrow> pod_event \<Rightarrow> bool" where
  "ev_owns c k e \<longleftrightarrow> owns c k (pod_id (ev_pod e))"

definition adds_ev :: "('f :: ord) rep_config \<Rightarrow> string \<Rightarrow> pod_event list \<Rightarrow> nat" where
  "adds_ev c k E = length (filter (\<lambda>e. ev_adds e \<and> ev_owns c k e) E)"

definition adds_nt :: "('f :: ord) rep_config \<Rightarrow> string \<Rightarrow> notification list \<Rightarrow> nat" where
  "adds_nt c k N = length (filter (\<lambda>n. note_adds n \<and> note_owns c k n) N)"

definition pend :: "('f :: ord) rep_config \<Rightarrow> string \<Rightarrow> pod_event list \<Rightarrow> notification list \<Rightarrow> bool" where
  "pend c k E N \<longleftrightarrow> (\<exists>e \<in> set E. ev_owns c k e) \<or> (\<exists>n \<in> set N. note_owns c k n)"

definition removal :: "pod_event list \<Rightarrow> notification list \<Rightarrow> string \<Rightarrow> bool" where
  "removal E N x \<longleftrightarrow> (\<exists>p. (PodDeleted p \<in> set E \<or> NoteDelete p \<in> set N) \<and> PodKey p = x)"

definition terminating :: "(string \<rightharpoonup> ApiPod) \<Rightarrow> string \<Rightarrow> bool" where
  "terminating m x \<longleftrightarrow> (\<exists>p. m x = Some p \<and> pod_DeletionTimestamp p \<noteq> None)"

definition counts_inv where
  "counts_inv c k E N a d U ph \<longleftrightarrow>
     a = int (creates ph + adds_ev c k E + adds_nt c k N) \<and> finite U \<and> d = int (card U)"

definition quiet where
  "quiet c k E N U \<longleftrightarrow> adds_ev c k E = 0 \<and> adds_nt c k N = 0 \<and> U = {}"

definition phase_inv where
  "phase_inv c k seen P S E N U dirty ph \<longleftrightarrow>
     (case ph of
        Some (Checked rc b) \<Rightarrow> b \<longrightarrow> quiet c k E N U
      | Some (Listed rc b fp) \<Rightarrow>
          (\<forall>x \<in> PodKey ` set fp. kown c seen k x \<and> x \<notin> set (added_keys E)) \<and>
          (b \<longrightarrow> quiet c k E N U \<and> distinct (map PodKey fp) \<and> acts c seen k P \<subseteq> PodKey ` set fp \<and>
             (\<not> c_outside c \<longrightarrow> PodKey ` set fp \<subseteq> acts c seen k P))
      | Some (Acting rc fp ts) \<Rightarrow>
          distinct (del_keys ts) \<and>
          (\<forall>x \<in> set (del_keys ts). kown c seen k x \<and> x \<notin> set (added_keys E) \<and> (x \<in> U \<or> dirty \<and> \<not> live S x))
      | _ \<Rightarrow> True)"

definition bound_inv where
  "bound_inv c k seen P ph \<longleftrightarrow> int (card (acts c seen k P)) + int (creates ph) \<le> c_hi c k"

definition low_inv where
  "low_inv c k seen P S E U ph \<longleftrightarrow>
     (\<not> c_outside c \<longrightarrow>
        c_lo c k \<le> int (card (acts c seen k P - set (dels ph))) \<and> acts c seen k S - acts c seen k P \<subseteq> U \<and>
        set (dels ph) \<subseteq> acts c seen k P \<and>
        (\<forall>x \<in> set (added_keys E). kown c seen k x \<longrightarrow> x \<in> acts c seen k P))"

definition rest_inv where
  "rest_inv c k seen P E N U ph \<longleftrightarrow>
     (\<forall>x \<in> U. kown c seen k x \<and> (x \<in> set (dels ph) \<or> terminating P x \<or> removal E N x))"

definition sleep_inv where
  "sleep_inv c k seen S E N U dirty R ph \<longleftrightarrow>
     dirty \<or> pend c k E N \<or> U \<noteq> {} \<or>
     (case ph of
        None \<Rightarrow> int (card (acts c seen k S)) = R
      | Some Started \<Rightarrow> True
      | Some (Checked rc b) \<Rightarrow> b \<and> rc_Replicas rc = R
      | Some (Listed rc b fp) \<Rightarrow> b \<and> rc_Replicas rc = R \<and> PodKey ` set fp = acts c seen k S
      | Some (Acting rc fp ts) \<Rightarrow> ts \<noteq> [] \<or> int (card (acts c seen k S)) = R)"

definition KI where
  "KI c k seen P S E N a d U dirty R ph \<longleftrightarrow>
     counts_inv c k E N a d U ph \<and> phase_inv c k seen P S E N U dirty ph \<and> bound_inv c k seen P ph \<and>
     low_inv c k seen P S E U ph \<and> rest_inv c k seen P E N U ph \<and> sleep_inv c k seen S E N U dirty R ph"

lemma KID:
  assumes "KI c k seen P S E N a d U dirty R ph"
  shows "counts_inv c k E N a d U ph" "phase_inv c k seen P S E N U dirty ph" "bound_inv c k seen P ph"
    "low_inv c k seen P S E U ph" "rest_inv c k seen P E N U ph" "sleep_inv c k seen S E N U dirty R ph"
  using assms by (simp_all add: KI_def)

lemma KI_I:
  assumes "counts_inv c k E N a d U ph" "phase_inv c k seen P S E N U dirty ph" "bound_inv c k seen P ph"
    "low_inv c k seen P S E U ph" "rest_inv c k seen P E N U ph" "sleep_inv c k seen S E N U dirty R ph"
  shows "KI c k seen P S E N a d U dirty R ph"
  using assms by (simp add: KI_def)

lemma del_keys_append [simp]: "del_keys (ts @ ts') = del_keys ts @ del_keys ts'"
  by (induction ts rule: del_keys.induct) auto

lemma count_list_append' [simp]: "count_list (xs @ ys) x = count_list xs x + count_list ys x"
  by (induction xs) auto

lemma phase_simps [simp]:
  "creates None = 0" "creates (Some Started) = 0" "creates (Some (Checked rc b)) = 0" "creates (Some (Listed rc b fp)) = 0"
  "dels None = []" "dels (Some Started) = []" "dels (Some (Checked rc b)) = []" "dels (Some (Listed rc b fp)) = []"
  "creates (Some (Acting rc fp ts)) = count_list ts CreateTask" "dels (Some (Acting rc fp ts)) = del_keys ts"
  by (simp_all add: creates_def dels_def)

lemma counts_append [simp]:
  "adds_ev c k (E @ E') = adds_ev c k E + adds_ev c k E'" "adds_nt c k (N @ N') = adds_nt c k N + adds_nt c k N'"
  "adds_ev c k [] = 0" "adds_nt c k [] = 0"
  "adds_ev c k (e # E) = (if ev_adds e \<and> ev_owns c k e then 1 else 0) + adds_ev c k E"
  "adds_nt c k (n # N) = (if note_adds n \<and> note_owns c k n then 1 else 0) + adds_nt c k N"
  by (simp_all add: adds_ev_def adds_nt_def)

lemma adds_pend: "0 < adds_ev c k E + adds_nt c k N \<Longrightarrow> pend c k E N"
  by (auto simp: adds_ev_def adds_nt_def pend_def filter_empty_conv)

lemma finite_acts: "finite (dom m) \<Longrightarrow> finite (acts c seen k m)"
  by (rule finite_subset [of _ "dom m"]) (auto simp: acts_def live_def)

section \<open>Steps of a worker\<close>

lemma KI_dirty: "KI c k seen P S E N a d U dirty R ph \<Longrightarrow> (dirty \<Longrightarrow> dirty') \<Longrightarrow> KI c k seen P S E N a d U dirty' R ph"
  unfolding KI_def phase_inv_def sleep_inv_def by (auto split: option.splits phase.splits)

lemma KI_take: "KI c k seen P S E N a d U dirty R None \<Longrightarrow> KI c k seen P S E N a d U False R (Some Started)"
  by (auto simp: KI_def counts_inv_def phase_inv_def bound_inv_def low_inv_def rest_inv_def sleep_inv_def)

lemma KI_begin:
  assumes inv: "KI c k seen P S E N a d U dirty R (Some Started)" and R: "R = rc_Replicas rc"
    and sat: "b \<Longrightarrow> a \<le> 0 \<and> d \<le> 0" and unsat: "\<not> b \<Longrightarrow> 0 < a \<or> 0 < d"
  shows "KI c k seen P S E N a d U dirty R (Some (Checked rc b))"
proof (rule KI_I)
  note i = KID [OF inv]
  have cnt: "a = int (adds_ev c k E + adds_nt c k N)" "finite U" "d = int (card U)"
    using i(1) by (simp_all add: counts_inv_def)
  then show "phase_inv c k seen P S E N U dirty (Some (Checked rc b))"
    using sat by (auto simp: phase_inv_def quiet_def)
  show "sleep_inv c k seen S E N U dirty R (Some (Checked rc b))"
  proof (cases b)
    case False
    then have "0 < adds_ev c k E + adds_nt c k N \<or> U \<noteq> {}" using unsat cnt by auto
    then show ?thesis using adds_pend [of c k E N] by (auto simp: sleep_inv_def)
  qed (simp add: sleep_inv_def R)
qed (use KID [OF inv] in \<open>simp_all add: counts_inv_def bound_inv_def low_inv_def rest_inv_def\<close>)

lemma legal_acts:
  assumes "legal S E P" and "x \<in> acts c seen k P" and "\<And>e. e \<in> set E \<Longrightarrow> seen (ev_key e) = Some (pod_id (ev_pod e))"
    and "adds_ev c k E = 0"
  shows "x \<in> acts c seen k S"
  using assms
proof (induction S E P rule: legal.induct)
  case (2 m e es m')
  have "x \<in> acts c seen k (apply_event e m)"
    by (rule "2.IH") (use "2.prems" in \<open>auto split: if_splits\<close>)
  moreover have "\<not> (ev_adds e \<and> ev_key e = x)"
    using "2.prems" by (auto simp: acts_def kown_def ev_owns_def split: if_splits)
  ultimately show ?case using live_apply_event [of e m x] "2.prems"(1) by (auto simp: acts_def)
qed simp

lemma KI_list:
  assumes inv: "KI c k seen P S E N a d U dirty R (Some (Checked rc b))" and pods: "pods_inv c seen P S E N"
    and fp: "PodKey ` set fp = acts c seen k S" "distinct (map PodKey fp)"
  shows "KI c k seen P S E N a d U dirty R (Some (Listed rc b fp))"
proof (rule KI_I)
  note i = KID [OF inv] and p = pods_invD [OF pods]
  have q: "b \<Longrightarrow> quiet c k E N U" using i(2) by (simp add: phase_inv_def)
  have "acts c seen k P \<subseteq> acts c seen k S" if b
    using legal_acts [OF p(4)] p(7) q [OF that] by (auto simp: quiet_def)
  moreover have "acts c seen k S \<subseteq> acts c seen k P" if b "\<not> c_outside c"
    using i(4) q [OF that(1)] that(2) by (auto simp: low_inv_def quiet_def)
  moreover have "kown c seen k x \<and> x \<notin> set (added_keys E)" if "x \<in> acts c seen k S" for x
    using that p(10) [of x] by (auto simp: acts_def live_def)
  ultimately show "phase_inv c k seen P S E N U dirty (Some (Listed rc b fp))"
    unfolding phase_inv_def fp(1) option.case phase.case using fp(2) q by blast
  show "sleep_inv c k seen S E N U dirty R (Some (Listed rc b fp))"
    using i(6) fp by (auto simp: sleep_inv_def)
qed (use KID [OF inv] in \<open>simp_all add: counts_inv_def bound_inv_def low_inv_def rest_inv_def\<close>)

lemma KI_plan_none:
  assumes inv: "KI c k seen P S E N a d U dirty R (Some (Listed rc b fp))" and eq: "b \<Longrightarrow> int (length fp) = rc_Replicas rc"
  shows "KI c k seen P S E N a d U dirty R (Some (Acting rc fp []))"
proof (rule KI_I)
  note i = KID [OF inv]
  have "int (card (acts c seen k S)) = R" if "b" "rc_Replicas rc = R" "PodKey ` set fp = acts c seen k S"
  proof -
    have "distinct (map PodKey fp)" using i(2) that(1) by (simp add: phase_inv_def)
    then have "card (PodKey ` set fp) = length fp" using distinct_card [of "map PodKey fp"] by simp
    then show ?thesis using eq that by simp
  qed
  then show "sleep_inv c k seen S E N U dirty R (Some (Acting rc fp []))" using i(6) by (auto simp: sleep_inv_def)
qed (use KID [OF inv] in \<open>simp_all add: counts_inv_def bound_inv_def low_inv_def rest_inv_def phase_inv_def\<close>)

lemma card_keys: "distinct (map PodKey fp) \<Longrightarrow> card (PodKey ` set fp) = length fp"
  using distinct_card [of "map PodKey fp"] by simp

lemma del_keys_map [simp]: "del_keys (map DeleteTask ds) = map PodKey ds"
  by (induction ds) auto

lemma del_keys_creates [simp]: "del_keys (replicate n CreateTask) = []"
  by (induction n) auto

lemma count_tasks [simp]:
  "count_list (map DeleteTask ds) CreateTask = 0" "count_list (replicate n CreateTask) CreateTask = n"
  by (induction ds, simp_all) (induction n, simp_all)

lemma KI_plan_create:
  assumes inv: "KI c k seen P S E N a d U dirty R (Some (Listed rc True fp))"
    and n: "0 < n" "int n \<le> rc_Replicas rc - int (length fp)" and hi: "rc_Replicas rc \<le> c_hi c k"
  shows "KI c k seen P S E N (int n) 0 U dirty R (Some (Acting rc fp (replicate n CreateTask)))"
proof (rule KI_I)
  note i = KID [OF inv]
  have q: "quiet c k E N U" and fp: "distinct (map PodKey fp)" "acts c seen k P \<subseteq> PodKey ` set fp"
    using i(2) by (simp_all add: phase_inv_def)
  have "card (acts c seen k P) \<le> length fp"
    using card_mono [OF _ fp(2)] card_keys [OF fp(1)] by simp
  then show "bound_inv c k seen P (Some (Acting rc fp (replicate n CreateTask)))" using n hi by (simp add: bound_inv_def)
  show "counts_inv c k E N (int n) 0 U (Some (Acting rc fp (replicate n CreateTask)))"
    using q by (simp add: counts_inv_def quiet_def)
  show "sleep_inv c k seen S E N U dirty R (Some (Acting rc fp (replicate n CreateTask)))"
    using n by (auto simp: sleep_inv_def)
qed (use KID [OF inv] in \<open>simp_all add: low_inv_def rest_inv_def phase_inv_def\<close>)

lemma KI_plan_delete:
  assumes inv: "KI c k seen P S E N a d U dirty R (Some (Listed rc True fp))"
    and ds: "ds \<noteq> []" "set ds \<subseteq> set fp" "distinct (map PodKey ds)" "int (length ds) \<le> int (length fp) - rc_Replicas rc"
    and lo: "c_lo c k \<le> rc_Replicas rc"
  shows "KI c k seen P S E N 0 (int (card (set (map PodKey ds)))) (set (map PodKey ds)) dirty R (Some (Acting rc fp (map DeleteTask ds)))"
proof (rule KI_I)
  note i = KID [OF inv]
  have q: "quiet c k E N U" and fp: "distinct (map PodKey fp)"
    "\<And>x. x \<in> PodKey ` set fp \<Longrightarrow> kown c seen k x \<and> x \<notin> set (added_keys E)"
    and out: "\<not> c_outside c \<Longrightarrow> acts c seen k P = PodKey ` set fp"
    using i(2) unfolding phase_inv_def option.case phase.case by blast+
  have sub: "PodKey ` set ds \<subseteq> PodKey ` set fp" using ds(2) by blast
  show "low_inv c k seen P S E (set (map PodKey ds)) (Some (Acting rc fp (map DeleteTask ds)))"
    unfolding low_inv_def phase_simps del_keys_map
  proof (intro impI conjI)
    assume o: "\<not> c_outside c"
    have "card (PodKey ` set fp - PodKey ` set ds) = length fp - length ds"
      using card_Diff_subset [OF _ sub] card_keys [OF fp(1)] card_keys [OF ds(3)] by simp
    then show "c_lo c k \<le> int (card (acts c seen k P - set (map PodKey ds)))" using ds(4) lo out [OF o] by simp
    show "acts c seen k S - acts c seen k P \<subseteq> set (map PodKey ds)" using i(4) q o by (auto simp: low_inv_def quiet_def)
    show "set (map PodKey ds) \<subseteq> acts c seen k P" using out [OF o] sub by simp
    show "\<forall>x \<in> set (added_keys E). kown c seen k x \<longrightarrow> x \<in> acts c seen k P" using i(4) o by (simp add: low_inv_def)
  qed
  show "phase_inv c k seen P S E N (set (map PodKey ds)) dirty (Some (Acting rc fp (map DeleteTask ds)))"
    using ds(2,3) fp(2) unfolding phase_inv_def option.case phase.case by auto
  show "rest_inv c k seen P E N (set (map PodKey ds)) (Some (Acting rc fp (map DeleteTask ds)))"
    using ds(2) fp(2) by (auto simp: rest_inv_def)
  show "counts_inv c k E N 0 (int (card (set (map PodKey ds)))) (set (map PodKey ds)) (Some (Acting rc fp (map DeleteTask ds)))"
    using q by (simp add: counts_inv_def quiet_def)
  show "sleep_inv c k seen S E N (set (map PodKey ds)) dirty R (Some (Acting rc fp (map DeleteTask ds)))"
    using ds(1) by (auto simp: sleep_inv_def)
  show "bound_inv c k seen P (Some (Acting rc fp (map DeleteTask ds)))" using i(3) by (simp add: bound_inv_def)
qed

lemma KI_finish:
  assumes inv: "KI c k seen P S E N a d U dirty R (Some (Acting rc fp []))" and "dirty \<Longrightarrow> dirty'"
  shows "KI c k seen P S E N a d U dirty' R None"
  using assms
  by (auto simp: KI_def counts_inv_def phase_inv_def bound_inv_def low_inv_def rest_inv_def sleep_inv_def)

lemma KI_not_synced:
  assumes inv: "KI c k seen P S E N a d U dirty R (Some Started)"
  shows "KI c k seen P S E N a d U True R None"
  using assms
  by (auto simp: KI_def counts_inv_def phase_inv_def bound_inv_def low_inv_def rest_inv_def sleep_inv_def)

lemma KI_create_fails:
  assumes inv: "KI c k seen P S E N a d U dirty R (Some (Acting rc fp (ts1 @ CreateTask # ts2)))"
  shows "KI c k seen P S E N (a - 1) d U True R (Some (Acting rc fp (ts1 @ ts2)))"
  using assms
  by (auto simp: KI_def counts_inv_def phase_inv_def bound_inv_def low_inv_def rest_inv_def sleep_inv_def)

lemma KI_delete_fails:
  assumes inv: "KI c k seen P S E N a d U dirty R (Some (Acting rc fp (ts1 @ DeleteTask p # ts2)))" and P: "finite (dom P)"
  shows "KI c k seen P S E N a (if PodKey p \<in> U then d - 1 else d) (U - {PodKey p}) True R (Some (Acting rc fp (ts1 @ ts2)))"
proof (rule KI_I)
  note i = KID [OF inv]
  let ?x = "PodKey p" and ?ph = "Some (Acting rc fp (ts1 @ ts2))"
  have fresh: "?x \<notin> set (del_keys (ts1 @ ts2))" and dist: "distinct (del_keys (ts1 @ ts2))"
    using i(2) by (simp_all add: phase_inv_def)
  have cnt: "finite U" "d = int (card U)" using i(1) by (simp_all add: counts_inv_def)
  have card: "card U > 0" if "?x \<in> U" using that cnt(1) by (auto simp: card_gt_0_iff)
  show "counts_inv c k E N a (if ?x \<in> U then d - 1 else d) (U - {?x}) ?ph"
    using i(1) cnt card by (auto simp: counts_inv_def of_nat_diff)
  show "phase_inv c k seen P S E N (U - {?x}) True ?ph"
    using i(2) fresh dist by (auto simp: phase_inv_def)
  show "low_inv c k seen P S E (U - {?x}) ?ph"
    unfolding low_inv_def phase_simps
  proof (intro impI conjI)
    assume o: "\<not> c_outside c"
    have l: "c_lo c k \<le> int (card (acts c seen k P - set (del_keys (ts1 @ DeleteTask p # ts2))))"
      "acts c seen k S - acts c seen k P \<subseteq> U" "set (del_keys (ts1 @ DeleteTask p # ts2)) \<subseteq> acts c seen k P"
      using i(4) o by (simp_all add: low_inv_def)
    have fin: "finite (acts c seen k P - set (del_keys (ts1 @ ts2)))" using finite_acts [OF P] by blast
    show "c_lo c k \<le> int (card (acts c seen k P - set (del_keys (ts1 @ ts2))))"
      using l(1) card_mono [OF fin, of "acts c seen k P - set (del_keys (ts1 @ DeleteTask p # ts2))"] by fastforce
    show "acts c seen k S - acts c seen k P \<subseteq> U - {?x}" using l(2,3) by auto
    show "set (del_keys (ts1 @ ts2)) \<subseteq> acts c seen k P" using l(3) by auto
    show "\<forall>x \<in> set (added_keys E). kown c seen k x \<longrightarrow> x \<in> acts c seen k P" using i(4) o by (simp add: low_inv_def)
  qed
  show "rest_inv c k seen P E N (U - {?x}) ?ph" using i(5) by (auto simp: rest_inv_def)
qed (use KID [OF inv] in \<open>simp_all add: bound_inv_def sleep_inv_def\<close>)

section \<open>Changes at the API server\<close>

lemma sleep_pend: "pend c k E N \<Longrightarrow> sleep_inv c k seen S E N U dirty R ph"
  by (simp add: sleep_inv_def)

lemma pend_snoc [simp]: "pend c k (E @ [e]) N \<longleftrightarrow> pend c k E N \<or> ev_owns c k e"
  by (auto simp: pend_def)

lemma removal_snoc: "removal E N x \<Longrightarrow> removal (E @ E') (N @ N') x"
  by (auto simp: removal_def)

lemma quiet_snoc: "quiet c k E N U \<Longrightarrow> \<not> (ev_adds e \<and> ev_owns c k e) \<Longrightarrow> quiet c k (E @ [e]) N U"
  by (simp add: quiet_def)

text \<open>Somebody changes or removes the pod \<open>x\<close>.\<close>

lemma KI_touch:
  assumes inv: "KI c k seen P S E N a d U dirty R ph" and P: "finite (dom P)"
    and same: "\<And>y. y \<noteq> x \<Longrightarrow> P' y = P y" and live: "live P' x \<Longrightarrow> live P x"
    and out: "\<not> c_outside c \<Longrightarrow> kown c seen k x \<Longrightarrow> live P' x = live P x"
    and e: "ev_key e = x" "\<not> ev_adds e" "seen x = Some (pod_id (ev_pod e))"
    and trm: "terminating P x \<Longrightarrow> terminating P' x \<or> removal (E @ [e]) N x"
  shows "KI c k seen P' S (E @ [e]) N a d U dirty R ph"
proof (rule KI_I)
  note i = KID [OF inv]
  have lv: "live P' y = live P y" if "y \<noteq> x" for y using same that by (simp add: live_def)
  have "y \<in> acts c seen k P' \<Longrightarrow> y \<in> acts c seen k P" for y using lv [of y] live by (cases "y = x") (auto simp: acts_def)
  then have sub: "acts c seen k P' \<subseteq> acts c seen k P" by blast
  have "y \<in> acts c seen k P' \<longleftrightarrow> y \<in> acts c seen k P" if "\<not> c_outside c \<or> \<not> kown c seen k x" for y
    using that lv [of y] out by (cases "y = x") (auto simp: acts_def)
  then have eq: "acts c seen k P' = acts c seen k P" if "\<not> c_outside c \<or> \<not> kown c seen k x" using that by blast
  have add: "added_keys (E @ [e]) = added_keys E" "adds_ev c k (E @ [e]) = adds_ev c k E" using e(2) by simp_all
  have own: "ev_owns c k e \<longleftrightarrow> kown c seen k x" using e by (simp add: ev_owns_def kown_def)
  show "counts_inv c k (E @ [e]) N a d U ph" using i(1) add by (simp add: counts_inv_def)
  show "phase_inv c k seen P' S (E @ [e]) N U dirty ph"
    using i(2) sub eq unfolding phase_inv_def add quiet_def by (auto split: option.splits phase.splits)
  show "bound_inv c k seen P' ph"
    using i(3) card_mono [OF finite_acts [OF P] sub] by (simp add: bound_inv_def)
  show "low_inv c k seen P' S (E @ [e]) U ph" using i(4) eq unfolding low_inv_def add by auto
  have "terminating P' y \<or> removal (E @ [e]) N y" if "terminating P y \<or> removal E N y" for y
    using that trm same [of y] removal_snoc [of E N y "[e]" "[]"] by (cases "y = x") (auto simp: terminating_def)
  then show "rest_inv c k seen P' (E @ [e]) N U ph" using i(5) unfolding rest_inv_def by blast
  show "sleep_inv c k seen S (E @ [e]) N U dirty R ph"
    using i(6) unfolding sleep_inv_def by auto
qed

lemma KI_delete:
  assumes inv: "KI c k seen P S E N a d U dirty R (Some (Acting rc fp (ts1 @ DeleteTask p # ts2)))"
    and pods: "pods_inv c seen P S E N"
    and same: "\<And>y. y \<noteq> PodKey p \<Longrightarrow> P' y = P y" and live: "\<not> live P' (PodKey p)"
    and e: "ev_key e = PodKey p" "\<not> ev_adds e" "seen (PodKey p) = Some (pod_id (ev_pod e))"
    and trm: "terminating P' (PodKey p) \<or> removal (E @ [e]) N (PodKey p)"
  shows "KI c k seen P' S (E @ [e]) N a d U dirty R (Some (Acting rc fp (ts1 @ ts2)))"
proof (rule KI_I)
  let ?x = "PodKey p" and ?ph = "Some (Acting rc fp (ts1 @ ts2))"
  note i = KID [OF inv]
  have fresh: "?x \<notin> set (del_keys (ts1 @ ts2))" and dist: "distinct (del_keys (ts1 @ ts2))"
    and x: "kown c seen k ?x" "?x \<in> U \<or> \<not> Replication_Cluster.live S ?x"
    using i(2) by (auto simp: phase_inv_def)
  have lv: "Replication_Cluster.live P' y = Replication_Cluster.live P y" if "y \<noteq> ?x" for y
    using same that by (simp add: live_def)
  have eq: "acts c seen k P' = acts c seen k P - {?x}"
  proof (rule set_eqI)
    fix y
    show "y \<in> acts c seen k P' \<longleftrightarrow> y \<in> acts c seen k P - {?x}" using lv [of y] live by (cases "y = ?x") (auto simp: acts_def)
  qed
  have add: "added_keys (E @ [e]) = added_keys E" "adds_ev c k (E @ [e]) = adds_ev c k E" using e(2) by simp_all
  show "counts_inv c k (E @ [e]) N a d U ?ph" using i(1) add by (simp add: counts_inv_def)
  show "phase_inv c k seen P' S (E @ [e]) N U dirty ?ph"
    using i(2) dist unfolding phase_inv_def add by auto
  have "card (acts c seen k P') \<le> card (acts c seen k P)"
    unfolding eq by (rule card_mono [OF finite_acts]) (use pods_invD(5) [OF pods] in auto)
  then show "bound_inv c k seen P' ?ph" using i(3) by (simp add: bound_inv_def)
  have "acts c seen k P' - set (del_keys (ts1 @ ts2)) = acts c seen k P - set (del_keys (ts1 @ DeleteTask p # ts2))"
    unfolding eq by auto
  moreover have "?x \<notin> set (added_keys E)" using i(2) by (auto simp: phase_inv_def)
  ultimately show "low_inv c k seen P' S (E @ [e]) U ?ph"
    using i(4) x fresh unfolding low_inv_def add phase_simps eq by (auto simp: acts_def)
  have "terminating P' y \<or> removal (E @ [e]) N y" if "terminating P y \<or> removal E N y \<or> y = ?x" for y
    using that trm same [of y] removal_snoc [of E N y "[e]" "[]"] by (cases "y = ?x") (auto simp: terminating_def)
  then show "rest_inv c k seen P' (E @ [e]) N U ?ph"
    using i(5) unfolding rest_inv_def phase_simps by auto
  show "sleep_inv c k seen S (E @ [e]) N U dirty R ?ph"
    using e x(1) by (intro sleep_pend) (simp add: ev_owns_def kown_def)
qed

lemma KI_delete_already:
  assumes inv: "KI c k seen P S E N a d U dirty R (Some (Acting rc fp (ts1 @ DeleteTask p # ts2)))"
    and trm: "terminating P (PodKey p)"
  shows "KI c k seen P S E N a d U dirty R (Some (Acting rc fp (ts1 @ ts2)))"
proof (rule KI_I)
  note i = KID [OF inv]
  have dead: "PodKey p \<notin> acts c seen k P"
    using trm by (auto simp: acts_def live_def terminating_def IsPodActive_def)
  show "low_inv c k seen P S E U (Some (Acting rc fp (ts1 @ ts2)))" using i(4) dead by (auto simp: low_inv_def)
  show "rest_inv c k seen P E N U (Some (Acting rc fp (ts1 @ ts2)))" using i(5) trm by (auto simp: rest_inv_def)
  show "sleep_inv c k seen S E N U dirty R (Some (Acting rc fp (ts1 @ ts2)))"
    using i(2) by (auto simp: phase_inv_def sleep_inv_def)
qed (use KID [OF inv] in \<open>auto simp: counts_inv_def phase_inv_def bound_inv_def\<close>)

text \<open>A pod is created, by the worker of \<open>k\<close> or of another controller.\<close>

lemma seen_new:
  assumes pods: "pods_inv c seen P S E N" and new: "seen (PodKey p) = None"
  shows "P (PodKey p) = None" "S (PodKey p) = None" "PodKey p \<notin> set (added_keys E)"
    "\<And>y. kown c (seen(PodKey p \<mapsto> pod_id p)) k y \<longleftrightarrow> (if y = PodKey p then owns c k (pod_id p) else kown c seen k y)"
    "\<not> kown c seen k (PodKey p)"
    "acts c (seen(PodKey p \<mapsto> pod_id p)) k S = acts c seen k S"
    "acts c (seen(PodKey p \<mapsto> pod_id p)) k (P(PodKey p \<mapsto> p)) =
       (if IsPodActive p \<and> owns c k (pod_id p) then insert (PodKey p) (acts c seen k P) else acts c seen k P)"
proof -
  note i = pods_invD [OF pods]
  show PS: "P (PodKey p) = None" "S (PodKey p) = None"
    using keyed_seen [OF i(2) new] keyed_seen [OF i(3) new] by auto
  show "PodKey p \<notin> set (added_keys E)" using added_keys_seen [OF pods] new by blast
  show kown: "kown c (seen(PodKey p \<mapsto> pod_id p)) k y \<longleftrightarrow> (if y = PodKey p then owns c k (pod_id p) else kown c seen k y)"
    and old: "\<not> kown c seen k (PodKey p)" for y using new by (simp_all add: kown_def del: split_paired_Ex)
  show "acts c (seen(PodKey p \<mapsto> pod_id p)) k S = acts c seen k S"
    using PS(2) by (auto simp: acts_def kown live_def)
  have "live (P(PodKey p \<mapsto> p)) y = (if y = PodKey p then IsPodActive p else live P y)" for y by (simp add: live_def)
  moreover have "\<not> live P (PodKey p)" using PS(1) by (simp add: live_def)
  ultimately show "acts c (seen(PodKey p \<mapsto> pod_id p)) k (P(PodKey p \<mapsto> p)) =
       (if IsPodActive p \<and> owns c k (pod_id p) then insert (PodKey p) (acts c seen k P) else acts c seen k P)"
    by (auto simp: acts_def kown)
qed

lemma KI_create:
  assumes inv: "KI c k seen P S E N a d U dirty R (Some (Acting rc fp (ts1 @ CreateTask # ts2)))"
    and pods: "pods_inv c seen P S E N" and new: "seen (PodKey p) = None"
    and p: "IsPodActive p" "owns c k (pod_id p)"
  shows "KI c k (seen(PodKey p \<mapsto> pod_id p)) (P(PodKey p \<mapsto> p)) S (E @ [PodAdded p]) N a d U dirty R (Some (Acting rc fp (ts1 @ ts2)))"
proof (rule KI_I)
  let ?x = "PodKey p" and ?ph = "Some (Acting rc fp (ts1 @ ts2))" and ?E = "E @ [PodAdded p]"
  let ?seen = "seen(PodKey p \<mapsto> pod_id p)" and ?P = "P(PodKey p \<mapsto> p)"
  note i = KID [OF inv] and n = seen_new [OF pods new]
  have own: "ev_owns c k (PodAdded p)" using p(2) by (simp add: ev_owns_def)
  have P: "acts c ?seen k ?P = insert ?x (acts c seen k P)" using n(7) p by simp
  have x: "?x \<notin> acts c seen k P" using n(5) by (simp add: acts_def)
  have fin: "finite (acts c seen k P)" using finite_acts pods_invD(5) [OF pods] by blast
  have add: "added_keys ?E = added_keys E @ [?x]" by (simp add: ev_key_def)
  show "counts_inv c k ?E N a d U ?ph" using i(1) own by (simp add: counts_inv_def)
  have nd: "?x \<notin> set (del_keys (ts1 @ ts2))" using i(2) n(5) by (auto simp: phase_inv_def)
  then show "phase_inv c k ?seen ?P S ?E N U dirty ?ph"
    using i(2) unfolding phase_inv_def add by (auto simp: n(4))
  show "bound_inv c k ?seen ?P ?ph" using i(3) x fin unfolding bound_inv_def P by simp
  show "low_inv c k ?seen ?P S ?E U ?ph"
    unfolding low_inv_def P n(6) add phase_simps
  proof (intro impI conjI)
    assume o: "\<not> c_outside c"
    have "insert ?x (acts c seen k P) - set (del_keys (ts1 @ ts2)) = insert ?x (acts c seen k P - set (del_keys (ts1 @ ts2)))"
      using nd by auto
    then show "c_lo c k \<le> int (card (insert ?x (acts c seen k P) - set (del_keys (ts1 @ ts2))))"
      using i(4) o fin x by (simp add: low_inv_def)
  qed (use i(4) n(4) in \<open>auto simp: low_inv_def\<close>)
  have "terminating ?P y" if "terminating P y" for y using that n(1) by (auto simp: terminating_def)
  then show "rest_inv c k ?seen ?P ?E N U ?ph"
    using i(5) removal_snoc [of E N _ "[PodAdded p]" "[]"] n(5) by (auto simp: rest_inv_def n(4))
  show "sleep_inv c k ?seen S ?E N U dirty R ?ph" using own by (intro sleep_pend) simp
qed

lemma KI_create_other:
  assumes inv: "KI c k seen P S E N a d U dirty R ph"
    and pods: "pods_inv c seen P S E N" and new: "seen (PodKey p) = None" and p: "\<not> owns c k (pod_id p)"
  shows "KI c k (seen(PodKey p \<mapsto> pod_id p)) (P(PodKey p \<mapsto> p)) S (E @ [PodAdded p]) N a d U dirty R ph"
proof (rule KI_I)
  let ?x = "PodKey p" and ?E = "E @ [PodAdded p]"
  let ?seen = "seen(PodKey p \<mapsto> pod_id p)" and ?P = "P(PodKey p \<mapsto> p)"
  note i = KID [OF inv] and n = seen_new [OF pods new]
  have own: "\<not> ev_owns c k (PodAdded p)" using p by (simp add: ev_owns_def)
  have P: "acts c ?seen k ?P = acts c seen k P" using n(7) p by simp
  have add: "added_keys ?E = added_keys E @ [?x]" by (simp add: ev_key_def)
  have nx: "y \<noteq> ?x" if "kown c seen k y" for y using that n(5) by blast
  show "counts_inv c k ?E N a d U ph" using i(1) own by (simp add: counts_inv_def)
  show "phase_inv c k ?seen ?P S ?E N U dirty ph"
    using i(2) own nx unfolding phase_inv_def add P quiet_def
    by (auto simp: n(4) split: option.splits phase.splits)
  show "bound_inv c k ?seen ?P ph" using i(3) unfolding bound_inv_def P .
  show "low_inv c k ?seen ?P S ?E U ph"
    using i(4) p unfolding low_inv_def P n(6) add by (auto simp: n(4))
  have "terminating ?P y" if "terminating P y" for y using that n(1) by (auto simp: terminating_def)
  then show "rest_inv c k ?seen ?P ?E N U ph"
    using i(5) removal_snoc [of E N _ "[PodAdded p]" "[]"] nx by (auto simp: rest_inv_def n(4))
  show "sleep_inv c k ?seen S ?E N U dirty R ph"
    using i(6) unfolding sleep_inv_def n(6) by auto
qed

section \<open>Informer and handlers\<close>

lemma pend_Cons [simp]:
  "pend c k (e # E) N \<longleftrightarrow> ev_owns c k e \<or> pend c k E N"
  "pend c k E (n # N) \<longleftrightarrow> note_owns c k n \<or> pend c k E N"
  "pend c k E (N @ [n]) \<longleftrightarrow> note_owns c k n \<or> pend c k E N"
  by (auto simp: pend_def)

lemma note_owns_pod: "note_pod n = Some p \<Longrightarrow> note_owns c k n \<longleftrightarrow> owns c k (pod_id p)"
  by (cases n) auto

lemma KI_informer:
  assumes inv: "KI c k seen P S (e # E) N a d U dirty R ph" and pods: "pods_inv c seen P S (e # E) N"
  shows "KI c k seen P (apply_event e S) E (N @ [note_of S e]) a d U dirty R ph"
proof (rule KI_I)
  let ?S = "apply_event e S" and ?n = "note_of S e"
  note i = KID [OF inv] and p = pods_invD [OF pods]
  have e: "ev_legal e S" "seen (ev_key e) = Some (pod_id (ev_pod e))" using p(4) p(7) [of e] by simp_all
  note n = ev_legal_note [OF e(1) p(3) e(2)]
  have own: "note_owns c k ?n \<longleftrightarrow> ev_owns c k e" using note_owns_pod [OF n(2)] by (simp add: ev_owns_def)
  have kown: "kown c seen k (ev_key e) \<longleftrightarrow> ev_owns c k e" using e(2) by (simp add: kown_def ev_owns_def)
  have lv: "live ?S y = live S y" if "y \<noteq> ev_key e" for y using that by (cases e) (auto simp: live_def ev_key_def)
  have up: "live ?S y \<Longrightarrow> live S y" if "\<not> (ev_adds e \<and> ev_key e = y)" for y using live_apply_event [OF e(1)] that by blast
  have S: "acts c seen k ?S = acts c seen k S" if "\<not> ev_owns c k e"
  proof (rule set_eqI)
    fix y
    show "y \<in> acts c seen k ?S \<longleftrightarrow> y \<in> acts c seen k S"
      using lv [of y] that kown by (cases "y = ev_key e") (auto simp: acts_def)
  qed
  show "counts_inv c k E (N @ [?n]) a d U ph" using i(1) own n(3) by (auto simp: counts_inv_def)
  have quiet: "quiet c k (e # E) N U \<Longrightarrow> quiet c k E (N @ [?n]) U" using own n(3) by (auto simp: quiet_def split: if_splits)
  have sub: "set (added_keys E) \<subseteq> set (added_keys (e # E))" by simp
  have add: "y \<notin> set (added_keys (e # E)) \<Longrightarrow> \<not> live S y \<Longrightarrow> \<not> live ?S y" for y using up [of y] by auto
  show "phase_inv c k seen P ?S E (N @ [?n]) U dirty ph"
    using i(2) quiet sub add unfolding phase_inv_def by (fastforce split: option.splits phase.splits)
  show "low_inv c k seen P ?S E U ph"
    unfolding low_inv_def
  proof (intro impI conjI)
    assume o: "\<not> c_outside c"
    have l: "acts c seen k S - acts c seen k P \<subseteq> U"
      "\<And>x. x \<in> set (added_keys (e # E)) \<Longrightarrow> kown c seen k x \<Longrightarrow> x \<in> acts c seen k P"
      using i(4) o by (auto simp: low_inv_def)
    show "acts c seen k ?S - acts c seen k P \<subseteq> U"
    proof
      fix y
      assume y: "y \<in> acts c seen k ?S - acts c seen k P"
      then have "\<not> (ev_adds e \<and> ev_key e = y)" using l(2) [of y] by (auto simp: acts_def)
      then have "y \<in> acts c seen k S" using up [of y] y by (auto simp: acts_def)
      then show "y \<in> U" using y l(1) by blast
    qed
    show "\<forall>x \<in> set (added_keys E). kown c seen k x \<longrightarrow> x \<in> acts c seen k P" using l(2) by simp
  qed (use i(4) in \<open>simp_all add: low_inv_def\<close>)
  have "removal E (N @ [?n]) y" if "removal (e # E) N y" for y using that by (cases e) (auto simp: removal_def)
  then show "rest_inv c k seen P E (N @ [?n]) U ph" using i(5) unfolding rest_inv_def by blast
  show "sleep_inv c k seen ?S E (N @ [?n]) U dirty R ph"
  proof (cases "ev_owns c k e")
    case True
    then show ?thesis using own by (intro sleep_pend) simp
  next
    case False
    then show ?thesis using i(6) unfolding sleep_inv_def S [OF False] by auto
  qed
qed (use KID [OF inv] in simp)

lemma KI_handler:
  assumes inv: "KI c k seen P S E (n # N) a d U dirty R ph" and pods: "pods_inv c seen P S E (n # N)"
    and own: "note_owns c k n"
  defines "U' \<equiv> (if note_removes n then U - {PodKey (the (note_pod n))} else U)"
  shows "KI c k seen P S E N (if note_adds n then a - 1 else a) (int (card U')) U' True R ph"
proof (rule KI_I)
  note i = KID [OF inv] and p = pods_invD [OF pods]
  have n: "note_inv c seen S n" using p(8) [of n] by simp
  have out: "y \<in> U \<Longrightarrow> y \<notin> U' \<Longrightarrow> \<not> live S y" for y
    using n by (cases n) (auto simp: U'_def note_inv_def split: if_splits)
  have sub: "U' \<subseteq> U" by (auto simp: U'_def)
  show "counts_inv c k E N (if note_adds n then a - 1 else a) (int (card U')) U' ph"
    using i(1) own finite_subset [OF sub] by (auto simp: counts_inv_def)
  show "phase_inv c k seen P S E N U' True ph"
    using i(2) sub out unfolding phase_inv_def quiet_def
    by (fastforce split: option.splits phase.splits if_splits)
  show "low_inv c k seen P S E U' ph"
    using i(4) out by (auto simp: low_inv_def acts_def)
  have "removal E N y" if "removal E (n # N) y" "y \<in> U'" for y
    using that by (auto simp: removal_def U'_def)
  then show "rest_inv c k seen P E N U' ph" using i(5) sub unfolding rest_inv_def by blast
qed (use KID [OF inv] in \<open>simp_all add: sleep_inv_def\<close>)

lemma KI_handler_other:
  assumes inv: "KI c k seen P S E (n # N) a d U dirty R ph" and pods: "pods_inv c seen P S E (n # N)"
    and own: "\<not> note_owns c k n"
  shows "KI c k seen P S E N a d U dirty R ph"
proof (rule KI_I)
  note i = KID [OF inv] and p = pods_invD [OF pods]
  have n: "note_inv c seen S n" using p(8) [of n] by simp
  show "counts_inv c k E N a d U ph" using i(1) own by (simp add: counts_inv_def)
  have "quiet c k E (n # N) U = quiet c k E N U" using own by (simp add: quiet_def)
  then show "phase_inv c k seen P S E N U dirty ph" using i(2) by (simp only: phase_inv_def)
  have "removal E N y" if "removal E (n # N) y" "kown c seen k y" for y
    using that n own by (auto simp: removal_def note_inv_def kown_def)
  then show "rest_inv c k seen P E N U ph" using i(5) unfolding rest_inv_def by blast
  show "sleep_inv c k seen S E N U dirty R ph" using i(6) own by (simp add: sleep_inv_def)
qed (use KID [OF inv] in simp_all)

lemma KI_change_rc:
  assumes inv: "KI c k seen P S E N a d U dirty R ph" and "rc_key rc' = k \<or> R' = R"
  shows "KI c k seen P S E (N @ [NoteRC rc rc']) a d U dirty R' ph"
proof (rule KI_I)
  note i = KID [OF inv]
  have "quiet c k E (N @ [NoteRC rc rc']) U = quiet c k E N U" by (simp add: quiet_def)
  then show "phase_inv c k seen P S E (N @ [NoteRC rc rc']) U dirty ph" using i(2) by (simp only: phase_inv_def)
  show "counts_inv c k E (N @ [NoteRC rc rc']) a d U ph" using i(1) by (simp add: counts_inv_def)
  show "rest_inv c k seen P E (N @ [NoteRC rc rc']) U ph"
    using i(5) removal_snoc [of E N _ "[]" "[NoteRC rc rc']"] unfolding rest_inv_def by auto
  show "sleep_inv c k seen S E (N @ [NoteRC rc rc']) U dirty R' ph" using i(6) assms(2) by (auto simp: sleep_inv_def)
qed (use KID [OF inv] in simp_all)

end
