(* ===== verification/Replication_Safety.thy ===== *)
theory Replication_Safety
  imports Replication_Cluster
begin

text \<open>
  Every step of the cluster keeps the invariant of every controller, and what follows from it:
  the bounds on the number of running pods, and that the manager does not rest with a wrong one.
\<close>

section \<open>The invariant of the system\<close>

fun phase_rc :: "phase option \<Rightarrow> ReplicationController option" where
  "phase_rc (Some (Checked rc b)) = Some rc"
| "phase_rc (Some (Listed rc b fp)) = Some rc"
| "phase_rc (Some (Acting rc fp ts)) = Some rc"
| "phase_rc ph = None"

definition dirty :: "system \<Rightarrow> string set" where
  "dirty s = wq_dirty (rm_queue (s_rm s))"

definition want :: "system \<Rightarrow> string \<Rightarrow> int" where
  "want s k = rc_Replicas (the (rm_rcStore (s_rm s) k))"

definition KIs :: "('f :: ord) rep_config \<Rightarrow> system \<Rightarrow> string \<Rightarrow> bool" where
  "KIs c s k \<longleftrightarrow>
     KI c k (s_seen s) (s_pods s) (rm_podStore (s_rm s)) (s_events s) (s_notes s)
       (adds_due k (rm_expectations (s_rm s))) (dels_due k (rm_expectations (s_rm s))) (GetUIDs k (rm_expectations (s_rm s)))
       (k \<in> dirty s) (want s k) (s_workers s k)"

definition queue_inv :: "('f :: ord) rep_config \<Rightarrow> system \<Rightarrow> bool" where
  "queue_inv c s \<longleftrightarrow> wq_inv (rm_queue (s_rm s)) \<and> \<not> wq_shuttingDown (rm_queue (s_rm s)) \<and>
     (\<forall>k. s_workers s k = None \<longleftrightarrow> k \<notin> wq_processing (rm_queue (s_rm s))) \<and>
     dirty s \<union> wq_processing (rm_queue (s_rm s)) \<subseteq> dom (c_rcs c)"

definition rc_inv :: "('f :: ord) rep_config \<Rightarrow> system \<Rightarrow> bool" where
  "rc_inv c s \<longleftrightarrow> rcs_ok c (s_rm s) \<and> (\<forall>k rc. phase_rc (s_workers s k) = Some rc \<longrightarrow> rc_ok c k rc) \<and>
     0 < rm_burstReplicas (s_rm s) \<and> rm_burstReplicas (s_rm s) < 2 ^ 63"

definition stream_inv :: "('f :: ord) rep_config \<Rightarrow> system \<Rightarrow> bool" where
  "stream_inv c s \<longleftrightarrow> pods_inv c (s_seen s) (s_pods s) (rm_podStore (s_rm s)) (s_events s) (s_notes s)"

definition sys_inv :: "('f :: ord) rep_config \<Rightarrow> system \<Rightarrow> bool" where
  "sys_inv c s \<longleftrightarrow> queue_inv c s \<and> rc_inv c s \<and> stream_inv c s \<and> (\<forall>k \<in> dom (c_rcs c). KIs c s k)"

lemma sys_invD:
  assumes "sys_inv c s"
  shows "queue_inv c s" "rc_inv c s" "stream_inv c s" "\<And>k. k \<in> dom (c_rcs c) \<Longrightarrow> KIs c s k"
  using assms by (simp_all add: sys_inv_def)

lemma Type_Add_fields [simp]:
  "\<not> wq_shuttingDown q \<Longrightarrow> wq_dirty (Type_Add k q) = insert k (wq_dirty q)"
  "wq_processing (Type_Add k q) = wq_processing q" "wq_shuttingDown (Type_Add k q) = wq_shuttingDown q"
  by (auto simp: Type_Add_def Let_def)

lemma Type_Done_fields [simp]:
  "wq_dirty (Type_Done k q) = wq_dirty q" "wq_processing (Type_Done k q) = wq_processing q - {k}"
  "wq_shuttingDown (Type_Done k q) = wq_shuttingDown q"
  by (auto simp: Type_Done_def Let_def)

lemma Type_Get_fields:
  assumes "Type_Get q = Some ((Some k, False), q')" and "wq_inv q"
  shows "wq_dirty q' = wq_dirty q - {k}" "wq_processing q' = insert k (wq_processing q)"
    "wq_shuttingDown q' = wq_shuttingDown q" "k \<in> wq_dirty q" "k \<notin> wq_processing q"
proof -
  obtain rest where "wq_queue q = k # rest"
    "q' = q\<lparr>wq_queue := rest, wq_processing := insert k (wq_processing q), wq_dirty := wq_dirty q - {k}\<rparr>"
    using assms(1) by (auto simp: Type_Get_def split: if_splits list.splits)
  then show "wq_dirty q' = wq_dirty q - {k}" "wq_processing q' = insert k (wq_processing q)"
    "wq_shuttingDown q' = wq_shuttingDown q" "k \<in> wq_dirty q" "k \<notin> wq_processing q"
    using assms(2) by (auto simp: wq_inv_def)
qed

lemma queue_inv_add:
  assumes "queue_inv c s" and "k \<in> dom (c_rcs c)" and "\<And>k. s_workers s' k = None \<longleftrightarrow> s_workers s k = None"
    and "rm_queue (s_rm s') = Type_Add k (rm_queue (s_rm s))"
  shows "queue_inv c s'" "dirty s' = insert k (dirty s)"
  using assms by (simp_all add: queue_inv_def dirty_def wq_inv_Add)

lemma queue_inv_same:
  assumes "queue_inv c s" and "\<And>k. s_workers s' k = None \<longleftrightarrow> s_workers s k = None"
    and "rm_queue (s_rm s') = rm_queue (s_rm s)"
  shows "queue_inv c s'" "dirty s' = dirty s"
  using assms by (simp_all add: queue_inv_def dirty_def)

lemma queue_inv_done:
  assumes inv: "queue_inv c s" and "s_workers s k = Some ph" and "s_workers s' = (s_workers s)(k := None)"
    and "q = rm_queue (s_rm s) \<or> q = Type_Add k (rm_queue (s_rm s))" and "rm_queue (s_rm s') = Type_Done k q"
  shows "queue_inv c s'" "dirty s \<subseteq> dirty s'" "dirty s' \<subseteq> insert k (dirty s)"
    "q = Type_Add k (rm_queue (s_rm s)) \<Longrightarrow> k \<in> dirty s'"
proof -
  have k: "k \<in> wq_processing (rm_queue (s_rm s))"
    using inv assms(2) unfolding queue_inv_def by (metis option.distinct(1))
  then have "wq_inv (Type_Done k q)"
    using inv assms(4) by (auto simp: queue_inv_def intro!: wq_inv_Done wq_inv_Add)
  then show "queue_inv c s'" using inv assms k by (auto simp: queue_inv_def dirty_def)
  show "dirty s \<subseteq> dirty s'" "dirty s' \<subseteq> insert k (dirty s)" "q = Type_Add k (rm_queue (s_rm s)) \<Longrightarrow> k \<in> dirty s'"
    using inv assms(4,5) by (auto simp: queue_inv_def dirty_def)
qed

lemma KIs_frame:
  assumes "KIs c s k" and "s_seen s' = s_seen s" "s_pods s' = s_pods s" "rm_podStore (s_rm s') = rm_podStore (s_rm s)"
    "s_events s' = s_events s" "s_notes s' = s_notes s"
    and "adds_due k (rm_expectations (s_rm s')) = adds_due k (rm_expectations (s_rm s))"
    "dels_due k (rm_expectations (s_rm s')) = dels_due k (rm_expectations (s_rm s))"
    "GetUIDs k (rm_expectations (s_rm s')) = GetUIDs k (rm_expectations (s_rm s))"
    and "k \<in> dirty s \<Longrightarrow> k \<in> dirty s'" and "rm_rcStore (s_rm s') = rm_rcStore (s_rm s)" and "s_workers s' k = s_workers s k"
  shows "KIs c s' k"
  using assms KI_dirty unfolding KIs_def want_def by metis

lemma rc_inv_frame:
  assumes "rc_inv c s" and "rm_rcStore (s_rm s') = rm_rcStore (s_rm s)" "rm_lookupCache (s_rm s') = rm_lookupCache (s_rm s)"
    "rm_burstReplicas (s_rm s') = rm_burstReplicas (s_rm s)"
    and "\<And>k rc. phase_rc (s_workers s' k) = Some rc \<Longrightarrow> phase_rc (s_workers s k) = Some rc \<or> rc_ok c k rc"
  shows "rc_inv c s'"
  using assms unfolding rc_inv_def rcs_ok_def by metis

lemma stream_inv_frame:
  assumes "stream_inv c s" and "s_seen s' = s_seen s" "s_pods s' = s_pods s" "rm_podStore (s_rm s') = rm_podStore (s_rm s)"
    "s_events s' = s_events s" "s_notes s' = s_notes s"
  shows "stream_inv c s'"
  using assms by (simp add: stream_inv_def)

lemma worker_known: "queue_inv c s \<Longrightarrow> s_workers s k = Some ph \<Longrightarrow> k \<in> dom (c_rcs c)"
  unfolding queue_inv_def by (metis UnI2 option.distinct(1) subsetD)

lemma phase_upd:
  "phase_rc (((s_workers s)(k := ph)) k') = Some rc \<Longrightarrow> (\<And>rc. phase_rc ph = Some rc \<Longrightarrow> rc_ok c k rc) \<Longrightarrow>
   phase_rc (s_workers s k') = Some rc \<or> rc_ok c k' rc"
  by (auto split: if_splits)

text \<open>A worker changes its own phase, its own expectations and the queue; nothing else.\<close>

lemma worker_step:
  assumes inv: "sys_inv c s" and k: "s_workers s k = Some ph0"
    and s': "s' = s\<lparr>s_rm := rm', s_workers := (s_workers s)(k := ph)\<rparr>"
    and rm': "rm' = (s_rm s)\<lparr>rm_expectations := u, rm_queue := q\<rparr>"
    and q: "queue_inv c s'" "dirty s \<subseteq> dirty s'"
    and u: "\<And>k'. k' \<noteq> k \<Longrightarrow> adds_due k' u = adds_due k' (rm_expectations (s_rm s)) \<and>
        dels_due k' u = dels_due k' (rm_expectations (s_rm s)) \<and> GetUIDs k' u = GetUIDs k' (rm_expectations (s_rm s))"
    and rc: "\<And>rc. phase_rc ph = Some rc \<Longrightarrow> rc_ok c k rc"
    and own: "KI c k (s_seen s) (s_pods s) (rm_podStore (s_rm s)) (s_events s) (s_notes s)
       (adds_due k u) (dels_due k u) (GetUIDs k u) (k \<in> dirty s') (want s k) ph"
  shows "sys_inv c s'"
proof -
  note i = sys_invD [OF inv]
  have "rc_inv c s'"
    by (rule rc_inv_frame [OF i(2)]) (use phase_upd [of s k ph _ _ c, OF _ rc] in \<open>auto simp: s' rm'\<close>)
  moreover have "stream_inv c s'" by (rule stream_inv_frame [OF i(3)]) (simp_all add: s' rm')
  moreover have "KIs c s' k'" if "k' \<in> dom (c_rcs c)" for k'
  proof (cases "k' = k")
    case True
    then show ?thesis using own by (simp add: KIs_def want_def s' rm')
  next
    case False
    show ?thesis by (rule KIs_frame [OF i(4) [OF that]]) (use False u q(2) in \<open>auto simp: s' rm'\<close>)
  qed
  ultimately show ?thesis using q(1) by (simp add: sys_inv_def)
qed

lemma sys_inv_take:
  assumes inv: "sys_inv c s" and get: "Type_Get (rm_queue (s_rm s)) = Some ((Some k, False), q)"
  shows "sys_inv c (s\<lparr>s_rm := (s_rm s)\<lparr>rm_queue := q\<rparr>, s_workers := (s_workers s)(k \<mapsto> Started)\<rparr>)" (is "sys_inv c ?s")
proof -
  note i = sys_invD [OF inv]
  have wq: "wq_inv (rm_queue (s_rm s))" using i(1) by (simp add: queue_inv_def)
  note g = Type_Get_fields [OF get wq] and w = wq_inv_Get [OF wq get]
  have none: "s_workers s k = None" using i(1) g(5) by (simp add: queue_inv_def)
  have "queue_inv c ?s" using i(1) g w unfolding queue_inv_def dirty_def by auto
  moreover have "rc_inv c ?s" by (rule rc_inv_frame [OF i(2)]) (auto split: if_splits)
  moreover have "stream_inv c ?s" by (rule stream_inv_frame [OF i(3)]) simp_all
  moreover have "KIs c ?s k'" if "k' \<in> dom (c_rcs c)" for k'
  proof (cases "k' = k")
    case True
    then show ?thesis using i(4) [OF that] KI_take g(1) none by (auto simp: KIs_def want_def dirty_def)
  next
    case False
    show ?thesis by (rule KIs_frame [OF i(4) [OF that]]) (use False g(1) in \<open>auto simp: dirty_def\<close>)
  qed
  ultimately show ?thesis by (simp add: sys_inv_def)
qed

lemma sync_beginD:
  assumes "sync_begin now k rm = (r, rm')" and "rcs_ok c rm" and "k \<in> dom (c_rcs c)" and "config_ok c"
  shows "r = Restored rc b \<Longrightarrow> rm' = rm \<and> rm_rcStore rm k = Some rc \<and> rc_ok c k rc \<and>
           b = SatisfiedExpectations now k (ue_exps (rm_expectations rm))"
    and "(\<And>rc b. r \<noteq> Restored rc b) \<Longrightarrow> rm' = rm\<lparr>rm_queue := Type_Add k (rm_queue rm)\<rparr>"
proof -
  obtain rc0 where rc0: "rm_rcStore rm k = Some rc0" "rc_ok c k rc0" using assms(2,3) unfolding rcs_ok_def by fastforce
  then have key: "rc_key rc0 = k" using rc_ok_key [OF assms(4)] by blast
  show "r = Restored rc b \<Longrightarrow> rm' = rm \<and> rm_rcStore rm k = Some rc \<and> rc_ok c k rc \<and>
           b = SatisfiedExpectations now k (ue_exps (rm_expectations rm))"
    using assms(1) rc0 key by (auto simp: sync_begin_def split: if_splits)
  show "(\<And>rc b. r \<noteq> Restored rc b) \<Longrightarrow> rm' = rm\<lparr>rm_queue := Type_Add k (rm_queue rm)\<rparr>"
    using assms(1) rc0 key by (auto simp: sync_begin_def split: if_splits)
qed

lemma sys_inv_begin:
  assumes cfg: "config_ok c" and inv: "sys_inv c s" and k: "s_workers s k = Some Started"
    and beg: "sync_begin now k (s_rm s) = (Restored rc b, rm)"
    and fresh: "\<And>e. ue_exps (rm_expectations (s_rm s)) k = Some e \<Longrightarrow> \<not> isExpired now e"
  shows "sys_inv c (s\<lparr>s_rm := rm, s_workers := (s_workers s)(k \<mapsto> Checked rc b)\<rparr>)" (is "sys_inv c ?s")
proof -
  note i = sys_invD [OF inv]
  have dom: "k \<in> dom (c_rcs c)" using worker_known [OF i(1) k] .
  have r: "rm = s_rm s" "rm_rcStore (s_rm s) k = Some rc" "rc_ok c k rc"
    "b = SatisfiedExpectations now k (ue_exps (rm_expectations (s_rm s)))"
    using sync_beginD(1) [OF beg _ dom cfg] i(2) by (auto simp: rc_inv_def)
  have q: "queue_inv c ?s" "dirty ?s = dirty s" by (rule queue_inv_same [OF i(1)]; use k r in auto)+
  show ?thesis
  proof (rule worker_step [OF inv k, where u = "rm_expectations (s_rm s)" and q = "rm_queue (s_rm s)"])
    show "KI c k (s_seen s) (s_pods s) (rm_podStore (s_rm s)) (s_events s) (s_notes s)
       (adds_due k (rm_expectations (s_rm s))) (dels_due k (rm_expectations (s_rm s))) (GetUIDs k (rm_expectations (s_rm s)))
       (k \<in> dirty ?s) (want s k) (Some (Checked rc b))"
      by (rule KI_begin)
        (use i(4) [OF dom] k r q SatisfiedExpectations_due [of now k "rm_expectations (s_rm s)"] fresh
             unsatisfied_due [of now k "rm_expectations (s_rm s)"] in \<open>simp_all add: KIs_def want_def\<close>)
  qed (use r q in simp_all)
qed

lemma sys_inv_begin_not:
  assumes cfg: "config_ok c" and inv: "sys_inv c s" and k: "s_workers s k = Some Started"
    and beg: "sync_begin now k (s_rm s) = (r, rm)" "\<And>rc b. r \<noteq> Restored rc b"
  shows "sys_inv c (s\<lparr>s_rm := rm\<lparr>rm_queue := Type_Done k (rm_queue rm)\<rparr>, s_workers := (s_workers s)(k := None)\<rparr>)" (is "sys_inv c ?s")
proof -
  note i = sys_invD [OF inv]
  have dom: "k \<in> dom (c_rcs c)" using worker_known [OF i(1) k] .
  have r: "rm = (s_rm s)\<lparr>rm_queue := Type_Add k (rm_queue (s_rm s))\<rparr>"
    using sync_beginD(2) [OF beg(1) _ dom cfg beg(2)] i(2) by (auto simp: rc_inv_def)
  have q: "queue_inv c ?s" "dirty s \<subseteq> dirty ?s" "k \<in> dirty ?s"
    by (rule queue_inv_done [OF i(1) k, of ?s "Type_Add k (rm_queue (s_rm s))"]; simp add: r)+
  show ?thesis
  proof (rule worker_step [OF inv k, where u = "rm_expectations (s_rm s)" and q = "Type_Done k (Type_Add k (rm_queue (s_rm s)))"])
    show "KI c k (s_seen s) (s_pods s) (rm_podStore (s_rm s)) (s_events s) (s_notes s)
       (adds_due k (rm_expectations (s_rm s))) (dels_due k (rm_expectations (s_rm s))) (GetUIDs k (rm_expectations (s_rm s)))
       (k \<in> dirty ?s) (want s k) None"
      using KI_not_synced i(4) [OF dom] k q(3) by (auto simp: KIs_def)
  qed (use r q in simp_all)
qed

lemma sync_list_pods:
  assumes rc: "rc_ok c k rc" and cfg: "config_ok c" and order: "range_of (rm_podStore rm) order" and key: "keyed seen (rm_podStore rm)"
  shows "PodKey ` set (sync_list (c_env c) order rc rm) = acts c seen k (rm_podStore rm)"
    and "distinct (map PodKey (sync_list (c_env c) order rc rm))"
proof -
  have ns: "rc_Namespace rc \<noteq> []" and sel: "\<not> Selector_Empty (AsSelector (c_env c) (rc_Selector rc))"
  proof -
    obtain rc0 where rc0: "c_rcs c k = Some rc0" "rc_version rc0 rc" using rc by (auto simp: rc_ok_def)
    have "rc_Namespace rc0 \<noteq> []" "\<not> Selector_Matches (ce_parseFloat (c_env c)) (AsSelector (c_env c) (rc_Selector rc0)) Map.empty"
      using cfg rc0(1) by (simp_all add: config_ok_def)
    then have ns: "rc_Namespace rc \<noteq> []" and m: "\<not> Selector_Matches (ce_parseFloat (c_env c)) (AsSelector (c_env c) (rc_Selector rc)) Map.empty"
      using rc0(2) by (simp_all add: rc_version_def)
    show "rc_Namespace rc \<noteq> []" by (rule ns)
    show "\<not> Selector_Empty (AsSelector (c_env c) (rc_Selector rc))" using m by (cases "AsSelector (c_env c) (rc_Selector rc)") auto
  qed
  have act: "FilterActivePods l = filter IsPodActive l" for l by (induction l) auto
  have list: "sync_list (c_env c) order rc rm =
      filter (\<lambda>p. IsPodActive p \<and> selects (c_env c) rc (pod_id p)) (items_of (rm_podStore rm) order)"
    using ns sel by (auto simp: sync_list_def Pods_List_def act Let_def selects_def pod_id_def intro: filter_cong)
  show "PodKey ` set (sync_list (c_env c) order rc rm) = acts c seen k (rm_podStore rm)"
  proof (rule set_eqI)
    fix x
    have "x \<in> PodKey ` set (sync_list (c_env c) order rc rm) \<longleftrightarrow>
        (\<exists>y p. rm_podStore rm y = Some p \<and> PodKey p = x \<and> IsPodActive p \<and> owns c k (pod_id p))"
      using set_items_of_range [OF order] rc_ok_selects [OF rc] by (auto simp: list ran_def)
    also have "\<dots> \<longleftrightarrow> x \<in> acts c seen k (rm_podStore rm)"
      using key unfolding acts_def live_def kown_def keyed_def by fastforce
    finally show "x \<in> PodKey ` set (sync_list (c_env c) order rc rm) \<longleftrightarrow> x \<in> acts c seen k (rm_podStore rm)" .
  qed
  have "distinct (map PodKey (items_of (rm_podStore rm) order))"
    by (rule distinct_items_of) (use order key in \<open>auto simp: range_of_def keyed_def\<close>)
  then show "distinct (map PodKey (sync_list (c_env c) order rc rm))" by (simp add: list distinct_map_filter)
qed

lemma sys_inv_list:
  assumes cfg: "config_ok c" and inv: "sys_inv c s" and k: "s_workers s k = Some (Checked rc b)"
    and order: "range_of (rm_podStore (s_rm s)) order"
  shows "sys_inv c (s\<lparr>s_workers := (s_workers s)(k \<mapsto> Listed rc b (sync_list (c_env c) order rc (s_rm s)))\<rparr>)" (is "sys_inv c ?s")
proof -
  note i = sys_invD [OF inv]
  have dom: "k \<in> dom (c_rcs c)" using worker_known [OF i(1) k] .
  have rc: "rc_ok c k rc" using i(2) k by (simp add: rc_inv_def)
  have q: "queue_inv c ?s" "dirty ?s = dirty s" by (rule queue_inv_same [OF i(1)]; use k in auto)+
  note l = sync_list_pods [OF rc cfg order pods_invD(3) [OF i(3) [unfolded stream_inv_def]]]
  show ?thesis
  proof (rule worker_step [OF inv k, where u = "rm_expectations (s_rm s)" and q = "rm_queue (s_rm s)" and rm' = "s_rm s"])
    show "KI c k (s_seen s) (s_pods s) (rm_podStore (s_rm s)) (s_events s) (s_notes s)
       (adds_due k (rm_expectations (s_rm s))) (dels_due k (rm_expectations (s_rm s))) (GetUIDs k (rm_expectations (s_rm s)))
       (k \<in> dirty ?s) (want s k) (Some (Listed rc b (sync_list (c_env c) order rc (s_rm s))))"
      using KI_list [OF _ _ l] i(3) i(4) [OF dom] k q(2) by (simp add: KIs_def stream_inv_def)
  qed (use rc q in simp_all)
qed

lemma manage_plan_cases:
  assumes "manage_plan now srt fp rc rm = (ts, rm')" and "sorts_pods srt" and "0 \<le> rc_Replicas rc"
  obtains (Keep) "ts = []" "rm' = rm" "int (length fp) = rc_Replicas rc"
  | (Create) n where "ts = replicate n CreateTask" "int n \<le> rc_Replicas rc - int (length fp)" "n \<le> rm_burstReplicas rm"
      "0 < rm_burstReplicas rm \<Longrightarrow> 0 < n"
      "rm' = rm\<lparr>rm_expectations := (rm_expectations rm)\<lparr>ue_exps := ExpectCreations now (rc_key rc) (int n) (ue_exps (rm_expectations rm))\<rparr>\<rparr>"
  | (Delete) fp' n where "mset fp' = mset fp" "ts = map DeleteTask (take n fp')" "int n \<le> int (length fp) - rc_Replicas rc"
      "n \<le> rm_burstReplicas rm" "0 < rm_burstReplicas rm \<Longrightarrow> 0 < n"
      "rc_Replicas rc \<noteq> 0 \<Longrightarrow> sorted_wrt (\<lambda>a b. \<not> ActivePods_Less b a) fp'"
      "rm' = rm\<lparr>rm_expectations := UID_ExpectDeletions now (rc_key rc) (map PodKey (take n fp')) (rm_expectations rm)\<rparr>"
proof -
  define df where "df = int (length fp) - rc_Replicas rc"
  define b where "b = int (rm_burstReplicas rm)"
  consider "df = 0" | "df < 0" | "0 < df" by linarith
  then show ?thesis
  proof cases
    case 1
    then show ?thesis using assms(1) by (intro Keep) (simp_all add: manage_plan_def df_def)
  next
    case 2
    define n where "n = nat (if - df > b then b else - df)"
    have n: "int n = (if - df > b then b else - df)" using 2 by (simp add: n_def b_def)
    have "(ts, rm') = (replicate n CreateTask,
        rm\<lparr>rm_expectations := (rm_expectations rm)\<lparr>ue_exps := ExpectCreations now (rc_key rc) (int n) (ue_exps (rm_expectations rm))\<rparr>\<rparr>)"
      using assms(1) 2 unfolding n by (auto simp: manage_plan_def df_def b_def n_def Let_def split: if_splits)
    then show ?thesis using 2 n by (intro Create [of n]) (simp_all add: df_def b_def split: if_splits)
  next
    case 3
    define n where "n = nat (if df > b then b else df)"
    define fp' where "fp' = (if rc_Replicas rc \<noteq> 0 then srt fp else fp)"
    have n: "int n = (if df > b then b else df)" using 3 by (simp add: n_def b_def)
    have "(ts, rm') = (map DeleteTask (take n fp'),
        rm\<lparr>rm_expectations := UID_ExpectDeletions now (rc_key rc) (map PodKey (take n fp')) (rm_expectations rm)\<rparr>)"
      using assms(1) 3 by (auto simp: manage_plan_def df_def b_def n_def fp'_def Let_def split: if_splits)
    moreover have "mset fp' = mset fp" "rc_Replicas rc \<noteq> 0 \<Longrightarrow> sorted_wrt (\<lambda>a b. \<not> ActivePods_Less b a) fp'"
      using assms(2) by (simp_all add: fp'_def sorts_pods_def)
    ultimately show ?thesis using 3 n by (intro Delete [of fp' n]) (simp_all add: df_def b_def split: if_splits)
  qed
qed

lemma config_lo: "config_ok c \<Longrightarrow> k \<in> dom (c_rcs c) \<Longrightarrow> 0 \<le> c_lo c k"
  by (auto simp: config_ok_def)

lemma sys_inv_plan:
  assumes cfg: "config_ok c" and inv: "sys_inv c s" and k: "s_workers s k = Some (Listed rc b fp)" and srt: "sorts_pods srt"
    and pl: "(ts, rm) = (if b then manage_plan now srt fp rc (s_rm s) else ([], s_rm s))"
  shows "sys_inv c (s\<lparr>s_rm := rm, s_workers := (s_workers s)(k \<mapsto> Acting rc fp ts)\<rparr>)" (is "sys_inv c ?s")
proof -
  note i = sys_invD [OF inv]
  have dom: "k \<in> dom (c_rcs c)" using worker_known [OF i(1) k] .
  have rc: "rc_ok c k rc" and burst: "0 < rm_burstReplicas (s_rm s)" "rm_burstReplicas (s_rm s) < 2 ^ 63"
    using i(2) k by (simp_all add: rc_inv_def)
  have key: "rc_key rc = k" using rc_ok_key [OF cfg rc] .
  have lim: "c_lo c k \<le> rc_Replicas rc" "rc_Replicas rc \<le> c_hi c k" "0 \<le> rc_Replicas rc"
    using rc config_lo [OF cfg dom] by (auto simp: rc_ok_def)
  have K: "KI c k (s_seen s) (s_pods s) (rm_podStore (s_rm s)) (s_events s) (s_notes s)
       (adds_due k (rm_expectations (s_rm s))) (dels_due k (rm_expectations (s_rm s))) (GetUIDs k (rm_expectations (s_rm s)))
       (k \<in> dirty s) (want s k) (Some (Listed rc b fp))" using i(4) [OF dom] k by (simp add: KIs_def)
  have step: "sys_inv c ?s" if rm: "rm = (s_rm s)\<lparr>rm_expectations := u\<rparr>"
    and u: "\<And>k'. k' \<noteq> k \<Longrightarrow> adds_due k' u = adds_due k' (rm_expectations (s_rm s)) \<and>
        dels_due k' u = dels_due k' (rm_expectations (s_rm s)) \<and> GetUIDs k' u = GetUIDs k' (rm_expectations (s_rm s))"
    and own: "KI c k (s_seen s) (s_pods s) (rm_podStore (s_rm s)) (s_events s) (s_notes s)
       (adds_due k u) (dels_due k u) (GetUIDs k u) (k \<in> dirty s) (want s k) (Some (Acting rc fp ts))" for u
  proof -
    have q: "queue_inv c ?s" "dirty ?s = dirty s" by (rule queue_inv_same [OF i(1)]; use k rm in auto)+
    show ?thesis
      by (rule worker_step [OF inv k, where u = u and q = "rm_queue (s_rm s)" and rm' = rm])
        (use rm u own q rc in simp_all)
  qed
  show ?thesis
  proof (cases b)
    case False
    then show ?thesis using pl K by (intro step [of "rm_expectations (s_rm s)"]) (simp_all add: KI_plan_none)
  next
    case True
    then have mp: "manage_plan now srt fp rc (s_rm s) = (ts, rm)" using pl by simp
    show ?thesis
    proof (rule manage_plan_cases [OF mp srt lim(3)])
      assume "ts = []" "rm = s_rm s" "int (length fp) = rc_Replicas rc"
      then show ?thesis using K by (intro step [of "rm_expectations (s_rm s)"]) (simp_all add: KI_plan_none)
    next
      fix n
      assume c: "ts = replicate n CreateTask" "int n \<le> rc_Replicas rc - int (length fp)" "n \<le> rm_burstReplicas (s_rm s)"
        "0 < rm_burstReplicas (s_rm s) \<Longrightarrow> 0 < n"
        "rm = (s_rm s)\<lparr>rm_expectations := (rm_expectations (s_rm s))\<lparr>ue_exps := ExpectCreations now (rc_key rc) (int n) (ue_exps (rm_expectations (s_rm s)))\<rparr>\<rparr>"
      have "int n < 2 ^ 63" using c(3) burst(2) by simp
      note due = due_ExpectCreations [OF _ this]
      have "KI c k (s_seen s) (s_pods s) (rm_podStore (s_rm s)) (s_events s) (s_notes s) (int n) 0
        (GetUIDs k (rm_expectations (s_rm s))) (k \<in> dirty s) (want s k) (Some (Acting rc fp ts))"
        using KI_plan_create [OF _ _ c(2) lim(2)] K True c(1) c(4) [OF burst(1)] by simp
      then show ?thesis by (intro step [OF c(5)]) (simp_all add: due key)
    next
      fix fp' n
      assume d: "mset fp' = mset fp" "ts = map DeleteTask (take n fp')" "int n \<le> int (length fp) - rc_Replicas rc"
        "n \<le> rm_burstReplicas (s_rm s)" "0 < rm_burstReplicas (s_rm s) \<Longrightarrow> 0 < n"
        "rm = (s_rm s)\<lparr>rm_expectations := UID_ExpectDeletions now (rc_key rc) (map PodKey (take n fp')) (rm_expectations (s_rm s))\<rparr>"
      let ?ds = "take n fp'"
      have n: "0 < n" "n \<le> length fp'" "length fp' = length fp" using d(3,5) burst(1) lim(3) mset_eq_length [OF d(1)] by auto
      have "distinct (map PodKey fp)" using KID(2) [OF K] True by (simp add: phase_inv_def)
      then have "distinct (map PodKey fp')" using d(1) by (metis mset_map mset_eq_imp_distinct_iff)
      then have dist: "distinct (map PodKey ?ds)" by (simp add: take_map [symmetric])
      have sub: "set ?ds \<subseteq> set fp" using set_take_subset mset_eq_setD [OF d(1)] by fastforce
      have "card (set (map PodKey ?ds)) \<le> n" using card_length [of "map PodKey ?ds"] n by simp
      then have "int (card (set (map PodKey ?ds))) < 2 ^ 63" using d(4) burst(2) by simp
      note due = due_ExpectDeletions [OF this]
      have "KI c k (s_seen s) (s_pods s) (rm_podStore (s_rm s)) (s_events s) (s_notes s) 0 (int (card (set (map PodKey ?ds))))
        (set (map PodKey ?ds)) (k \<in> dirty s) (want s k) (Some (Acting rc fp ts))"
        unfolding d(2) by (rule KI_plan_delete) (use K True n sub dist d(3) lim(1) in auto)
      then show ?thesis by (intro step [OF d(6)]) (simp_all add: due key del: set_map)
    qed
  qed
qed

lemma sys_inv_task_fails:
  assumes cfg: "config_ok c" and inv: "sys_inv c s" and k: "s_workers s k = Some (Acting rc fp (ts1 @ t # ts2))"
  shows "sys_inv c (s\<lparr>s_rm := task_done rc t False (s_rm s), s_workers := (s_workers s)(k \<mapsto> Acting rc fp (ts1 @ ts2))\<rparr>)" (is "sys_inv c ?s")
proof -
  note i = sys_invD [OF inv]
  have dom: "k \<in> dom (c_rcs c)" using worker_known [OF i(1) k] .
  have rc: "rc_ok c k rc" using i(2) k by (simp add: rc_inv_def)
  have key: "rc_key rc = k" using rc_ok_key [OF cfg rc] .
  let ?u = "rm_expectations (s_rm s)"
  define u where "u = (case t of CreateTask \<Rightarrow> ?u\<lparr>ue_exps := CreationObserved k (ue_exps ?u)\<rparr>
    | DeleteTask p \<Rightarrow> UID_DeletionObserved k (PodKey p) ?u)"
  have rm: "task_done rc t False (s_rm s) = (s_rm s)\<lparr>rm_expectations := u, rm_queue := Type_Add k (rm_queue (s_rm s))\<rparr>"
    by (cases t) (simp_all add: task_done_def key creation_observed_def u_def)
  have q: "queue_inv c ?s" "dirty ?s = insert k (dirty s)" by (rule queue_inv_add [OF i(1) dom]; use k in \<open>auto simp: rm\<close>)+
  have K: "KI c k (s_seen s) (s_pods s) (rm_podStore (s_rm s)) (s_events s) (s_notes s) (adds_due k ?u) (dels_due k ?u) (GetUIDs k ?u)
       (k \<in> dirty s) (want s k) (Some (Acting rc fp (ts1 @ t # ts2)))" using i(4) [OF dom] k by (simp add: KIs_def)
  have cnt: "adds_due k ?u = int (creates (Some (Acting rc fp (ts1 @ t # ts2))) + adds_ev c k (s_events s) + adds_nt c k (s_notes s))"
    "finite (GetUIDs k ?u)" "dels_due k ?u = int (card (GetUIDs k ?u))" using KID(1) [OF K] by (simp_all add: counts_inv_def)
  have pos: "0 < adds_due k ?u" if "t = CreateTask" using cnt(1) that by simp
  have del: "0 < dels_due k ?u" if "x \<in> GetUIDs k ?u" for x using cnt(2,3) that by (auto simp: card_gt_0_iff)
  show ?thesis
  proof (rule worker_step [OF inv k refl rm q(1)])
    show "dirty s \<subseteq> dirty ?s" using q(2) by blast
    show "adds_due k' u = adds_due k' ?u \<and> dels_due k' u = dels_due k' ?u \<and> GetUIDs k' u = GetUIDs k' ?u" if "k' \<noteq> k" for k'
      using that pos del by (cases t) (simp_all add: u_def due_CreationObserved due_DeletionObserved)
    show "rc_ok c k rc'" if "phase_rc (Some (Acting rc fp (ts1 @ ts2))) = Some rc'" for rc' using that rc by simp
    show "KI c k (s_seen s) (s_pods s) (rm_podStore (s_rm s)) (s_events s) (s_notes s) (adds_due k u) (dels_due k u) (GetUIDs k u)
       (k \<in> dirty ?s) (want s k) (Some (Acting rc fp (ts1 @ ts2)))"
    proof (cases t)
      case CreateTask
      then show ?thesis using KI_create_fails K q(2) by (simp add: u_def due_CreationObserved [OF pos])
    next
      case (DeleteTask p)
      have d: "(if PodKey p \<in> GetUIDs k ?u then dels_due k ?u - 1 else dels_due k ?u) = dels_due k u"
        using DeleteTask del by (simp add: u_def due_DeletionObserved)
      show ?thesis
        using KI_delete_fails [OF K [unfolded DeleteTask] pods_invD(5) [OF i(3) [unfolded stream_inv_def]]] DeleteTask del q(2)
        unfolding d by (simp add: u_def due_DeletionObserved)
    qed
  qed
qed

lemma sys_inv_finish:
  assumes cfg: "config_ok c" and inv: "sys_inv c s" and k: "s_workers s k = Some (Acting rc fp [])"
    and rm: "rm = sync_end (c_env c) update get fp rc (s_rm s)"
  shows "sys_inv c (s\<lparr>s_rm := rm\<lparr>rm_queue := Type_Done k (rm_queue rm)\<rparr>, s_workers := (s_workers s)(k := None)\<rparr>)" (is "sys_inv c ?s")
proof -
  note i = sys_invD [OF inv]
  have dom: "k \<in> dom (c_rcs c)" using worker_known [OF i(1) k] .
  have rc: "rc_ok c k rc" using i(2) k by (simp add: rc_inv_def)
  define q0 where "q0 = rm_queue rm"
  have q0: "q0 = rm_queue (s_rm s) \<or> q0 = Type_Add k (rm_queue (s_rm s))" "rm = (s_rm s)\<lparr>rm_queue := q0\<rparr>"
    using rc_ok_key [OF cfg rc] by (simp_all add: q0_def rm sync_end_def)
  have q: "queue_inv c ?s" "dirty s \<subseteq> dirty ?s"
    by (rule queue_inv_done [OF i(1) k, of ?s q0]; use q0 in simp)+
  show ?thesis
  proof (rule worker_step [OF inv k refl, where u = "rm_expectations (s_rm s)" and q = "Type_Done k q0"])
    show "KI c k (s_seen s) (s_pods s) (rm_podStore (s_rm s)) (s_events s) (s_notes s)
       (adds_due k (rm_expectations (s_rm s))) (dels_due k (rm_expectations (s_rm s))) (GetUIDs k (rm_expectations (s_rm s)))
       (k \<in> dirty ?s) (want s k) None"
      using KI_finish [OF i(4) [OF dom, unfolded KIs_def k], of "k \<in> dirty ?s"] q(2) by blast
  qed (use q0 q in simp_all)
qed

lemma sys_inv_delete_already:
  assumes inv: "sys_inv c s" and k: "s_workers s k = Some (Acting rc fp (ts1 @ DeleteTask d # ts2))"
    and p: "s_pods s (PodKey d) = Some p" "pod_DeletionTimestamp p \<noteq> None"
  shows "sys_inv c (s\<lparr>s_workers := (s_workers s)(k \<mapsto> Acting rc fp (ts1 @ ts2))\<rparr>)" (is "sys_inv c ?s")
proof -
  note i = sys_invD [OF inv]
  have dom: "k \<in> dom (c_rcs c)" using worker_known [OF i(1) k] .
  have rc: "rc_ok c k rc" using i(2) k by (simp add: rc_inv_def)
  have q: "queue_inv c ?s" "dirty ?s = dirty s" by (rule queue_inv_same [OF i(1)]; use k in auto)+
  show ?thesis
  proof (rule worker_step [OF inv k, where u = "rm_expectations (s_rm s)" and q = "rm_queue (s_rm s)" and rm' = "s_rm s"])
    show "KI c k (s_seen s) (s_pods s) (rm_podStore (s_rm s)) (s_events s) (s_notes s)
       (adds_due k (rm_expectations (s_rm s))) (dels_due k (rm_expectations (s_rm s))) (GetUIDs k (rm_expectations (s_rm s)))
       (k \<in> dirty ?s) (want s k) (Some (Acting rc fp (ts1 @ ts2)))"
      using KI_delete_already [OF i(4) [OF dom, unfolded KIs_def k]] q(2) p by (auto simp: terminating_def)
  qed (use rc q in simp_all)
qed

text \<open>A change at the API server, by a worker's request or by others.\<close>

lemma server_step:
  assumes inv: "sys_inv c s"
    and s': "s_rm s' = s_rm s" "s_notes s' = s_notes s"
    and none: "\<And>k. s_workers s' k = None \<longleftrightarrow> s_workers s k = None" and w: "\<And>k. phase_rc (s_workers s' k) = phase_rc (s_workers s k)"
    and pods: "stream_inv c s'"
    and own: "\<And>k. k \<in> dom (c_rcs c) \<Longrightarrow>
      KI c k (s_seen s') (s_pods s') (rm_podStore (s_rm s)) (s_events s') (s_notes s)
       (adds_due k (rm_expectations (s_rm s))) (dels_due k (rm_expectations (s_rm s))) (GetUIDs k (rm_expectations (s_rm s)))
       (k \<in> dirty s) (want s k) (s_workers s' k)"
  shows "sys_inv c s'"
proof -
  note i = sys_invD [OF inv]

  have q: "queue_inv c s'" "dirty s' = dirty s" by (rule queue_inv_same [OF i(1)]; use none s' in simp)+
  have "rc_inv c s'" by (rule rc_inv_frame [OF i(2)]) (use w s' in auto)
  moreover have "KIs c s' k" if "k \<in> dom (c_rcs c)" for k
    using own [OF that] q(2) s' by (simp add: KIs_def want_def)
  ultimately show ?thesis using q(1) pods by (simp add: sys_inv_def)
qed

lemma kown_unique:
  assumes "stream_inv c s" and "kown c (s_seen s) k x" and "kown c (s_seen s) k' x"
  shows "k = k'"
  using assms pods_invD(1) unfolding stream_inv_def kown_def single_def by (metis option.inject)

lemma sys_inv_create:
  assumes cfg: "config_ok c" and inv: "sys_inv c s" and k: "s_workers s k = Some (Acting rc fp (ts1 @ CreateTask # ts2))"
    and p0: "GetPodFromTemplate (c_env c) (rc_Template rc) (rc_Namespace rc) (rc_Name rc) = Some p0"
    and p: "p = p0\<lparr>pod_Name := name, pod_Namespace := rc_Namespace rc, pod_CreationTimestamp := now, pod_Phase := ''Pending''\<rparr>"
    and new: "s_seen s (PodKey p) = None"
  shows "sys_inv c (s\<lparr>s_pods := (s_pods s)(PodKey p \<mapsto> p), s_seen := (s_seen s)(PodKey p \<mapsto> (pod_Namespace p, pod_Labels p)),
      s_events := s_events s @ [PodAdded p], s_workers := (s_workers s)(k \<mapsto> Acting rc fp (ts1 @ ts2))\<rparr>)" (is "sys_inv c ?s")
proof -
  note i = sys_invD [OF inv]
  have st: "pods_inv c (s_seen s) (s_pods s) (rm_podStore (s_rm s)) (s_events s) (s_notes s)" using i(3) by (simp add: stream_inv_def)
  have rc: "rc_ok c k rc" using i(2) k by (simp add: rc_inv_def)
  have id: "pod_id p = (rc_Namespace rc, pt_Labels (rc_Template rc))" and act: "IsPodActive p"
    using p0 p by (auto simp: GetPodFromTemplate_def pod_id_def getPodsLabelSet_def IsPodActive_def split: option.splits)
  obtain rc0 where rc0: "c_rcs c k = Some rc0" "rc_version rc0 rc" using rc by (auto simp: rc_ok_def)
  have "owns c k (rc_Namespace rc0, pt_Labels (rc_Template rc0))" "single c (rc_Namespace rc0, pt_Labels (rc_Template rc0))"
    using cfg rc0(1) by (simp_all add: config_ok_def)
  then have own: "owns c k (pod_id p)" "single c (pod_id p)" using rc0(2) by (simp_all add: id rc_version_def)
  show ?thesis
  proof (rule server_step [OF inv])
    show "stream_inv c ?s"
      using pods_inv_create [OF st new act own(2)] by (simp add: stream_inv_def pod_id_def)
    show "KI c k' (s_seen ?s) (s_pods ?s) (rm_podStore (s_rm s)) (s_events ?s) (s_notes s)
       (adds_due k' (rm_expectations (s_rm s))) (dels_due k' (rm_expectations (s_rm s))) (GetUIDs k' (rm_expectations (s_rm s)))
       (k' \<in> dirty s) (want s k') (s_workers ?s k')" if "k' \<in> dom (c_rcs c)" for k'
    proof (cases "k' = k")
      case True
      show ?thesis using KI_create [OF _ st new act own(1)] i(4) [OF that] k True by (simp add: KIs_def pod_id_def)
    next
      case False
      then have "\<not> owns c k' (pod_id p)" using own by (auto simp: single_def)
      then show ?thesis using KI_create_other [OF _ st new] i(4) [OF that] False by (simp add: KIs_def pod_id_def)
    qed
  qed (use k in auto)
qed

lemma sys_inv_delete:
  assumes inv: "sys_inv c s" and k: "s_workers s k = Some (Acting rc fp (ts1 @ DeleteTask d # ts2))"
    and same: "\<And>y. y \<noteq> PodKey d \<Longrightarrow> P' y = s_pods s y" and dead: "\<not> live P' (PodKey d)"
    and pods: "pods_inv c (s_seen s) P' (rm_podStore (s_rm s)) (s_events s @ [e]) (s_notes s)"
    and e: "ev_key e = PodKey d" "\<not> ev_adds e"
    and trm: "terminating P' (PodKey d) \<or> removal (s_events s @ [e]) (s_notes s) (PodKey d)"
  shows "sys_inv c (s\<lparr>s_pods := P', s_events := s_events s @ [e], s_workers := (s_workers s)(k \<mapsto> Acting rc fp (ts1 @ ts2))\<rparr>)" (is "sys_inv c ?s")
proof -
  note i = sys_invD [OF inv]
  have st: "pods_inv c (s_seen s) (s_pods s) (rm_podStore (s_rm s)) (s_events s) (s_notes s)" using i(3) by (simp add: stream_inv_def)
  have seen: "s_seen s (PodKey d) = Some (pod_id (ev_pod e))" using pods_invD(7) [OF pods, of e] e(1) by simp
  have kd: "kown c (s_seen s) k (PodKey d)"
    using KID(2) [OF i(4) [OF worker_known [OF i(1) k], unfolded KIs_def k]] by (simp add: phase_inv_def)
  show ?thesis
  proof (rule server_step [OF inv])
    show "stream_inv c ?s" using pods by (simp add: stream_inv_def)
    show "KI c k' (s_seen ?s) (s_pods ?s) (rm_podStore (s_rm s)) (s_events ?s) (s_notes s)
       (adds_due k' (rm_expectations (s_rm s))) (dels_due k' (rm_expectations (s_rm s))) (GetUIDs k' (rm_expectations (s_rm s)))
       (k' \<in> dirty s) (want s k') (s_workers ?s k')" if "k' \<in> dom (c_rcs c)" for k'
    proof (cases "k' = k")
      case True
      have "KI c k (s_seen s) P' (rm_podStore (s_rm s)) (s_events s @ [e]) (s_notes s)
       (adds_due k (rm_expectations (s_rm s))) (dels_due k (rm_expectations (s_rm s))) (GetUIDs k (rm_expectations (s_rm s)))
       (k \<in> dirty s) (want s k) (Some (Acting rc fp (ts1 @ ts2)))"
        by (rule KI_delete [OF i(4) [OF that, unfolded True KIs_def k] st]) (use same dead e seen trm in auto)
      then show ?thesis using True by simp
    next
      case False
      then have "\<not> kown c (s_seen s) k' (PodKey d)" using kown_unique [OF i(3) kd] by blast
      then have "KI c k' (s_seen s) P' (rm_podStore (s_rm s)) (s_events s @ [e]) (s_notes s)
       (adds_due k' (rm_expectations (s_rm s))) (dels_due k' (rm_expectations (s_rm s))) (GetUIDs k' (rm_expectations (s_rm s)))
       (k' \<in> dirty s) (want s k') (s_workers s k')"
        by (intro KI_touch [OF i(4) [OF that, unfolded KIs_def] pods_invD(5) [OF st], where x = "PodKey d"])
          (use same dead e seen trm in auto)
      then show ?thesis using False by simp
    qed
  qed (use k in auto)
qed

lemma sys_inv_touch:
  assumes inv: "sys_inv c s" and same: "\<And>y. y \<noteq> x \<Longrightarrow> P' y = s_pods s y" and lv: "live P' x \<Longrightarrow> live (s_pods s) x"
    and out: "\<not> c_outside c \<Longrightarrow> live P' x = live (s_pods s) x"
    and pods: "pods_inv c (s_seen s) P' (rm_podStore (s_rm s)) (s_events s @ [e]) (s_notes s)"
    and e: "ev_key e = x" "\<not> ev_adds e"
    and trm: "terminating (s_pods s) x \<Longrightarrow> terminating P' x \<or> removal (s_events s @ [e]) (s_notes s) x"
  shows "sys_inv c (s\<lparr>s_pods := P', s_events := s_events s @ [e]\<rparr>)" (is "sys_inv c ?s")
proof -
  note i = sys_invD [OF inv]
  have st: "pods_inv c (s_seen s) (s_pods s) (rm_podStore (s_rm s)) (s_events s) (s_notes s)" using i(3) by (simp add: stream_inv_def)
  have seen: "s_seen s x = Some (pod_id (ev_pod e))" using pods_invD(7) [OF pods, of e] e(1) by simp
  show ?thesis
  proof (rule server_step [OF inv])
    show "stream_inv c ?s" using pods by (simp add: stream_inv_def)
    show "KI c k (s_seen ?s) (s_pods ?s) (rm_podStore (s_rm s)) (s_events ?s) (s_notes s)
       (adds_due k (rm_expectations (s_rm s))) (dels_due k (rm_expectations (s_rm s))) (GetUIDs k (rm_expectations (s_rm s)))
       (k \<in> dirty s) (want s k) (s_workers ?s k)" if "k \<in> dom (c_rcs c)" for k
      using KI_touch [OF i(4) [OF that, unfolded KIs_def] pods_invD(5) [OF st], of x P' e, OF same lv out e seen trm] by simp
  qed auto
qed

lemma sys_inv_informer:
  assumes inv: "sys_inv c s" and E: "s_events s = e # es"
  shows "sys_inv c (s\<lparr>s_events := es, s_notes := s_notes s @ [note_of (rm_podStore (s_rm s)) e],
      s_rm := (s_rm s)\<lparr>rm_podStore := apply_event e (rm_podStore (s_rm s))\<rparr>\<rparr>)" (is "sys_inv c ?s")
proof -
  note i = sys_invD [OF inv]
  have st: "pods_inv c (s_seen s) (s_pods s) (rm_podStore (s_rm s)) (e # es) (s_notes s)" using i(3) E by (simp add: stream_inv_def)
  have q: "queue_inv c ?s" "dirty ?s = dirty s" by (rule queue_inv_same [OF i(1)]; simp)+
  have "rc_inv c ?s" by (rule rc_inv_frame [OF i(2)]) auto
  moreover have "stream_inv c ?s" using pods_inv_informer [OF st] by (simp add: stream_inv_def)
  moreover have "KIs c ?s k" if "k \<in> dom (c_rcs c)" for k
    using KI_informer [OF i(4) [OF that, unfolded KIs_def E] st] q(2) by (simp add: KIs_def want_def)
  ultimately show ?thesis using q(1) by (simp add: sys_inv_def)
qed

lemma sys_inv_change_rc:
  assumes cfg: "config_ok c" and inv: "sys_inv c s" and rc: "rm_rcStore (s_rm s) k = Some rc" "rc_version rc rc'"
    and lim: "c_lo c k \<le> rc_Replicas rc'" "rc_Replicas rc' \<le> c_hi c k"
  shows "sys_inv c (s\<lparr>s_rm := (s_rm s)\<lparr>rm_rcStore := (rm_rcStore (s_rm s))(k \<mapsto> rc')\<rparr>, s_notes := s_notes s @ [NoteRC rc rc']\<rparr>)" (is "sys_inv c ?s")
proof -
  note i = sys_invD [OF inv]
  have ok: "rc_ok c k rc" using i(2) rc(1) by (auto simp: rc_inv_def rcs_ok_def)
  then have ok': "rc_ok c k rc'" using rc(2) lim by (auto simp: rc_ok_def rc_version_def)
  have q: "queue_inv c ?s" "dirty ?s = dirty s" by (rule queue_inv_same [OF i(1)]; simp)+
  have "c_rcs c k \<noteq> None" using ok by (auto simp: rc_ok_def)
  then have "rc_inv c ?s" using i(2) ok' by (auto simp: rc_inv_def rcs_ok_def)
  moreover have "stream_inv c ?s" using pods_inv_rc [OF _ ok ok'] i(3) by (simp add: stream_inv_def)
  moreover have "KIs c ?s k'" if "k' \<in> dom (c_rcs c)" for k'
    using KI_change_rc [OF i(4) [OF that, unfolded KIs_def], of rc' "want ?s k'" rc] rc_ok_key [OF cfg ok'] q(2)
    by (simp add: KIs_def want_def)
  ultimately show ?thesis using q(1) by (simp add: sys_inv_def)
qed

lemma note_owns_known:
  assumes "config_ok c" and "note_ok c n" and "note_owns c k n"
  shows "k \<in> dom (c_rcs c)"
proof (cases n)
  case (NoteRC old cur)
  then obtain k0 where k0: "rc_ok c k0 cur" using assms(2) by auto
  then show ?thesis using rc_ok_key [OF assms(1) k0] assms(3) NoteRC by (auto simp: rc_ok_def)
qed (use assms(3) in \<open>auto simp: owns_def\<close>)

lemma note_single:
  assumes "pods_inv c seen P S E N" and "n \<in> set N" and "note_pod n = Some p"
  shows "single c (pod_id p)"
  using pods_invD(1) [OF assms(1), of "PodKey p" "pod_id p"] pods_invD(8) [OF assms(1,2)] assms(3) by (simp add: note_inv_def)

lemma note_owns_unique:
  assumes cfg: "config_ok c" and st: "pods_inv c seen P S E N" and n: "n \<in> set N" and own: "note_owns c k n" "note_owns c k' n"
  shows "k = k'"
proof (cases "note_pod n")
  case None
  then show ?thesis using own by (cases n) simp_all
next
  case (Some p)
  then show ?thesis using note_single [OF st n Some] own note_owns_pod [OF Some] unfolding single_def by blast
qed

lemma due_note_exps:
  assumes a: "note_adds n \<longrightarrow> 0 < adds_due k u"
    and card: "finite (GetUIDs k u)" "dels_due k u = int (card (GetUIDs k u))"
  shows "k' \<noteq> k \<Longrightarrow> adds_due k' (note_exps k n u) = adds_due k' u \<and> dels_due k' (note_exps k n u) = dels_due k' u \<and>
      GetUIDs k' (note_exps k n u) = GetUIDs k' u"
    and "adds_due k (note_exps k n u) = (if note_adds n then adds_due k u - 1 else adds_due k u)"
    and "GetUIDs k (note_exps k n u) = (if note_removes n then GetUIDs k u - {PodKey (the (note_pod n))} else GetUIDs k u)"
    and "dels_due k (note_exps k n u) = int (card (if note_removes n then GetUIDs k u - {PodKey (the (note_pod n))} else GetUIDs k u))"
proof -
  have d: "0 < dels_due k u" if "x \<in> GetUIDs k u" for x using that card by (auto simp: card_gt_0_iff)
  have ex: "\<not> (note_adds n \<and> note_removes n)" by (cases n) simp_all
  have pos: "int (card (GetUIDs k u) - Suc 0) = int (card (GetUIDs k u)) - 1" if "x \<in> GetUIDs k u" for x
  proof -
    have "0 < card (GetUIDs k u)" using that card(1) by (auto simp: card_gt_0_iff)
    then show ?thesis by simp
  qed
  show "k' \<noteq> k \<Longrightarrow> adds_due k' (note_exps k n u) = adds_due k' u \<and> dels_due k' (note_exps k n u) = dels_due k' u \<and>
      GetUIDs k' (note_exps k n u) = GetUIDs k' u"
    using a d by (simp add: note_exps_def due_CreationObserved due_DeletionObserved)
  show "adds_due k (note_exps k n u) = (if note_adds n then adds_due k u - 1 else adds_due k u)"
    "GetUIDs k (note_exps k n u) = (if note_removes n then GetUIDs k u - {PodKey (the (note_pod n))} else GetUIDs k u)"
    using a d ex by (auto simp: note_exps_def due_CreationObserved due_DeletionObserved)
  show "dels_due k (note_exps k n u) = int (card (if note_removes n then GetUIDs k u - {PodKey (the (note_pod n))} else GetUIDs k u))"
    using a d ex card pos by (auto simp: note_exps_def due_CreationObserved due_DeletionObserved simp del: of_nat_diff)
qed

lemma sys_inv_handler:
  assumes cfg: "config_ok c" and inv: "sys_inv c s" and N: "s_notes s = n # ns"
    and orders: "range_of (rm_rcStore (s_rm s)) o1" "range_of (rm_rcStore (s_rm s)) o2"
  shows "sys_inv c (s\<lparr>s_notes := ns, s_rm := handle_note (c_env c) o1 o2 n (s_rm s)\<rparr>)" (is "sys_inv c ?s")
proof -
  note i = sys_invD [OF inv]
  let ?u = "rm_expectations (s_rm s)"
  have st: "pods_inv c (s_seen s) (s_pods s) (rm_podStore (s_rm s)) (s_events s) (n # ns)" using i(3) N by (simp add: stream_inv_def)
  have rcs: "rcs_ok c (s_rm s)" using i(2) by (simp add: rc_inv_def)
  have ni: "note_inv c (s_seen s) (rm_podStore (s_rm s)) n" using pods_invD(8) [OF st] by simp
  then have ok: "note_ok c n" by (simp add: note_inv_def)
  have sg: "single c (pod_id p)" if "note_pod n = Some p" for p
    using note_single [OF st _ that] by simp
  have K: "KI c k (s_seen s) (s_pods s) (rm_podStore (s_rm s)) (s_events s) (n # ns) (adds_due k ?u) (dels_due k ?u) (GetUIDs k ?u)
       (k \<in> dirty s) (want s k) (s_workers s k)" if "k \<in> dom (c_rcs c)" for k
    using i(4) [OF that] N by (simp add: KIs_def)
  obtain lc where lc: "rcs_ok c ((s_rm s)\<lparr>rm_lookupCache := lc\<rparr>)" and
    h: "(\<forall>k. \<not> note_owns c k n) \<and> handle_note (c_env c) o1 o2 n (s_rm s) = (s_rm s)\<lparr>rm_lookupCache := lc\<rparr> \<or>
      (\<exists>k. note_owns c k n \<and> handle_note (c_env c) o1 o2 n (s_rm s) =
         (s_rm s)\<lparr>rm_lookupCache := lc, rm_expectations := note_exps k n ?u, rm_queue := Type_Add k (rm_queue (s_rm s))\<rparr>)"
    using handle_noted [OF cfg rcs orders ok sg] unfolding noted_def by blast
  from h show ?thesis
  proof (elim disjE exE conjE)
    assume none: "\<forall>k. \<not> note_owns c k n" and eq: "handle_note (c_env c) o1 o2 n (s_rm s) = (s_rm s)\<lparr>rm_lookupCache := lc\<rparr>"
    have q: "queue_inv c ?s" "dirty ?s = dirty s" by (rule queue_inv_same [OF i(1)]; simp add: eq)+
    have "rc_inv c ?s" using i(2) lc by (simp add: rc_inv_def eq rcs_ok_def)
    moreover have "stream_inv c ?s" using pods_inv_handler [OF st] by (simp add: stream_inv_def eq)
    moreover have "KIs c ?s k" if "k \<in> dom (c_rcs c)" for k
      using KI_handler_other [OF K [OF that] st] none q(2) by (simp add: KIs_def want_def eq)
    ultimately show ?thesis using q(1) by (simp add: sys_inv_def)
  next
    fix k
    assume own: "note_owns c k n" and eq: "handle_note (c_env c) o1 o2 n (s_rm s) =
         (s_rm s)\<lparr>rm_lookupCache := lc, rm_expectations := note_exps k n ?u, rm_queue := Type_Add k (rm_queue (s_rm s))\<rparr>"
    have dom: "k \<in> dom (c_rcs c)" using note_owns_known [OF cfg ok own] .
    have cnt: "adds_due k ?u = int (creates (s_workers s k) + adds_ev c k (s_events s) + adds_nt c k (n # ns))"
      "finite (GetUIDs k ?u)" "dels_due k ?u = int (card (GetUIDs k ?u))" using KID(1) [OF K [OF dom]] by (simp_all add: counts_inv_def)
    have "note_adds n \<longrightarrow> 0 < adds_due k ?u" using cnt(1) own by simp
    note due = due_note_exps [OF this cnt(2,3)]
    have q: "queue_inv c ?s" "dirty ?s = insert k (dirty s)" by (rule queue_inv_add [OF i(1) dom]; simp add: eq)+
    have "rc_inv c ?s" using i(2) lc by (simp add: rc_inv_def eq rcs_ok_def)
    moreover have "stream_inv c ?s" using pods_inv_handler [OF st] by (simp add: stream_inv_def eq)
    moreover have "KIs c ?s k'" if "k' \<in> dom (c_rcs c)" for k'
    proof (cases "k' = k")
      case True
      show ?thesis using KI_handler [OF K [OF dom] st own] due(2-4) q(2) True by (simp add: KIs_def want_def eq)
    next
      case False
      then have "\<not> note_owns c k' n" using note_owns_unique [OF cfg st _ own] by auto
      then show ?thesis using KI_handler_other [OF K [OF that] st] due(1) [OF False] q(2) False
        by (simp add: KIs_def want_def eq)
    qed
    ultimately show ?thesis using q(1) by (simp add: sys_inv_def)
  qed
qed

lemma rm_step_inv:
  assumes cfg: "config_ok c" and step: "rm_step c s s'" and inv: "sys_inv c s"
  shows "sys_inv c s'"
  using step inv
proof (cases rule: rm_step.cases)
  case (delete_mark k rc fp ts1 d ts2 p p' t)
  note i = sys_invD [OF inv]
  have st: "pods_inv c (s_seen s) (s_pods s) (rm_podStore (s_rm s)) (s_events s) (s_notes s)" using i(3) by (simp add: stream_inv_def)
  have ch: "pod_change p p'" using delete_mark by (simp add: pod_change_def same_identity_def IsPodActive_def)
      (metis ApiPod.select_convs(3) ApiPod.surjective ApiPod.update_convs(3) option.distinct(1))
  have key: "PodKey p' = PodKey d" using pods_invD(2) [OF st] delete_mark pod_change_identity [OF ch] by (auto simp: keyed_def)
  have dead: "\<not> IsPodActive p'" "pod_DeletionTimestamp p' \<noteq> None" using delete_mark by (simp_all add: IsPodActive_def)
  show ?thesis
    unfolding delete_mark(1)
    by (rule sys_inv_delete [OF inv delete_mark(2)])
      (use pods_inv_modify [OF st delete_mark(3) ch] key dead in \<open>auto simp: live_def ev_key_def terminating_def\<close>)
next
  case (create_ok k rc fp ts1 ts2 p0 p name now)
  show ?thesis unfolding create_ok(1) by (rule sys_inv_create [OF cfg inv create_ok(2,4-6)])
next
  case (delete_remove k rc fp ts1 d ts2 p)
  note i = sys_invD [OF inv]
  have st: "pods_inv c (s_seen s) (s_pods s) (rm_podStore (s_rm s)) (s_events s) (s_notes s)" using i(3) by (simp add: stream_inv_def)
  have key: "PodKey p = PodKey d" using pods_invD(2) [OF st] delete_remove by (auto simp: keyed_def)
  show ?thesis
    unfolding delete_remove(1)
    by (rule sys_inv_delete [OF inv delete_remove(2)])
      (use pods_inv_remove [OF st delete_remove(3)] key in \<open>auto simp: live_def ev_key_def removal_def\<close>)
next
  case (modify x p p')
  note i = sys_invD [OF inv]
  have st: "pods_inv c (s_seen s) (s_pods s) (rm_podStore (s_rm s)) (s_events s) (s_notes s)" using i(3) by (simp add: stream_inv_def)
  have key: "PodKey p' = x" using pods_invD(2) [OF st] modify pod_change_identity by (auto simp: keyed_def)
  show ?thesis
    unfolding modify(1)
    by (rule sys_inv_touch [OF inv, where x = x])
      (use pods_inv_modify [OF st modify(2,3)] modify key in \<open>auto simp: live_def ev_key_def terminating_def pod_change_def\<close>)
next
  case (remove x p)
  note i = sys_invD [OF inv]
  have st: "pods_inv c (s_seen s) (s_pods s) (rm_podStore (s_rm s)) (s_events s) (s_notes s)" using i(3) by (simp add: stream_inv_def)
  have key: "PodKey p = x" using pods_invD(2) [OF st] remove by (auto simp: keyed_def)
  show ?thesis
    unfolding remove(1)
    by (rule sys_inv_touch [OF inv, where x = x])
      (use pods_inv_remove [OF st remove(2)] remove key in \<open>auto simp: live_def ev_key_def removal_def\<close>)
next
  case pods_synced
  note i = sys_invD [OF inv]
  have q: "queue_inv c s'" "dirty s' = dirty s" by (rule queue_inv_same [OF i(1)]; simp add: pods_synced)+
  have "rc_inv c s'" by (rule rc_inv_frame [OF i(2)]) (simp_all add: pods_synced)
  moreover have "stream_inv c s'" by (rule stream_inv_frame [OF i(3)]) (simp_all add: pods_synced)
  moreover have "KIs c s' k" if "k \<in> dom (c_rcs c)" for k
    by (rule KIs_frame [OF i(4) [OF that]]) (use q(2) in \<open>simp_all add: pods_synced\<close>)
  ultimately show ?thesis using q(1) by (simp add: sys_inv_def)
qed (auto intro: sys_inv_take sys_inv_begin [OF cfg] sys_inv_begin_not [OF cfg] sys_inv_list [OF cfg] sys_inv_plan [OF cfg]
      sys_inv_task_fails [OF cfg] sys_inv_delete_already sys_inv_finish [OF cfg] sys_inv_informer
      sys_inv_handler [OF cfg] sys_inv_change_rc [OF cfg])

section \<open>What the manager guarantees\<close>

definition running :: "('f :: ord) rep_config \<Rightarrow> string \<Rightarrow> (string \<rightharpoonup> ApiPod) \<Rightarrow> string set" where
  "running c k pods = {x. \<exists>p. pods x = Some p \<and> IsPodActive p \<and> owns c k (pod_id p)}"

definition start_ok :: "('f :: ord) rep_config \<Rightarrow> nat \<Rightarrow> string list \<Rightarrow> (string \<rightharpoonup> ApiPod) \<Rightarrow> bool" where
  "start_ok c burst ks pods \<longleftrightarrow>
     0 < burst \<and> burst < 2 ^ 63 \<and> set ks = dom (c_rcs c) \<and> finite (dom pods) \<and>
     (\<forall>x p. pods x = Some p \<longrightarrow> PodKey p = x \<and> single c (pod_id p)) \<and>
     (\<forall>k \<in> set ks. int (card (running c k pods)) \<le> c_hi c k \<and>
        (\<not> c_outside c \<longrightarrow> c_lo c k \<le> int (card (running c k pods))))"

lemma running_acts: "keyed seen m \<Longrightarrow> running c k m = acts c seen k m"
  unfolding running_def acts_def live_def kown_def keyed_def by fastforce

lemma queue_all:
  assumes "\<not> wq_shuttingDown q" and "wq_inv q"
  shows "wq_dirty (foldl (\<lambda>q k. Type_Add k q) q ks) = wq_dirty q \<union> set ks \<and>
     wq_processing (foldl (\<lambda>q k. Type_Add k q) q ks) = wq_processing q \<and>
     \<not> wq_shuttingDown (foldl (\<lambda>q k. Type_Add k q) q ks) \<and> wq_inv (foldl (\<lambda>q k. Type_Add k q) q ks)"
  using assms by (induction ks arbitrary: q) (simp_all add: wq_inv_Add)

lemma started_inv:
  assumes cfg: "config_ok c" and ok: "start_ok c burst ks pods"
  shows "sys_inv c (started (newReplicationManagerInternal burst entries) ks (c_rcs c) pods [])" (is "sys_inv c ?s")
proof -
  have New: "\<not> wq_shuttingDown (New :: string Type)" "wq_dirty (New :: string Type) = {}" "wq_processing (New :: string Type) = {}"
    by (simp_all add: New_def)
  note q = queue_all [OF New(1) wq_inv_New, of ks, unfolded New(2,3)]
  have keyed: "keyed (s_seen ?s) pods" using ok by (auto simp: keyed_def started_def start_ok_def pod_id_def)
  have "queue_inv c ?s"
    using q ok by (auto simp: queue_inv_def dirty_def started_def newReplicationManagerInternal_def start_ok_def)
  moreover have "rc_inv c ?s"
    using cfg ok by (auto simp: rc_inv_def rcs_ok_def started_def newReplicationManagerInternal_def NewMatchingCache_def lru_New_def
        lru_entries_def rc_ok_def config_ok_def rc_version_def start_ok_def)
  moreover have "stream_inv c ?s"
    using keyed ok by (auto simp: stream_inv_def pods_inv_def started_def newReplicationManagerInternal_def start_ok_def pod_id_def)
  moreover have "KIs c ?s k" if "k \<in> dom (c_rcs c)" for k
  proof -
    have "k \<in> set ks" using that ok by (simp add: start_ok_def)
    then have d: "k \<in> dirty ?s" using q by (simp add: dirty_def started_def newReplicationManagerInternal_def)
    have l: "int (card (acts c (s_seen ?s) k pods)) \<le> c_hi c k"
      "\<not> c_outside c \<longrightarrow> c_lo c k \<le> int (card (acts c (s_seen ?s) k pods))"
      using \<open>k \<in> set ks\<close> ok unfolding start_ok_def running_acts [OF keyed, of c k, symmetric] by blast+
    have "s_pods ?s = pods" "rm_podStore (s_rm ?s) = pods" "s_events ?s = []" "s_notes ?s = []" "s_workers ?s k = None"
      "rm_expectations (s_rm ?s) = NewUIDTrackingControllerExpectations"
      by (simp_all add: started_def newReplicationManagerInternal_def)
    then show ?thesis
      using d l
      by (simp add: KIs_def KI_def counts_inv_def phase_inv_def bound_inv_def low_inv_def rest_inv_def sleep_inv_def
          adds_due_def dels_due_def GetUIDs_def NewUIDTrackingControllerExpectations_def)
  qed
  ultimately show ?thesis by (simp add: sys_inv_def)
qed

lemma runs_inv: "runs c s0 s \<Longrightarrow> config_ok c \<Longrightarrow> sys_inv c s0 \<Longrightarrow> sys_inv c s"
  by (induction rule: runs.induct) (auto intro: rm_step_inv)



section \<open>Executions\<close>

text \<open>Some steps of a cluster with one busy worker, as a function, to build executions.\<close>

datatype action =
    ASynced | ATake | ABegin int | AList "string list" | APlan int | ACreate string int | AFinish | AInform | AHandle "string list"

fun exec :: "('f :: ord) rep_config \<Rightarrow> string \<Rightarrow> action \<Rightarrow> system \<Rightarrow> system option" where
  "exec c k ASynced s = Some (s\<lparr>s_rm := (s_rm s)\<lparr>rm_podStoreSynced := True\<rparr>\<rparr>)"
| "exec c k ATake s =
     (case Type_Get (rm_queue (s_rm s)) of
        Some ((Some k', False), q) \<Rightarrow> Some (s\<lparr>s_rm := (s_rm s)\<lparr>rm_queue := q\<rparr>, s_workers := (s_workers s)(k' \<mapsto> Started)\<rparr>)
      | _ \<Rightarrow> None)"
| "exec c k (ABegin now) s =
     (case (s_workers s k, sync_begin now k (s_rm s)) of
        (Some Started, (Restored rc b, rm)) \<Rightarrow>
          if (case ue_exps (rm_expectations (s_rm s)) k of None \<Rightarrow> True | Some e \<Rightarrow> \<not> isExpired now e)
          then Some (s\<lparr>s_rm := rm, s_workers := (s_workers s)(k \<mapsto> Checked rc b)\<rparr>) else None
      | _ \<Rightarrow> None)"
| "exec c k (AList order) s =
     (case s_workers s k of
        Some (Checked rc b) \<Rightarrow>
          if range_of (rm_podStore (s_rm s)) order
          then Some (s\<lparr>s_workers := (s_workers s)(k \<mapsto> Listed rc b (sync_list (c_env c) order rc (s_rm s)))\<rparr>) else None
      | _ \<Rightarrow> None)"
| "exec c k (APlan now) s =
     (case s_workers s k of
        Some (Listed rc b fp) \<Rightarrow>
          (case (if b then manage_plan now (sort_key pod_rank) fp rc (s_rm s) else ([], s_rm s)) of
             (ts, rm) \<Rightarrow> Some (s\<lparr>s_rm := rm, s_workers := (s_workers s)(k \<mapsto> Acting rc fp ts)\<rparr>))
      | _ \<Rightarrow> None)"
| "exec c k (ACreate name now) s =
     (case s_workers s k of
        Some (Acting rc fp (CreateTask # ts)) \<Rightarrow>
          (case (CreatePods (c_env c) (\<lambda>_ _. None) (rc_Namespace rc) (rc_Template rc) (rc_Name rc),
                 GetPodFromTemplate (c_env c) (rc_Template rc) (rc_Namespace rc) (rc_Name rc)) of
             (None, Some p0) \<Rightarrow>
               let p = p0\<lparr>pod_Name := name, pod_Namespace := rc_Namespace rc, pod_CreationTimestamp := now, pod_Phase := ''Pending''\<rparr>
               in if s_seen s (PodKey p) = None
                  then Some (s\<lparr>s_pods := (s_pods s)(PodKey p \<mapsto> p), s_seen := (s_seen s)(PodKey p \<mapsto> (pod_Namespace p, pod_Labels p)),
                    s_events := s_events s @ [PodAdded p], s_workers := (s_workers s)(k \<mapsto> Acting rc fp ts)\<rparr>) else None
           | _ \<Rightarrow> None)
      | _ \<Rightarrow> None)"
| "exec c k AFinish s =
     (case s_workers s k of
        Some (Acting rc fp []) \<Rightarrow>
          let rm = sync_end (c_env c) (\<lambda>_ _. None) (\<lambda>_. Inl []) fp rc (s_rm s)
          in Some (s\<lparr>s_rm := rm\<lparr>rm_queue := Type_Done k (rm_queue rm)\<rparr>, s_workers := (s_workers s)(k := None)\<rparr>)
      | _ \<Rightarrow> None)"
| "exec c k AInform s =
     (case s_events s of
        e # es \<Rightarrow> Some (s\<lparr>s_events := es, s_notes := s_notes s @ [note_of (rm_podStore (s_rm s)) e],
            s_rm := (s_rm s)\<lparr>rm_podStore := apply_event e (rm_podStore (s_rm s))\<rparr>\<rparr>)
      | [] \<Rightarrow> None)"
| "exec c k (AHandle order) s =
     (case s_notes s of
        n # ns \<Rightarrow>
          if range_of (rm_rcStore (s_rm s)) order
          then Some (s\<lparr>s_notes := ns, s_rm := handle_note (c_env c) order order n (s_rm s)\<rparr>) else None
      | [] \<Rightarrow> None)"

lemma sort_key_sorts_pods: "sorts_pods (sort_key pod_rank)"
proof -
  have "sorted_wrt (\<lambda>a b. pod_rank a \<le> pod_rank b) (sort_key pod_rank l)" for l
    using sorted_sort_key [of pod_rank l] by (simp add: sorted_map)
  then show ?thesis by (simp add: sorts_pods_def ActivePods_Less_rank not_less)
qed

lemma exec_step:
  assumes "exec c k a s = Some s'"
  shows "rm_step c s s'"
proof (cases a)
  case ASynced
  then show ?thesis using assms rm_step.pods_synced by auto
next
  case ATake
  then show ?thesis using assms by (auto intro: rm_step.take split: option.splits prod.splits bool.splits if_splits)
next
  case (ABegin now)
  then show ?thesis using assms
    by (auto intro!: rm_step.begin_sync split: option.splits prod.splits phase.splits sync_start.splits if_splits)
next
  case (AList order)
  then show ?thesis using assms by (auto intro!: rm_step.list_pods split: option.splits phase.splits if_splits)
next
  case (APlan now)
  then show ?thesis using assms
    by (auto intro!: rm_step.plan [OF _ sort_key_sorts_pods, where now = now] split: option.splits phase.splits prod.splits)
next
  case (ACreate name now)
  then obtain rc fp ts p0 where w: "s_workers s k = Some (Acting rc fp ([] @ CreateTask # ts))"
    and c: "CreatePods (c_env c) (\<lambda>_ _. None) (rc_Namespace rc) (rc_Template rc) (rc_Name rc) = None"
    "GetPodFromTemplate (c_env c) (rc_Template rc) (rc_Namespace rc) (rc_Name rc) = Some p0"
    using assms by (auto split: option.splits phase.splits list.splits task.splits)
  show ?thesis using rm_step.create_ok [OF w c refl, where name = name and now = now] assms w c ACreate by (auto simp: Let_def split: if_splits)
next
  case AFinish
  then show ?thesis using assms by (auto simp: Let_def intro!: rm_step.finish split: option.splits phase.splits list.splits)
next
  case AInform
  then show ?thesis using assms by (auto intro!: rm_step.informer split: list.splits)
next
  case (AHandle order)
  then show ?thesis using assms by (auto intro!: rm_step.handler split: list.splits if_splits)
qed

fun execs :: "('f :: ord) rep_config \<Rightarrow> string \<Rightarrow> action list \<Rightarrow> system \<Rightarrow> system option" where
  "execs c k [] s = Some s"
| "execs c k (a # as) s = (case exec c k a s of None \<Rightarrow> None | Some s' \<Rightarrow> execs c k as s')"

lemma execs_runs: "execs c k as s = Some s' \<Longrightarrow> runs c s0 s \<Longrightarrow> runs c s0 s'"
proof (induction "as" arbitrary: s)
  case (Cons a as)
  then obtain s1 where s1: "exec c k a s = Some s1" "execs c k as s1 = Some s'" by (auto split: option.splits)
  then show ?case using Cons.IH runs_step [OF Cons.prems(2) exec_step] by blast
qed simp

section \<open>Examples\<close>

definition ex_env :: "nat ctl_env" where
  "ex_env = \<lparr>ce_parseFloat = \<lambda>_. None, ce_sort = \<lambda>l. l, ce_order = \<lambda>_. [''app''], ce_hash = \<lambda>_ _. 0,
     ce_createdBy = \<lambda>_ _. Some '''', ce_validPodName = \<lambda>_. True\<rparr>"

definition ex_template :: PodTemplateSpec where
  "ex_template = \<lparr>pt_Labels = [''app'' \<mapsto> ''web''], pt_Annotations = Map.empty, pt_NodeName = '''', pt_NodeSelector = Map.empty,
     pt_Containers = [], pt_InitContainers = [], pt_Volumes = []\<rparr>"

definition ex_rc :: "int \<Rightarrow> ReplicationController" where
  "ex_rc n = \<lparr>rc_Name = ''web'', rc_Namespace = ''ns'', rc_CreationTimestamp = 1, rc_Generation = 0, rc_Replicas = n,
     rc_Selector = [''app'' \<mapsto> ''web''], rc_Template = ex_template,
     rc_Status = \<lparr>rcs_Replicas = 0, rcs_FullyLabeledReplicas = 0, rcs_ObservedGeneration = 0\<rparr>\<rparr>"

definition ex_config :: "int \<Rightarrow> nat rep_config" where
  "ex_config n = \<lparr>c_env = ex_env, c_rcs = [''ns/web'' \<mapsto> ex_rc n], c_lo = \<lambda>_. 0, c_hi = \<lambda>_. n, c_outside = False\<rparr>"

definition ex_api_pod :: "string \<Rightarrow> ApiPod" where
  "ex_api_pod name = \<lparr>pod_Name = name, pod_Namespace = ''ns'', pod_Labels = [''app'' \<mapsto> ''web''], pod_Annotations = Map.empty,
     pod_NodeName = '''', pod_NodeSelector = Map.empty, pod_Containers = [], pod_InitContainers = [], pod_Volumes = [],
     pod_GenerateName = ''web-'', pod_CreationTimestamp = 1, pod_DeletionTimestamp = None, pod_Phase = ''Running'',
     pod_Conditions = [], pod_RestartCounts = []\<rparr>"

definition ex_start :: "int \<Rightarrow> (string \<rightharpoonup> ApiPod) \<Rightarrow> notification list \<Rightarrow> system" where
  "ex_start n pods notes = started (newReplicationManagerInternal 5 10) [''ns/web''] [''ns/web'' \<mapsto> ex_rc n] pods notes"

lemma ex_selector: "AsSelector ex_env [''app'' \<mapsto> ''web''] =
    internalSelector [\<lparr>req_key = ''app'', req_operator = EqualsOperator, req_strValues = {''web''}\<rparr>]"
  by code_simp

lemma ex_matches: "Selector_Matches (ce_parseFloat ex_env) (AsSelector ex_env [''app'' \<mapsto> ''web'']) l \<longleftrightarrow> l ''app'' = Some ''web''"
  by (auto simp: ex_selector Requirement_Matches_def Set_Has_def Set_Get_def)

lemma ex_nonempty: "\<not> Selector_Empty (AsSelector ex_env [''app'' \<mapsto> ''web''])"
  by (simp add: ex_selector)

lemma ex_owns: "owns (ex_config n) k i \<longleftrightarrow> k = ''ns/web'' \<and> fst i = ''ns'' \<and> snd i ''app'' = Some ''web''"
  by (auto simp: owns_def selects_def ex_config_def ex_rc_def ex_matches ex_nonempty)

lemma ex_single: "single (ex_config n) i"
  by (simp add: single_def ex_owns)

lemma ex_config_ok: "0 \<le> n \<Longrightarrow> config_ok (ex_config n)"
  by (simp add: config_ok_def ex_single ex_owns)
    (simp add: ex_config_def ex_rc_def rc_key_def ex_template_def ex_matches)

lemmas ex_eval = ex_start_def started_def newReplicationManagerInternal_def NewUIDTrackingControllerExpectations_def
  NewMatchingCache_def lru_New_def New_def Type_defs sync_begin_def sync_list_def manage_plan_def sync_end_def
  updateReplicaCount_def fully_labeled_def Pods_List_def ExpectCreations_def SetExpectations_def SatisfiedExpectations_def
  GetExpectations_def Fulfilled_def isExpired_def ExpectationsTimeout_def CreatePods_def createPods_def GetPodFromTemplate_def
  getPodsAnnotationSet_def getPodsLabelSet_def getPodsPrefix_def addPod_def getPodController_def GetMatchingObject_def
  lru_Get_def search_controller_def GetPodControllers_def creation_observed_def CreationObserved_def LowerExpectations_def
  ControlleeExpectations_Add_def MatchingCache_Update_def MatchingCache_Add_def lru_Add_def lru_removeElement_def
  isCacheValid_def rc_Exists_def isControllerMatch_def rc_key_def PodKey_def IsPodActive_def range_of_def
  ex_config_def ex_rc_def ex_template_def ex_api_pod_def

lemma ex_env_simps [simp]:
  "ce_createdBy ex_env a b = Some ''''" "ce_validPodName ex_env a = True" "ce_hash ex_env a ls = 0"
  by (simp_all add: ex_env_def)

definition ex_create :: "action list" where
  "ex_create = [ASynced, ATake, ABegin 0, AList [], APlan 0, ACreate ''a'' 1, AFinish, AInform, AHandle [''ns/web''],
     ATake, ABegin 0, AList [''ns/a''], APlan 0, AFinish]"

lemma ex_create_exec:
  "case execs (ex_config 1) ''ns/web'' ex_create (ex_start 1 Map.empty []) of
     None \<Rightarrow> False
   | Some s \<Rightarrow> s_events s = [] \<and> s_notes s = [] \<and> s_workers s = Map.empty \<and> Type_Len (rm_queue (s_rm s)) = 0 \<and>
       dom (s_pods s) = {''ns/a''} \<and> rm_rcStore (s_rm s) = [''ns/web'' \<mapsto> ex_rc 1] \<and>
       (\<forall>p \<in> ran (s_pods s). pod_DeletionTimestamp p = None)"
  by (simp add: ex_create_def ex_eval ex_matches ex_nonempty Let_def Type_Len_def)

lemma ex_start_ok: "0 \<le> n \<Longrightarrow> start_ok (ex_config n) 5 [''ns/web''] Map.empty"
  by (auto simp: start_ok_def running_def ex_config_def)

lemma ex_create_runs:
  obtains s where "runs (ex_config 1) (ex_start 1 Map.empty []) s" "s_events s = []" "s_notes s = []" "s_workers s = Map.empty"
    "Type_Len (rm_queue (s_rm s)) = 0" "dom (s_pods s) = {''ns/a''}" "rm_rcStore (s_rm s) = [''ns/web'' \<mapsto> ex_rc 1]"
    "\<forall>p \<in> ran (s_pods s). pod_DeletionTimestamp p = None"
  using ex_create_exec execs_runs [OF _ runs_start, of "ex_config 1" "''ns/web''" ex_create] by (auto split: option.splits)



definition ex_restart :: "action list" where
  "ex_restart = [ASynced, ATake, ABegin 0, AList [''ns/a''], APlan 0, ACreate ''b'' 1, AFinish, AHandle [''ns/web''],
     ATake, ABegin 0, AList [''ns/a''], APlan 0, ACreate ''c'' 1]"

lemma ex_restart_exec:
  "case execs (ex_config 2) ''ns/web'' ex_restart (ex_start 2 [''ns/a'' \<mapsto> ex_api_pod ''a''] [NoteAdd (ex_api_pod ''a'')]) of
     None \<Rightarrow> False
   | Some s \<Rightarrow> (\<forall>x \<in> {''ns/a'', ''ns/b'', ''ns/c''}. \<exists>p. s_pods s x = Some p \<and> IsPodActive p \<and>
       pod_Namespace p = ''ns'' \<and> pod_Labels p = [''app'' \<mapsto> ''web'']) \<and> finite (dom (s_pods s))"
  by (simp add: ex_restart_def ex_eval ex_matches ex_nonempty Let_def)



lemma sorted_take:
  assumes "sorted_wrt (\<lambda>a b. \<not> r b a) l" and "a \<in> set (take n l)" and "b \<in> set l" and "b \<notin> set (take n l)"
  shows "\<not> r b a"
proof -
  have "sorted_wrt (\<lambda>a b. \<not> r b a) (take n l @ drop n l)" using assms(1) by simp
  moreover have "b \<in> set (drop n l)" using assms(3,4) by (metis UnE append_take_drop_id set_append)
  ultimately show ?thesis using assms(2) unfolding sorted_wrt_append by blast
qed




end
