(* ===== verification/Deployment_Controller.thy ===== *)
theory Deployment_Controller
  imports Replication_Manager Go_Strconv Go_Float
begin

text \<open>
  The deployment controller: src/pkg/controller/deployment/deployment\_controller.go with
  src/pkg/util/deployment/deployment.go, util/intstr/intstr.go, util/labels/labels.go,
  util/replicaset/replicaset.go and the conversion of label selectors in
  src/pkg/api/unversioned/helpers.go.

  A deployment owns replica sets, one for each version of its pod template. A synchronization
  finds the new one and the old ones, and moves replicas from the old to the new, within the
  bounds of the strategy. Replica sets are passed by pointer and changed in place, so they are
  cells of an explicit heap. Requests to the API server are answered by an argument, by the number
  of the request; the replica sets the server acknowledged are part of the state. The label that
  \<^verbatim>\<open>addHashKeyToRSAndPods\<close> adds to adopted replica sets and pods is not modelled: the replica sets and
  pods of a deployment, as \<^verbatim>\<open>rsAndPodsWithHashKeySynced\<close> returns them, are an answer too.
\<close>

section \<open>Objects\<close>

datatype IntOrString = IntVal int | StrVal string

record LabelSelectorRequirement =
  lsr_Key :: string
  lsr_Operator :: string
  lsr_Values :: "string list"

record LabelSelector =
  ls_MatchLabels :: Set
  ls_MatchExpressions :: "LabelSelectorRequirement list"

record ReplicaSet =
  rs_Name :: string
  rs_Namespace :: string
  rs_CreationTimestamp :: int
  rs_Generation :: int
  rs_Labels :: Set
  rs_Annotations :: Set
  rs_Replicas :: int
  rs_Selector :: "LabelSelector option"
  rs_Template :: PodTemplateSpec
  rs_StatusReplicas :: int
  rs_ObservedGeneration :: int

datatype DeploymentStrategy =
    Recreate
  | RollingUpdate (MaxUnavailable: IntOrString) (MaxSurge: IntOrString)
  | OtherStrategy string

record DeploymentStatus =
  dst_ObservedGeneration :: int
  dst_Replicas :: int
  dst_UpdatedReplicas :: int
  dst_AvailableReplicas :: int
  dst_UnavailableReplicas :: int

record Deployment =
  d_Name :: string
  d_Namespace :: string
  d_Generation :: int
  d_Annotations :: Set
  d_Replicas :: int
  d_Selector :: "LabelSelector option"
  d_Template :: PodTemplateSpec
  d_Strategy :: DeploymentStrategy
  d_MinReadySeconds :: int
  d_RevisionHistoryLimit :: "int option"
  d_Paused :: bool
  d_RollbackTo :: "int option"
  d_Status :: DeploymentStatus

datatype dep_error =
    RequestFailed
  | InvalidSelector
  | EmptyLabels
  | InvalidValue
  | InvalidScale
  | UnknownStrategy

section \<open>Labels and selectors\<close>

definition DefaultDeploymentUniqueLabelKey :: string where
  "DefaultDeploymentUniqueLabelKey = ''pod-template-hash''"

definition RevisionAnnotation :: string where
  "RevisionAnnotation = ''deployment.kubernetes.io/revision''"

definition LastAppliedConfigAnnotation :: string where
  "LastAppliedConfigAnnotation = ''kubectl.kubernetes.io/last-applied-configuration''"

definition CloneAndAddLabel :: "Set \<Rightarrow> string \<Rightarrow> 32 word \<Rightarrow> Set" where
  "CloneAndAddLabel labels labelKey labelValue =
     (if labelKey = '''' then labels else labels(labelKey \<mapsto> fmt_d (uint labelValue)))"

definition CloneAndRemoveLabel :: "Set \<Rightarrow> string \<Rightarrow> Set" where
  "CloneAndRemoveLabel labels labelKey = (if labelKey = '''' then labels else map_delete labelKey labels)"

definition CloneSelectorAndAddLabel :: "LabelSelector \<Rightarrow> string \<Rightarrow> 32 word \<Rightarrow> LabelSelector" where
  "CloneSelectorAndAddLabel selector labelKey labelValue =
     (if labelKey = '''' then selector
      else selector\<lparr>ls_MatchLabels := (ls_MatchLabels selector)(labelKey \<mapsto> fmt_d (uint labelValue))\<rparr>)"

primrec add_match_labels :: "'f ctl_env \<Rightarrow> Set \<Rightarrow> string list \<Rightarrow> Selector \<Rightarrow> (dep_error, Selector) result" where
  "add_match_labels env ls [] selector = Inr selector"
| "add_match_labels env ls (k # ks) selector =
     (case NewRequirement (ce_parseFloat env) k EqualsOperator {map_get '''' ls k} of
        Inl err \<Rightarrow> Inl InvalidSelector
      | Inr r \<Rightarrow> add_match_labels env ls ks (Selector_Add (ce_sort env) [r] selector))"

definition pod_selector_operator :: "string \<Rightarrow> Operator option" where
  "pod_selector_operator op =
     (if op = ''In'' then Some InOperator
      else if op = ''NotIn'' then Some NotInOperator
      else if op = ''Exists'' then Some ExistsOperator
      else if op = ''DoesNotExist'' then Some DoesNotExistOperator
      else None)"

primrec add_match_expressions ::
  "'f ctl_env \<Rightarrow> LabelSelectorRequirement list \<Rightarrow> Selector \<Rightarrow> (dep_error, Selector) result" where
  "add_match_expressions env [] selector = Inr selector"
| "add_match_expressions env (expr # exprs) selector =
     (case pod_selector_operator (lsr_Operator expr) of
        None \<Rightarrow> Inl InvalidSelector
      | Some op \<Rightarrow>
          (case NewRequirement (ce_parseFloat env) (lsr_Key expr) op (set (lsr_Values expr)) of
             Inl err \<Rightarrow> Inl InvalidSelector
           | Inr r \<Rightarrow> add_match_expressions env exprs (Selector_Add (ce_sort env) [r] selector)))"

definition LabelSelectorAsSelector :: "'f ctl_env \<Rightarrow> LabelSelector option \<Rightarrow> (dep_error, Selector) result" where
  "LabelSelectorAsSelector env ps =
     (case ps of
        None \<Rightarrow> Inr Nothing
      | Some ps \<Rightarrow>
          if ls_MatchLabels ps = Map.empty \<and> ls_MatchExpressions ps = [] then Inr Everything
          else
            (case add_match_labels env (ls_MatchLabels ps) (ce_order env (ls_MatchLabels ps)) NewSelector of
               Inl err \<Rightarrow> Inl err
             | Inr selector \<Rightarrow> add_match_expressions env (ls_MatchExpressions ps) selector))"

section \<open>Integers and percentages\<close>

definition getIntOrPercentValue :: "IntOrString \<Rightarrow> (dep_error, int \<times> bool) result" where
  "getIntOrPercentValue intOrStr =
     (case intOrStr of
        IntVal i \<Rightarrow> Inr (i, False)
      | StrVal str \<Rightarrow>
          (case Atoi (filter (\<lambda>c. c \<noteq> CHR ''%'') str) of
             None \<Rightarrow> Inl InvalidValue
           | Some v \<Rightarrow> Inr (v, True)))"

definition GetValueFromIntOrPercent :: "IntOrString \<Rightarrow> int \<Rightarrow> bool \<Rightarrow> (dep_error, int) result" where
  "GetValueFromIntOrPercent intOrPercent n roundUp =
     (case getIntOrPercentValue intOrPercent of
        Inl err \<Rightarrow> Inl err
      | Inr (value, isPercent) \<Rightarrow>
          if isPercent then
            let x = float_div (float_mult (float64 (of_int value)) (float64 (of_int n))) 100
            in Inr (if roundUp then \<lceil>x\<rceil> else \<lfloor>x\<rfloor>)
          else Inr value)"

definition ResolveFenceposts :: "IntOrString \<Rightarrow> IntOrString \<Rightarrow> int \<Rightarrow> (dep_error, int \<times> int) result" where
  "ResolveFenceposts maxSurge maxUnavailable desired =
     (case GetValueFromIntOrPercent maxSurge desired True of
        Inl err \<Rightarrow> Inl err
      | Inr surge \<Rightarrow>
          (case GetValueFromIntOrPercent maxUnavailable desired False of
             Inl err \<Rightarrow> Inl err
           | Inr unavailable \<Rightarrow>
               let unavailable = (if surge = 0 \<and> unavailable = 0 then 1 else unavailable)
               in Inr (int32 surge, int32 unavailable)))"

section \<open>Counting replicas and pods\<close>

definition GetReplicaCountForReplicaSets :: "ReplicaSet option list \<Rightarrow> int" where
  "GetReplicaCountForReplicaSets replicaSets =
     foldl (\<lambda>n rs. case rs of None \<Rightarrow> n | Some rs \<Rightarrow> int32 (n + rs_Replicas rs)) 0 replicaSets"

definition GetActualReplicaCountForReplicaSets :: "ReplicaSet option list \<Rightarrow> int" where
  "GetActualReplicaCountForReplicaSets replicaSets =
     foldl (\<lambda>n rs. case rs of None \<Rightarrow> n | Some rs \<Rightarrow> int32 (n + rs_StatusReplicas rs)) 0 replicaSets"

primrec ready_long_enough :: "int \<Rightarrow> int \<Rightarrow> PodCondition list \<Rightarrow> bool" where
  "ready_long_enough now minReadySeconds [] = False"
| "ready_long_enough now minReadySeconds (c # conditions) =
     (if pc_Type c = ''Ready'' \<and> pc_Status c = ''True'' \<and>
         (minReadySeconds = 0 \<or>
          pc_LastTransitionTime c \<noteq> 0 \<and> pc_LastTransitionTime c + minReadySeconds * 1000000000 < now)
      then True
      else ready_long_enough now minReadySeconds conditions)"

definition IsPodAvailable :: "int \<Rightarrow> ApiPod \<Rightarrow> int \<Rightarrow> bool" where
  "IsPodAvailable now pod minReadySeconds =
     (if \<not> IsPodActive pod then False else ready_long_enough now minReadySeconds (pod_Conditions pod))"

definition countAvailablePods :: "int \<Rightarrow> ApiPod list \<Rightarrow> int \<Rightarrow> int" where
  "countAvailablePods now pods minReadySeconds =
     foldl (\<lambda>n pod. if IsPodAvailable now pod minReadySeconds then int32 (n + 1) else n) 0 pods"

fun filterPodsMatchingReplicaSets ::
  "('f :: ord) ctl_env \<Rightarrow> ReplicaSet option list \<Rightarrow> ApiPod list \<Rightarrow> (dep_error, ApiPod list) result" where
  "filterPodsMatchingReplicaSets env [] podList = Inr []"
| "filterPodsMatchingReplicaSets env (None # replicaSets) podList = filterPodsMatchingReplicaSets env replicaSets podList"
| "filterPodsMatchingReplicaSets env (Some rs # replicaSets) podList =
     (case LabelSelectorAsSelector env (rs_Selector rs) of
        Inl err \<Rightarrow> Inl err
      | Inr selector \<Rightarrow>
          (case filterPodsMatchingReplicaSets env replicaSets podList of
             Inl err \<Rightarrow> Inl err
           | Inr pods \<Rightarrow>
               Inr (filter (\<lambda>pod. Selector_Matches (ce_parseFloat env) selector (pod_Labels pod)) podList @ pods)))"

definition CountAvailablePodsForReplicaSets ::
  "('f :: ord) ctl_env \<Rightarrow> int \<Rightarrow> ApiPod list \<Rightarrow> ReplicaSet option list \<Rightarrow> int \<Rightarrow> (dep_error, int) result" where
  "CountAvailablePodsForReplicaSets env now podList rss minReadySeconds =
     (case filterPodsMatchingReplicaSets env rss podList of
        Inl err \<Rightarrow> Inl err
      | Inr rsPods \<Rightarrow> Inr (countAvailablePods now rsPods minReadySeconds))"

definition ListPods ::
  "'f ctl_env \<Rightarrow> Deployment \<Rightarrow> (string \<Rightarrow> Selector \<Rightarrow> ApiPod list option) \<Rightarrow> (dep_error, ApiPod list) result" where
  "ListPods env deployment getPodList =
     (case LabelSelectorAsSelector env (d_Selector deployment) of
        Inl err \<Rightarrow> Inl err
      | Inr selector \<Rightarrow>
          (case getPodList (d_Namespace deployment) selector of
             None \<Rightarrow> Inl RequestFailed
           | Some pods \<Rightarrow> Inr pods))"

definition FilterActiveReplicaSets :: "(nat \<Rightarrow> ReplicaSet) \<Rightarrow> nat list \<Rightarrow> nat list" where
  "FilterActiveReplicaSets obj replicaSets = filter (\<lambda>p. rs_Replicas (obj p) > 0) replicaSets"

definition NewRSNewReplicas :: "Deployment \<Rightarrow> ReplicaSet option list \<Rightarrow> ReplicaSet \<Rightarrow> (dep_error, int) result" where
  "NewRSNewReplicas deployment allRSs newRS =
     (case d_Strategy deployment of
        RollingUpdate maxUnavailable maxSurge \<Rightarrow>
          (case GetValueFromIntOrPercent maxSurge (d_Replicas deployment) True of
             Inl err \<Rightarrow> Inl err
           | Inr maxSurge \<Rightarrow>
               let currentPodCount = GetReplicaCountForReplicaSets allRSs;
                   maxTotalPods = int32 (d_Replicas deployment + int32 maxSurge)
               in if currentPodCount \<ge> maxTotalPods then Inr (rs_Replicas newRS)
                  else
                    let scaleUpCount = int32 (maxTotalPods - currentPodCount);
                        scaleUpCount = min scaleUpCount (int32 (d_Replicas deployment - rs_Replicas newRS))
                    in Inr (int32 (rs_Replicas newRS + scaleUpCount)))
      | Recreate \<Rightarrow> Inr (d_Replicas deployment)
      | OtherStrategy _ \<Rightarrow> Inl UnknownStrategy)"

section \<open>Templates\<close>

text \<open>
  \<open>hash\<close> is the checksum of the printed template. The comparison sets the label of the first
  template and sets it back, so that a missing label becomes an empty one: the template after the
  call is part of the result.
\<close>

definition equalIgnoreHash ::
  "PodTemplateSpec \<Rightarrow> PodTemplateSpec \<Rightarrow> (dep_error, bool \<times> PodTemplateSpec) result" where
  "equalIgnoreHash template1 template2 =
     (if pt_Labels template1 = Map.empty \<or> pt_Labels template2 = Map.empty then Inl EmptyLabels
      else
        let hash1 = map_get '''' (pt_Labels template1) DefaultDeploymentUniqueLabelKey;
            hash2 = map_get '''' (pt_Labels template2) DefaultDeploymentUniqueLabelKey;
            template1 = template1\<lparr>pt_Labels := (pt_Labels template1)(DefaultDeploymentUniqueLabelKey \<mapsto> hash2)\<rparr>;
            result = (template1 = template2);
            template1 = template1\<lparr>pt_Labels := (pt_Labels template1)(DefaultDeploymentUniqueLabelKey \<mapsto> hash1)\<rparr>
        in Inr (result, template1))"

definition GetNewReplicaSetTemplate :: "(PodTemplateSpec \<Rightarrow> 32 word) \<Rightarrow> Deployment \<Rightarrow> PodTemplateSpec" where
  "GetNewReplicaSetTemplate hash deployment =
     (let newRSTemplate = d_Template deployment
      in newRSTemplate\<lparr>pt_Labels := CloneAndAddLabel (pt_Labels newRSTemplate) DefaultDeploymentUniqueLabelKey (hash newRSTemplate)\<rparr>)"

definition SetFromReplicaSetTemplate :: "PodTemplateSpec \<Rightarrow> Deployment \<Rightarrow> Deployment" where
  "SetFromReplicaSetTemplate template deployment =
     deployment\<lparr>d_Template := template\<lparr>pt_Labels := CloneAndRemoveLabel (pt_Labels template) DefaultDeploymentUniqueLabelKey\<rparr>\<rparr>"

primrec find_new :: "PodTemplateSpec \<Rightarrow> ReplicaSet list \<Rightarrow> (dep_error, ReplicaSet option) result" where
  "find_new newRSTemplate [] = Inr None"
| "find_new newRSTemplate (rs # rsList) =
     (case equalIgnoreHash (rs_Template rs) newRSTemplate of
        Inl err \<Rightarrow> Inl err
      | Inr (equal, template) \<Rightarrow>
          if equal then Inr (Some (rs\<lparr>rs_Template := template\<rparr>)) else find_new newRSTemplate rsList)"

definition FindNewReplicaSet ::
  "(PodTemplateSpec \<Rightarrow> 32 word) \<Rightarrow> Deployment \<Rightarrow> ReplicaSet list \<Rightarrow> (dep_error, ReplicaSet option) result" where
  "FindNewReplicaSet hash deployment rsList = find_new (GetNewReplicaSetTemplate hash deployment) rsList"

fun find_old_rs ::
  "('f :: ord) ctl_env \<Rightarrow> PodTemplateSpec \<Rightarrow> Set \<Rightarrow> ReplicaSet list \<Rightarrow>
   (string \<rightharpoonup> ReplicaSet) \<times> (string \<rightharpoonup> ReplicaSet) \<Rightarrow>
   (dep_error, (string \<rightharpoonup> ReplicaSet) \<times> (string \<rightharpoonup> ReplicaSet)) result" where
  "find_old_rs env newRSTemplate podLabels [] acc = Inr acc"
| "find_old_rs env newRSTemplate podLabels (rs # rsList) (oldRSs, allOldRSs) =
     (case LabelSelectorAsSelector env (rs_Selector rs) of
        Inl err \<Rightarrow> Inl err
      | Inr rsLabelsSelector \<Rightarrow>
          (case equalIgnoreHash (rs_Template rs) newRSTemplate of
             Inl err \<Rightarrow> Inl err
           | Inr (equal, template) \<Rightarrow>
               if equal then find_old_rs env newRSTemplate podLabels rsList (oldRSs, allOldRSs)
               else
                 let rs = rs\<lparr>rs_Template := template\<rparr>;
                     allOldRSs = allOldRSs(rs_Name rs \<mapsto> rs);
                     oldRSs = (if Selector_Matches (ce_parseFloat env) rsLabelsSelector podLabels
                               then oldRSs(rs_Name rs \<mapsto> rs) else oldRSs)
                 in find_old_rs env newRSTemplate podLabels rsList (oldRSs, allOldRSs)))"

primrec find_old ::
  "('f :: ord) ctl_env \<Rightarrow> PodTemplateSpec \<Rightarrow> ReplicaSet list \<Rightarrow> ApiPod list \<Rightarrow>
   (string \<rightharpoonup> ReplicaSet) \<times> (string \<rightharpoonup> ReplicaSet) \<Rightarrow>
   (dep_error, (string \<rightharpoonup> ReplicaSet) \<times> (string \<rightharpoonup> ReplicaSet)) result" where
  "find_old env newRSTemplate rsList [] acc = Inr acc"
| "find_old env newRSTemplate rsList (pod # pods) acc =
     (case find_old_rs env newRSTemplate (pod_Labels pod) rsList acc of
        Inl err \<Rightarrow> Inl err
      | Inr acc \<Rightarrow> find_old env newRSTemplate rsList pods acc)"

text \<open>\<open>order\<close> gives the order in which a map is visited.\<close>

definition FindOldReplicaSets ::
  "('f :: ord) ctl_env \<Rightarrow> (PodTemplateSpec \<Rightarrow> 32 word) \<Rightarrow> ((string \<rightharpoonup> ReplicaSet) \<Rightarrow> string list) \<Rightarrow> Deployment \<Rightarrow>
   ReplicaSet list \<Rightarrow> ApiPod list \<Rightarrow> (dep_error, ReplicaSet list \<times> ReplicaSet list) result" where
  "FindOldReplicaSets env hash order deployment rsList podList =
     (case find_old env (GetNewReplicaSetTemplate hash deployment) rsList podList (Map.empty, Map.empty) of
        Inl err \<Rightarrow> Inl err
      | Inr (oldRSs, allOldRSs) \<Rightarrow> Inr (items_of oldRSs (order oldRSs), items_of allOldRSs (order allOldRSs)))"

section \<open>Revisions and annotations\<close>

definition Revision :: "ReplicaSet \<Rightarrow> int option" where
  "Revision rs = (case rs_Annotations rs RevisionAnnotation of None \<Rightarrow> Some 0 | Some v \<Rightarrow> Atoi v)"

definition maxRevision :: "ReplicaSet list \<Rightarrow> int" where
  "maxRevision allRSs =
     foldl (\<lambda>m rs. case Revision rs of None \<Rightarrow> m | Some v \<Rightarrow> if v > m then v else m) 0 allRSs"

definition lastRevision :: "ReplicaSet list \<Rightarrow> int" where
  "lastRevision allRSs =
     snd (foldl (\<lambda>(m, secMax) rs.
            case Revision rs of
              None \<Rightarrow> (m, secMax)
            | Some v \<Rightarrow> if v \<ge> m then (v, m) else if v > secMax then (m, v) else (m, secMax)) (0, 0) allRSs)"

definition skipCopyAnnotation :: "string \<Rightarrow> bool" where
  "skipCopyAnnotation key \<longleftrightarrow> key = LastAppliedConfigAnnotation \<or> key = RevisionAnnotation"

definition getSkippedAnnotations :: "Set \<Rightarrow> Set" where
  "getSkippedAnnotations annotations = (\<lambda>k. if skipCopyAnnotation k then annotations k else None)"

primrec copy_annotations :: "Set \<Rightarrow> string list \<Rightarrow> Set \<Rightarrow> bool \<Rightarrow> Set \<times> bool" where
  "copy_annotations annotations [] rsAnnotations changed = (rsAnnotations, changed)"
| "copy_annotations annotations (k # ks) rsAnnotations changed =
     (let v = map_get '''' annotations k
      in if skipCopyAnnotation k \<or> map_get '''' rsAnnotations k = v
         then copy_annotations annotations ks rsAnnotations changed
         else copy_annotations annotations ks (rsAnnotations(k \<mapsto> v)) True)"

definition copyDeploymentAnnotationsToReplicaSet ::
  "'f ctl_env \<Rightarrow> Deployment \<Rightarrow> ReplicaSet \<Rightarrow> bool \<times> ReplicaSet" where
  "copyDeploymentAnnotationsToReplicaSet env deployment rs =
     (case copy_annotations (d_Annotations deployment) (ce_order env (d_Annotations deployment)) (rs_Annotations rs) False of
        (annotations, changed) \<Rightarrow> (changed, rs\<lparr>rs_Annotations := annotations\<rparr>))"

definition setNewReplicaSetAnnotations ::
  "'f ctl_env \<Rightarrow> Deployment \<Rightarrow> ReplicaSet \<Rightarrow> string \<Rightarrow> bool \<times> ReplicaSet" where
  "setNewReplicaSetAnnotations env deployment newRS newRevision =
     (case copyDeploymentAnnotationsToReplicaSet env deployment newRS of
        (annotationChanged, newRS) \<Rightarrow>
          if map_get '''' (rs_Annotations newRS) RevisionAnnotation < newRevision
          then (True, newRS\<lparr>rs_Annotations := (rs_Annotations newRS)(RevisionAnnotation \<mapsto> newRevision)\<rparr>)
          else (annotationChanged, newRS))"

definition setDeploymentAnnotationsTo :: "ReplicaSet \<Rightarrow> Deployment \<Rightarrow> Deployment" where
  "setDeploymentAnnotationsTo rollbackToRS deployment =
     deployment\<lparr>d_Annotations :=
       (\<lambda>k. if \<not> skipCopyAnnotation k \<and> rs_Annotations rollbackToRS k \<noteq> None then rs_Annotations rollbackToRS k
            else getSkippedAnnotations (d_Annotations deployment) k)\<rparr>"

section \<open>The state of a synchronization\<close>

record dep_api =
  ap_hash :: "PodTemplateSpec \<Rightarrow> 32 word"
  ap_order :: "(string \<rightharpoonup> ReplicaSet) \<Rightarrow> string list"
  ap_podOrder :: "string list"
  ap_now :: "nat \<Rightarrow> int"
  ap_rsAndPods :: "nat \<Rightarrow> (dep_error, ReplicaSet list \<times> ApiPod list) result"
  ap_update :: "nat \<Rightarrow> ReplicaSet \<Rightarrow> ReplicaSet option"
  ap_create :: "nat \<Rightarrow> ReplicaSet \<Rightarrow> ReplicaSet option"
  ap_delete :: "nat \<Rightarrow> string \<Rightarrow> bool"
  ap_listPods :: "nat \<Rightarrow> string \<Rightarrow> Selector \<Rightarrow> ApiPod list option"
  ap_updateDeployment :: "nat \<Rightarrow> Deployment \<Rightarrow> bool"
  ap_updateStatus :: "nat \<Rightarrow> Deployment \<Rightarrow> bool"

record DeploymentController =
  dx_queue :: "string Type"
  dx_dStore :: "string \<rightharpoonup> Deployment"
  dx_podStore :: "string \<rightharpoonup> ApiPod"
  dx_storesSynced :: bool
  dx_dep :: Deployment
  dx_heap :: "ReplicaSet list"
  dx_server :: "string \<rightharpoonup> ReplicaSet"
  dx_depServer :: Deployment
  dx_n :: nat

type_synonym 'a dep_result = "(dep_error, 'a) result \<times> DeploymentController"

abbreviation obj :: "DeploymentController \<Rightarrow> nat \<Rightarrow> ReplicaSet" where
  "obj s p \<equiv> dx_heap s ! p"

abbreviation objs :: "DeploymentController \<Rightarrow> nat option list \<Rightarrow> ReplicaSet option list" where
  "objs s ps \<equiv> map (map_option (obj s)) ps"

definition alloc_rs :: "ReplicaSet \<Rightarrow> DeploymentController \<Rightarrow> nat \<times> DeploymentController" where
  "alloc_rs rs s = (length (dx_heap s), s\<lparr>dx_heap := dx_heap s @ [rs]\<rparr>)"

definition tick :: "DeploymentController \<Rightarrow> DeploymentController" where
  "tick s = s\<lparr>dx_n := dx_n s + 1\<rparr>"

text \<open>
  Requests for replica sets. The server refuses to create an object whose name is taken and to
  update one that does not exist; otherwise the answer decides. The client decodes the answer
  into a new object.
\<close>

definition client_Update :: "dep_api \<Rightarrow> ReplicaSet \<Rightarrow> DeploymentController \<Rightarrow> nat dep_result" where
  "client_Update api rs s =
     (case (if dx_server s (rs_Name rs) = None then None else ap_update api (dx_n s) rs) of
        None \<Rightarrow> (Inl RequestFailed, tick s)
      | Some rs' \<Rightarrow>
          (case alloc_rs rs' (s\<lparr>dx_server := (dx_server s)(rs_Name rs \<mapsto> rs')\<rparr>) of (p, s) \<Rightarrow> (Inr p, tick s)))"

definition client_Create :: "dep_api \<Rightarrow> ReplicaSet \<Rightarrow> DeploymentController \<Rightarrow> nat dep_result" where
  "client_Create api rs s =
     (case (if dx_server s (rs_Name rs) \<noteq> None then None else ap_create api (dx_n s) rs) of
        None \<Rightarrow> (Inl RequestFailed, tick s)
      | Some rs' \<Rightarrow>
          (case alloc_rs rs' (s\<lparr>dx_server := (dx_server s)(rs_Name rs \<mapsto> rs')\<rparr>) of (p, s) \<Rightarrow> (Inr p, tick s)))"

definition client_Delete :: "dep_api \<Rightarrow> string \<Rightarrow> DeploymentController \<Rightarrow> DeploymentController" where
  "client_Delete api name s =
     (if ap_delete api (dx_n s) name then tick (s\<lparr>dx_server := map_delete name (dx_server s)\<rparr>) else tick s)"

definition updateDeployment :: "dep_api \<Rightarrow> DeploymentController \<Rightarrow> unit dep_result" where
  "updateDeployment api s =
     (if ap_updateDeployment api (dx_n s) (dx_dep s) then (Inr (), tick (s\<lparr>dx_depServer := dx_dep s\<rparr>))
      else (Inl RequestFailed, tick s))"

definition enqueueDeployment :: "DeploymentController \<Rightarrow> DeploymentController" where
  "enqueueDeployment s =
     (case MetaNamespaceKeyFunc (\<lambda>d. Some (d_Namespace d, d_Name d)) (Obj (dx_dep s)) of
        Inl _ \<Rightarrow> s
      | Inr key \<Rightarrow> s\<lparr>dx_queue := Type_Add key (dx_queue s)\<rparr>)"

definition GetAvailablePodsForReplicaSets ::
  "('f :: ord) ctl_env \<Rightarrow> dep_api \<Rightarrow> nat option list \<Rightarrow> int \<Rightarrow> DeploymentController \<Rightarrow> int dep_result" where
  "GetAvailablePodsForReplicaSets env api rss minReadySeconds s =
     (case ListPods env (dx_dep s) (ap_listPods api (dx_n s)) of
        Inl err \<Rightarrow> (Inl err, tick s)
      | Inr podList \<Rightarrow>
          (CountAvailablePodsForReplicaSets env (ap_now api (dx_n s)) podList (objs s rss) minReadySeconds, tick s))"

definition getAvailablePodsForReplicaSets ::
  "('f :: ord) ctl_env \<Rightarrow> dep_api \<Rightarrow> nat option list \<Rightarrow> int \<Rightarrow> DeploymentController \<Rightarrow> (dep_error, int) result" where
  "getAvailablePodsForReplicaSets env api rss minReadySeconds s =
     (case ListPods env (dx_dep s) (\<lambda>namespace selector. Some (Pods_List env (ap_podOrder api) namespace selector (dx_podStore s))) of
        Inl err \<Rightarrow> Inl err
      | Inr podList \<Rightarrow> CountAvailablePodsForReplicaSets env (ap_now api (dx_n s)) podList (objs s rss) minReadySeconds)"

section \<open>Finding the replica sets\<close>

definition updateDeploymentRevision :: "dep_api \<Rightarrow> string \<Rightarrow> DeploymentController \<Rightarrow> unit dep_result" where
  "updateDeploymentRevision api revision s =
     (if map_get '''' (d_Annotations (dx_dep s)) RevisionAnnotation \<noteq> revision
      then updateDeployment api
             (s\<lparr>dx_dep := (dx_dep s)\<lparr>d_Annotations := (d_Annotations (dx_dep s))(RevisionAnnotation \<mapsto> revision)\<rparr>\<rparr>)
      else (Inr (), s))"

definition new_rs :: "'f ctl_env \<Rightarrow> (PodTemplateSpec \<Rightarrow> 32 word) \<Rightarrow> Deployment \<Rightarrow> string \<Rightarrow> ReplicaSet" where
  "new_rs env hash deployment newRevision =
     (let podTemplateSpecHash = hash (d_Template deployment)
      in snd (setNewReplicaSetAnnotations env deployment
           \<lparr>rs_Name = d_Name deployment @ ''-'' @ fmt_d (uint podTemplateSpecHash), rs_Namespace = d_Namespace deployment,
            rs_CreationTimestamp = 0, rs_Generation = 0, rs_Labels = Map.empty, rs_Annotations = Map.empty, rs_Replicas = 0,
            rs_Selector = map_option (\<lambda>selector. CloneSelectorAndAddLabel selector DefaultDeploymentUniqueLabelKey podTemplateSpecHash)
              (d_Selector deployment),
            rs_Template = GetNewReplicaSetTemplate hash deployment, rs_StatusReplicas = 0, rs_ObservedGeneration = 0\<rparr> newRevision))"

definition getNewReplicaSet ::
  "'f ctl_env \<Rightarrow> dep_api \<Rightarrow> ReplicaSet list \<Rightarrow> int \<Rightarrow> nat list \<Rightarrow> bool \<Rightarrow> DeploymentController \<Rightarrow> nat option dep_result" where
  "getNewReplicaSet env api rsList maxOldRevision oldRSs createIfNotExisted s =
     (let newRevision = fmt_d (wrap 64 (maxOldRevision + 1))
      in case FindNewReplicaSet (ap_hash api) (dx_dep s) rsList of
           Inl err \<Rightarrow> (Inl err, s)
         | Inr (Some existingNewRS) \<Rightarrow>
             (case setNewReplicaSetAnnotations env (dx_dep s) existingNewRS newRevision of
                (changed, existingNewRS) \<Rightarrow>
                  if changed then
                    (case client_Update api existingNewRS s of
                       (Inl err, s) \<Rightarrow> (Inl err, s)
                     | (Inr p, s) \<Rightarrow> (Inr (Some p), s))
                  else (case alloc_rs existingNewRS s of (p, s) \<Rightarrow> (Inr (Some p), s)))
         | Inr None \<Rightarrow>
             if \<not> createIfNotExisted then (Inr None, s)
             else
               let newRS = new_rs env (ap_hash api) (dx_dep s) newRevision
               in case NewRSNewReplicas (dx_dep s) (objs s (map Some oldRSs) @ [Some newRS]) newRS of
                    Inl err \<Rightarrow> (Inl err, s)
                  | Inr newReplicasCount \<Rightarrow>
                      (case client_Create api (newRS\<lparr>rs_Replicas := newReplicasCount\<rparr>) s of
                         (Inl err, s) \<Rightarrow> (Inl err, enqueueDeployment s)
                       | (Inr p, s) \<Rightarrow>
                           (case updateDeploymentRevision api newRevision s of
                              (Inl err, s) \<Rightarrow> (Inl err, s)
                            | (Inr _, s) \<Rightarrow> (Inr (Some p), s))))"

primrec alloc_all :: "ReplicaSet list \<Rightarrow> DeploymentController \<Rightarrow> nat list \<times> DeploymentController" where
  "alloc_all [] s = ([], s)"
| "alloc_all (rs # rss) s = (case alloc_rs rs s of (p, s) \<Rightarrow> case alloc_all rss s of (ps, s) \<Rightarrow> (p # ps, s))"

definition sync_revision :: "dep_api \<Rightarrow> nat option \<Rightarrow> DeploymentController \<Rightarrow> DeploymentController" where
  "sync_revision api newRS s =
     (case newRS of
        None \<Rightarrow> s
      | Some p \<Rightarrow>
          let revision = map_get '''' (rs_Annotations (obj s p)) RevisionAnnotation
          in if length revision > 0 \<and> map_get '''' (d_Annotations (dx_dep s)) RevisionAnnotation \<noteq> revision
             then snd (updateDeploymentRevision api revision s) else s)"

definition getAllReplicaSetsAndSyncRevision ::
  "('f :: ord) ctl_env \<Rightarrow> dep_api \<Rightarrow> bool \<Rightarrow> DeploymentController \<Rightarrow> (nat option \<times> nat list) dep_result" where
  "getAllReplicaSetsAndSyncRevision env api createIfNotExisted s =
     (case ap_rsAndPods api (dx_n s) of
        Inl err \<Rightarrow> (Inl err, tick s)
      | Inr (rsList, podList) \<Rightarrow>
          (case FindOldReplicaSets env (ap_hash api) (ap_order api) (dx_dep s) rsList podList of
             Inl err \<Rightarrow> (Inl err, tick s)
           | Inr (_, allOld) \<Rightarrow>
               (case alloc_all allOld (tick s) of
                  (allOldRSs, s) \<Rightarrow>
                    (case getNewReplicaSet env api rsList (maxRevision allOld) allOldRSs createIfNotExisted s of
                       (Inl err, s) \<Rightarrow> (Inl err, s)
                     | (Inr newRS, s) \<Rightarrow> (Inr (newRS, allOldRSs), sync_revision api newRS s)))))"

section \<open>Scaling\<close>

definition scaleReplicaSet :: "dep_api \<Rightarrow> nat \<Rightarrow> int \<Rightarrow> DeploymentController \<Rightarrow> nat dep_result" where
  "scaleReplicaSet api p newScale s =
     (let rs = (obj s p)\<lparr>rs_Replicas := newScale\<rparr>
      in client_Update api rs (s\<lparr>dx_heap := (dx_heap s)[p := rs]\<rparr>))"

definition scaleReplicaSetAndRecordEvent ::
  "dep_api \<Rightarrow> nat \<Rightarrow> int \<Rightarrow> DeploymentController \<Rightarrow> (bool \<times> nat) dep_result" where
  "scaleReplicaSetAndRecordEvent api p newScale s =
     (if rs_Replicas (obj s p) = newScale then (Inr (False, p), s)
      else
        case scaleReplicaSet api p newScale s of
          (Inl err, s) \<Rightarrow> (Inl err, enqueueDeployment s)
        | (Inr newRS, s) \<Rightarrow> (Inr (True, newRS), s))"

definition reconcileNewReplicaSet ::
  "dep_api \<Rightarrow> nat option list \<Rightarrow> nat \<Rightarrow> DeploymentController \<Rightarrow> bool dep_result" where
  "reconcileNewReplicaSet api allRSs newRS s =
     (if rs_Replicas (obj s newRS) = d_Replicas (dx_dep s) then (Inr False, s)
      else if rs_Replicas (obj s newRS) > d_Replicas (dx_dep s) then
        (case scaleReplicaSetAndRecordEvent api newRS (d_Replicas (dx_dep s)) s of
           (Inl err, s) \<Rightarrow> (Inl err, s)
         | (Inr (scaled, _), s) \<Rightarrow> (Inr scaled, s))
      else
        case NewRSNewReplicas (dx_dep s) (objs s allRSs) (obj s newRS) of
          Inl err \<Rightarrow> (Inl err, s)
        | Inr newReplicasCount \<Rightarrow>
            (case scaleReplicaSetAndRecordEvent api newRS newReplicasCount s of
               (Inl err, s) \<Rightarrow> (Inl err, s)
             | (Inr (scaled, _), s) \<Rightarrow> (Inr scaled, s)))"

definition ReplicaSetsByCreationTimestamp_Less :: "ReplicaSet \<Rightarrow> ReplicaSet \<Rightarrow> bool" where
  "ReplicaSetsByCreationTimestamp_Less a b =
     (if rs_CreationTimestamp a = rs_CreationTimestamp b then rs_Name a < rs_Name b
      else rs_CreationTimestamp a < rs_CreationTimestamp b)"

text \<open>The names of the replica sets of a deployment differ, so the sort has one result.\<close>

definition by_creation :: "DeploymentController \<Rightarrow> nat list \<Rightarrow> nat list" where
  "by_creation s ps = sort_key (\<lambda>p. (rs_CreationTimestamp (obj s p), rs_Name (obj s p))) ps"

definition keep_pointer :: "nat \<Rightarrow> (nat list \<times> int) dep_result \<Rightarrow> (nat list \<times> int) dep_result" where
  "keep_pointer p r = (case r of (Inl err, s) \<Rightarrow> (Inl err, s) | (Inr (ps, n), s) \<Rightarrow> (Inr (p # ps, n), s))"

primrec cleanup_loop ::
  "('f :: ord) ctl_env \<Rightarrow> dep_api \<Rightarrow> int \<Rightarrow> int \<Rightarrow> nat list \<Rightarrow> int \<Rightarrow> DeploymentController \<Rightarrow>
   (nat list \<times> int) dep_result" where
  "cleanup_loop env api minReadySeconds maxCleanupCount [] totalScaledDown s = (Inr ([], totalScaledDown), s)"
| "cleanup_loop env api minReadySeconds maxCleanupCount (p # ps) totalScaledDown s =
     (if totalScaledDown \<ge> maxCleanupCount then (Inr (p # ps, totalScaledDown), s)
      else if rs_Replicas (obj s p) = 0
      then keep_pointer p (cleanup_loop env api minReadySeconds maxCleanupCount ps totalScaledDown s)
      else
        case GetAvailablePodsForReplicaSets env api [Some p] minReadySeconds s of
          (Inl err, s) \<Rightarrow> (Inl err, s)
        | (Inr availablePodCount, s) \<Rightarrow>
            if rs_Replicas (obj s p) = availablePodCount
            then keep_pointer p (cleanup_loop env api minReadySeconds maxCleanupCount ps totalScaledDown s)
            else
              let scaledDownCount = int32 (min (int32 (maxCleanupCount - totalScaledDown)) (int32 (rs_Replicas (obj s p) - availablePodCount)));
                  newReplicasCount = int32 (rs_Replicas (obj s p) - scaledDownCount)
              in if newReplicasCount > rs_Replicas (obj s p) then (Inl InvalidScale, s)
                 else
                   case scaleReplicaSetAndRecordEvent api p newReplicasCount s of
                     (Inl err, s) \<Rightarrow> (Inl err, s)
                   | (Inr (_, updatedOldRS), s) \<Rightarrow>
                       keep_pointer updatedOldRS
                         (cleanup_loop env api minReadySeconds maxCleanupCount ps (int32 (totalScaledDown + scaledDownCount)) s))"

definition cleanupUnhealthyReplicas ::
  "('f :: ord) ctl_env \<Rightarrow> dep_api \<Rightarrow> nat list \<Rightarrow> int \<Rightarrow> int \<Rightarrow> DeploymentController \<Rightarrow> (nat list \<times> int) dep_result" where
  "cleanupUnhealthyReplicas env api oldRSs minReadySeconds maxCleanupCount s =
     cleanup_loop env api minReadySeconds maxCleanupCount (by_creation s oldRSs) 0 s"

primrec scale_down_loop :: "dep_api \<Rightarrow> int \<Rightarrow> nat list \<Rightarrow> int \<Rightarrow> DeploymentController \<Rightarrow> int dep_result" where
  "scale_down_loop api totalScaleDownCount [] totalScaledDown s = (Inr totalScaledDown, s)"
| "scale_down_loop api totalScaleDownCount (p # ps) totalScaledDown s =
     (if totalScaledDown \<ge> totalScaleDownCount then (Inr totalScaledDown, s)
      else if rs_Replicas (obj s p) = 0 then scale_down_loop api totalScaleDownCount ps totalScaledDown s
      else
        let scaleDownCount = int32 (min (rs_Replicas (obj s p)) (int32 (totalScaleDownCount - totalScaledDown)));
            newReplicasCount = int32 (rs_Replicas (obj s p) - scaleDownCount)
        in if newReplicasCount > rs_Replicas (obj s p) then (Inl InvalidScale, s)
           else
             case scaleReplicaSetAndRecordEvent api p newReplicasCount s of
               (Inl err, s) \<Rightarrow> (Inl err, s)
             | (Inr _, s) \<Rightarrow> scale_down_loop api totalScaleDownCount ps (int32 (totalScaledDown + scaleDownCount)) s)"

definition scaleDownOldReplicaSetsForRollingUpdate ::
  "('f :: ord) ctl_env \<Rightarrow> dep_api \<Rightarrow> nat option list \<Rightarrow> nat list \<Rightarrow> DeploymentController \<Rightarrow> int dep_result" where
  "scaleDownOldReplicaSetsForRollingUpdate env api allRSs oldRSs s =
     (case ResolveFenceposts (MaxSurge (d_Strategy (dx_dep s))) (MaxUnavailable (d_Strategy (dx_dep s))) (d_Replicas (dx_dep s)) of
        Inl err \<Rightarrow> (Inl err, s)
      | Inr (_, maxUnavailable) \<Rightarrow>
          let minAvailable = int32 (d_Replicas (dx_dep s) - maxUnavailable)
          in case GetAvailablePodsForReplicaSets env api allRSs (d_MinReadySeconds (dx_dep s)) s of
               (Inl err, s) \<Rightarrow> (Inl err, s)
             | (Inr availablePodCount, s) \<Rightarrow>
                 if availablePodCount \<le> minAvailable then (Inr 0, s)
                 else scale_down_loop api (int32 (availablePodCount - minAvailable)) (by_creation s oldRSs) 0 s)"

definition reconcileOldReplicaSets ::
  "('f :: ord) ctl_env \<Rightarrow> dep_api \<Rightarrow> nat option list \<Rightarrow> nat list \<Rightarrow> nat \<Rightarrow> DeploymentController \<Rightarrow> bool dep_result" where
  "reconcileOldReplicaSets env api allRSs oldRSs newRS s =
     (let oldPodsCount = GetReplicaCountForReplicaSets (objs s (map Some oldRSs))
      in if oldPodsCount = 0 then (Inr False, s)
         else
           let allPodsCount = GetReplicaCountForReplicaSets (objs s allRSs)
           in case GetAvailablePodsForReplicaSets env api [Some newRS] (d_MinReadySeconds (dx_dep s)) s of
                (Inl err, s) \<Rightarrow> (Inl err, s)
              | (Inr newRSAvailablePodCount, s) \<Rightarrow>
                  (case ResolveFenceposts (MaxSurge (d_Strategy (dx_dep s))) (MaxUnavailable (d_Strategy (dx_dep s))) (d_Replicas (dx_dep s)) of
                     Inl err \<Rightarrow> (Inl err, s)
                   | Inr (_, maxUnavailable) \<Rightarrow>
                       let minAvailable = int32 (d_Replicas (dx_dep s) - maxUnavailable);
                           newRSUnavailablePodCount = int32 (rs_Replicas (obj s newRS) - newRSAvailablePodCount);
                           maxScaledDown = int32 (int32 (allPodsCount - minAvailable) - newRSUnavailablePodCount)
                       in if maxScaledDown \<le> 0 then (Inr False, s)
                          else
                            case cleanupUnhealthyReplicas env api oldRSs (d_MinReadySeconds (dx_dep s)) maxScaledDown s of
                              (Inl err, s) \<Rightarrow> (Inr False, s)
                            | (Inr (oldRSs, cleanupCount), s) \<Rightarrow>
                                (case scaleDownOldReplicaSetsForRollingUpdate env api (map Some oldRSs @ [Some newRS]) oldRSs s of
                                   (Inl err, s) \<Rightarrow> (Inr False, s)
                                 | (Inr scaledDownCount, s) \<Rightarrow> (Inr (int32 (cleanupCount + scaledDownCount) > 0), s))))"

primrec scaleDownOldReplicaSetsForRecreate :: "dep_api \<Rightarrow> nat list \<Rightarrow> bool \<Rightarrow> DeploymentController \<Rightarrow> bool dep_result" where
  "scaleDownOldReplicaSetsForRecreate api [] scaled s = (Inr scaled, s)"
| "scaleDownOldReplicaSetsForRecreate api (p # ps) scaled s =
     (if rs_Replicas (obj s p) = 0 then scaleDownOldReplicaSetsForRecreate api ps scaled s
      else
        case scaleReplicaSetAndRecordEvent api p 0 s of
          (Inl err, s) \<Rightarrow> (Inl err, s)
        | (Inr (scaledRS, _), s) \<Rightarrow> scaleDownOldReplicaSetsForRecreate api ps (if scaledRS then True else scaled) s)"

definition scaleUpNewReplicaSetForRecreate :: "dep_api \<Rightarrow> nat \<Rightarrow> DeploymentController \<Rightarrow> bool dep_result" where
  "scaleUpNewReplicaSetForRecreate api newRS s =
     (case scaleReplicaSetAndRecordEvent api newRS (d_Replicas (dx_dep s)) s of
        (Inl err, s) \<Rightarrow> (Inl err, s)
      | (Inr (scaled, _), s) \<Rightarrow> (Inr scaled, s))"

primrec delete_unused :: "dep_api \<Rightarrow> nat list \<Rightarrow> DeploymentController \<Rightarrow> DeploymentController" where
  "delete_unused api [] s = s"
| "delete_unused api (p # ps) s =
     (let rs = obj s p
      in if rs_StatusReplicas rs \<noteq> 0 \<or> rs_Replicas rs \<noteq> 0 \<or> rs_Generation rs > rs_ObservedGeneration rs
         then delete_unused api ps s
         else delete_unused api ps (client_Delete api (rs_Name rs) s))"

text \<open>Validation keeps the history limit from being negative, so the loop stays within the list.\<close>

definition cleanupOldReplicaSets :: "dep_api \<Rightarrow> nat list \<Rightarrow> int \<Rightarrow> DeploymentController \<Rightarrow> DeploymentController" where
  "cleanupOldReplicaSets api oldRSs limit s =
     (let diff = int32 (int32 (int (length oldRSs)) - limit)
      in if diff \<le> 0 then s else delete_unused api (take (nat diff) (by_creation s oldRSs)) s)"

section \<open>Status\<close>

definition calculateStatus ::
  "('f :: ord) ctl_env \<Rightarrow> dep_api \<Rightarrow> nat option list \<Rightarrow> nat option \<Rightarrow> DeploymentController \<Rightarrow>
   (dep_error, int \<times> int \<times> int \<times> int) result" where
  "calculateStatus env api allRSs newRS s =
     (let totalActualReplicas = GetActualReplicaCountForReplicaSets (objs s allRSs);
          updatedReplicas = GetActualReplicaCountForReplicaSets (objs s [newRS])
      in case getAvailablePodsForReplicaSets env api allRSs (d_MinReadySeconds (dx_dep s)) s of
           Inl err \<Rightarrow> Inl err
         | Inr availableReplicas \<Rightarrow>
             let totalReplicas = GetReplicaCountForReplicaSets (objs s allRSs)
             in Inr (totalActualReplicas, updatedReplicas, availableReplicas, int32 (totalReplicas - availableReplicas)))"

definition updateDeploymentStatus ::
  "('f :: ord) ctl_env \<Rightarrow> dep_api \<Rightarrow> nat option list \<Rightarrow> nat option \<Rightarrow> DeploymentController \<Rightarrow> unit dep_result" where
  "updateDeploymentStatus env api allRSs newRS s =
     (case calculateStatus env api allRSs newRS s of
        Inl err \<Rightarrow> (Inl err, s)
      | Inr (totalActualReplicas, updatedReplicas, availableReplicas, unavailableReplicas) \<Rightarrow>
          let newDeployment = (dx_dep s)\<lparr>d_Status :=
                \<lparr>dst_ObservedGeneration = d_Generation (dx_dep s), dst_Replicas = totalActualReplicas,
                 dst_UpdatedReplicas = updatedReplicas, dst_AvailableReplicas = availableReplicas,
                 dst_UnavailableReplicas = unavailableReplicas\<rparr>\<rparr>
          in if ap_updateStatus api (dx_n s) newDeployment then (Inr (), tick (s\<lparr>dx_depServer := newDeployment\<rparr>))
             else (Inl RequestFailed, tick s))"

definition syncDeploymentStatus ::
  "('f :: ord) ctl_env \<Rightarrow> dep_api \<Rightarrow> nat option list \<Rightarrow> nat option \<Rightarrow> DeploymentController \<Rightarrow> unit dep_result" where
  "syncDeploymentStatus env api allRSs newRS s =
     (case calculateStatus env api allRSs newRS s of
        Inl err \<Rightarrow> (Inl err, s)
      | Inr (totalActualReplicas, updatedReplicas, availableReplicas, _) \<Rightarrow>
          let d = dx_dep s
          in if d_Generation d > dst_ObservedGeneration (d_Status d) \<or> dst_Replicas (d_Status d) \<noteq> totalActualReplicas \<or>
                dst_UpdatedReplicas (d_Status d) \<noteq> updatedReplicas \<or> dst_AvailableReplicas (d_Status d) \<noteq> availableReplicas
             then updateDeploymentStatus env api allRSs newRS s
             else (Inr (), s))"

section \<open>Strategies\<close>

definition finish_sync ::
  "('f :: ord) ctl_env \<Rightarrow> dep_api \<Rightarrow> nat option list \<Rightarrow> nat list \<Rightarrow> nat option \<Rightarrow> DeploymentController \<Rightarrow> unit dep_result" where
  "finish_sync env api allRSs oldRSs newRS s =
     (let s = (case d_RevisionHistoryLimit (dx_dep s) of None \<Rightarrow> s | Some limit \<Rightarrow> cleanupOldReplicaSets api oldRSs limit s)
      in syncDeploymentStatus env api allRSs newRS s)"

definition syncRollingUpdateDeployment ::
  "('f :: ord) ctl_env \<Rightarrow> dep_api \<Rightarrow> DeploymentController \<Rightarrow> unit dep_result" where
  "syncRollingUpdateDeployment env api s =
     (case getAllReplicaSetsAndSyncRevision env api True s of
        (Inl err, s) \<Rightarrow> (Inl err, s)
      | (Inr (None, oldRSs), s) \<Rightarrow> (Inl RequestFailed, s)
      | (Inr (Some newRS, oldRSs), s) \<Rightarrow>
          let active = FilterActiveReplicaSets (obj s) oldRSs;
              allRSs = map Some active @ [Some newRS]
          in case reconcileNewReplicaSet api allRSs newRS s of
               (Inl err, s) \<Rightarrow> (Inl err, s)
             | (Inr scaledUp, s) \<Rightarrow>
                 if scaledUp then updateDeploymentStatus env api allRSs (Some newRS) s
                 else
                   case reconcileOldReplicaSets env api allRSs (FilterActiveReplicaSets (obj s) oldRSs) newRS s of
                     (Inl err, s) \<Rightarrow> (Inl err, s)
                   | (Inr scaledDown, s) \<Rightarrow>
                       if scaledDown then updateDeploymentStatus env api allRSs (Some newRS) s
                       else finish_sync env api allRSs oldRSs (Some newRS) s)"

definition recreate_up ::
  "('f :: ord) ctl_env \<Rightarrow> dep_api \<Rightarrow> nat option list \<Rightarrow> nat list \<Rightarrow> nat \<Rightarrow> DeploymentController \<Rightarrow> unit dep_result" where
  "recreate_up env api allRSs oldRSs newRS s =
     (case scaleUpNewReplicaSetForRecreate api newRS s of
        (Inl err, s) \<Rightarrow> (Inl err, s)
      | (Inr scaledUp, s) \<Rightarrow>
          if scaledUp then updateDeploymentStatus env api allRSs (Some newRS) s
          else finish_sync env api allRSs oldRSs (Some newRS) s)"

definition syncRecreateDeployment ::
  "('f :: ord) ctl_env \<Rightarrow> dep_api \<Rightarrow> DeploymentController \<Rightarrow> unit dep_result" where
  "syncRecreateDeployment env api s =
     (case getAllReplicaSetsAndSyncRevision env api False s of
        (Inl err, s) \<Rightarrow> (Inl err, s)
      | (Inr (newRS, oldRSs), s) \<Rightarrow>
          let active = FilterActiveReplicaSets (obj s) oldRSs;
              allRSs = map Some active @ [newRS]
          in case scaleDownOldReplicaSetsForRecreate api active False s of
               (Inl err, s) \<Rightarrow> (Inl err, s)
             | (Inr scaledDown, s) \<Rightarrow>
                 if scaledDown then updateDeploymentStatus env api allRSs newRS s
                 else
                   case newRS of
                     Some p \<Rightarrow> recreate_up env api allRSs oldRSs p s
                   | None \<Rightarrow>
                       (case getAllReplicaSetsAndSyncRevision env api True s of
                          (Inl err, s) \<Rightarrow> (Inl err, s)
                        | (Inr (None, oldRSs), s) \<Rightarrow> (Inl RequestFailed, s)
                        | (Inr (Some p, oldRSs), s) \<Rightarrow> recreate_up env api (map Some oldRSs @ [Some p]) oldRSs p s))"

definition syncPausedDeploymentStatus ::
  "('f :: ord) ctl_env \<Rightarrow> dep_api \<Rightarrow> DeploymentController \<Rightarrow> unit dep_result" where
  "syncPausedDeploymentStatus env api s =
     (case getAllReplicaSetsAndSyncRevision env api False s of
        (Inl err, s) \<Rightarrow> (Inl err, s)
      | (Inr (newRS, oldRSs), s) \<Rightarrow>
          syncDeploymentStatus env api (map Some (FilterActiveReplicaSets (obj s) oldRSs) @ [newRS]) newRS s)"

section \<open>Rollback\<close>

definition updateDeploymentAndClearRollbackTo :: "dep_api \<Rightarrow> DeploymentController \<Rightarrow> unit dep_result" where
  "updateDeploymentAndClearRollbackTo api s =
     updateDeployment api (s\<lparr>dx_dep := (dx_dep s)\<lparr>d_RollbackTo := None\<rparr>\<rparr>)"

definition rollbackToTemplate :: "dep_api \<Rightarrow> nat \<Rightarrow> DeploymentController \<Rightarrow> unit dep_result" where
  "rollbackToTemplate api p s =
     (let rs = obj s p;
          s = (if GetNewReplicaSetTemplate (ap_hash api) (dx_dep s) \<noteq> rs_Template rs
               then s\<lparr>dx_dep := setDeploymentAnnotationsTo rs (SetFromReplicaSetTemplate (rs_Template rs) (dx_dep s))\<rparr>
               else s)
      in updateDeploymentAndClearRollbackTo api s)"

primrec rollback_loop :: "dep_api \<Rightarrow> int \<Rightarrow> nat list \<Rightarrow> DeploymentController \<Rightarrow> unit dep_result" where
  "rollback_loop api toRevision [] s = updateDeploymentAndClearRollbackTo api s"
| "rollback_loop api toRevision (p # ps) s =
     (if Revision (obj s p) = Some toRevision then rollbackToTemplate api p s else rollback_loop api toRevision ps s)"

definition rollback :: "('f :: ord) ctl_env \<Rightarrow> dep_api \<Rightarrow> int \<Rightarrow> DeploymentController \<Rightarrow> unit dep_result" where
  "rollback env api toRevision s =
     (case getAllReplicaSetsAndSyncRevision env api True s of
        (Inl err, s) \<Rightarrow> (Inl err, s)
      | (Inr (newRS, allOldRSs), s) \<Rightarrow>
          let allRSs = allOldRSs @ (case newRS of None \<Rightarrow> [] | Some p \<Rightarrow> [p]);
              toRevision = (if toRevision = 0 then lastRevision (map (obj s) allRSs) else toRevision)
          in if toRevision = 0 then updateDeploymentAndClearRollbackTo api s
             else rollback_loop api toRevision allRSs s)"

section \<open>Synchronization\<close>

definition sync_strategy :: "('f :: ord) ctl_env \<Rightarrow> dep_api \<Rightarrow> DeploymentController \<Rightarrow> unit dep_result" where
  "sync_strategy env api s =
     (case d_Strategy (dx_dep s) of
        Recreate \<Rightarrow> syncRecreateDeployment env api s
      | RollingUpdate _ _ \<Rightarrow> syncRollingUpdateDeployment env api s
      | OtherStrategy _ \<Rightarrow> (Inl UnknownStrategy, s))"

definition syncDeployment :: "('f :: ord) ctl_env \<Rightarrow> dep_api \<Rightarrow> string \<Rightarrow> DeploymentController \<Rightarrow> unit dep_result" where
  "syncDeployment env api key s =
     (if \<not> dx_storesSynced s then (Inr (), s\<lparr>dx_queue := Type_Add key (dx_queue s)\<rparr>)
      else
        case dx_dStore s key of
          None \<Rightarrow> (Inr (), s)
        | Some d \<Rightarrow>
            let s = s\<lparr>dx_dep := d\<rparr>;
                r = (if d_Selector d = Some \<lparr>ls_MatchLabels = Map.empty, ls_MatchExpressions = []\<rparr> then (Inr (), s)
                     else if d_Paused d then syncPausedDeploymentStatus env api s
                     else
                       case d_RollbackTo d of
                         None \<Rightarrow> sync_strategy env api s
                       | Some revision \<Rightarrow>
                           (case rollback env api revision s of
                              (Inl err, s) \<Rightarrow> (Inl err, s)
                            | (Inr _, s) \<Rightarrow> sync_strategy env api s))
            in case r of (res, s) \<Rightarrow> (res, s\<lparr>dx_dStore := (dx_dStore s)(key \<mapsto> dx_dep s)\<rparr>))"

end
