(* ===== verification/Deployment_Safety.thy ===== *)
theory Deployment_Safety
  imports Deployment_Controller
begin

text \<open>
  What a synchronization of a deployment does to the replica sets: bounds on the number of
  replicas and of available pods during a rolling update, its completion, and cases where the
  code does not do what its comments say.
\<close>

section \<open>Counting\<close>

lemma int32_mod: "int32 x = int32 y \<longleftrightarrow> x mod 2 ^ 32 = y mod 2 ^ 32"
proof -
  have "int32 x = int32 y \<longleftrightarrow> (x + 2 ^ 31) mod 2 ^ 32 = (y + 2 ^ 31) mod 2 ^ 32" by (simp add: int32_def wrap_def)
  also have "\<dots> \<longleftrightarrow> x mod 2 ^ 32 = y mod 2 ^ 32" by (simp add: mod_eq_dvd_iff)
  finally show ?thesis .
qed

lemma int32_add_left [simp]: "int32 (int32 x + y) = int32 (x + y)"
proof -
  have "int32 x mod 2 ^ 32 = x mod 2 ^ 32" unfolding int32_def wrap_def by (simp add: mod_diff_left_eq)
  then show ?thesis by (metis int32_mod mod_add_left_eq)
qed

lemma GetReplicaCount_eq:
  "GetReplicaCountForReplicaSets (map Some rss) = int32 (\<Sum>rs \<leftarrow> rss. rs_Replicas rs)"
proof -
  have "foldl (\<lambda>n rs. case rs of None \<Rightarrow> n | Some rs \<Rightarrow> int32 (n + rs_Replicas rs)) (int32 a) (map Some rss) =
      int32 (a + (\<Sum>rs \<leftarrow> rss. rs_Replicas rs))" for a
    by (induction rss arbitrary: a) (simp_all add: add.assoc)
  from this [of 0] show ?thesis by (simp add: GetReplicaCountForReplicaSets_def)
qed

lemma countAvailablePods_eq:
  "countAvailablePods now pods m = int32 (int (length (filter (\<lambda>p. IsPodAvailable now p m) pods)))"
proof -
  have "foldl (\<lambda>n pod. if IsPodAvailable now pod m then int32 (n + 1) else n) (int32 a) pods =
      int32 (a + int (length (filter (\<lambda>p. IsPodAvailable now p m) pods)))" for a
    by (induction pods arbitrary: a) (simp_all add: add.assoc)
  from this [of 0] show ?thesis by (simp add: countAvailablePods_def)
qed

text \<open>Several replica sets count as many available pods as each of them does alone.\<close>

lemma CountAvailable_sum:
  assumes "CountAvailablePodsForReplicaSets env now pods (map Some rss) m = Inr c"
    and "\<And>rs c. rs \<in> set rss \<Longrightarrow> CountAvailablePodsForReplicaSets env now pods [Some rs] m = Inr c \<Longrightarrow> c = av rs"
  shows "c = int32 (\<Sum>rs \<leftarrow> rss. av rs)"
  using assms
proof (induction rss arbitrary: c)
  case Nil
  then show ?case by (simp add: CountAvailablePodsForReplicaSets_def countAvailablePods_eq)
next
  case (Cons rs rss)
  obtain sel where sel: "LabelSelectorAsSelector env (rs_Selector rs) = Inr sel"
    using Cons.prems(1) by (auto simp: CountAvailablePodsForReplicaSets_def split: sum.splits)
  define l where "l = filter (\<lambda>pod. Selector_Matches (ce_parseFloat env) sel (pod_Labels pod)) pods"
  obtain ps where ps: "filterPodsMatchingReplicaSets env (map Some rss) pods = Inr ps" and c: "c = countAvailablePods now (l @ ps) m"
    using Cons.prems(1) sel by (auto simp: CountAvailablePodsForReplicaSets_def l_def split: sum.splits)
  have "CountAvailablePodsForReplicaSets env now pods [Some rs] m = Inr (countAvailablePods now l m)"
    by (simp add: CountAvailablePodsForReplicaSets_def sel l_def)
  then have 1: "countAvailablePods now l m = av rs" by (rule Cons.prems(2) [OF list.set_intros(1)])
  have "countAvailablePods now ps m = int32 (\<Sum>rs \<leftarrow> rss. av rs)"
    by (rule Cons.IH) (simp_all add: CountAvailablePodsForReplicaSets_def ps Cons.prems(2) [unfolded CountAvailablePodsForReplicaSets_def])
  then have "int32 (countAvailablePods now l m + countAvailablePods now ps m) = int32 (av rs + (\<Sum>rs \<leftarrow> rss. av rs))"
    using 1 by (metis add.commute int32_add_left)
  moreover have "c = int32 (countAvailablePods now l m + countAvailablePods now ps m)"
    unfolding c countAvailablePods_eq by (metis add.commute filter_append int32_add_left length_append of_nat_add)
  ultimately show ?case by simp
qed

section \<open>Replica sets at the server\<close>

text \<open>The server keeps the name, size, selector and template it is given.\<close>

definition same_spec :: "ReplicaSet \<Rightarrow> ReplicaSet \<Rightarrow> bool" where
  "same_spec rs rs' \<longleftrightarrow> rs_Name rs' = rs_Name rs \<and> rs_Replicas rs' = rs_Replicas rs \<and> rs_Selector rs' = rs_Selector rs \<and>
     rs_Template rs' = rs_Template rs"

definition api_ok :: "dep_api \<Rightarrow> bool" where
  "api_ok api \<longleftrightarrow> (\<forall>n rs rs'. (ap_update api n rs = Some rs' \<longrightarrow> same_spec rs rs') \<and>
     (ap_create api n rs = Some rs' \<longrightarrow> same_spec rs rs'))"

definition srv :: "(string \<rightharpoonup> ReplicaSet) \<Rightarrow> string \<Rightarrow> int" where
  "srv m n = (case m n of None \<Rightarrow> 0 | Some rs \<Rightarrow> rs_Replicas rs)"

definition shape :: "(string \<rightharpoonup> ReplicaSet) \<Rightarrow> string \<rightharpoonup> LabelSelector option \<times> PodTemplateSpec" where
  "shape m = (\<lambda>n. map_option (\<lambda>rs. (rs_Selector rs, rs_Template rs)) (m n))"

text \<open>A pointer to an object that is as the server has it.\<close>

definition current :: "DeploymentController \<Rightarrow> nat \<Rightarrow> bool" where
  "current s p \<longleftrightarrow> p < length (dx_heap s) \<and> shape (dx_server s) (rs_Name (obj s p)) = Some (rs_Selector (obj s p), rs_Template (obj s p)) \<and>
     srv (dx_server s) (rs_Name (obj s p)) = rs_Replicas (obj s p)"

text \<open>Only the sizes of the replica sets \<open>ns\<close> change, at the server and in the heap.\<close>

definition moves :: "string set \<Rightarrow> DeploymentController \<Rightarrow> DeploymentController \<Rightarrow> bool" where
  "moves ns s s' \<longleftrightarrow> shape (dx_server s') = shape (dx_server s) \<and> dx_dep s' = dx_dep s \<and>
     (\<forall>n. n \<notin> ns \<longrightarrow> srv (dx_server s') n = srv (dx_server s) n) \<and> length (dx_heap s) \<le> length (dx_heap s') \<and>
     (\<forall>q < length (dx_heap s). \<exists>x. obj s' q = (obj s q)\<lparr>rs_Replicas := x\<rparr> \<and> (rs_Name (obj s q) \<notin> ns \<longrightarrow> x = rs_Replicas (obj s q)))"

lemma same_size: "\<exists>x. rs = rs\<lparr>rs_Replicas := x\<rparr> \<and> (P \<longrightarrow> x = rs_Replicas rs)"
  by (rule exI [of _ "rs_Replicas rs"]) simp

lemma moves_refl [simp]: "moves ns s s"
  by (simp add: moves_def same_size)

lemma movesI:
  assumes "shape (dx_server s') = shape (dx_server s)" and "dx_dep s' = dx_dep s"
    and "\<And>n. n \<notin> ns \<Longrightarrow> srv (dx_server s') n = srv (dx_server s) n" and "length (dx_heap s) \<le> length (dx_heap s')"
    and "\<And>q. q < length (dx_heap s) \<Longrightarrow>
      \<exists>x. obj s' q = (obj s q)\<lparr>rs_Replicas := x\<rparr> \<and> (rs_Name (obj s q) \<notin> ns \<longrightarrow> x = rs_Replicas (obj s q))"
  shows "moves ns s s'"
  using assms unfolding moves_def by blast

lemma movesD:
  assumes "moves ns s s'"
  shows "shape (dx_server s') = shape (dx_server s)" and "dx_dep s' = dx_dep s"
    and "n \<notin> ns \<Longrightarrow> srv (dx_server s') n = srv (dx_server s) n" and "length (dx_heap s) \<le> length (dx_heap s')"
    and "q < length (dx_heap s) \<Longrightarrow>
      \<exists>x. obj s' q = (obj s q)\<lparr>rs_Replicas := x\<rparr> \<and> (rs_Name (obj s q) \<notin> ns \<longrightarrow> x = rs_Replicas (obj s q))"
  using assms unfolding moves_def by blast+

lemma moves_trans:
  assumes "moves ns s s'" and "moves ns' s' s''"
  shows "moves (ns \<union> ns') s s''"
proof (rule movesI)
  note a = movesD [OF assms(1)] and b = movesD [OF assms(2)]
  show "shape (dx_server s'') = shape (dx_server s)" "dx_dep s'' = dx_dep s" using a(1,2) b(1,2) by simp_all
  show "srv (dx_server s'') n = srv (dx_server s) n" if "n \<notin> ns \<union> ns'" for n using a(3) [of n] b(3) [of n] that by simp
  show "length (dx_heap s) \<le> length (dx_heap s'')" using a(4) b(4) by simp
  fix q
  assume q: "q < length (dx_heap s)"
  then have q': "q < length (dx_heap s')" using a(4) by simp
  obtain x y where x: "obj s' q = (obj s q)\<lparr>rs_Replicas := x\<rparr>" "rs_Name (obj s q) \<notin> ns \<longrightarrow> x = rs_Replicas (obj s q)"
    and y: "obj s'' q = (obj s' q)\<lparr>rs_Replicas := y\<rparr>" "rs_Name (obj s' q) \<notin> ns' \<longrightarrow> y = rs_Replicas (obj s' q)"
    using a(5) [OF q] b(5) [OF q'] by blast
  have "obj s'' q = (obj s q)\<lparr>rs_Replicas := y\<rparr>" unfolding y(1) x(1) by simp
  moreover have "y = rs_Replicas (obj s q)" if "rs_Name (obj s q) \<notin> ns \<union> ns'" using x(2) y(2) that unfolding x(1) by simp
  ultimately show "\<exists>x. obj s'' q = (obj s q)\<lparr>rs_Replicas := x\<rparr> \<and> (rs_Name (obj s q) \<notin> ns \<union> ns' \<longrightarrow> x = rs_Replicas (obj s q))"
    by blast
qed

lemma moves_mono: "moves ns s s' \<Longrightarrow> ns \<subseteq> ns' \<Longrightarrow> moves ns' s s'"
  unfolding moves_def by (meson subset_iff)

lemma moves_obj:
  assumes "moves ns s s'" and "q < length (dx_heap s)"
  shows "rs_Name (obj s' q) = rs_Name (obj s q)" and "rs_Selector (obj s' q) = rs_Selector (obj s q)"
    and "rs_StatusReplicas (obj s' q) = rs_StatusReplicas (obj s q)" and "q < length (dx_heap s')"
    and "rs_Name (obj s q) \<notin> ns \<Longrightarrow> obj s' q = obj s q"
proof -
  obtain x where x: "obj s' q = (obj s q)\<lparr>rs_Replicas := x\<rparr>" "rs_Name (obj s q) \<notin> ns \<Longrightarrow> x = rs_Replicas (obj s q)"
    using assms unfolding moves_def by blast
  then show "rs_Name (obj s' q) = rs_Name (obj s q)" "rs_Selector (obj s' q) = rs_Selector (obj s q)"
    "rs_StatusReplicas (obj s' q) = rs_StatusReplicas (obj s q)" by simp_all
  show "q < length (dx_heap s')" using assms by (simp add: moves_def)
  show "obj s' q = obj s q" if "rs_Name (obj s q) \<notin> ns" using x that by simp
qed

lemma current_moves:
  assumes "current s p" and "moves ns s s'" and "rs_Name (obj s p) \<notin> ns"
  shows "current s' p" and "obj s' p = obj s p"
proof -
  have p: "p < length (dx_heap s)" using assms(1) by (simp add: current_def)
  show eq: "obj s' p = obj s p" by (rule moves_obj(5) [OF assms(2) p assms(3)])
  show "current s' p" using assms p unfolding current_def eq by (simp add: moves_def)
qed

lemma moves_frame:
  assumes "dx_server s' = dx_server s" and "dx_dep s' = dx_dep s" and "dx_heap s' = dx_heap s @ h"
  shows "moves ns s s'"
  unfolding moves_def using assms by (simp add: nth_append same_size)

lemma tick_simps [simp]:
  "dx_server (tick s) = dx_server s" "dx_dep (tick s) = dx_dep s" "dx_heap (tick s) = dx_heap s"
  by (simp_all add: tick_def)

lemma enqueueDeployment_simps [simp]:
  "dx_server (enqueueDeployment s) = dx_server s" "dx_dep (enqueueDeployment s) = dx_dep s"
  "dx_heap (enqueueDeployment s) = dx_heap s"
  by (simp_all add: enqueueDeployment_def split: sum.splits)

text \<open>Scaling a replica set changes its size, or nothing at the server if the request fails.\<close>

lemma scale_effect:
  assumes "api_ok api" and "current s p" and "scaleReplicaSetAndRecordEvent api p x s = (r, s')"
  obtains (Failed) e where "r = Inl e" "moves {rs_Name (obj s p)} s s'" "srv (dx_server s') = srv (dx_server s)"
  | (Scaled) b q where "r = Inr (b, q)" "moves {rs_Name (obj s p)} s s'"
      "srv (dx_server s') = (srv (dx_server s))(rs_Name (obj s p) := x)" "current s' q" "rs_Name (obj s' q) = rs_Name (obj s p)"
      "rs_Selector (obj s' q) = rs_Selector (obj s p)" "rs_Replicas (obj s' q) = x" "b \<longleftrightarrow> x \<noteq> rs_Replicas (obj s p)"
proof (cases "rs_Replicas (obj s p) = x")
  case True
  then show ?thesis using assms(2,3) by (intro Scaled [of False p]) (auto simp: scaleReplicaSetAndRecordEvent_def current_def)
next
  case False
  define rs where "rs = (obj s p)\<lparr>rs_Replicas := x\<rparr>"
  define t where "t = s\<lparr>dx_heap := (dx_heap s)[p := rs]\<rparr>"
  define n where "n = rs_Name (obj s p)"
  have p: "p < length (dx_heap s)" and dom: "dx_server s n \<noteq> None"
    and sh: "shape (dx_server s) n = Some (rs_Selector (obj s p), rs_Template (obj s p))"
    using assms(2) by (auto simp: current_def shape_def n_def)
  have t: "dx_server t = dx_server s" "dx_dep t = dx_dep s" "dx_heap t = (dx_heap s)[p := rs]"
    "dx_n t = dx_n s" "rs_Name rs = n" by (simp_all add: t_def rs_def n_def)
  have sc: "scaleReplicaSetAndRecordEvent api p x s =
      (case client_Update api rs t of (Inl err, s) \<Rightarrow> (Inl err, enqueueDeployment s) | (Inr newRS, s) \<Rightarrow> (Inr (True, newRS), s))"
    using False by (simp add: scaleReplicaSetAndRecordEvent_def scaleReplicaSet_def Let_def rs_def t_def)
  have heap: "length ((dx_heap s)[p := rs] @ h) \<ge> length (dx_heap s) \<and> (\<forall>q < length (dx_heap s).
      \<exists>y. ((dx_heap s)[p := rs] @ h) ! q = (obj s q)\<lparr>rs_Replicas := y\<rparr> \<and> (rs_Name (obj s q) \<notin> {n} \<longrightarrow> y = rs_Replicas (obj s q)))" for h
    using p by (auto simp: nth_append nth_list_update rs_def n_def same_size)
  show ?thesis
  proof (cases "ap_update api (dx_n s) rs")
    case None
    then have "client_Update api rs t = (Inl RequestFailed, tick t)" by (simp add: client_Update_def t)
    then have "(r, s') = (Inl RequestFailed, enqueueDeployment (tick t))" using assms(3) sc by simp
    then show ?thesis using heap [of "[]"] by (intro Failed [of RequestFailed]) (auto simp: moves_def t n_def)
  next
    case (Some rs')
    have same: "same_spec rs rs'" using Some assms(1) unfolding api_ok_def by blast
    have "client_Update api rs t =
        (Inr (length (dx_heap s)), tick (t\<lparr>dx_server := (dx_server s)(n \<mapsto> rs'), dx_heap := (dx_heap s)[p := rs] @ [rs']\<rparr>))"
      using Some dom by (simp add: client_Update_def alloc_rs_def t)
    then have eq: "(r, s') = (Inr (True, length (dx_heap s)), tick (t\<lparr>dx_server := (dx_server s)(n \<mapsto> rs'), dx_heap := (dx_heap s)[p := rs] @ [rs']\<rparr>))"
      using assms(3) sc by simp
    have sv: "srv ((dx_server s)(n \<mapsto> rs')) = (srv (dx_server s))(n := x)" and
      shp: "shape ((dx_server s)(n \<mapsto> rs')) = shape (dx_server s)"
      using same sh by (auto simp: srv_def shape_def same_spec_def rs_def fun_eq_iff)
    show ?thesis using eq heap [of "[rs']"] sv shp same sh False
      by (intro Scaled [of True "length (dx_heap s)"])
        (auto simp: moves_def t n_def [symmetric] current_def nth_append same_spec_def rs_def)
  qed
qed

section \<open>Scaling old replica sets down\<close>

text \<open>
  \<open>av\<close> gives the available pods a selector finds; \<open>sees\<close> says that they do not change while the
  deployment is synchronized.
\<close>

definition sees :: "('f :: ord) ctl_env \<Rightarrow> dep_api \<Rightarrow> Deployment \<Rightarrow> (LabelSelector option \<Rightarrow> int) \<Rightarrow> bool" where
  "sees env api d av \<longleftrightarrow> (\<forall>n pods rs c. ListPods env d (ap_listPods api n) = Inr pods \<longrightarrow>
     CountAvailablePodsForReplicaSets env (ap_now api n) pods [Some rs] (d_MinReadySeconds d) = Inr c \<longrightarrow> c = av (rs_Selector rs))"

lemma GetAvailable_sees:
  assumes "sees env api (dx_dep s) av"
    and "GetAvailablePodsForReplicaSets env api (map Some ps) (d_MinReadySeconds (dx_dep s)) s = (r, s')"
  shows "s' = tick s" and "r = Inr c \<Longrightarrow> c = int32 (\<Sum>p \<leftarrow> ps. av (rs_Selector (obj s p)))"
proof -
  show "s' = tick s" using assms(2) by (auto simp: GetAvailablePodsForReplicaSets_def split: sum.splits)
  assume "r = Inr c"
  then obtain pods where pods: "ListPods env (dx_dep s) (ap_listPods api (dx_n s)) = Inr pods"
    "CountAvailablePodsForReplicaSets env (ap_now api (dx_n s)) pods (map Some (map (obj s) ps)) (d_MinReadySeconds (dx_dep s)) = Inr c"
    using assms(2) by (auto simp: GetAvailablePodsForReplicaSets_def comp_def split: sum.splits)
  have "c = int32 (\<Sum>rs \<leftarrow> map (obj s) ps. av (rs_Selector rs))"
    by (rule CountAvailable_sum [OF pods(2)]) (use assms(1) pods(1) in \<open>unfold sees_def, blast\<close>)
  then show "c = int32 (\<Sum>p \<leftarrow> ps. av (rs_Selector (obj s p)))" by (simp add: comp_def)
qed

definition names :: "DeploymentController \<Rightarrow> nat list \<Rightarrow> string list" where
  "names s ps = map (\<lambda>p. rs_Name (obj s p)) ps"

text \<open>The replica sets shrink, but not below \<open>lo\<close>.\<close>

definition shrinks :: "(LabelSelector option \<Rightarrow> int) \<Rightarrow> nat list \<Rightarrow> DeploymentController \<Rightarrow> DeploymentController \<Rightarrow> bool" where
  "shrinks lo ps s s' \<longleftrightarrow> moves (set (names s ps)) s s' \<and>
     (\<forall>p \<in> set ps. lo (rs_Selector (obj s p)) \<le> srv (dx_server s') (rs_Name (obj s p)) \<and>
        srv (dx_server s') (rs_Name (obj s p)) \<le> rs_Replicas (obj s p))"

definition loss :: "nat list \<Rightarrow> DeploymentController \<Rightarrow> DeploymentController \<Rightarrow> int" where
  "loss ps s s' = (\<Sum>p \<leftarrow> ps. rs_Replicas (obj s p) - srv (dx_server s') (rs_Name (obj s p)))"

definition ready_to_shrink :: "(LabelSelector option \<Rightarrow> int) \<Rightarrow> nat list \<Rightarrow> DeploymentController \<Rightarrow> bool" where
  "ready_to_shrink lo ps s \<longleftrightarrow> distinct (names s ps) \<and>
     (\<forall>p \<in> set ps. current s p \<and> 0 \<le> lo (rs_Selector (obj s p)) \<and> lo (rs_Selector (obj s p)) \<le> rs_Replicas (obj s p) \<and>
        rs_Replicas (obj s p) < 2 ^ 31)"

lemma ready_Cons:
  "ready_to_shrink lo (p # ps) s \<longleftrightarrow> rs_Name (obj s p) \<notin> set (names s ps) \<and> current s p \<and> 0 \<le> lo (rs_Selector (obj s p)) \<and>
     lo (rs_Selector (obj s p)) \<le> rs_Replicas (obj s p) \<and> rs_Replicas (obj s p) < 2 ^ 31 \<and> ready_to_shrink lo ps s"
  by (auto simp: ready_to_shrink_def names_def)

lemma ready_moves:
  assumes "ready_to_shrink lo ps s" and "moves ns s s'" and "set (names s ps) \<inter> ns = {}"
  shows "ready_to_shrink lo ps s'" and "\<And>p. p \<in> set ps \<Longrightarrow> obj s' p = obj s p" and "names s' ps = names s ps"
proof -
  have c: "current s' p" "obj s' p = obj s p" if "p \<in> set ps" for p
    using assms that current_moves [of s p ns s'] by (auto simp: ready_to_shrink_def names_def)
  show "obj s' p = obj s p" if "p \<in> set ps" for p using c that by simp
  show n: "names s' ps = names s ps" using c(2) by (simp add: names_def)
  show "ready_to_shrink lo ps s'" using assms(1) c unfolding ready_to_shrink_def n by simp
qed

lemma shrinks_refl: "ready_to_shrink lo ps s \<Longrightarrow> dx_server s' = dx_server s \<Longrightarrow> dx_dep s' = dx_dep s \<Longrightarrow> dx_heap s' = dx_heap s \<Longrightarrow>
    shrinks lo ps s s' \<and> loss ps s s' = 0"
proof -
  assume a: "ready_to_shrink lo ps s" "dx_server s' = dx_server s" "dx_dep s' = dx_dep s" "dx_heap s' = dx_heap s"
  have "loss ps s s' = (\<Sum>p \<leftarrow> ps. 0)"
    unfolding loss_def using a by (intro arg_cong [of _ _ sum_list] map_cong) (simp_all add: ready_to_shrink_def current_def)
  moreover have "moves ns s s'" for ns by (rule moves_frame [where h = "[]"]) (simp_all add: a)
  ultimately show ?thesis using a by (simp add: shrinks_def ready_to_shrink_def current_def)
qed

lemma shrinks_unchanged:
  assumes "ready_to_shrink lo ps s" and "moves ns s s'" and "ns \<subseteq> set (names s ps)" and "srv (dx_server s') = srv (dx_server s)"
  shows "shrinks lo ps s s'" and "loss ps s s' = 0"
proof -
  show "shrinks lo ps s s'" using assms moves_mono [OF assms(2,3)] by (simp add: shrinks_def ready_to_shrink_def current_def)
  have "loss ps s s' = (\<Sum>p \<leftarrow> ps. 0)"
    unfolding loss_def using assms(1,4) by (intro arg_cong [of _ _ sum_list] map_cong) (simp_all add: ready_to_shrink_def current_def)
  then show "loss ps s s' = 0" by simp
qed

text \<open>A step on the first replica set, followed by steps on the others.\<close>

lemma shrinks_Cons:
  assumes ready: "ready_to_shrink lo (p # ps) s" and m: "moves {rs_Name (obj s p)} s t"
    and x: "srv (dx_server t) (rs_Name (obj s p)) = x" "lo (rs_Selector (obj s p)) \<le> x" "x \<le> rs_Replicas (obj s p)"
    and tl: "shrinks lo ps t s'"
  shows "shrinks lo (p # ps) s s'" and "loss (p # ps) s s' = rs_Replicas (obj s p) - x + loss ps t s'"
proof -
  have r: "rs_Name (obj s p) \<notin> set (names s ps)" "ready_to_shrink lo ps s" using ready by (simp_all add: ready_Cons)
  note k = ready_moves [OF r(2) m]
  have ob: "obj t q = obj s q" if "q \<in> set ps" for q using k(2) r(1) that by simp
  have nt: "names t ps = names s ps" using k(3) r(1) by simp
  have mt: "moves (set (names s ps)) t s'" using tl by (simp add: shrinks_def nt)
  have sp: "srv (dx_server s') (rs_Name (obj s p)) = x" using movesD(3) [OF mt r(1)] x(1) by simp
  have "moves ({rs_Name (obj s p)} \<union> set (names s ps)) s s'" by (rule moves_trans [OF m mt])
  then show "shrinks lo (p # ps) s s'" using tl sp x ob by (simp add: shrinks_def names_def)
  have "(\<Sum>q \<leftarrow> ps. rs_Replicas (obj s q) - srv (dx_server s') (rs_Name (obj s q))) = loss ps t s'"
    unfolding loss_def by (intro arg_cong [of _ _ sum_list] map_cong) (simp_all add: ob)
  then show "loss (p # ps) s s' = rs_Replicas (obj s p) - x + loss ps t s'" by (simp add: loss_def sp)
qed

text \<open>The pointers the loop returns are those of the same replica sets, as the server now has them.\<close>

definition renewed :: "nat list \<Rightarrow> DeploymentController \<Rightarrow> nat list \<Rightarrow> DeploymentController \<Rightarrow> bool" where
  "renewed ps s ps' s' \<longleftrightarrow> names s' ps' = names s ps \<and>
     map (\<lambda>p. rs_Selector (obj s' p)) ps' = map (\<lambda>p. rs_Selector (obj s p)) ps \<and> (\<forall>p \<in> set ps'. current s' p)"

lemma renewed_Cons:
  assumes "renewed ps t ps' s'" and "moves ns t s'" and "ns = set (names t ps)" and "current t q"
    and "rs_Name (obj t q) = rs_Name (obj s p)" and "rs_Selector (obj t q) = rs_Selector (obj s p)" and "rs_Name (obj s p) \<notin> ns"
    and "\<And>q. q \<in> set ps \<Longrightarrow> rs_Name (obj t q) = rs_Name (obj s q) \<and> rs_Selector (obj t q) = rs_Selector (obj s q)"
  shows "renewed (p # ps) s (q # ps') s'"
proof -
  have q: "current s' q" "obj s' q = obj t q" using current_moves [OF assms(4,2)] assms(5,7) by simp_all
  have "names t ps = names s ps" "map (\<lambda>p. rs_Selector (obj t p)) ps = map (\<lambda>p. rs_Selector (obj s p)) ps"
    using assms(8) by (simp_all add: names_def)
  then show ?thesis using assms(1,5,6) q by (simp add: renewed_def names_def)
qed

lemma renewed_same: "ready_to_shrink lo ps s \<Longrightarrow> renewed ps s ps s"
  by (simp add: renewed_def ready_to_shrink_def)

lemma keep_pointer_Inr: "keep_pointer p R = (r, s') \<Longrightarrow> \<exists>r0. R = (r0, s') \<and> (\<forall>ps' t. r = Inr (ps', t) \<longrightarrow> (\<exists>qs. ps' = p # qs \<and> r0 = Inr (qs, t)))"
  by (auto simp: keep_pointer_def split: prod.splits sum.splits)

lemma cleanup_effect:
  assumes api: "api_ok api" and sees: "sees env api d av" and mx: "mx < 2 ^ 31"
  shows "cleanup_loop env api (d_MinReadySeconds d) mx ps tot s = (r, s') \<Longrightarrow> dx_dep s = d \<Longrightarrow> ready_to_shrink av ps s \<Longrightarrow>
    0 \<le> tot \<Longrightarrow> tot \<le> mx \<Longrightarrow>
    shrinks av ps s s' \<and> 0 \<le> loss ps s s' \<and> tot + loss ps s s' \<le> mx \<and>
    (\<forall>ps' t. r = Inr (ps', t) \<longrightarrow> renewed ps s ps' s' \<and> t = tot + loss ps s s')"
proof (induction ps arbitrary: tot s r)
  case Nil
  then show ?case by (auto simp: shrinks_def loss_def renewed_def names_def)
next
  case (Cons p ps)
  note ready = Cons.prems(3)
  let ?n = "rs_Name (obj s p)" and ?R = "rs_Replicas (obj s p)" and ?a = "av (rs_Selector (obj s p))"
  have r: "?n \<notin> set (names s ps)" "current s p" "0 \<le> ?a" "?a \<le> ?R" "?R < 2 ^ 31" "ready_to_shrink av ps s"
    using ready by (simp_all add: ready_Cons)
  have srv: "srv (dx_server s) ?n = ?R" using r(2) by (simp add: current_def)
  have step: ?case if m: "moves {?n} s t" and x: "srv (dx_server t) ?n = x" "?a \<le> x" "x \<le> ?R"
    and rec: "cleanup_loop env api (d_MinReadySeconds d) mx ps tot' t = (r0, s')"
    and r0: "\<forall>ps' t. r = Inr (ps', t) \<longrightarrow> (\<exists>qs. ps' = q # qs \<and> r0 = Inr (qs, t))"
    and q: "current t q" "rs_Name (obj t q) = ?n" "rs_Selector (obj t q) = rs_Selector (obj s p)"
    and tot': "tot' = tot + (?R - x)" "tot' \<le> mx" for t x r0 q tot'
  proof -
    note k = ready_moves [OF r(6) m]
    have ob: "obj t q = obj s q" if "q \<in> set ps" for q using k(2) r(1) that by simp
    have rt: "ready_to_shrink av ps t" "names t ps = names s ps" using k(1,3) r(1) by simp_all
    have IH: "shrinks av ps t s'" "0 \<le> loss ps t s'" "tot' + loss ps t s' \<le> mx"
      "\<And>qs n. r0 = Inr (qs, n) \<Longrightarrow> renewed ps t qs s' \<and> n = tot' + loss ps t s'"
      using Cons.IH [OF rec _ rt(1)] movesD(2) [OF m] Cons.prems(2,4) tot' x(3) by auto
    note sh = shrinks_Cons [OF ready m x IH(1)]
    have "renewed (p # ps) s (q # qs) s'" if "r0 = Inr (qs, n)" for qs n
      by (rule renewed_Cons [where t = t, OF _ _ refl q(1)])
        (use IH(1,4) that q r(1) ob rt(2) in \<open>auto simp: shrinks_def\<close>)
    then show ?thesis using sh IH x(3) tot' r0 by auto
  qed
  show ?case
  proof (cases "tot \<ge> mx \<or> ?R = 0")
    case True
    then show ?thesis
    proof (cases "tot \<ge> mx")
      case True
      then have "s' = s" "r = Inr (p # ps, tot)" using Cons.prems(1) by auto
      then show ?thesis using shrinks_refl [OF ready refl refl refl] renewed_same [OF ready] Cons.prems(5) by simp
    next
      case False
      then have z: "?R = 0" using True by simp
      have "keep_pointer p (cleanup_loop env api (d_MinReadySeconds d) mx ps tot s) = (r, s')" using Cons.prems(1) False z by simp
      from keep_pointer_Inr [OF this] obtain r0 where "cleanup_loop env api (d_MinReadySeconds d) mx ps tot s = (r0, s')"
        "\<forall>ps' t. r = Inr (ps', t) \<longrightarrow> (\<exists>qs. ps' = p # qs \<and> r0 = Inr (qs, t))" by blast
      then show ?thesis using r srv Cons.prems(5) by (intro step [of s ?R tot r0 p]) simp_all
    qed
  next
    case False
    obtain c s1 where c: "GetAvailablePodsForReplicaSets env api [Some p] (d_MinReadySeconds d) s = (c, s1)" by fastforce
    have s1: "s1 = tick s" using GetAvailable_sees(1) [of env api s av "[p]" c s1] sees c Cons.prems(2) by simp
    have pre: "moves ns s s1" "current s1 p" for ns
      using s1 r(2) by (simp_all add: moves_frame [where h = "[]"] current_def)
    show ?thesis
    proof (cases c)
      case (Inl e)
      then have "s' = s1" "\<exists>e. r = Inl e" using Cons.prems(1,2) c False by auto
      then show ?thesis using shrinks_refl [OF ready, of s'] Cons.prems(5) s1 by auto
    next
      case (Inr n)
      have n: "n = ?a" using GetAvailable_sees(2) [of env api s av "[p]" c s1 n] sees c Cons.prems(2) Inr r(3-5) by simp
      show ?thesis
      proof (cases "?R = ?a")
        case True
        have "keep_pointer p (cleanup_loop env api (d_MinReadySeconds d) mx ps tot s1) = (r, s')"
          using Cons.prems(1,2) c Inr False True n s1 by simp
        from keep_pointer_Inr [OF this] obtain r0 where "cleanup_loop env api (d_MinReadySeconds d) mx ps tot s1 = (r0, s')"
          "\<forall>ps' t. r = Inr (ps', t) \<longrightarrow> (\<exists>qs. ps' = p # qs \<and> r0 = Inr (qs, t))" by blast
        then show ?thesis using r srv pre s1 Cons.prems(5) by (intro step [of s1 ?R tot r0 p]) simp_all
      next
        case ne: False
        define k where "k = min (mx - tot) (?R - ?a)"
        have k: "0 < k" "k \<le> ?R - ?a" "k \<le> mx - tot" using ne r(4) False by (auto simp: k_def)
        have w: "int32 (min (int32 (mx - tot)) (int32 (?R - ?a))) = k" using k mx r(3-5) Cons.prems(4,5) False by (simp add: k_def)
        have w': "int32 (?R - k) = ?R - k" "int32 (tot + k) = tot + k" using k mx r(3-5) Cons.prems(4,5) by (intro int32_in_range; linarith)+
        obtain sc s2 where sc: "scaleReplicaSetAndRecordEvent api p (?R - k) s1 = (sc, s2)" by fastforce
        have eq: "(r, s') = (case (sc, s2) of (Inl err, s) \<Rightarrow> (Inl err, s)
            | (Inr (_, q), s) \<Rightarrow> keep_pointer q (cleanup_loop env api (d_MinReadySeconds d) mx ps (int32 (tot + k)) s))"
          using Cons.prems(1,2) c Inr False ne n s1 w w'(1) sc k(1) by (simp add: Let_def)
        have ob1: "obj s1 p = obj s p" by (simp add: s1)
        from api pre(2) sc show ?thesis
        proof (cases rule: scale_effect)
          case (Failed e)
          have "moves {?n} s s2" using moves_trans [OF pre(1) [of "{?n}"] Failed(2)] ob1 by simp
          moreover have "r = Inl e" "s' = s2" using eq Failed by auto
          moreover have "srv (dx_server s2) = srv (dx_server s)" using Failed(3) s1 by simp
          ultimately show ?thesis
            using shrinks_unchanged [OF ready, of "{?n}" s2] Cons.prems(5) by (simp add: names_def)
        next
          case (Scaled b q)
          have m: "moves {?n} s s2" using moves_trans [OF pre(1) [of "{?n}"] Scaled(2)] ob1 by simp
          have "keep_pointer q (cleanup_loop env api (d_MinReadySeconds d) mx ps (tot + k) s2) = (r, s')"
            using eq Scaled(1) w'(2) by simp
          from keep_pointer_Inr [OF this] obtain r0 where
            "cleanup_loop env api (d_MinReadySeconds d) mx ps (tot + k) s2 = (r0, s')"
            "\<forall>ps' t. r = Inr (ps', t) \<longrightarrow> (\<exists>qs. ps' = q # qs \<and> r0 = Inr (qs, t))" by blast
          then show ?thesis using m Scaled k ob1 by (intro step [of s2 "?R - k" "tot + k" r0 q]) simp_all
        qed
      qed
    qed
  qed
qed

lemma scale_down_effect:
  assumes api: "api_ok api" and cnt: "cnt < 2 ^ 31"
  shows "scale_down_loop api cnt ps tot s = (r, s') \<Longrightarrow> ready_to_shrink (\<lambda>_. 0) ps s \<Longrightarrow> 0 \<le> tot \<Longrightarrow> tot \<le> cnt \<Longrightarrow>
    shrinks (\<lambda>_. 0) ps s s' \<and> 0 \<le> loss ps s s' \<and> tot + loss ps s s' \<le> cnt \<and>
    (\<forall>t. r = Inr t \<longrightarrow> t = tot + loss ps s s' \<and> t = min (tot + (\<Sum>p \<leftarrow> ps. rs_Replicas (obj s p))) cnt)"
proof (induction ps arbitrary: tot s)
  case Nil
  then show ?case by (auto simp: shrinks_def loss_def names_def)
next
  case (Cons p ps)
  note ready = Cons.prems(2)
  let ?n = "rs_Name (obj s p)" and ?R = "rs_Replicas (obj s p)"
  have r: "?n \<notin> set (names s ps)" "current s p" "0 \<le> ?R" "?R < 2 ^ 31" "ready_to_shrink (\<lambda>_. 0) ps s"
    using ready by (simp_all add: ready_Cons)
  have srv: "srv (dx_server s) ?n = ?R" using r(2) by (simp add: current_def)
  have nonneg: "0 \<le> (\<Sum>p \<leftarrow> ps. rs_Replicas (obj s p))" using r(5) by (intro sum_list_nonneg) (auto simp: ready_to_shrink_def)
  have step: ?case if m: "moves {?n} s t" and x: "srv (dx_server t) ?n = x" "0 \<le> x" "x = ?R - min ?R (cnt - tot)"
    and rec: "scale_down_loop api cnt ps (tot + (?R - x)) t = (r, s')" for t x
  proof -
    have xR: "x \<le> ?R" using x(3) r(3) Cons.prems(4) by (simp add: min_def)
    note k = ready_moves [OF r(5) m]
    have ob: "obj t q = obj s q" if "q \<in> set ps" for q using k(2) r(1) that by simp
    have rt: "ready_to_shrink (\<lambda>_. 0) ps t" using k(1) r(1) by simp
    have sum: "(\<Sum>p \<leftarrow> ps. rs_Replicas (obj t p)) = (\<Sum>p \<leftarrow> ps. rs_Replicas (obj s p))"
      by (intro arg_cong [of _ _ sum_list] map_cong) (simp_all add: ob)
    have tot': "0 \<le> tot + (?R - x)" "tot + (?R - x) \<le> cnt" using x(3) r(3) Cons.prems(3,4) by linarith+
    note IH = Cons.IH [OF rec rt tot', unfolded sum]
    note sh = shrinks_Cons [OF ready m x(1,2) xR conjunct1 [OF IH]]
    define S where "S = (\<Sum>p \<leftarrow> ps. rs_Replicas (obj s p))"
    have "min (tot + (?R - x) + S) cnt = min (tot + (?R + S)) cnt" using x(3) r(3) nonneg unfolding S_def [symmetric] by linarith
    then have "r = Inr n \<longrightarrow> n = tot + loss (p # ps) s s' \<and> n = min (tot + (\<Sum>p \<leftarrow> p # ps. rs_Replicas (obj s p))) cnt" for n
      using IH sh(2) by (simp add: S_def add.assoc)
    moreover have "0 \<le> loss (p # ps) s s'" "tot + loss (p # ps) s s' \<le> cnt" using IH xR by (simp_all add: sh(2))
    ultimately show ?thesis using sh(1) by blast
  qed
  consider (Done) "tot \<ge> cnt" | (Empty) "tot < cnt" "?R = 0" | (Scale) "tot < cnt" "0 < ?R" using r(3) by linarith
  then show ?case
  proof cases
    case Done
    then have "s' = s" "r = Inr tot" using Cons.prems(1) by auto
    then show ?thesis using shrinks_refl [OF ready refl refl refl] Cons.prems(4) Done nonneg r(3) by auto
  next
    case Empty
    then show ?thesis using Cons.prems(1,4) srv by (intro step [of s ?R]) auto
  next
    case Scale
    define k where "k = min ?R (cnt - tot)"
    have k: "0 < k" "k \<le> ?R" "k \<le> cnt - tot" using Scale by (auto simp: k_def)
    have w: "int32 (cnt - tot) = cnt - tot" "int32 k = k" "int32 (?R - k) = ?R - k" "int32 (tot + k) = tot + k"
      using k cnt r(3,4) Cons.prems(3,4) by (intro int32_in_range; linarith)+
    obtain sc s2 where sc: "scaleReplicaSetAndRecordEvent api p (?R - k) s = (sc, s2)" by fastforce
    have eq: "(r, s') = (case (sc, s2) of (Inl err, s) \<Rightarrow> (Inl err, s) | (Inr _, s) \<Rightarrow> scale_down_loop api cnt ps (int32 (tot + k)) s)"
      using Cons.prems(1) Scale sc w(1-3) k(1) by (simp add: Let_def k_def [symmetric])
    from api r(2) sc show ?thesis
    proof (cases rule: scale_effect)
      case (Failed e)
      have "r = Inl e" "s' = s2" using eq Failed by auto
      then show ?thesis using shrinks_unchanged [OF ready Failed(2) _ Failed(3)] Cons.prems(4) by (simp add: names_def)
    next
      case (Scaled b q)
      have "scale_down_loop api cnt ps (tot + k) s2 = (r, s')" using eq Scaled(1) w(4) by simp
      then show ?thesis using Scaled k(2) by (intro step [of s2 "?R - k"]) (simp_all add: k_def)
    qed
  qed
qed

section \<open>By name\<close>

definition avs :: "(LabelSelector option \<Rightarrow> int) \<Rightarrow> (string \<rightharpoonup> ReplicaSet) \<Rightarrow> string \<Rightarrow> int" where
  "avs av m n = (case m n of None \<Rightarrow> 0 | Some rs \<Rightarrow> av (rs_Selector rs))"

lemma avs_shape: "shape m = shape m' \<Longrightarrow> avs av m = avs av m'"
proof
  fix n
  assume "shape m = shape m'"
  then have "shape m n = shape m' n" by simp
  then show "avs av m n = avs av m' n" by (auto simp: avs_def shape_def split: option.splits)
qed

lemma avs_current: "current s p \<Longrightarrow> avs av (dx_server s) (rs_Name (obj s p)) = av (rs_Selector (obj s p))"
  by (auto simp: current_def avs_def shape_def)

lemma sum_names:
  assumes "distinct (names s ps)" and "\<And>p. p \<in> set ps \<Longrightarrow> f p = g (rs_Name (obj s p))"
  shows "(\<Sum>p \<leftarrow> ps. f p) = (\<Sum>n \<in> set (names s ps). g n)"
proof -
  have "(\<Sum>p \<leftarrow> ps. f p) = sum_list (map g (names s ps))"
    unfolding names_def map_map by (intro arg_cong [of _ _ sum_list] map_cong) (simp_all add: assms(2))
  then show ?thesis using assms(1) by (simp add: sum_list_distinct_conv_sum_set)
qed

lemma shrinks_names:
  assumes "ready_to_shrink lo ps s" and "shrinks lo ps s s'"
  shows "n \<in> set (names s ps) \<Longrightarrow> avs lo (dx_server s) n \<le> srv (dx_server s') n \<and> srv (dx_server s') n \<le> srv (dx_server s) n"
    and "loss ps s s' = (\<Sum>n \<in> set (names s ps). srv (dx_server s) n - srv (dx_server s') n)"
proof -
  show "avs lo (dx_server s) n \<le> srv (dx_server s') n \<and> srv (dx_server s') n \<le> srv (dx_server s) n" if n: "n \<in> set (names s ps)"
  proof -
    obtain p where p: "p \<in> set ps" "n = rs_Name (obj s p)" using n by (auto simp: names_def)
    then have "current s p" using assms(1) by (simp add: ready_to_shrink_def)
    then show ?thesis using assms(2) p avs_current [of s p lo] by (simp add: shrinks_def current_def)
  qed
  show "loss ps s s' = (\<Sum>n \<in> set (names s ps). srv (dx_server s) n - srv (dx_server s') n)"
    unfolding loss_def by (rule sum_names) (use assms(1) in \<open>auto simp: ready_to_shrink_def current_def\<close>)
qed

lemma by_creation_simps [simp]:
  "set (by_creation s ps) = set ps" "mset (by_creation s ps) = mset ps"
  by (simp_all add: by_creation_def)

lemma by_creation_sorted:
  "sorted_wrt (\<lambda>p q. \<not> ReplicaSetsByCreationTimestamp_Less (obj s q) (obj s p)) (by_creation s ps)"
proof -
  let ?k = "\<lambda>p. (rs_CreationTimestamp (obj s p), rs_Name (obj s p))"
  have "sorted_wrt (\<lambda>p q. ?k p \<le> ?k q) (by_creation s ps)"
    using sorted_sort_key [of ?k ps] by (simp add: by_creation_def sorted_map)
  then show ?thesis
    by (rule sorted_wrt_mono_rel [rotated]) (auto simp: ReplicaSetsByCreationTimestamp_Less_def less_eq_prod_def split: if_splits)
qed

lemma names_by_creation: "set (names s' (by_creation s ps)) = set (names s' ps)"
  by (simp add: names_def)

lemma ready_by_creation: "ready_to_shrink lo (by_creation s ps) s' \<longleftrightarrow> ready_to_shrink lo ps s'"
proof -
  have "mset (names s' (by_creation s ps)) = mset (names s' ps)" by (simp add: names_def)
  then have "distinct (names s' (by_creation s ps)) = distinct (names s' ps)" by (metis mset_eq_imp_distinct_iff)
  then show ?thesis by (simp add: ready_to_shrink_def)
qed

lemma sum_list_by_creation: "(\<Sum>p \<leftarrow> by_creation s ps. (f p :: int)) = (\<Sum>p \<leftarrow> ps. f p)"
proof -
  have "mset (map f (by_creation s ps)) = mset (map f ps)" by simp
  then show ?thesis by (metis sum_mset_sum_list)
qed

lemma ready_weaken: "ready_to_shrink lo ps s \<Longrightarrow> ready_to_shrink (\<lambda>_. 0) ps s"
  by (force simp: ready_to_shrink_def)

text \<open>
  What a reduction of the sizes \<open>y\<close> to \<open>x\<close> leaves of the available pods \<open>a\<close>.
\<close>

lemma sum_min_ge:
  fixes a x y :: "'a \<Rightarrow> int"
  assumes "\<And>n. n \<in> N \<Longrightarrow> a n \<le> y n \<and> x n \<le> y n"
  shows "(\<Sum>n \<in> N. a n) - (\<Sum>n \<in> N. y n - x n) \<le> (\<Sum>n \<in> N. min (a n) (x n))"
proof -
  have "(\<Sum>n \<in> N. a n - (y n - x n)) \<le> (\<Sum>n \<in> N. min (a n) (x n))" by (rule sum_mono) (use assms in force)
  then show ?thesis by (simp add: sum_subtractf)
qed

lemma GetReplicaCount_objs: "GetReplicaCountForReplicaSets (objs s (map Some ps)) = int32 (\<Sum>p \<leftarrow> ps. rs_Replicas (obj s p))"
  using GetReplicaCount_eq [of "map (obj s) ps"] by (simp add: comp_def)

lemma shrinks_by_creation: "shrinks lo (by_creation t ps) s s' \<longleftrightarrow> shrinks lo ps s s'"
  by (simp add: shrinks_def names_by_creation)

lemma loss_by_creation: "loss (by_creation t ps) s s' = loss ps s s'"
  unfolding loss_def by (rule sum_list_by_creation)

text \<open>The deployment, its bounds and the replica sets as a rolling update finds them.\<close>

definition rolling :: "Deployment \<Rightarrow> int \<Rightarrow> int \<Rightarrow> bool" where
  "rolling d surge unavailable \<longleftrightarrow>
     (\<exists>mu ms. d_Strategy d = RollingUpdate mu ms \<and> ResolveFenceposts ms mu (d_Replicas d) = Inr (surge, unavailable)) \<and>
     0 \<le> d_Replicas d \<and> 0 \<le> surge \<and> 0 \<le> unavailable"

lemma rolling_fenceposts:
  "rolling d surge unavailable \<Longrightarrow>
    ResolveFenceposts (MaxSurge (d_Strategy d)) (MaxUnavailable (d_Strategy d)) (d_Replicas d) = Inr (surge, unavailable)"
  by (auto simp: rolling_def)

definition split_ok :: "(LabelSelector option \<Rightarrow> int) \<Rightarrow> nat list \<Rightarrow> nat \<Rightarrow> DeploymentController \<Rightarrow> bool" where
  "split_ok av olds new s \<longleftrightarrow> ready_to_shrink av (new # olds) s"

lemma split_okD:
  assumes "split_ok av olds new s"
  shows "ready_to_shrink av olds s" and "current s new" and "rs_Name (obj s new) \<notin> set (names s olds)"
    and "0 \<le> av (rs_Selector (obj s new))" and "av (rs_Selector (obj s new)) \<le> rs_Replicas (obj s new)"
  using assms by (auto simp: split_ok_def ready_Cons)

lemma scale_down_old_effect:
  assumes api: "api_ok api" and sees: "sees env api (dx_dep s) av" and rolling: "rolling (dx_dep s) surge unavailable"
    and ok: "split_ok av olds new s"
    and small: "(\<Sum>p \<leftarrow> olds. rs_Replicas (obj s p)) + rs_Replicas (obj s new) + d_Replicas (dx_dep s) + unavailable < 2 ^ 31"
    and run: "scaleDownOldReplicaSetsForRollingUpdate env api (map Some olds @ [Some new]) olds s = (r, s')"
  defines "A \<equiv> (\<Sum>p \<leftarrow> olds. av (rs_Selector (obj s p))) + av (rs_Selector (obj s new))"
    and "B \<equiv> d_Replicas (dx_dep s) - unavailable"
  shows "shrinks (\<lambda>_. 0) olds s s'" and "0 \<le> loss olds s s'" and "loss olds s s' \<le> max 0 (A - B)"
    and "r = Inr t \<Longrightarrow> t = loss olds s s' \<and> t = max 0 (min (\<Sum>p \<leftarrow> olds. rs_Replicas (obj s p)) (A - B))"
proof -
  note o = split_okD [OF ok]
  have nn: "0 \<le> d_Replicas (dx_dep s)" "0 \<le> unavailable" using rolling by (simp_all add: rolling_def)
  have R0: "0 \<le> (\<Sum>p \<leftarrow> olds. rs_Replicas (obj s p))" using o(1) by (intro sum_list_nonneg) (force simp: ready_to_shrink_def)
  have AR: "(\<Sum>p \<leftarrow> olds. av (rs_Selector (obj s p))) \<le> (\<Sum>p \<leftarrow> olds. rs_Replicas (obj s p))"
    using o(1) by (intro sum_list_mono) (simp add: ready_to_shrink_def)
  have A0: "0 \<le> A" using o(1,4) by (auto simp: A_def ready_to_shrink_def intro!: add_nonneg_nonneg sum_list_nonneg)
  have small': "A < 2 ^ 31" "B < 2 ^ 31" "- (2 ^ 31) \<le> B" "A - B < 2 ^ 31" "- (2 ^ 31) \<le> A"
    using small AR o(4,5) nn R0 A0 unfolding A_def B_def by linarith+
  have wB: "int32 (d_Replicas (dx_dep s) - unavailable) = B" using small' by (simp add: B_def)
  obtain c s1 where c: "GetAvailablePodsForReplicaSets env api (map Some (olds @ [new])) (d_MinReadySeconds (dx_dep s)) s = (c, s1)"
    by fastforce
  have s1: "s1 = tick s" by (rule GetAvailable_sees(1) [OF sees c])
  have cA: "n = A" if "c = Inr n" for n
    using GetAvailable_sees(2) [OF sees c that] small' by (simp add: A_def)
  have same: "shrinks (\<lambda>_. 0) olds s s1 \<and> loss olds s s1 = 0"
    by (rule shrinks_refl [OF ready_weaken [OF o(1)]]) (simp_all add: s1)
  have "shrinks (\<lambda>_. 0) olds s s' \<and> 0 \<le> loss olds s s' \<and> loss olds s s' \<le> max 0 (A - B) \<and>
      (r = Inr t \<longrightarrow> t = loss olds s s' \<and> t = max 0 (min (\<Sum>p \<leftarrow> olds. rs_Replicas (obj s p)) (A - B)))" for t
  proof (cases "\<exists>e. c = Inl e")
    case True
    then have "s' = s1" "\<exists>e. r = Inl e"
      using run c rolling_fenceposts [OF rolling] by (auto simp: scaleDownOldReplicaSetsForRollingUpdate_def Let_def)
    then show ?thesis using same by auto
  next
    case False
    then have cI: "c = Inr A" using cA by (cases c) auto
    show ?thesis
    proof (cases "A \<le> B")
      case True
      then have "s' = s1" "r = Inr 0"
        using run c cI wB rolling_fenceposts [OF rolling] by (auto simp: scaleDownOldReplicaSetsForRollingUpdate_def Let_def)
      then show ?thesis using same True R0 by auto
    next
      case False
      have w: "int32 (A - B) = A - B" by (rule int32_in_range) (use small' False in linarith)+
      have "scale_down_loop api (A - B) (by_creation s1 olds) 0 s1 = (r, s')"
        using run c cI wB w False rolling_fenceposts [OF rolling] by (simp add: scaleDownOldReplicaSetsForRollingUpdate_def Let_def)
      moreover have "ready_to_shrink (\<lambda>_. 0) (by_creation s1 olds) s1"
        unfolding ready_by_creation by (rule ready_moves(1) [OF ready_weaken [OF o(1)] moves_frame [where h = "[]" and ns = "{}"]]) (simp_all add: s1)
      ultimately have e: "shrinks (\<lambda>_. 0) olds s1 s' \<and> 0 \<le> loss olds s1 s' \<and> 0 + loss olds s1 s' \<le> A - B \<and>
          (\<forall>t. r = Inr t \<longrightarrow> t = 0 + loss olds s1 s' \<and> t = min (0 + (\<Sum>p \<leftarrow> olds. rs_Replicas (obj s1 p))) (A - B))"
        using scale_down_effect [OF api, of "A - B" "by_creation s1 olds" 0 s1 r s'] small'(4) False
        unfolding shrinks_by_creation loss_by_creation sum_list_by_creation by simp
      have "shrinks (\<lambda>_. 0) olds s s' = shrinks (\<lambda>_. 0) olds s1 s'" "loss olds s s' = loss olds s1 s'"
        by (simp_all add: s1 shrinks_def loss_def names_def moves_def)
      moreover have "max 0 (min (\<Sum>p \<leftarrow> olds. rs_Replicas (obj s p)) (A - B)) = min (\<Sum>p \<leftarrow> olds. rs_Replicas (obj s1 p)) (A - B)"
        "max 0 (A - B) = A - B" using False R0 by (simp_all add: s1)
      ultimately show ?thesis using e by simp
    qed
  qed
  then show "shrinks (\<lambda>_. 0) olds s s'" "0 \<le> loss olds s s'" "loss olds s s' \<le> max 0 (A - B)"
    "r = Inr t \<Longrightarrow> t = loss olds s s' \<and> t = max 0 (min (\<Sum>p \<leftarrow> olds. rs_Replicas (obj s p)) (A - B))" by blast+
qed

lemma renewed_nth:
  assumes "renewed ps s ps' s'" and "p' \<in> set ps'"
  obtains p where "p \<in> set ps" "rs_Name (obj s' p') = rs_Name (obj s p)" "rs_Selector (obj s' p') = rs_Selector (obj s p)"
proof -
  have e: "names s' ps' = names s ps" "map (\<lambda>p. rs_Selector (obj s' p)) ps' = map (\<lambda>p. rs_Selector (obj s p)) ps"
    using assms(1) by (simp_all add: renewed_def)
  have l: "length ps' = length ps" using e(2) by (metis length_map)
  obtain i where i: "i < length ps'" "p' = ps' ! i" using assms(2) by (metis in_set_conv_nth)
  have "rs_Name (obj s' p') = rs_Name (obj s (ps ! i))" using arg_cong [OF e(1), of "\<lambda>l. l ! i"] i l by (simp add: names_def)
  moreover have "rs_Selector (obj s' p') = rs_Selector (obj s (ps ! i))" using arg_cong [OF e(2), of "\<lambda>l. l ! i"] i l by simp
  ultimately show ?thesis using that [of "ps ! i"] i l by simp
qed

lemma renewed_ready:
  assumes "ready_to_shrink lo ps s" and "shrinks lo ps s s'" and "renewed ps s ps' s'"
  shows "ready_to_shrink lo ps' s'"
proof -
  have d: "distinct (names s' ps')" using assms(1,3) by (simp add: renewed_def ready_to_shrink_def)
  have "current s' q \<and> 0 \<le> lo (rs_Selector (obj s' q)) \<and> lo (rs_Selector (obj s' q)) \<le> rs_Replicas (obj s' q) \<and>
      rs_Replicas (obj s' q) < 2 ^ 31" if q: "q \<in> set ps'" for q
  proof -
    obtain p where p: "p \<in> set ps" "rs_Name (obj s' q) = rs_Name (obj s p)" "rs_Selector (obj s' q) = rs_Selector (obj s p)"
      by (rule renewed_nth [OF assms(3) q])
    have c: "current s' q" using assms(3) q by (simp add: renewed_def)
    then have "rs_Replicas (obj s' q) = srv (dx_server s') (rs_Name (obj s p))" using p(2) by (simp add: current_def)
    then show ?thesis using assms(1,2) p c by (force simp: shrinks_def ready_to_shrink_def)
  qed
  then show ?thesis using d by (simp add: ready_to_shrink_def)
qed

lemma renewed_sums:
  assumes "renewed ps s ps' s'"
  shows "(\<Sum>p \<leftarrow> ps'. f (rs_Selector (obj s' p))) = (\<Sum>p \<leftarrow> ps. f (rs_Selector (obj s p)))"
proof -
  have "map f (map (\<lambda>p. rs_Selector (obj s' p)) ps') = map f (map (\<lambda>p. rs_Selector (obj s p)) ps)"
    using assms by (simp only: renewed_def)
  then have "map (\<lambda>p. f (rs_Selector (obj s' p))) ps' = map (\<lambda>p. f (rs_Selector (obj s p))) ps" by (simp add: comp_def)
  then show ?thesis by (rule arg_cong)
qed

lemma renewed_loss:
  assumes "renewed ps s ps' s'"
  shows "(\<Sum>p \<leftarrow> ps'. rs_Replicas (obj s' p)) = (\<Sum>p \<leftarrow> ps. rs_Replicas (obj s p)) - loss ps s s'"
proof -
  have "map (\<lambda>p. rs_Replicas (obj s' p)) ps' = map (srv (dx_server s')) (names s' ps')"
    unfolding names_def map_map by (rule map_cong) (use assms in \<open>simp_all add: renewed_def current_def\<close>)
  also have "\<dots> = map (srv (dx_server s')) (names s ps)" using assms by (simp add: renewed_def)
  also have "\<dots> = map (\<lambda>p. srv (dx_server s') (rs_Name (obj s p))) ps" by (simp add: names_def)
  finally have "(\<Sum>p \<leftarrow> ps'. rs_Replicas (obj s' p)) = (\<Sum>p \<leftarrow> ps. srv (dx_server s') (rs_Name (obj s p)))" by (rule arg_cong)
  then show ?thesis by (simp add: loss_def sum_list_subtractf)
qed

lemma shrinks_zero:
  assumes "ready_to_shrink lo ps s" and "shrinks lo ps s s'"
  shows "shrinks (\<lambda>_. 0) ps s s'"
  using assms by (force simp: shrinks_def ready_to_shrink_def)

lemma shrinks_trans:
  assumes "ready_to_shrink (\<lambda>_. 0) ps s" and "shrinks (\<lambda>_. 0) ps s s'" and "shrinks (\<lambda>_. 0) ps' s' s''" and "renewed ps s ps' s'"
  shows "shrinks (\<lambda>_. 0) ps s s''"
proof -
  have n: "set (names s' ps') = set (names s ps)" using assms(4) by (simp add: renewed_def)
  have r: "ready_to_shrink (\<lambda>_. 0) ps' s'" by (rule renewed_ready [OF assms(1,2,4)])
  have m: "moves (set (names s ps)) s s''"
    using moves_trans [of "set (names s ps)" s s' "set (names s ps)" s''] assms(2,3) n by (simp add: shrinks_def)
  have "0 \<le> srv (dx_server s'') (rs_Name (obj s p)) \<and> srv (dx_server s'') (rs_Name (obj s p)) \<le> rs_Replicas (obj s p)" if p: "p \<in> set ps" for p
  proof -
    have i: "rs_Name (obj s p) \<in> set (names s ps)" using p by (simp add: names_def)
    then have "srv (dx_server s'') (rs_Name (obj s p)) \<le> srv (dx_server s') (rs_Name (obj s p))"
      using shrinks_names(1) [OF r assms(3)] n by simp
    moreover obtain q where "q \<in> set ps'" "rs_Name (obj s p) = rs_Name (obj s' q)" using i n by (auto simp: names_def)
    then have "0 \<le> srv (dx_server s'') (rs_Name (obj s p))" using assms(3) by (simp add: shrinks_def)
    ultimately show ?thesis using assms(2) p by (force simp: shrinks_def)
  qed
  then show ?thesis using m by (simp add: shrinks_def)
qed

section \<open>Reconciling the old replica sets\<close>

lemma cleanup_keeps_available:
  assumes "ready_to_shrink av ps s" and "shrinks av ps s s'"
  shows "(\<Sum>n \<in> set (names s ps). min (avs av (dx_server s) n) (srv (dx_server s') n)) = (\<Sum>p \<leftarrow> ps. av (rs_Selector (obj s p)))"
proof -
  have "(\<Sum>n \<in> set (names s ps). min (avs av (dx_server s) n) (srv (dx_server s') n)) = (\<Sum>n \<in> set (names s ps). avs av (dx_server s) n)"
    by (rule sum.cong) (use shrinks_names(1) [OF assms] in auto)
  also have "\<dots> = (\<Sum>p \<leftarrow> ps. av (rs_Selector (obj s p)))"
    by (rule sum_names [symmetric]) (use assms(1) in \<open>auto simp: ready_to_shrink_def avs_current\<close>)
  finally show ?thesis .
qed

lemma scale_down_keeps_available:
  assumes "ready_to_shrink av ps s" and "shrinks (\<lambda>_. 0) ps s s'"
  shows "(\<Sum>p \<leftarrow> ps. av (rs_Selector (obj s p))) - loss ps s s' \<le>
    (\<Sum>n \<in> set (names s ps). min (avs av (dx_server s) n) (srv (dx_server s') n))"
proof -
  have "(\<Sum>p \<leftarrow> ps. av (rs_Selector (obj s p))) = (\<Sum>n \<in> set (names s ps). avs av (dx_server s) n)"
    by (rule sum_names) (use assms(1) in \<open>auto simp: ready_to_shrink_def avs_current\<close>)
  moreover have "avs av (dx_server s) n \<le> srv (dx_server s) n \<and> srv (dx_server s') n \<le> srv (dx_server s) n" if n: "n \<in> set (names s ps)" for n
  proof -
    obtain p where "p \<in> set ps" "n = rs_Name (obj s p)" using n by (auto simp: names_def)
    then have "avs av (dx_server s) n \<le> srv (dx_server s) n" using assms(1) by (auto simp: ready_to_shrink_def avs_current current_def)
    then show ?thesis using shrinks_names(1) [OF ready_weaken [OF assms(1)] assms(2) n] by simp
  qed
  ultimately show ?thesis
    using sum_min_ge [of "set (names s ps)" "avs av (dx_server s)" "srv (dx_server s)" "srv (dx_server s')"]
    by (simp add: shrinks_names(2) [OF ready_weaken [OF assms(1)] assms(2)])
qed

lemma reconcile_old_effect:
  assumes api: "api_ok api" and sees: "sees env api (dx_dep s) av" and rolling: "rolling (dx_dep s) surge unavailable"
    and ok: "split_ok av olds new s"
    and small: "(\<Sum>p \<leftarrow> olds. rs_Replicas (obj s p)) + rs_Replicas (obj s new) + d_Replicas (dx_dep s) + unavailable < 2 ^ 31"
    and run: "reconcileOldReplicaSets env api (map Some olds @ [Some new]) olds new s = (r, s')"
  defines "A \<equiv> (\<Sum>p \<leftarrow> olds. av (rs_Selector (obj s p))) + av (rs_Selector (obj s new))"
    and "B \<equiv> d_Replicas (dx_dep s) - unavailable"
  shows "shrinks (\<lambda>_. 0) olds s s'"
    and "min A B \<le> (\<Sum>n \<in> set (names s olds). min (avs av (dx_server s) n) (srv (dx_server s') n)) + av (rs_Selector (obj s new))"
proof -
  note o = split_okD [OF ok]
  let ?R = "\<Sum>p \<leftarrow> olds. rs_Replicas (obj s p)" and ?a = "av (rs_Selector (obj s new))"
  define kept where "kept t \<longleftrightarrow> shrinks (\<lambda>_. 0) olds s t \<and>
      min A B \<le> (\<Sum>n \<in> set (names s olds). min (avs av (dx_server s) n) (srv (dx_server t) n)) + ?a" for t
  have keptI: "kept t" if "shrinks av olds s t" for t
    using shrinks_zero [OF o(1) that] cleanup_keeps_available [OF o(1) that] by (simp add: kept_def A_def)
  have nn: "0 \<le> d_Replicas (dx_dep s)" "0 \<le> unavailable" using rolling by (simp_all add: rolling_def)
  have R0: "0 \<le> ?R" using o(1) by (intro sum_list_nonneg) (force simp: ready_to_shrink_def)
  have w: "int32 ?R = ?R" "int32 (?R + rs_Replicas (obj s new)) = ?R + rs_Replicas (obj s new)"
    "int32 (d_Replicas (dx_dep s) - unavailable) = B" "int32 (?R + rs_Replicas (obj s new) - B) = ?R + rs_Replicas (obj s new) - B"
    "int32 (rs_Replicas (obj s new) - ?a) = rs_Replicas (obj s new) - ?a"
    "int32 (?R + rs_Replicas (obj s new) - B - (rs_Replicas (obj s new) - ?a)) = ?R + ?a - B"
    using small nn R0 o(4,5) unfolding B_def by (simp_all add: int32_in_range)
  have cnt: "GetReplicaCountForReplicaSets (objs s (map Some olds @ [Some new])) = ?R + rs_Replicas (obj s new)"
    using GetReplicaCount_objs [of s "olds @ [new]"] w(2) by simp
  have cnt0: "GetReplicaCountForReplicaSets (objs s (map Some olds)) = ?R" unfolding GetReplicaCount_objs by (rule w(1))
  obtain c s1 where c: "GetAvailablePodsForReplicaSets env api (map Some [new]) (d_MinReadySeconds (dx_dep s)) s = (c, s1)" by fastforce
  have s1: "s1 = tick s" by (rule GetAvailable_sees(1) [OF sees c])
  have ca: "n = ?a" if "c = Inr n" for n using GetAvailable_sees(2) [OF sees c that] o(4,5) small nn R0 by simp
  have same: "kept s" "kept s1" using shrinks_refl [OF o(1), of s] shrinks_refl [OF o(1), of s1] s1 by (auto intro: keptI)
  have unf: "(r, s') = (if ?R = 0 then (Inr False, s)
      else case c of
        Inl err \<Rightarrow> (Inl err, s1)
      | Inr x \<Rightarrow>
          if ?R + ?a - B \<le> 0 then (Inr False, s1)
          else case cleanupUnhealthyReplicas env api olds (d_MinReadySeconds (dx_dep s)) (?R + ?a - B) s1 of
              (Inl err, s) \<Rightarrow> (Inr False, s)
            | (Inr (oldRSs, cleanupCount), s) \<Rightarrow>
                (case scaleDownOldReplicaSetsForRollingUpdate env api (map Some oldRSs @ [Some new]) oldRSs s of
                   (Inl err, s) \<Rightarrow> (Inr False, s)
                 | (Inr scaledDownCount, s) \<Rightarrow> (Inr (int32 (cleanupCount + scaledDownCount) > 0), s)))"
  proof -
    define P U M where "P = ?R + rs_Replicas (obj s new)" and "U = rs_Replicas (obj s new) - ?a" and "M = ?R + ?a - B"
    have e: "int32 (P - B) = P - B" "int32 (rs_Replicas (obj s new) - ?a) = U" "int32 (P - B - U) = M"
      using w(4-6) by (simp_all only: P_def U_def M_def)
    show ?thesis
      using run [symmetric] c s1 ca w(3) rolling_fenceposts [OF rolling] cnt [folded P_def] cnt0 e unfolding M_def [symmetric]
      by (cases c; cases "?R = 0"; cases "M \<le> 0") (simp_all add: reconcileOldReplicaSets_def Let_def del: map_map map_append)
  qed
  have "kept s'"
  proof (cases "?R = 0 \<or> (\<exists>e. c = Inl e) \<or> ?R + ?a - B \<le> 0")
    case True
    then have "s' = s \<or> s' = s1"
      using unf by (cases c) (auto split: if_splits)
    then show ?thesis using same by auto
  next
    case False
    then have cI: "c = Inr ?a" using ca by (cases c) auto
    obtain k s2 where k: "cleanupUnhealthyReplicas env api olds (d_MinReadySeconds (dx_dep s)) (?R + ?a - B) s1 = (k, s2)" by fastforce
    have m1: "moves {} s s1" by (rule moves_frame [where h = "[]"]) (simp_all add: s1)
    have r1: "ready_to_shrink av olds s1" "ready_to_shrink av (by_creation s1 olds) s1"
      unfolding ready_by_creation using ready_moves(1) [OF o(1) m1] by simp_all
    have "shrinks av (by_creation s1 olds) s1 s2 \<and> 0 \<le> loss (by_creation s1 olds) s1 s2 \<and> 0 + loss (by_creation s1 olds) s1 s2 \<le> ?R + ?a - B \<and>
        (\<forall>ps' t. k = Inr (ps', t) \<longrightarrow> renewed (by_creation s1 olds) s1 ps' s2 \<and> t = 0 + loss (by_creation s1 olds) s1 s2)"
      by (rule cleanup_effect [OF api sees _ k [unfolded cleanupUnhealthyReplicas_def] _ r1(2)])
        (use False small nn R0 o(4,5) in \<open>auto simp: s1 B_def\<close>)
    then have e0: "0 \<le> loss (by_creation s1 olds) s1 s2" and
      e: "shrinks av olds s1 s2" "\<And>ps' t. k = Inr (ps', t) \<Longrightarrow> renewed (by_creation s1 olds) s1 ps' s2"
      by (auto simp: shrinks_by_creation)
    have e': "shrinks av olds s s2" using e(1) by (simp add: s1 shrinks_def names_def moves_def)
    show ?thesis
    proof (cases k)
      case (Inl err)
      then have "s' = s2" using unf cI False k by simp
      then show ?thesis using keptI [OF e'] by simp
    next
      case (Inr x)
      then obtain olds' t where kI: "k = Inr (olds', t)" by (cases x) auto
      obtain u s3 where u: "scaleDownOldReplicaSetsForRollingUpdate env api (map Some olds' @ [Some new]) olds' s2 = (u, s3)" by fastforce
      have s3: "s' = s3"
        using unf cI False k kI u by (cases u) simp_all
      have ren: "renewed (by_creation s1 olds) s1 olds' s2" by (rule e(2) [OF kI])
      have r2: "ready_to_shrink av olds' s2" by (rule renewed_ready [OF r1(2) _ ren]) (simp add: shrinks_by_creation e(1))
      have N: "set (names s2 olds') = set (names s olds)"
        using ren by (simp add: renewed_def names_by_creation) (simp add: names_def s1)
      have mv: "moves (set (names s olds)) s s2" using e' by (simp add: shrinks_def)
      have new: "current s2 new" "obj s2 new = obj s new" using current_moves [OF o(2) mv o(3)] by simp_all
      have ok2: "split_ok av olds' new s2"
        using r2 new N o(3-5) small nn R0 by (simp add: split_ok_def ready_Cons)
      have sel: "(\<Sum>p \<leftarrow> olds'. av (rs_Selector (obj s2 p))) = (\<Sum>p \<leftarrow> olds. av (rs_Selector (obj s p)))"
        unfolding renewed_sums [OF ren] sum_list_by_creation by (simp add: s1)
      have rep: "(\<Sum>p \<leftarrow> olds'. rs_Replicas (obj s2 p)) \<le> ?R"
        unfolding renewed_loss [OF ren] sum_list_by_creation using e0 by (simp add: s1)
      have d2: "dx_dep s2 = dx_dep s" by (rule movesD(2) [OF mv])
      have small2: "(\<Sum>p \<leftarrow> olds'. rs_Replicas (obj s2 p)) + rs_Replicas (obj s2 new) + d_Replicas (dx_dep s2) + unavailable < 2 ^ 31"
        using small rep by (simp add: d2 new)
      note f = scale_down_old_effect [OF api _ _ ok2 small2 u, of surge, unfolded d2 sel new(2), OF sees rolling, folded A_def B_def]
      have "shrinks (\<lambda>_. 0) (by_creation s1 olds) s1 s3"
        by (rule shrinks_trans [OF ready_weaken [OF r1(2)] _ f(1) ren])
          (use shrinks_zero [OF r1(1) e(1)] in \<open>simp add: shrinks_by_creation\<close>)
      then have "shrinks (\<lambda>_. 0) olds s1 s3" by (simp add: shrinks_by_creation)
      then have sh: "shrinks (\<lambda>_. 0) olds s s3" by (simp add: s1 shrinks_def names_def moves_def)
      have "avs av (dx_server s2) = avs av (dx_server s)" by (rule avs_shape [OF movesD(1) [OF mv]])
      then have "(\<Sum>p \<leftarrow> olds. av (rs_Selector (obj s p))) - loss olds' s2 s3 \<le>
          (\<Sum>n \<in> set (names s olds). min (avs av (dx_server s) n) (srv (dx_server s3) n))"
        using scale_down_keeps_available [OF r2 f(1)] by (simp add: N sel)
      then show ?thesis using sh f(3) unfolding kept_def s3 A_def by linarith
    qed
  qed
  then show "shrinks (\<lambda>_. 0) olds s s'"
    "min A B \<le> (\<Sum>n \<in> set (names s olds). min (avs av (dx_server s) n) (srv (dx_server s') n)) + ?a" by (simp_all add: kept_def)
qed

end
