(* ===== verification/Deployment_Rollout.thy ===== *)
theory Deployment_Rollout
  imports Deployment_Safety
begin

text \<open>
  The whole synchronization of a rolling update: from the listed replica sets to the requests it
  sends, with the bounds on replicas and available pods.
\<close>

section \<open>Finding new and old replica sets\<close>

definition is_new :: "(PodTemplateSpec \<Rightarrow> 32 word) \<Rightarrow> Deployment \<Rightarrow> ReplicaSet \<Rightarrow> bool" where
  "is_new hash d rs \<longleftrightarrow> (rs_Template rs)\<lparr>pt_Labels := (pt_Labels (rs_Template rs))(DefaultDeploymentUniqueLabelKey \<mapsto>
     map_get '''' (pt_Labels (GetNewReplicaSetTemplate hash d)) DefaultDeploymentUniqueLabelKey)\<rparr> = GetNewReplicaSetTemplate hash d"

definition labelled :: "ReplicaSet \<Rightarrow> bool" where
  "labelled rs \<longleftrightarrow> pt_Labels (rs_Template rs) DefaultDeploymentUniqueLabelKey \<noteq> None"

lemma equalIgnoreHash_labelled:
  assumes "labelled rs"
  shows "equalIgnoreHash (rs_Template rs) (GetNewReplicaSetTemplate hash d) = Inr (is_new hash d rs, rs_Template rs)"
proof -
  have "pt_Labels (GetNewReplicaSetTemplate hash d) DefaultDeploymentUniqueLabelKey \<noteq> None"
    by (simp add: GetNewReplicaSetTemplate_def CloneAndAddLabel_def DefaultDeploymentUniqueLabelKey_def Let_def)
  then have ne: "pt_Labels (GetNewReplicaSetTemplate hash d) \<noteq> Map.empty" "pt_Labels (rs_Template rs) \<noteq> Map.empty"
    using assms by (auto simp: labelled_def)
  obtain v where "pt_Labels (rs_Template rs) DefaultDeploymentUniqueLabelKey = Some v" using assms by (auto simp: labelled_def)
  then have "(pt_Labels (rs_Template rs))(DefaultDeploymentUniqueLabelKey \<mapsto> map_get '''' (pt_Labels (rs_Template rs)) DefaultDeploymentUniqueLabelKey)
      = pt_Labels (rs_Template rs)" by (simp add: map_get_def fun_upd_idem)
  then show ?thesis using ne by (simp add: equalIgnoreHash_def is_new_def Let_def)
qed

lemma FindNew_eq:
  assumes "\<forall>rs \<in> set rsList. labelled rs"
  shows "FindNewReplicaSet hash d rsList = Inr (List.find (is_new hash d) rsList)"
  unfolding FindNewReplicaSet_def using assms
  by (induction rsList) (simp_all add: equalIgnoreHash_labelled)

definition by_name :: "ReplicaSet list \<Rightarrow> string \<rightharpoonup> ReplicaSet" where
  "by_name rss = map_of (map (\<lambda>rs. (rs_Name rs, rs)) rss)"

lemma by_name_Some: "distinct (map rs_Name rss) \<Longrightarrow> by_name rss n = Some rs \<longleftrightarrow> rs \<in> set rss \<and> rs_Name rs = n"
  by (auto simp: by_name_def comp_def)

lemma dom_by_name: "dom (by_name rss) = rs_Name ` set rss"
  by (simp add: by_name_def dom_map_of_conv_image_fst image_image)

lemma by_name_Cons_add:
  assumes "rs_Name rs \<notin> rs_Name ` set rss"
  shows "m(rs_Name rs \<mapsto> rs) ++ by_name rss = m ++ by_name (rs # rss)"
proof
  fix n
  have "by_name rss (rs_Name rs) = None" using assms dom_by_name [of rss] by (auto simp: dom_def)
  then show "(m(rs_Name rs \<mapsto> rs) ++ by_name rss) n = (m ++ by_name (rs # rss)) n"
    by (auto simp: by_name_def map_add_def split: option.splits)
qed

lemma find_old_rs_eq:
  assumes "find_old_rs env (GetNewReplicaSetTemplate hash d) podLabels rsList (old, all) = Inr (old', all')"
    and "\<forall>rs \<in> set rsList. labelled rs" and "distinct (map rs_Name rsList)"
  shows "all' = all ++ by_name (filter (\<lambda>rs. \<not> is_new hash d rs) rsList)"
  using assms
proof (induction rsList arbitrary: old all)
  case (Cons rs rsList)
  have l: "equalIgnoreHash (rs_Template rs) (GetNewReplicaSetTemplate hash d) = Inr (is_new hash d rs, rs_Template rs)"
    using Cons.prems(2) by (simp add: equalIgnoreHash_labelled)
  show ?case
  proof (cases "is_new hash d rs")
    case True
    then show ?thesis using Cons.prems l by (auto intro: Cons.IH split: sum.splits)
  next
    case False
    then obtain old'' where "find_old_rs env (GetNewReplicaSetTemplate hash d) podLabels rsList (old'', all(rs_Name rs \<mapsto> rs)) = Inr (old', all')"
      using Cons.prems(1) l by (auto simp: Let_def split: sum.splits)
    then have "all' = all(rs_Name rs \<mapsto> rs) ++ by_name (filter (\<lambda>rs. \<not> is_new hash d rs) rsList)"
      by (rule Cons.IH) (use Cons.prems in simp_all)
    also have "\<dots> = all ++ by_name (rs # filter (\<lambda>rs. \<not> is_new hash d rs) rsList)"
      by (rule by_name_Cons_add) (use Cons.prems(3) in auto)
    finally show ?thesis using False by simp
  qed
qed (simp add: by_name_def)

lemma map_add_twice [simp]: "m ++ m' ++ m' = m ++ m'"
  by (auto simp: map_add_def fun_eq_iff split: option.splits)

lemma find_old_eq:
  assumes "find_old env (GetNewReplicaSetTemplate hash d) rsList pods (old, all) = Inr (old', all')"
    and "\<forall>rs \<in> set rsList. labelled rs" and "distinct (map rs_Name rsList)"
  shows "all' = (if pods = [] then all else all ++ by_name (filter (\<lambda>rs. \<not> is_new hash d rs) rsList))"
  using assms
proof (induction pods arbitrary: old all)
  case (Cons pod pods)
  obtain old1 all1 where 1: "find_old_rs env (GetNewReplicaSetTemplate hash d) (pod_Labels pod) rsList (old, all) = Inr (old1, all1)"
    "find_old env (GetNewReplicaSetTemplate hash d) rsList pods (old1, all1) = Inr (old', all')"
    using Cons.prems(1) by (auto split: sum.splits)
  have "all1 = all ++ by_name (filter (\<lambda>rs. \<not> is_new hash d rs) rsList)" by (rule find_old_rs_eq [OF 1(1) Cons.prems(2,3)])
  then show ?case using Cons.IH [OF 1(2) Cons.prems(2,3)] by simp
qed simp

lemma FindOld_eq:
  assumes "FindOldReplicaSets env hash order d rsList pods = Inr (x, allOld)"
    and "\<forall>rs \<in> set rsList. labelled rs" and "distinct (map rs_Name rsList)" and "\<forall>m. dom m \<subseteq> rs_Name ` set rsList \<longrightarrow> range_of m (order m)"
  shows "distinct (map rs_Name allOld)" and "set allOld = (if pods = [] then {} else {rs \<in> set rsList. \<not> is_new hash d rs})"
proof -
  let ?olds = "filter (\<lambda>rs. \<not> is_new hash d rs) rsList"
  obtain old all where f: "find_old env (GetNewReplicaSetTemplate hash d) rsList pods (Map.empty, Map.empty) = Inr (old, all)"
    and a: "allOld = items_of all (order all)"
    using assms(1) by (auto simp: FindOldReplicaSets_def split: sum.splits)
  have all: "all = (if pods = [] then Map.empty else by_name ?olds)" using find_old_eq [OF f assms(2,3)] by simp
  have d: "distinct (map rs_Name ?olds)" using assms(3) by (rule distinct_map_filter)
  have r: "range_of all (order all)" by (rule assms(4) [rule_format]) (auto simp: all dom_by_name)
  show "set allOld = (if pods = [] then {} else {rs \<in> set rsList. \<not> is_new hash d rs})"
    unfolding a set_items_of_range [OF r] by (auto simp: all ran_def by_name_Some [OF d])
  show "distinct (map rs_Name allOld)"
    unfolding a by (rule distinct_items_of) (use r d in \<open>auto simp: range_of_def all by_name_Some split: if_splits\<close>)
qed

lemma alloc_all_eq:
  "alloc_all rss s = (ps, s') \<Longrightarrow> ps = [length (dx_heap s)..<length (dx_heap s) + length rss] \<and> s' = s\<lparr>dx_heap := dx_heap s @ rss\<rparr>"
proof (induction rss arbitrary: s ps)
  case (Cons rs rss)
  obtain ps0 where "alloc_all rss (s\<lparr>dx_heap := dx_heap s @ [rs]\<rparr>) = (ps0, s')" "ps = length (dx_heap s) # ps0"
    using Cons.prems by (auto simp: alloc_rs_def split: prod.splits)
  then show ?case using Cons.IH [of "s\<lparr>dx_heap := dx_heap s @ [rs]\<rparr>" ps0] by (simp add: upt_conv_Cons del: upt_Suc)
qed simp

lemma alloc_all_objs:
  assumes "alloc_all rss s = (ps, s')"
  shows "map (obj s') ps = rss"
  using alloc_all_eq [OF assms] by (auto simp: nth_append intro!: nth_equalityI)

section \<open>Totals\<close>

definition all_replicas :: "(string \<rightharpoonup> ReplicaSet) \<Rightarrow> int" where
  "all_replicas m = (\<Sum>n \<in> dom m. srv m n)"

text \<open>Pods that stay available when each replica set keeps its available pods as long as it can.\<close>

definition safe_pods :: "(LabelSelector option \<Rightarrow> int) \<Rightarrow> (string \<rightharpoonup> ReplicaSet) \<Rightarrow> int" where
  "safe_pods av m = (\<Sum>n \<in> dom m. min (avs av m n) (srv m n))"

lemma dom_shape: "dom (shape m) = dom m"
  by (auto simp: shape_def dom_def)

lemma shape_dom: "shape m = shape m' \<Longrightarrow> dom m = dom m'"
  by (metis dom_shape)

lemma totals_same:
  assumes "shape m = shape m'" and "srv m = srv m'"
  shows "all_replicas m = all_replicas m'" and "safe_pods av m = safe_pods av m'"
  using assms by (simp_all add: all_replicas_def safe_pods_def shape_dom [OF assms(1)] avs_shape [OF assms(1)])

lemma srv_upd: "srv (m(n \<mapsto> rs)) = (srv m)(n := rs_Replicas rs)" and avs_upd: "avs av (m(n \<mapsto> rs)) = (avs av m)(n := av (rs_Selector rs))"
  by (auto simp: srv_def avs_def)

lemma totals_create:
  assumes "finite (dom m)" and "m n = None"
  shows "all_replicas (m(n \<mapsto> rs)) = all_replicas m + rs_Replicas rs"
    and "safe_pods av (m(n \<mapsto> rs)) = safe_pods av m + min (av (rs_Selector rs)) (rs_Replicas rs)"
proof -
  have n: "n \<notin> dom m" using assms(2) by auto
  have "(\<Sum>x \<in> dom m. srv (m(n \<mapsto> rs)) x) = (\<Sum>x \<in> dom m. srv m x)"
    "(\<Sum>x \<in> dom m. min (avs av (m(n \<mapsto> rs)) x) (srv (m(n \<mapsto> rs)) x)) = (\<Sum>x \<in> dom m. min (avs av m x) (srv m x))"
    using n by (auto simp: srv_upd avs_upd intro!: sum.cong)
  then show "all_replicas (m(n \<mapsto> rs)) = all_replicas m + rs_Replicas rs"
    "safe_pods av (m(n \<mapsto> rs)) = safe_pods av m + min (av (rs_Selector rs)) (rs_Replicas rs)"
    using assms(1) n by (simp_all add: all_replicas_def safe_pods_def srv_upd avs_upd del: fun_upd_apply) (simp_all add: algebra_simps)
qed

text \<open>One replica set changes its size.\<close>

lemma totals_change:
  assumes "shape m' = shape m" and "srv m' = (srv m)(n := y)" and "finite (dom m)" and "n \<in> dom m"
  shows "all_replicas m' = all_replicas m - srv m n + y"
    and "safe_pods av m' = safe_pods av m - min (avs av m n) (srv m n) + min (avs av m n) y"
proof -
  note e = shape_dom [OF assms(1)] avs_shape [OF assms(1)]
  have "(\<Sum>x \<in> dom m - {n}. srv m' x) = (\<Sum>x \<in> dom m - {n}. srv m x)"
    "(\<Sum>x \<in> dom m - {n}. min (avs av m x) (srv m' x)) = (\<Sum>x \<in> dom m - {n}. min (avs av m x) (srv m x))"
    by (auto simp: assms(2) intro!: sum.cong)
  then show "all_replicas m' = all_replicas m - srv m n + y"
    "safe_pods av m' = safe_pods av m - min (avs av m n) (srv m n) + min (avs av m n) y"
    using assms(3,4) by (simp_all add: all_replicas_def safe_pods_def e sum.remove [of "dom m" n] assms(2) del: fun_upd_apply) simp_all
qed

section \<open>The new replica set\<close>

lemma NewRSNewReplicas_eq:
  assumes "rolling d surge unavailable" and "(\<Sum>rs \<leftarrow> rss. rs_Replicas rs) = C"
    and "0 \<le> rs_Replicas rs" "rs_Replicas rs \<le> C" "rs_Replicas rs \<le> d_Replicas d" "C < 2 ^ 31" "d_Replicas d + surge < 2 ^ 31"
  shows "NewRSNewReplicas d (map Some rss) rs =
    Inr (if C \<ge> d_Replicas d + surge then rs_Replicas rs
         else rs_Replicas rs + min (d_Replicas d + surge - C) (d_Replicas d - rs_Replicas rs))"
proof -
  obtain mu ms where d: "d_Strategy d = RollingUpdate mu ms" "ResolveFenceposts ms mu (d_Replicas d) = Inr (surge, unavailable)"
    "0 \<le> d_Replicas d" "0 \<le> surge"
    using assms(1) by (auto simp: rolling_def)
  obtain v where v: "GetValueFromIntOrPercent ms (d_Replicas d) True = Inr v" "int32 v = surge"
    using d(2) by (auto simp: ResolveFenceposts_def Let_def split: sum.splits)
  have w: "int32 C = C" "int32 (d_Replicas d + surge) = d_Replicas d + surge"
    "int32 (d_Replicas d - rs_Replicas rs) = d_Replicas d - rs_Replicas rs"
    "C < d_Replicas d + surge \<Longrightarrow> int32 (d_Replicas d + surge - C) = d_Replicas d + surge - C"
    using assms(3-7) d(3,4) by (intro int32_in_range; linarith)+
  have m: "int32 (rs_Replicas rs + min (d_Replicas d + surge - C) (d_Replicas d - rs_Replicas rs)) =
      rs_Replicas rs + min (d_Replicas d + surge - C) (d_Replicas d - rs_Replicas rs)" if "C < d_Replicas d + surge"
    using assms(3-7) d(3,4) that by (intro int32_in_range; linarith)
  show ?thesis
  proof (cases "C \<ge> d_Replicas d + surge")
    case True
    then show ?thesis using d(1) v w(1,2) assms(2) by (simp add: NewRSNewReplicas_def GetReplicaCount_eq)
  next
    case False
    then show ?thesis using d(1) v w assms(2) m by (simp add: NewRSNewReplicas_def GetReplicaCount_eq Let_def)
  qed
qed

text \<open>The replica sets that a synchronization has found, as the server has them.\<close>

definition found :: "(LabelSelector option \<Rightarrow> int) \<Rightarrow> nat list \<Rightarrow> nat \<Rightarrow> DeploymentController \<Rightarrow> bool" where
  "found av olds new s \<longleftrightarrow> split_ok av olds new s \<and> finite (dom (dx_server s)) \<and> set (names s (new # olds)) \<subseteq> dom (dx_server s) \<and>
     (\<forall>n. n \<notin> set (names s (new # olds)) \<longrightarrow> srv (dx_server s) n = 0) \<and>
     (\<forall>n. 0 \<le> avs av (dx_server s) n \<and> avs av (dx_server s) n \<le> srv (dx_server s) n) \<and>
     (\<forall>p \<in> set olds. av (rs_Selector (obj s p)) \<le> rs_StatusReplicas (obj s p))"

lemma found_total:
  assumes "found av olds new s"
  shows "all_replicas (dx_server s) = rs_Replicas (obj s new) + (\<Sum>p \<leftarrow> olds. rs_Replicas (obj s p))"
proof -
  have f: "ready_to_shrink av (new # olds) s" "set (names s (new # olds)) \<subseteq> dom (dx_server s)"
    "\<And>n. n \<notin> set (names s (new # olds)) \<Longrightarrow> srv (dx_server s) n = 0" "finite (dom (dx_server s))"
    using assms by (auto simp: found_def split_ok_def)
  have "all_replicas (dx_server s) = (\<Sum>n \<in> set (names s (new # olds)). srv (dx_server s) n)"
    unfolding all_replicas_def by (rule sum.mono_neutral_right [OF f(4,2)]) (use f(3) in auto)
  also have "\<dots> = (\<Sum>p \<leftarrow> new # olds. rs_Replicas (obj s p))"
    by (rule sum_names [symmetric]) (use f(1) in \<open>auto simp: ready_to_shrink_def current_def\<close>)
  finally show ?thesis by simp
qed

lemma sum_list_filter_pos: "(\<And>x. x \<in> set xs \<Longrightarrow> 0 \<le> f x) \<Longrightarrow> (\<Sum>x \<leftarrow> filter (\<lambda>x. f x > (0 :: int)) xs. f x) = (\<Sum>x \<leftarrow> xs. f x)"
  by (induction xs) (auto simp: order.order_iff_strict)

lemma found_active:
  assumes "found av olds new s"
  shows "found av (FilterActiveReplicaSets (obj s) olds) new s"
    and "(\<Sum>p \<leftarrow> FilterActiveReplicaSets (obj s) olds. rs_Replicas (obj s p)) = (\<Sum>p \<leftarrow> olds. rs_Replicas (obj s p))"
proof -
  let ?act = "FilterActiveReplicaSets (obj s) olds"
  have f: "ready_to_shrink av (new # olds) s" using assms by (simp add: found_def split_ok_def)
  have sub: "set ?act \<subseteq> set olds" by (auto simp: FilterActiveReplicaSets_def)
  have r: "ready_to_shrink av (new # ?act) s"
    using f sub by (auto simp: ready_to_shrink_def names_def FilterActiveReplicaSets_def intro: distinct_map_filter)
  have z: "srv (dx_server s) n = 0" if n: "n \<notin> set (names s (new # ?act))" for n
  proof (cases "n \<in> set (names s olds)")
    case True
    then obtain p where p: "p \<in> set olds" "n = rs_Name (obj s p)" by (auto simp: names_def)
    then have "p \<notin> set ?act" using n by (auto simp: names_def)
    then have "rs_Replicas (obj s p) \<le> 0" using p(1) by (simp add: FilterActiveReplicaSets_def)
    then show ?thesis using f p by (force simp: ready_to_shrink_def current_def)
  next
    case False
    then show ?thesis using n assms by (simp add: found_def names_def)
  qed
  have "set (names s (new # ?act)) \<subseteq> set (names s (new # olds))" using sub by (auto simp: names_def)
  then have "set (names s (new # ?act)) \<subseteq> dom (dx_server s)" using assms by (auto simp: found_def)
  then show "found av ?act new s" using assms r z sub unfolding found_def split_ok_def by blast
  show "(\<Sum>p \<leftarrow> ?act. rs_Replicas (obj s p)) = (\<Sum>p \<leftarrow> olds. rs_Replicas (obj s p))"
    unfolding FilterActiveReplicaSets_def by (rule sum_list_filter_pos) (use f in \<open>force simp: ready_to_shrink_def\<close>)
qed

lemma foundD:
  assumes "found av olds new s"
  shows "split_ok av olds new s" and "finite (dom (dx_server s))" and "set (names s (new # olds)) \<subseteq> dom (dx_server s)"
    and "n \<notin> set (names s (new # olds)) \<Longrightarrow> srv (dx_server s) n = 0"
    and "0 \<le> avs av (dx_server s) n" and "avs av (dx_server s) n \<le> srv (dx_server s) n"
    and "p \<in> set olds \<Longrightarrow> av (rs_Selector (obj s p)) \<le> rs_StatusReplicas (obj s p)"
  using assms unfolding found_def by blast+

lemma found_new:
  assumes "found av olds new s"
  shows "rs_Name (obj s new) \<in> dom (dx_server s)" and "srv (dx_server s) (rs_Name (obj s new)) = rs_Replicas (obj s new)"
    and "avs av (dx_server s) (rs_Name (obj s new)) = av (rs_Selector (obj s new))" and "0 \<le> rs_Replicas (obj s new)"
    and "0 \<le> (\<Sum>p \<leftarrow> olds. rs_Replicas (obj s p))"
proof -
  note f = foundD [OF assms]
  have c: "current s new" "0 \<le> av (rs_Selector (obj s new))" "av (rs_Selector (obj s new)) \<le> rs_Replicas (obj s new)"
    "ready_to_shrink av olds s" using split_okD [OF f(1)] by simp_all
  show "rs_Name (obj s new) \<in> dom (dx_server s)" using f(3) by (simp add: names_def)
  show "srv (dx_server s) (rs_Name (obj s new)) = rs_Replicas (obj s new)" using c by (simp add: current_def)
  show "avs av (dx_server s) (rs_Name (obj s new)) = av (rs_Selector (obj s new))" by (rule avs_current [OF c(1)])
  show "0 \<le> rs_Replicas (obj s new)" using c by simp
  show "0 \<le> (\<Sum>p \<leftarrow> olds. rs_Replicas (obj s p))" using c(4) by (intro sum_list_nonneg) (force simp: ready_to_shrink_def)
qed

lemma reconcile_new_effect:
  assumes api: "api_ok api" and rolling: "rolling (dx_dep s) surge unavailable" and found: "found av olds new s"
    and small: "all_replicas (dx_server s) + d_Replicas (dx_dep s) + surge < 2 ^ 31"
    and run: "reconcileNewReplicaSet api (map Some olds @ [Some new]) new s = (r, s')"
  shows "moves {rs_Name (obj s new)} s s'" and "r = Inr False \<Longrightarrow> s' = s"
    and "\<exists>y. srv (dx_server s') = (srv (dx_server s))(rs_Name (obj s new) := y) \<and> min (rs_Replicas (obj s new)) (d_Replicas (dx_dep s)) \<le> y \<and>
      all_replicas (dx_server s) - rs_Replicas (obj s new) + y \<le> max (all_replicas (dx_server s)) (d_Replicas (dx_dep s) + surge)"
proof -
  let ?R = "rs_Replicas (obj s new)" and ?D = "d_Replicas (dx_dep s)" and ?C = "all_replicas (dx_server s)" and ?n = "rs_Name (obj s new)"
  note n = found_new [OF found]
  have D: "0 \<le> ?D" "0 \<le> surge" using rolling by (auto simp: rolling_def)
  have RC: "?R \<le> ?C" "0 \<le> ?C" using n(4,5) found_total [OF found] by simp_all
  have cur: "current s new" by (rule split_okD(2) [OF foundD(1) [OF found]])
  define goal where "goal \<longleftrightarrow> moves {?n} s s' \<and> (r = Inr False \<longrightarrow> s' = s) \<and>
      (\<exists>y. srv (dx_server s') = (srv (dx_server s))(?n := y) \<and> min ?R ?D \<le> y \<and> ?C - ?R + y \<le> max ?C (?D + surge))"
  have same: goal if "s' = s" using that n(2) RC unfolding goal_def by (auto intro!: exI [of _ ?R])
  have scale: goal if sc: "scaleReplicaSetAndRecordEvent api new y s = (r0, s')" and r: "\<And>b. r = Inr b \<longleftrightarrow> (\<exists>p. r0 = Inr (b, p))"
    and y: "min ?R ?D \<le> y" "?C - ?R + y \<le> max ?C (?D + surge)" for y r0
    using api cur sc
  proof (cases rule: scale_effect)
    case (Failed e)
    then show ?thesis using r [of False] n(2) RC unfolding goal_def by (auto intro!: exI [of _ ?R])
  next
    case (Scaled b q)
    have "s' = s" if F: "r = Inr False"
    proof -
      have "y = ?R" using r [of False] F Scaled(1,8) by auto
      then show ?thesis using sc by (simp add: scaleReplicaSetAndRecordEvent_def)
    qed
    then show ?thesis using Scaled y unfolding goal_def by blast
  qed
  have goal
  proof (cases "?R = ?D \<or> ?R > ?D")
    case True
    then show ?thesis
    proof
      assume "?R = ?D"
      then have "s' = s" using run by (simp add: reconcileNewReplicaSet_def)
      then show goal by (rule same)
    next
      assume gt: "?R > ?D"
      obtain r0 s2 where sc: "scaleReplicaSetAndRecordEvent api new ?D s = (r0, s2)" by fastforce
      have "s2 = s'" "\<And>b. r = Inr b \<longleftrightarrow> (\<exists>p. r0 = Inr (b, p))"
        using run gt sc by (auto simp: reconcileNewReplicaSet_def split: sum.splits prod.splits)
      then show goal using sc gt by (intro scale [of ?D r0]) auto
    qed
  next
    case False
    define x where "x = (if ?C \<ge> ?D + surge then ?R else ?R + min (?D + surge - ?C) (?D - ?R))"
    have all: "objs s (map Some olds @ [Some new]) = map Some (map (obj s) (olds @ [new]))" by (simp add: comp_def)
    have "NewRSNewReplicas (dx_dep s) (objs s (map Some olds @ [Some new])) (obj s new) = Inr x"
      unfolding all x_def
      by (rule NewRSNewReplicas_eq [OF rolling]) (use False RC n(4,5) small D found_total [OF found] in \<open>auto simp: comp_def\<close>)
    moreover obtain r0 s2 where sc: "scaleReplicaSetAndRecordEvent api new x s = (r0, s2)" by fastforce
    ultimately have "s2 = s'" "\<And>b. r = Inr b \<longleftrightarrow> (\<exists>p. r0 = Inr (b, p))"
      using run False sc by (auto simp: reconcileNewReplicaSet_def simp del: map_append map_map split: sum.splits prod.splits)
    moreover have "min ?R ?D \<le> x" "?C - ?R + x \<le> max ?C (?D + surge)" using False by (auto simp: x_def)
    ultimately show ?thesis using sc by (intro scale [of x r0]) auto
  qed
  then show "moves {?n} s s'" "r = Inr False \<Longrightarrow> s' = s"
    "\<exists>y. srv (dx_server s') = (srv (dx_server s))(?n := y) \<and> min ?R ?D \<le> y \<and> ?C - ?R + y \<le> max ?C (?D + surge)"
    by (auto simp: goal_def)
qed

definition in_bounds :: "(LabelSelector option \<Rightarrow> int) \<Rightarrow> Deployment \<Rightarrow> int \<Rightarrow> int \<Rightarrow> (string \<rightharpoonup> ReplicaSet) \<Rightarrow> (string \<rightharpoonup> ReplicaSet) \<Rightarrow> bool" where
  "in_bounds av d surge unavailable m m' \<longleftrightarrow> all_replicas m' \<le> max (all_replicas m) (d_Replicas d + surge) \<and>
     min (safe_pods av m) (d_Replicas d - unavailable) \<le> safe_pods av m'"

lemma in_bounds_trans: "in_bounds av d su u m m' \<Longrightarrow> in_bounds av d su u m' m'' \<Longrightarrow> in_bounds av d su u m m''"
  by (auto simp: in_bounds_def)

lemma in_bounds_refl [simp]: "in_bounds av d su u m m"
  by (simp add: in_bounds_def)

lemma reconcile_new_in_bounds:
  assumes "api_ok api" and "rolling (dx_dep s) surge unavailable" and found: "found av olds new s"
    and "all_replicas (dx_server s) + d_Replicas (dx_dep s) + surge < 2 ^ 31"
    and "reconcileNewReplicaSet api (map Some olds @ [Some new]) new s = (r, s')"
  shows "in_bounds av (dx_dep s) surge unavailable (dx_server s) (dx_server s')" and "dx_dep s' = dx_dep s"
proof -
  note e = reconcile_new_effect [OF assms] and n = found_new [OF found] and f = foundD [OF found]
  let ?n = "rs_Name (obj s new)" and ?D = "d_Replicas (dx_dep s)"
  obtain y where y: "srv (dx_server s') = (srv (dx_server s))(?n := y)" "min (rs_Replicas (obj s new)) ?D \<le> y"
    "all_replicas (dx_server s) - rs_Replicas (obj s new) + y \<le> max (all_replicas (dx_server s)) (?D + surge)" using e(3) by blast
  note t = totals_change(1) [OF movesD(1) [OF e(1)] y(1) f(2) n(1), unfolded n(2)]
    totals_change(2) [OF movesD(1) [OF e(1)] y(1) f(2) n(1), of av, unfolded n(2,3)]
  have D: "0 \<le> unavailable" "0 \<le> ?D" using assms(2) by (auto simp: rolling_def)
  have "0 \<le> (\<Sum>x \<in> dom (dx_server s) - {?n}. min (avs av (dx_server s) x) (srv (dx_server s) x))"
    by (intro sum_nonneg) (use f(5,6) in \<open>auto intro: order_trans\<close>)
  then have rest: "0 \<le> safe_pods av (dx_server s) - min (av (rs_Selector (obj s new))) (rs_Replicas (obj s new))"
    using f(2) n(1-3) by (simp add: safe_pods_def sum.remove [of "dom (dx_server s)" ?n])
  have a: "av (rs_Selector (obj s new)) \<le> rs_Replicas (obj s new)" using f(6) [of ?n] n by simp
  have "min (safe_pods av (dx_server s)) (?D - unavailable) \<le> safe_pods av (dx_server s')"
    using t(2) rest a y(2) D by (auto simp: min_def split: if_splits)
  then show "in_bounds av (dx_dep s) surge unavailable (dx_server s) (dx_server s')" using t(1) y(3) by (simp add: in_bounds_def)
  show "dx_dep s' = dx_dep s" by (rule movesD(2) [OF e(1)])
qed

lemma safe_pods_split:
  assumes "found av olds new s" and "shape m = shape (dx_server s)" and "\<And>n. n \<notin> set (names s olds) \<Longrightarrow> srv m n = srv (dx_server s) n"
  shows "safe_pods av m = (\<Sum>n \<in> set (names s olds). min (avs av (dx_server s) n) (srv m n)) + av (rs_Selector (obj s new))"
proof -
  note f = foundD [OF assms(1)] and n = found_new [OF assms(1)]
  let ?n = "rs_Name (obj s new)" and ?g = "\<lambda>n. min (avs av (dx_server s) n) (srv m n)"
  have new: "?n \<notin> set (names s olds)" using split_okD(3) [OF f(1)] .
  have z: "?g x = 0" if "x \<notin> set (names s (new # olds))" for x
    using that f(4) [of x] f(5,6) [of x] assms(3) [of x] by (simp add: names_def)
  have "safe_pods av m = (\<Sum>n \<in> dom (dx_server s). ?g n)"
    by (simp add: safe_pods_def shape_dom [OF assms(2)] avs_shape [OF assms(2)])
  also have "\<dots> = (\<Sum>n \<in> set (names s (new # olds)). ?g n)"
    by (rule sum.mono_neutral_right [OF f(2,3)]) (use z in auto)
  also have "\<dots> = ?g ?n + (\<Sum>n \<in> set (names s olds). ?g n)" using new by (simp add: names_def)
  also have "?g ?n = av (rs_Selector (obj s new))" using assms(3) [OF new] f(6) [of ?n] n(2,3) by simp
  finally show ?thesis by simp
qed

lemma reconcile_old_in_bounds:
  assumes api: "api_ok api" and sees: "sees env api (dx_dep s) av" and rolling: "rolling (dx_dep s) surge unavailable"
    and found: "found av olds new s"
    and small: "all_replicas (dx_server s) + d_Replicas (dx_dep s) + unavailable < 2 ^ 31"
    and run: "reconcileOldReplicaSets env api (map Some olds @ [Some new]) olds new s = (r, s')"
  shows "in_bounds av (dx_dep s) surge unavailable (dx_server s) (dx_server s')" and "moves (set (names s olds)) s s'"
    and "0 \<le> srv (dx_server s') n"
proof -
  note f = foundD [OF found]
  have small': "(\<Sum>p \<leftarrow> olds. rs_Replicas (obj s p)) + rs_Replicas (obj s new) + d_Replicas (dx_dep s) + unavailable < 2 ^ 31"
    using small found_total [OF found] by simp
  note e = reconcile_old_effect [OF api sees rolling f(1) small' run]
  show m: "moves (set (names s olds)) s s'" using e(1) by (simp add: shrinks_def)
  have out: "srv (dx_server s') x = srv (dx_server s) x" if "x \<notin> set (names s olds)" for x by (rule movesD(3) [OF m that])
  have r: "ready_to_shrink (\<lambda>_. 0) olds s" by (rule ready_weaken [OF split_okD(1) [OF f(1)]])
  have le: "srv (dx_server s') x \<le> srv (dx_server s) x" for x
    using out [of x] shrinks_names(1) [OF r e(1), of x] by (cases "x \<in> set (names s olds)") auto
  show "0 \<le> srv (dx_server s') n" for n
  proof (cases "n \<in> set (names s olds)")
    case True
    then show ?thesis using e(1) by (auto simp: shrinks_def names_def)
  next
    case False
    then show ?thesis using out [OF False] f(5,6) [of n] by simp
  qed
  have "all_replicas (dx_server s') \<le> all_replicas (dx_server s)"
    unfolding all_replicas_def shape_dom [OF movesD(1) [OF m]] by (rule sum_mono) (rule le)
  moreover have A: "(\<Sum>p \<leftarrow> olds. av (rs_Selector (obj s p))) + av (rs_Selector (obj s new)) = safe_pods av (dx_server s)"
    using cleanup_keeps_available [OF split_okD(1) [OF f(1)] shrinks_unchanged(1) [OF split_okD(1) [OF f(1)] moves_refl [of "{}"]]]
      safe_pods_split [OF found refl] by simp
  moreover have "safe_pods av (dx_server s') =
      (\<Sum>n \<in> set (names s olds). min (avs av (dx_server s) n) (srv (dx_server s') n)) + av (rs_Selector (obj s new))"
    by (rule safe_pods_split [OF found movesD(1) [OF m] out])
  ultimately show "in_bounds av (dx_dep s) surge unavailable (dx_server s) (dx_server s')" using e(2) by (simp add: in_bounds_def)
qed

section \<open>Deleting replica sets that are no longer used\<close>

lemma delete_unused_effect:
  "delete_unused api ps s = s' \<Longrightarrow> dx_heap s' = dx_heap s \<and> dx_dep s' = dx_dep s \<and>
    (\<exists>D. dx_server s' = dx_server s |` (- D) \<and>
      D \<subseteq> {rs_Name (obj s p) | p. p \<in> set ps \<and> rs_StatusReplicas (obj s p) = 0 \<and> rs_Replicas (obj s p) = 0})"
proof (induction ps arbitrary: s)
  case Nil
  then show ?case by (auto intro: exI [of _ "{}"])
next
  case (Cons p ps)
  let ?del = "rs_StatusReplicas (obj s p) = 0 \<and> rs_Replicas (obj s p) = 0 \<and> rs_Generation (obj s p) \<le> rs_ObservedGeneration (obj s p)"
  define t where "t = (if ?del then client_Delete api (rs_Name (obj s p)) s else s)"
  have run: "delete_unused api ps t = s'" using Cons.prems by (auto simp: t_def Let_def not_less)
  have t: "dx_heap t = dx_heap s" "dx_dep t = dx_dep s"
    "\<exists>E. dx_server t = dx_server s |` (- E) \<and> E \<subseteq> (if ?del then {rs_Name (obj s p)} else {})"
    by (auto simp: t_def client_Delete_def map_delete_def restrict_map_def fun_eq_iff
        intro: exI [of _ "{}"] exI [of _ "{rs_Name (obj s p)}"])
  obtain D where D: "dx_server s' = dx_server t |` (- D)" "dx_heap s' = dx_heap t" "dx_dep s' = dx_dep t"
    "D \<subseteq> {rs_Name (obj t p) | p. p \<in> set ps \<and> rs_StatusReplicas (obj t p) = 0 \<and> rs_Replicas (obj t p) = 0}"
    using Cons.IH [OF run] by blast
  obtain E where E: "dx_server t = dx_server s |` (- E)" "E \<subseteq> (if ?del then {rs_Name (obj s p)} else {})" using t(3) by blast
  have "dx_server s' = dx_server s |` (- (D \<union> E))" using D(1) E(1) by (simp add: restrict_map_def fun_eq_iff)
  moreover have "D \<union> E \<subseteq> {rs_Name (obj s q) | q. q \<in> set (p # ps) \<and> rs_StatusReplicas (obj s q) = 0 \<and> rs_Replicas (obj s q) = 0}"
    using D(4) E(2) t(1) by (auto split: if_splits)
  ultimately show ?case using D(2,3) t(1,2) by (intro conjI exI [of _ "D \<union> E"]) simp_all
qed

lemma delete_in_bounds:
  assumes "finite (dom m)" and "\<And>n. 0 \<le> srv m n" and "\<And>n. n \<in> D \<Longrightarrow> avs av m n \<le> 0"
  shows "in_bounds av d surge unavailable m (m |` (- D))"
proof -
  have out: "srv (m |` (- D)) n = srv m n" "avs av (m |` (- D)) n = avs av m n" if "n \<notin> D" for n
    using that by (simp_all add: srv_def avs_def)
  have dom: "dom (m |` (- D)) = dom m - D" by auto
  have "all_replicas (m |` (- D)) = (\<Sum>n \<in> dom m - D. srv m n)" unfolding all_replicas_def dom by (rule sum.cong) (auto simp: out)
  also have "\<dots> \<le> all_replicas m" unfolding all_replicas_def by (rule sum_mono2) (use assms in auto)
  finally have a: "all_replicas (m |` (- D)) \<le> all_replicas m" .
  have "safe_pods av m = (\<Sum>n \<in> dom m - D. min (avs av m n) (srv m n)) + (\<Sum>n \<in> dom m \<inter> D. min (avs av m n) (srv m n))"
    unfolding safe_pods_def by (subst sum.Int_Diff [OF assms(1), of _ D]) simp
  also have "\<dots> \<le> (\<Sum>n \<in> dom m - D. min (avs av m n) (srv m n))"
    using sum_nonpos [of "dom m \<inter> D" "\<lambda>n. min (avs av m n) (srv m n)"] assms(3) by (simp add: min_le_iff_disj)
  also have "\<dots> = safe_pods av (m |` (- D))" unfolding safe_pods_def dom by (rule sum.cong) (auto simp: out)
  finally show ?thesis unfolding in_bounds_def using a by linarith
qed

lemma updateDeploymentStatus_server: "updateDeploymentStatus env api rss new s = (r, s') \<Longrightarrow> dx_server s' = dx_server s"
  by (auto simp: updateDeploymentStatus_def Let_def split: sum.splits if_splits)

lemma syncDeploymentStatus_server: "syncDeploymentStatus env api rss new s = (r, s') \<Longrightarrow> dx_server s' = dx_server s"
  by (auto simp: syncDeploymentStatus_def Let_def dest: updateDeploymentStatus_server split: sum.splits if_splits)

lemma finish_sync_in_bounds:
  assumes run: "finish_sync env api rss olds new s = (r, s')"
    and "finite (dom (dx_server s))" and "\<And>n. 0 \<le> srv (dx_server s) n"
    and unused: "\<And>p. p \<in> set olds \<Longrightarrow> rs_StatusReplicas (obj s p) = 0 \<Longrightarrow> avs av (dx_server s) (rs_Name (obj s p)) \<le> 0"
  shows "in_bounds av d surge unavailable (dx_server s) (dx_server s')"
proof -
  define t where "t = (case d_RevisionHistoryLimit (dx_dep s) of None \<Rightarrow> s | Some limit \<Rightarrow> cleanupOldReplicaSets api olds limit s)"
  have t: "dx_server s' = dx_server t"
    using run syncDeploymentStatus_server by (simp add: finish_sync_def t_def Let_def)
  show ?thesis
  proof (cases "t = s")
    case True
    then show ?thesis using t by simp
  next
    case False
    then obtain limit where "t = cleanupOldReplicaSets api olds limit s" by (auto simp: t_def split: option.splits)
    then have "\<exists>n. delete_unused api (take n (by_creation s olds)) s = t"
      using False by (auto simp: cleanupOldReplicaSets_def Let_def split: if_splits)
    then obtain n where n: "delete_unused api (take n (by_creation s olds)) s = t" ..
    define ps where "ps = take n (by_creation s olds)"
    have ps: "delete_unused api ps s = t" "set ps \<subseteq> set olds"
      using n by (auto simp: ps_def dest!: in_set_takeD)
    obtain D where D: "dx_server t = dx_server s |` (- D)"
      "D \<subseteq> {rs_Name (obj s p) | p. p \<in> set ps \<and> rs_StatusReplicas (obj s p) = 0 \<and> rs_Replicas (obj s p) = 0}"
      using delete_unused_effect [OF ps(1)] by blast
    show ?thesis unfolding t D(1) by (rule delete_in_bounds [OF assms(2,3)]) (use D(2) ps(2) unused in auto)
  qed
qed

section \<open>The replica sets found\<close>

lemma foundI:
  assumes server: "shape (dx_server s) = shape (by_name L)" "srv (dx_server s) = srv (by_name L)" and L: "distinct (map rs_Name L)"
    and ok: "\<And>rs. rs \<in> set L \<Longrightarrow> 0 \<le> av (rs_Selector rs) \<and> av (rs_Selector rs) \<le> rs_Replicas rs"
    and ptr: "\<And>p. p \<in> set (new # olds) \<Longrightarrow> p < length (dx_heap s) \<and> (\<exists>rs \<in> set L. same_spec rs (obj s p))"
    and names: "distinct (names s (new # olds))"
    and rest: "\<And>rs. rs \<in> set L \<Longrightarrow> rs_Name rs \<notin> set (names s (new # olds)) \<Longrightarrow> rs_Replicas rs = 0"
    and status: "\<And>p. p \<in> set olds \<Longrightarrow> av (rs_Selector (obj s p)) \<le> rs_StatusReplicas (obj s p)"
    and small: "all_replicas (by_name L) < 2 ^ 31"
  shows "found av olds new s"
proof -
  have dom: "dom (dx_server s) = rs_Name ` set L" using shape_dom [OF server(1)] by (simp add: dom_by_name)
  have at: "by_name L (rs_Name rs) = Some rs" if "rs \<in> set L" for rs using that by (simp add: by_name_Some [OF L])
  have nn: "0 \<le> srv (by_name L) n" for n
    using ok by (force simp: srv_def by_name_Some [OF L] split: option.splits)
  have le: "rs_Replicas rs < 2 ^ 31" if "rs \<in> set L" for rs
  proof -
    have "srv (by_name L) (rs_Name rs) \<le> all_replicas (by_name L)"
      unfolding all_replicas_def by (rule member_le_sum) (use that nn in \<open>auto simp: dom_by_name\<close>)
    then show ?thesis using small that by (simp add: srv_def at)
  qed
  have cur: "current s p" "\<exists>rs \<in> set L. rs_Selector (obj s p) = rs_Selector rs \<and> rs_Replicas (obj s p) = rs_Replicas rs"
    if p: "p \<in> set (new # olds)" for p
  proof -
    obtain rs where rs: "rs \<in> set L" "same_spec rs (obj s p)" "p < length (dx_heap s)" using ptr [OF p] by blast
    then show "\<exists>rs \<in> set L. rs_Selector (obj s p) = rs_Selector rs \<and> rs_Replicas (obj s p) = rs_Replicas rs"
      by (auto simp: same_spec_def)
    have "shape (by_name L) (rs_Name rs) = Some (rs_Selector rs, rs_Template rs)" "srv (by_name L) (rs_Name rs) = rs_Replicas rs"
      using at [OF rs(1)] by (simp_all add: shape_def srv_def)
    then show "current s p" using rs(2,3) by (simp add: current_def server same_spec_def)
  qed
  have "ready_to_shrink av (new # olds) s"
    unfolding ready_to_shrink_def using names cur ok le by (metis (no_types, lifting))
  moreover have "set (names s (new # olds)) \<subseteq> dom (dx_server s)"
    unfolding dom using ptr by (force simp: names_def same_spec_def)
  moreover have "srv (dx_server s) n = 0" if "n \<notin> set (names s (new # olds))" for n
    using rest that by (auto simp: server srv_def by_name_Some [OF L] split: option.splits)
  moreover have "0 \<le> avs av (dx_server s) n \<and> avs av (dx_server s) n \<le> srv (dx_server s) n" for n
  proof (cases "by_name L n")
    case None
    then show ?thesis by (simp add: server avs_shape [OF server(1)]) (simp add: avs_def srv_def)
  next
    case (Some rs)
    moreover have "rs \<in> set L" using Some by (simp add: by_name_Some [OF L])
    ultimately show ?thesis using ok [of rs] by (simp add: server avs_shape [OF server(1)]) (simp add: avs_def srv_def)
  qed
  ultimately show ?thesis using status by (auto simp: found_def split_ok_def dom)
qed


text \<open>
  What the controller lists: replica sets with the hash label, one of them at most for the current
  template, none with more available pods than its size and its reported size; the pods of the
  deployment are listed when an old replica set has any.
\<close>

definition rs_listed :: "'f ctl_env \<Rightarrow> dep_api \<Rightarrow> (LabelSelector option \<Rightarrow> int) \<Rightarrow> Deployment \<Rightarrow> ReplicaSet list \<Rightarrow> ApiPod list \<Rightarrow> bool" where
  "rs_listed env api av d rsList pods \<longleftrightarrow> distinct (map rs_Name rsList) \<and>
     (\<forall>rs \<in> set rsList. labelled rs \<and> 0 \<le> av (rs_Selector rs) \<and> av (rs_Selector rs) \<le> rs_Replicas rs \<and>
        av (rs_Selector rs) \<le> rs_StatusReplicas rs) \<and>
     (\<forall>rs \<in> set rsList. \<forall>rs' \<in> set rsList. is_new (ap_hash api) d rs \<and> is_new (ap_hash api) d rs' \<longrightarrow> rs = rs') \<and>
     (pods = [] \<longrightarrow> (\<forall>rs \<in> set rsList. is_new (ap_hash api) d rs \<or> rs_Replicas rs = 0)) \<and>
     ((\<forall>rs \<in> set rsList. \<not> is_new (ap_hash api) d rs) \<longrightarrow> av (rs_Selector (new_rs env (ap_hash api) d [])) = 0)"

definition olds_found :: "dep_api \<Rightarrow> Deployment \<Rightarrow> ReplicaSet list \<Rightarrow> ApiPod list \<Rightarrow> nat list \<Rightarrow> DeploymentController \<Rightarrow> bool" where
  "olds_found api d rsList pods olds s \<longleftrightarrow> (\<forall>p \<in> set olds. p < length (dx_heap s)) \<and> distinct (names s olds) \<and>
     obj s ` set olds = (if pods = [] then {} else {rs \<in> set rsList. \<not> is_new (ap_hash api) d rs})"

lemma names_Cons: "names s (p # ps) = rs_Name (obj s p) # names s ps"
  by (simp add: names_def)

lemma olds_foundD:
  assumes "olds_found api d rsList pods olds s" and "p \<in> set olds"
  shows "p < length (dx_heap s)" and "obj s p \<in> set rsList" and "\<not> is_new (ap_hash api) d (obj s p)"
  using assms by (auto simp: olds_found_def split: if_splits)

lemma listed_same_name: "rs_listed env api av d rsList pods \<Longrightarrow> rs \<in> set rsList \<Longrightarrow> rs' \<in> set rsList \<Longrightarrow> rs_Name rs = rs_Name rs' \<Longrightarrow> rs = rs'"
  by (auto simp: rs_listed_def distinct_map dest: inj_onD)

lemma listed_nonneg:
  assumes "rs_listed env api av d rsList pods"
  shows "0 \<le> srv (by_name rsList) n"
proof (cases "by_name rsList n")
  case (Some rs)
  then have "rs \<in> set rsList" using assms by (simp add: rs_listed_def by_name_Some)
  then show ?thesis using assms Some by (auto simp: rs_listed_def srv_def)
qed (simp add: srv_def)

lemma listed_rest:
  assumes "rs_listed env api av d rsList pods" and "olds_found api d rsList pods olds s" and "rs \<in> set rsList"
    and "\<not> is_new (ap_hash api) d rs" and "rs_Name rs \<notin> set (names s olds)"
  shows "rs_Replicas rs = 0"
proof (cases "pods = []")
  case True
  then show ?thesis using assms(1,3,4) by (auto simp: rs_listed_def)
next
  case False
  then have "rs \<in> obj s ` set olds" using assms(2-4) by (simp add: olds_found_def)
  then show ?thesis using assms(5) by (auto simp: names_def)
qed

lemma existing_found:
  assumes l: "rs_listed env api av d rsList pods" and o: "olds_found api d rsList pods olds s"
    and rs: "rs \<in> set rsList" "is_new (ap_hash api) d rs" "same_spec rs rs'"
    and s': "shape (dx_server s') = shape (by_name rsList)" "srv (dx_server s') = srv (by_name rsList)" "dx_heap s' = dx_heap s @ [rs']"
    and small: "all_replicas (by_name rsList) < 2 ^ 31"
  shows "found av olds (length (dx_heap s)) s'"
proof (rule foundI [where L = rsList])
  note oD = olds_foundD [OF o]
  have obj: "obj s' p = obj s p" if "p \<in> set olds" for p using oD(1) [OF that] by (simp add: s' nth_append)
  have new: "obj s' (length (dx_heap s)) = rs'" by (simp add: s')
  have nm: "names s' olds = names s olds" using obj by (simp add: names_def)
  show "shape (dx_server s') = shape (by_name rsList)" "srv (dx_server s') = srv (by_name rsList)" "all_replicas (by_name rsList) < 2 ^ 31"
    "distinct (map rs_Name rsList)" "\<And>r. r \<in> set rsList \<Longrightarrow> 0 \<le> av (rs_Selector r) \<and> av (rs_Selector r) \<le> rs_Replicas r"
    using s' small l by (auto simp: rs_listed_def)
  show "p < length (dx_heap s') \<and> (\<exists>r \<in> set rsList. same_spec r (obj s' p))" if p: "p \<in> set (length (dx_heap s) # olds)" for p
  proof (cases "p \<in> set olds")
    case True
    then show ?thesis using oD [OF True] obj by (auto simp: s' same_spec_def)
  next
    case False
    then show ?thesis using p rs new by (auto simp: s')
  qed
  have "rs_Name rs \<noteq> rs_Name (obj s p)" if "p \<in> set olds" for p
    using listed_same_name [OF l rs(1) oD(2) [OF that]] rs(2) oD(3) [OF that] by auto
  then have "rs_Name rs' \<notin> set (names s olds)" using rs(3) by (auto simp: names_def same_spec_def)
  then show "distinct (names s' (length (dx_heap s) # olds))" using o by (simp add: olds_found_def names_Cons nm new)
  show "rs_Replicas r = 0" if r: "r \<in> set rsList" "rs_Name r \<notin> set (names s' (length (dx_heap s) # olds))" for r
  proof (rule listed_rest [OF l o r(1)])
    show "rs_Name r \<notin> set (names s olds)" using r(2) by (simp add: names_Cons nm)
    have "r \<noteq> rs" using r(2) new rs(3) by (auto simp: names_def same_spec_def)
    then show "\<not> is_new (ap_hash api) d r" using l rs(1,2) r(1) by (auto simp: rs_listed_def)
  qed
  show "av (rs_Selector (obj s' p)) \<le> rs_StatusReplicas (obj s' p)" if "p \<in> set olds" for p
    using oD(2) [OF that] l obj [OF that] by (auto simp: rs_listed_def)
qed

lemma created_found:
  assumes l: "rs_listed env api av d rsList pods" and o: "olds_found api d rsList pods olds s"
    and no: "\<forall>rs \<in> set rsList. \<not> is_new (ap_hash api) d rs" and rs': "by_name rsList (rs_Name rs') = None" "av (rs_Selector rs') = 0" "0 \<le> rs_Replicas rs'"
    and s': "dx_server s' = (by_name rsList)(rs_Name rs' \<mapsto> rs')" "dx_heap s' = dx_heap s @ [rs']"
    and small: "all_replicas (dx_server s') < 2 ^ 31"
  shows "found av olds (length (dx_heap s)) s'"
proof (rule foundI [where L = "rs' # rsList"])
  note oD = olds_foundD [OF o]
  have obj: "obj s' p = obj s p" if "p \<in> set olds" for p using oD(1) [OF that] by (simp add: s' nth_append)
  have new: "obj s' (length (dx_heap s)) = rs'" by (simp add: s')
  have nm: "names s' olds = names s olds" using obj by (simp add: names_def)
  have fresh: "rs_Name rs' \<notin> rs_Name ` set rsList" using rs'(1) by (simp add: dom_by_name [symmetric] domIff)
  have server: "dx_server s' = by_name (rs' # rsList)" by (simp add: s' by_name_def)
  show "shape (dx_server s') = shape (by_name (rs' # rsList))" "srv (dx_server s') = srv (by_name (rs' # rsList))"
    "all_replicas (by_name (rs' # rsList)) < 2 ^ 31" using small server by simp_all
  show "distinct (map rs_Name (rs' # rsList))" using l fresh by (simp add: rs_listed_def)
  show "0 \<le> av (rs_Selector r) \<and> av (rs_Selector r) \<le> rs_Replicas r" if "r \<in> set (rs' # rsList)" for r
    using that l rs' by (auto simp: rs_listed_def)
  show "p < length (dx_heap s') \<and> (\<exists>r \<in> set (rs' # rsList). same_spec r (obj s' p))" if p: "p \<in> set (length (dx_heap s) # olds)" for p
  proof (cases "p \<in> set olds")
    case True
    then show ?thesis using oD [OF True] obj by (auto simp: s' same_spec_def)
  next
    case False
    then show ?thesis using p new by (auto simp: s' same_spec_def)
  qed
  have "rs_Name rs' \<notin> set (names s olds)" using fresh oD(2) by (auto simp: names_def image_iff)
  then show "distinct (names s' (length (dx_heap s) # olds))" using o by (simp add: olds_found_def names_Cons nm new)
  show "rs_Replicas r = 0" if r: "r \<in> set (rs' # rsList)" "rs_Name r \<notin> set (names s' (length (dx_heap s) # olds))" for r
  proof (rule listed_rest [OF l o])
    show "r \<in> set rsList" using r new by (auto simp: names_def)
    then show "\<not> is_new (ap_hash api) d r" using no by blast
    show "rs_Name r \<notin> set (names s olds)" using r(2) by (simp add: names_Cons nm)
  qed
  show "av (rs_Selector (obj s' p)) \<le> rs_StatusReplicas (obj s' p)" if "p \<in> set olds" for p
    using oD(2) [OF that] l obj [OF that] by (auto simp: rs_listed_def)
qed


section \<open>The start of a synchronization\<close>

lemma copy_annotations_same: "copyDeploymentAnnotationsToReplicaSet env d rs = (c, rs') \<Longrightarrow> \<exists>a. rs' = rs\<lparr>rs_Annotations := a\<rparr>"
  by (auto simp: copyDeploymentAnnotationsToReplicaSet_def Let_def split: prod.splits if_splits)

lemma setNewReplicaSetAnnotations_same:
  "setNewReplicaSetAnnotations env d rs revision = (c, rs') \<Longrightarrow> \<exists>a. rs' = rs\<lparr>rs_Annotations := a\<rparr>"
  by (auto simp: setNewReplicaSetAnnotations_def Let_def dest!: copy_annotations_same split: prod.splits if_splits)

lemma new_rs_simps:
  "rs_Name (new_rs env hash d revision) = d_Name d @ ''-'' @ fmt_d (uint (hash (d_Template d)))"
  "rs_Replicas (new_rs env hash d revision) = 0"
  "rs_Selector (new_rs env hash d revision) =
     map_option (\<lambda>selector. CloneSelectorAndAddLabel selector DefaultDeploymentUniqueLabelKey (hash (d_Template d))) (d_Selector d)"
proof -
  have *: "rs_Name (snd (setNewReplicaSetAnnotations env d rs revision)) = rs_Name rs"
    "rs_Replicas (snd (setNewReplicaSetAnnotations env d rs revision)) = rs_Replicas rs"
    "rs_Selector (snd (setNewReplicaSetAnnotations env d rs revision)) = rs_Selector rs" for rs
    using setNewReplicaSetAnnotations_same [of env d rs revision, OF surjective_pairing] by auto
  show "rs_Name (new_rs env hash d revision) = d_Name d @ ''-'' @ fmt_d (uint (hash (d_Template d)))"
    "rs_Replicas (new_rs env hash d revision) = 0"
    "rs_Selector (new_rs env hash d revision) =
       map_option (\<lambda>selector. CloneSelectorAndAddLabel selector DefaultDeploymentUniqueLabelKey (hash (d_Template d))) (d_Selector d)"
    by (simp_all add: new_rs_def Let_def *)
qed

lemma updateDeploymentRevision_frame:
  assumes "updateDeploymentRevision api revision s = (r, s')"
  shows "dx_server s' = dx_server s" and "dx_heap s' = dx_heap s" and "\<exists>a. dx_dep s' = (dx_dep s)\<lparr>d_Annotations := a\<rparr>"
proof -
  have id: "\<exists>a. dx_dep s = (dx_dep s)\<lparr>d_Annotations := a\<rparr>" by (rule exI [of _ "d_Annotations (dx_dep s)"]) simp
  show "dx_server s' = dx_server s" "dx_heap s' = dx_heap s" "\<exists>a. dx_dep s' = (dx_dep s)\<lparr>d_Annotations := a\<rparr>"
    using assms id by (auto simp: updateDeploymentRevision_def updateDeployment_def split: if_splits)
qed

lemma sync_revision_frame:
  "dx_server (sync_revision api q s) = dx_server s" "dx_heap (sync_revision api q s) = dx_heap s"
  "\<exists>a. dx_dep (sync_revision api q s) = (dx_dep s)\<lparr>d_Annotations := a\<rparr>"
proof -
  have id: "\<exists>a. dx_dep s = (dx_dep s)\<lparr>d_Annotations := a\<rparr>" by (rule exI [of _ "d_Annotations (dx_dep s)"]) simp
  note u = updateDeploymentRevision_frame [of api _ s, OF surjective_pairing]
  show "dx_server (sync_revision api q s) = dx_server s" "dx_heap (sync_revision api q s) = dx_heap s"
    by (auto simp: sync_revision_def Let_def u split: option.splits)
  show "\<exists>a. dx_dep (sync_revision api q s) = (dx_dep s)\<lparr>d_Annotations := a\<rparr>"
    using id u(3) by (auto simp: sync_revision_def Let_def split: option.splits)
qed


lemma same_spec_trans: "same_spec a b \<Longrightarrow> same_spec b c \<Longrightarrow> same_spec a c"
  by (simp add: same_spec_def)

lemma client_Update_same:
  assumes "api_ok api" and "dx_server s (rs_Name rs) = Some rs" and "same_spec rs rs1" and "client_Update api rs1 s = (r, s')"
  shows "shape (dx_server s') = shape (dx_server s)" and "srv (dx_server s') = srv (dx_server s)" and "dx_dep s' = dx_dep s"
    and "r = Inr p \<Longrightarrow> p = length (dx_heap s) \<and> (\<exists>rs'. same_spec rs rs' \<and> dx_heap s' = dx_heap s @ [rs'])"
proof -
  have n: "rs_Name rs1 = rs_Name rs" using assms(3) by (simp add: same_spec_def)
  have "shape (dx_server s') = shape (dx_server s) \<and> srv (dx_server s') = srv (dx_server s) \<and> dx_dep s' = dx_dep s \<and>
    (\<forall>p. r = Inr p \<longrightarrow> p = length (dx_heap s) \<and> (\<exists>rs'. same_spec rs rs' \<and> dx_heap s' = dx_heap s @ [rs']))"
  proof (cases "ap_update api (dx_n s) rs1")
    case None
    then have "client_Update api rs1 s = (Inl RequestFailed, tick s)" using assms(2) n by (simp add: client_Update_def)
    then show ?thesis using assms(4) by auto
  next
    case (Some rs')
    then have u: "client_Update api rs1 s = (Inr (length (dx_heap s)),
        tick (s\<lparr>dx_server := (dx_server s)(rs_Name rs \<mapsto> rs'), dx_heap := dx_heap s @ [rs']\<rparr>))"
      using assms(2) n by (simp add: client_Update_def alloc_rs_def)
    have "same_spec rs1 rs'" using assms(1) Some by (auto simp: api_ok_def)
    then have rs': "same_spec rs rs'" by (rule same_spec_trans [OF assms(3)])
    then have "shape ((dx_server s)(rs_Name rs \<mapsto> rs')) = shape (dx_server s)" "srv ((dx_server s)(rs_Name rs \<mapsto> rs')) = srv (dx_server s)"
      using assms(2) by (auto simp: shape_def srv_def same_spec_def fun_eq_iff)
    then show ?thesis using u assms(4) rs' by auto
  qed
  then show "shape (dx_server s') = shape (dx_server s)" "srv (dx_server s') = srv (dx_server s)" "dx_dep s' = dx_dep s"
    "r = Inr p \<Longrightarrow> p = length (dx_heap s) \<and> (\<exists>rs'. same_spec rs rs' \<and> dx_heap s' = dx_heap s @ [rs'])" by blast+
qed

lemma getNew_existing:
  assumes api: "api_ok api" and l: "rs_listed env api av (dx_dep s) rsList pods" and o: "olds_found api (dx_dep s) rsList pods olds s"
    and server: "dx_server s = by_name rsList" and small: "all_replicas (by_name rsList) < 2 ^ 31"
    and rs: "List.find (is_new (ap_hash api) (dx_dep s)) rsList = Some rs"
    and run: "getNewReplicaSet env api rsList mx olds True s = (r, s')"
  shows "shape (dx_server s') = shape (dx_server s)" and "srv (dx_server s') = srv (dx_server s)" and "dx_dep s' = dx_dep s"
    and "r = Inr q \<Longrightarrow> \<exists>new. q = Some new \<and> found av olds new s'"
proof -
  have r: "rs \<in> set rsList" "is_new (ap_hash api) (dx_dep s) rs"
    using rs by (auto simp: find_Some_iff)
  have at: "dx_server s (rs_Name rs) = Some rs" using r(1) l by (simp add: server by_name_Some rs_listed_def)
  have find: "FindNewReplicaSet (ap_hash api) (dx_dep s) rsList = Inr (Some rs)"
    using FindNew_eq [of rsList] l rs by (simp add: rs_listed_def)
  obtain changed rs1 where c: "setNewReplicaSetAnnotations env (dx_dep s) rs (fmt_d (wrap 64 (mx + 1))) = (changed, rs1)" by fastforce
  have rs1: "same_spec rs rs1" using setNewReplicaSetAnnotations_same [OF c] by (auto simp: same_spec_def)
  have "shape (dx_server s') = shape (dx_server s) \<and> srv (dx_server s') = srv (dx_server s) \<and> dx_dep s' = dx_dep s \<and>
    (\<forall>q. r = Inr q \<longrightarrow> q = Some (length (dx_heap s)) \<and> (\<exists>rs'. same_spec rs rs' \<and> dx_heap s' = dx_heap s @ [rs']))"
  proof (cases changed)
    case True
    obtain u t where u: "client_Update api rs1 s = (u, t)" by fastforce
    have "(r, s') = (case u of Inl err \<Rightarrow> Inl err | Inr p \<Rightarrow> Inr (Some p), t)"
      using run find c True u by (simp add: getNewReplicaSet_def Let_def split: sum.splits)
    then show ?thesis using client_Update_same [OF api at rs1 u] by (auto split: sum.splits)
  next
    case False
    then have "r = Inr (Some (length (dx_heap s)))" "s' = s\<lparr>dx_heap := dx_heap s @ [rs1]\<rparr>"
      using run find c by (auto simp: getNewReplicaSet_def alloc_rs_def Let_def)
    then show ?thesis using rs1 by auto
  qed
  then have e: "shape (dx_server s') = shape (dx_server s)" "srv (dx_server s') = srv (dx_server s)" "dx_dep s' = dx_dep s"
    "\<And>q. r = Inr q \<Longrightarrow> q = Some (length (dx_heap s)) \<and> (\<exists>rs'. same_spec rs rs' \<and> dx_heap s' = dx_heap s @ [rs'])" by blast+
  show "shape (dx_server s') = shape (dx_server s)" "srv (dx_server s') = srv (dx_server s)" "dx_dep s' = dx_dep s" by (fact e)+
  show "\<exists>new. q = Some new \<and> found av olds new s'" if q: "r = Inr q"
  proof -
    obtain rs' where rs': "q = Some (length (dx_heap s))" "same_spec rs rs'" "dx_heap s' = dx_heap s @ [rs']" using e(4) [OF q] by blast
    have "found av olds (length (dx_heap s)) s'" by (rule existing_found [OF l o r rs'(2) e(1,2) [unfolded server] rs'(3) small])
    then show ?thesis using rs'(1) by blast
  qed
qed

lemma olds_total:
  assumes l: "rs_listed env api av d rsList pods" and o: "olds_found api d rsList pods olds s" and no: "\<forall>rs \<in> set rsList. \<not> is_new (ap_hash api) d rs"
  shows "(\<Sum>p \<leftarrow> olds. rs_Replicas (obj s p)) = all_replicas (by_name rsList)"
proof -
  have L: "distinct (map rs_Name rsList)" using l by (simp add: rs_listed_def)
  have at: "srv (by_name rsList) (rs_Name (obj s p)) = rs_Replicas (obj s p)" if "p \<in> set olds" for p
  proof -
    have "by_name rsList (rs_Name (obj s p)) = Some (obj s p)" using olds_foundD(2) [OF o that] by (simp add: by_name_Some [OF L])
    then show ?thesis by (simp add: srv_def)
  qed
  have "(\<Sum>p \<leftarrow> olds. rs_Replicas (obj s p)) = (\<Sum>p \<leftarrow> olds. srv (by_name rsList) (rs_Name (obj s p)))"
    using at by (metis (no_types, lifting) map_eq_conv)
  also have "\<dots> = (\<Sum>n \<leftarrow> names s olds. srv (by_name rsList) n)" by (simp add: names_def comp_def)
  also have "\<dots> = (\<Sum>n \<in> set (names s olds). srv (by_name rsList) n)"
    using o by (simp add: olds_found_def sum_list_distinct_conv_sum_set)
  also have "\<dots> = all_replicas (by_name rsList)" unfolding all_replicas_def
  proof (rule sum.mono_neutral_left)
    show "set (names s olds) \<subseteq> dom (by_name rsList)" using olds_foundD(2) [OF o] by (auto simp: names_def dom_by_name)
    show "\<forall>n \<in> dom (by_name rsList) - set (names s olds). srv (by_name rsList) n = 0"
      using listed_rest [OF l o] no by (auto simp: srv_def by_name_Some [OF L] split: option.splits)
  qed (simp add: dom_by_name)
  finally show ?thesis .
qed


lemma client_Create_cases:
  assumes "api_ok api" and "client_Create api rs s = (r, s')"
  obtains "r = Inl RequestFailed" and "s' = tick s"
  | rs' where "r = Inr (length (dx_heap s))" and "dx_server s (rs_Name rs) = None" and "same_spec rs rs'"
      and "s' = tick (s\<lparr>dx_server := (dx_server s)(rs_Name rs \<mapsto> rs'), dx_heap := dx_heap s @ [rs']\<rparr>)"
proof (cases "dx_server s (rs_Name rs) = None \<and> ap_create api (dx_n s) rs \<noteq> None")
  case False
  then have "client_Create api rs s = (Inl RequestFailed, tick s)" by (auto simp: client_Create_def)
  then show ?thesis using assms(2) that(1) by simp
next
  case True
  then obtain rs' where rs': "ap_create api (dx_n s) rs = Some rs'" "dx_server s (rs_Name rs) = None" by blast
  then have "client_Create api rs s = (Inr (length (dx_heap s)), tick (s\<lparr>dx_server := (dx_server s)(rs_Name rs \<mapsto> rs'), dx_heap := dx_heap s @ [rs']\<rparr>))"
    by (simp add: client_Create_def alloc_rs_def)
  moreover have "same_spec rs rs'" using assms(1) rs'(1) by (auto simp: api_ok_def)
  ultimately show ?thesis using assms(2) that(2) rs'(2) by simp
qed

text \<open>The size with which a replica set is created, and the sequel of its creation.\<close>

lemma getNew_create:
  assumes l: "rs_listed env api av (dx_dep s) rsList pods" and o: "olds_found api (dx_dep s) rsList pods olds s"
    and no: "\<forall>rs \<in> set rsList. \<not> is_new (ap_hash api) (dx_dep s) rs" and rolling: "rolling (dx_dep s) surge unavailable"
    and small: "all_replicas (by_name rsList) + d_Replicas (dx_dep s) + surge < 2 ^ 31"
    and run: "getNewReplicaSet env api rsList mx olds True s = (r, s')"
  obtains x u t where "0 \<le> x" and "all_replicas (by_name rsList) + x \<le> max (all_replicas (by_name rsList)) (d_Replicas (dx_dep s) + surge)"
    and "client_Create api ((new_rs env (ap_hash api) (dx_dep s) (fmt_d (wrap 64 (mx + 1))))\<lparr>rs_Replicas := x\<rparr>) s = (u, t)"
    and "case u of Inl err \<Rightarrow> r = Inl err \<and> s' = enqueueDeployment t
       | Inr p \<Rightarrow> (case updateDeploymentRevision api (fmt_d (wrap 64 (mx + 1))) t of (Inl err, t') \<Rightarrow> r = Inl err \<and> s' = t' | (Inr _, t') \<Rightarrow> r = Inr (Some p) \<and> s' = t')"
proof -
  let ?rev = "fmt_d (wrap 64 (mx + 1))" and ?C = "all_replicas (by_name rsList)" and ?D = "d_Replicas (dx_dep s)"
  define newRS where "newRS = new_rs env (ap_hash api) (dx_dep s) ?rev"
  have "FindNewReplicaSet (ap_hash api) (dx_dep s) rsList = Inr (List.find (is_new (ap_hash api) (dx_dep s)) rsList)"
    by (rule FindNew_eq) (use l in \<open>simp add: rs_listed_def\<close>)
  moreover have "List.find (is_new (ap_hash api) (dx_dep s)) rsList = None" using no by (simp add: find_None_iff)
  ultimately have find: "FindNewReplicaSet (ap_hash api) (dx_dep s) rsList = Inr None" by simp
  have D: "0 \<le> ?D" "0 \<le> surge" using rolling by (auto simp: rolling_def)
  have "0 \<le> rs_Replicas rs" if "rs \<in> set rsList" for rs using that l by (force simp: rs_listed_def)
  then have "0 \<le> rs_Replicas (obj s p)" if "p \<in> set olds" for p using olds_foundD(2) [OF o that] by blast
  then have C: "0 \<le> ?C" unfolding olds_total [OF l o no, symmetric] by (auto intro!: sum_list_nonneg)
  have z: "rs_Replicas newRS = 0" by (simp add: newRS_def new_rs_simps)
  have objs: "objs s (map Some olds) @ [Some newRS] = map Some (map (obj s) olds @ [newRS])" by simp
  define x where "x = (if ?C \<ge> ?D + surge then 0 else min (?D + surge - ?C) ?D)"
  have x: "NewRSNewReplicas (dx_dep s) (objs s (map Some olds) @ [Some newRS]) newRS = Inr x"
    unfolding objs x_def using D C small z olds_total [OF l o no]
    by (subst NewRSNewReplicas_eq [OF rolling, of _ ?C]) (simp_all add: comp_def)
  obtain u t where u: "client_Create api (newRS\<lparr>rs_Replicas := x\<rparr>) s = (u, t)" by fastforce
  show ?thesis
  proof (rule that [of x u t])
    show "0 \<le> x" "?C + x \<le> max ?C (?D + surge)" using D by (auto simp: x_def)
    show "client_Create api ((new_rs env (ap_hash api) (dx_dep s) ?rev)\<lparr>rs_Replicas := x\<rparr>) s = (u, t)" using u by (simp add: newRS_def)
    show "case u of Inl err \<Rightarrow> r = Inl err \<and> s' = enqueueDeployment t
       | Inr p \<Rightarrow> (case updateDeploymentRevision api ?rev t of (Inl err, t') \<Rightarrow> r = Inl err \<and> s' = t' | (Inr _, t') \<Rightarrow> r = Inr (Some p) \<and> s' = t')"
      using run find x u by (auto simp: getNewReplicaSet_def Let_def newRS_def split: sum.splits prod.splits)
  qed
qed


lemma dep_refl: "\<exists>a. dx_dep s = (dx_dep s)\<lparr>d_Annotations := a\<rparr>"
  by (rule exI [of _ "d_Annotations (dx_dep s)"]) simp

lemma getNew_created:
  assumes api: "api_ok api" and l: "rs_listed env api av (dx_dep s) rsList pods" and o: "olds_found api (dx_dep s) rsList pods olds s"
    and server: "dx_server s = by_name rsList" and no: "\<forall>rs \<in> set rsList. \<not> is_new (ap_hash api) (dx_dep s) rs"
    and rolling: "rolling (dx_dep s) surge unavailable" and small: "all_replicas (by_name rsList) + d_Replicas (dx_dep s) + surge < 2 ^ 31"
    and run: "getNewReplicaSet env api rsList mx olds True s = (r, s')"
  shows "in_bounds av (dx_dep s) surge unavailable (dx_server s) (dx_server s')" and "\<exists>a. dx_dep s' = (dx_dep s)\<lparr>d_Annotations := a\<rparr>"
    and "r = Inr q \<Longrightarrow> \<exists>new. q = Some new \<and> found av olds new s'"
proof -
  let ?rev = "fmt_d (wrap 64 (mx + 1))" and ?D = "d_Replicas (dx_dep s)"
  let ?new = "new_rs env (ap_hash api) (dx_dep s) ?rev"
  obtain x u t where x: "0 \<le> x" "all_replicas (by_name rsList) + x \<le> max (all_replicas (by_name rsList)) (?D + surge)"
    and u: "client_Create api (?new\<lparr>rs_Replicas := x\<rparr>) s = (u, t)"
    and s': "case u of Inl err \<Rightarrow> r = Inl err \<and> s' = enqueueDeployment t
       | Inr p \<Rightarrow> (case updateDeploymentRevision api ?rev t of (Inl err, t') \<Rightarrow> r = Inl err \<and> s' = t' | (Inr _, t') \<Rightarrow> r = Inr (Some p) \<and> s' = t')"
    by (rule getNew_create [OF l o no rolling small run])
  have "in_bounds av (dx_dep s) surge unavailable (dx_server s) (dx_server s') \<and> (\<exists>a. dx_dep s' = (dx_dep s)\<lparr>d_Annotations := a\<rparr>) \<and>
    (\<forall>q. r = Inr q \<longrightarrow> (\<exists>new. q = Some new \<and> found av olds new s'))"
  proof (rule client_Create_cases [OF api u])
    assume "u = Inl RequestFailed" "t = tick s"
    then show ?thesis using s' dep_refl [of s] by simp
  next
    fix rs'
    assume c: "u = Inr (length (dx_heap s))" "dx_server s (rs_Name (?new\<lparr>rs_Replicas := x\<rparr>)) = None" "same_spec (?new\<lparr>rs_Replicas := x\<rparr>) rs'"
      "t = tick (s\<lparr>dx_server := (dx_server s)(rs_Name (?new\<lparr>rs_Replicas := x\<rparr>) \<mapsto> rs'), dx_heap := dx_heap s @ [rs']\<rparr>)"
    obtain v t' where v: "updateDeploymentRevision api ?rev t = (v, t')" by fastforce
    have r: "s' = t'" "r = Inr q \<Longrightarrow> q = Some (length (dx_heap s))" for q using s' c(1) v by (auto split: sum.splits)
    note f = updateDeploymentRevision_frame [OF v, folded r(1)]
    have rs': "rs_Name rs' = rs_Name ?new" "rs_Replicas rs' = x" "rs_Selector rs' = rs_Selector ?new" using c(3) by (auto simp: same_spec_def)
    have fresh: "by_name rsList (rs_Name rs') = None" using c(2) rs'(1) by (simp add: server)
    have server': "dx_server s' = (by_name rsList)(rs_Name rs' \<mapsto> rs')" "dx_heap s' = dx_heap s @ [rs']" and dep: "\<exists>a. dx_dep s' = (dx_dep s)\<lparr>d_Annotations := a\<rparr>"
      using f c(4) rs'(1) by (simp_all add: server)
    have av: "av (rs_Selector rs') = 0" using l no rs'(3) by (simp add: rs_listed_def new_rs_simps)
    have fin: "finite (dom (by_name rsList))" by (simp add: dom_by_name)
    note tot = totals_create(1) [OF fin fresh, of rs'] totals_create(2) [OF fin fresh, of av rs']
    have D: "0 \<le> ?D" "0 \<le> surge" using rolling by (auto simp: rolling_def)
    have "in_bounds av (dx_dep s) surge unavailable (dx_server s) (dx_server s')"
      unfolding in_bounds_def server' server tot rs'(2) av using x by (simp add: min_def)
    moreover have "found av olds (length (dx_heap s)) s'"
    proof (rule created_found [OF l o no fresh av _ server'])
      show "0 \<le> rs_Replicas rs'" using x rs'(2) by simp
      have "0 \<le> all_replicas (by_name rsList)" unfolding all_replicas_def
        by (rule sum_nonneg) (rule listed_nonneg [OF l])
      then show "all_replicas (dx_server s') < 2 ^ 31" unfolding server' tot rs'(2) using x(2) small D by linarith
    qed
    ultimately show ?thesis using dep r(2) by auto
  qed
  then show "in_bounds av (dx_dep s) surge unavailable (dx_server s) (dx_server s')" "\<exists>a. dx_dep s' = (dx_dep s)\<lparr>d_Annotations := a\<rparr>"
    "r = Inr q \<Longrightarrow> \<exists>new. q = Some new \<and> found av olds new s'" by blast+
qed

lemma in_bounds_same: "shape m' = shape m \<Longrightarrow> srv m' = srv m \<Longrightarrow> in_bounds av d surge unavailable m m'"
  unfolding in_bounds_def using totals_same [of m' m] by simp

lemma getNew_in_bounds:
  assumes api: "api_ok api" and l: "rs_listed env api av (dx_dep s) rsList pods" and o: "olds_found api (dx_dep s) rsList pods olds s"
    and server: "dx_server s = by_name rsList"
    and rolling: "rolling (dx_dep s) surge unavailable" and small: "all_replicas (by_name rsList) + d_Replicas (dx_dep s) + surge < 2 ^ 31"
    and run: "getNewReplicaSet env api rsList mx olds True s = (r, s')"
  shows "in_bounds av (dx_dep s) surge unavailable (dx_server s) (dx_server s')" and "\<exists>a. dx_dep s' = (dx_dep s)\<lparr>d_Annotations := a\<rparr>"
    and "r = Inr q \<Longrightarrow> \<exists>new. q = Some new \<and> found av olds new s'"
proof -
  have D: "0 \<le> d_Replicas (dx_dep s)" "0 \<le> surge" using rolling by (auto simp: rolling_def)
  then have small': "all_replicas (by_name rsList) < 2 ^ 31" using small by linarith
  have "in_bounds av (dx_dep s) surge unavailable (dx_server s) (dx_server s') \<and> (\<exists>a. dx_dep s' = (dx_dep s)\<lparr>d_Annotations := a\<rparr>) \<and>
    (r = Inr q \<longrightarrow> (\<exists>new. q = Some new \<and> found av olds new s'))"
  proof (cases "List.find (is_new (ap_hash api) (dx_dep s)) rsList")
    case None
    then have "\<forall>rs \<in> set rsList. \<not> is_new (ap_hash api) (dx_dep s) rs" by (auto simp: find_None_iff)
    from getNew_created [OF api l o server this rolling small run] show ?thesis by blast
  next
    case (Some rs)
    note e = getNew_existing [OF api l o server small' Some run]
    show ?thesis using in_bounds_same [OF e(1,2)] dep_refl [of s] e(3,4) by auto
  qed
  then show "in_bounds av (dx_dep s) surge unavailable (dx_server s) (dx_server s')" "\<exists>a. dx_dep s' = (dx_dep s)\<lparr>d_Annotations := a\<rparr>"
    "r = Inr q \<Longrightarrow> \<exists>new. q = Some new \<and> found av olds new s'" by blast+
qed

lemma found_frame:
  assumes "dx_server s' = dx_server s" and "dx_heap s' = dx_heap s" and "found av olds new s"
  shows "found av olds new s'"
  using assms by (simp add: found_def split_ok_def ready_to_shrink_def current_def names_def)

lemma getAll_in_bounds:
  assumes api: "api_ok api" and view: "ap_rsAndPods api (dx_n s) = Inr (rsList, pods)" and l: "rs_listed env api av (dx_dep s) rsList pods"
    and order: "\<forall>m. dom m \<subseteq> rs_Name ` set rsList \<longrightarrow> range_of m (ap_order api m)"
    and server: "dx_server s = by_name rsList"
    and rolling: "rolling (dx_dep s) surge unavailable" and small: "all_replicas (by_name rsList) + d_Replicas (dx_dep s) + surge < 2 ^ 31"
    and run: "getAllReplicaSetsAndSyncRevision env api True s = (r, s')"
  shows "in_bounds av (dx_dep s) surge unavailable (dx_server s) (dx_server s')" and "\<exists>a. dx_dep s' = (dx_dep s)\<lparr>d_Annotations := a\<rparr>"
    and "r = Inr (q, olds) \<Longrightarrow> \<exists>new. q = Some new \<and> found av olds new s'"
proof -
  have "in_bounds av (dx_dep s) surge unavailable (dx_server s) (dx_server s') \<and> (\<exists>a. dx_dep s' = (dx_dep s)\<lparr>d_Annotations := a\<rparr>) \<and>
    (\<forall>q olds. r = Inr (q, olds) \<longrightarrow> (\<exists>new. q = Some new \<and> found av olds new s'))"
  proof (cases "FindOldReplicaSets env (ap_hash api) (ap_order api) (dx_dep s) rsList pods")
    case (Inl e)
    then have "r = Inl e" "s' = tick s" using run view by (auto simp: getAllReplicaSetsAndSyncRevision_def)
    then show ?thesis using dep_refl [of s] by simp
  next
    case (Inr res)
    then obtain old allOld where f: "FindOldReplicaSets env (ap_hash api) (ap_order api) (dx_dep s) rsList pods = Inr (old, allOld)" by (cases res) simp
    obtain ps t where a: "alloc_all allOld (tick s) = (ps, t)" by fastforce
    obtain u t' where g: "getNewReplicaSet env api rsList (maxRevision allOld) ps True t = (u, t')" by fastforce
    have eq: "getAllReplicaSetsAndSyncRevision env api True s =
        (case (u, t') of (Inl err, s) \<Rightarrow> (Inl err, s) | (Inr newRS, s) \<Rightarrow> (Inr (newRS, ps), sync_revision api newRS s))"
      by (simp add: getAllReplicaSetsAndSyncRevision_def view f a g)
    have lb: "\<forall>rs \<in> set rsList. labelled rs" and L: "distinct (map rs_Name rsList)" using l by (simp_all add: rs_listed_def)
    note fo = FindOld_eq [OF f lb L order] and al = alloc_all_eq [OF a] alloc_all_objs [OF a]
    have t: "dx_dep t = dx_dep s" "dx_server t = by_name rsList" using al(1) server by auto
    have "set ps = {length (dx_heap s)..<length (dx_heap s) + length allOld}" "length (dx_heap t) = length (dx_heap s) + length allOld"
      using al(1) by auto
    then have "\<forall>p \<in> set ps. p < length (dx_heap t)" by auto
    moreover have "names t ps = map rs_Name allOld" using al(2) by (auto simp: names_def)
    moreover have "obj t ` set ps = set allOld" using al(2) by (metis set_map)
    ultimately have o: "olds_found api (dx_dep s) rsList pods ps t" using fo by (simp add: olds_found_def)
    note n = getNew_in_bounds [of api env av t rsList pods ps surge unavailable, unfolded t, OF api l o refl rolling small g]
    show ?thesis
    proof (cases u)
      case (Inl e)
      then have "r = Inl e" "s' = t'" using run eq by simp_all
      then show ?thesis using n(1,2) by (simp add: server)
    next
      case (Inr newRS)
      then have s': "r = Inr (newRS, ps)" "s' = sync_revision api newRS t'" using run eq by simp_all
      note sr = sync_revision_frame [of api newRS t']
      obtain a b where "dx_dep t' = (dx_dep s)\<lparr>d_Annotations := a\<rparr>" "dx_dep s' = (dx_dep t')\<lparr>d_Annotations := b\<rparr>"
        using n(2) sr(3) s'(2) by blast
      then have "dx_dep s' = (dx_dep s)\<lparr>d_Annotations := b\<rparr>" by simp
      moreover obtain new where "newRS = Some new" "found av ps new t'" using n(3) [OF Inr] by blast
      moreover from this have "found av ps new s'" by (intro found_frame [of s' t']) (simp_all add: s'(2) sync_revision_frame)
      ultimately show ?thesis using n(1) s'(1) sr(1) by (auto simp: s'(2) server)
    qed
  qed
  then show "in_bounds av (dx_dep s) surge unavailable (dx_server s) (dx_server s')" "\<exists>a. dx_dep s' = (dx_dep s)\<lparr>d_Annotations := a\<rparr>"
    "r = Inr (q, olds) \<Longrightarrow> \<exists>new. q = Some new \<and> found av olds new s'" by blast+
qed


section \<open>The whole synchronization\<close>

lemma sees_annotations: "sees env api (d\<lparr>d_Annotations := a\<rparr>) av \<longleftrightarrow> sees env api d av"
proof -
  have "ListPods env (d\<lparr>d_Annotations := a\<rparr>) = ListPods env d" by (simp add: ListPods_def fun_eq_iff cong: sum.case_cong)
  then show ?thesis by (simp add: sees_def)
qed

lemma rolling_annotations: "rolling (d\<lparr>d_Annotations := a\<rparr>) surge unavailable \<longleftrightarrow> rolling d surge unavailable"
  by (simp add: rolling_def)

lemma in_bounds_annotations: "in_bounds av (d\<lparr>d_Annotations := a\<rparr>) = in_bounds av d"
  by (simp add: in_bounds_def fun_eq_iff)

lemma after_found_in_bounds:
  assumes api: "api_ok api" and sees: "sees env api (dx_dep s) av" and rolling: "rolling (dx_dep s) surge unavailable"
    and found: "found av olds new s"
    and small: "all_replicas (dx_server s) + d_Replicas (dx_dep s) + surge + unavailable < 2 ^ 31"
    and run: "(let active = FilterActiveReplicaSets (obj s) olds; allRSs = map Some active @ [Some new]
      in case reconcileNewReplicaSet api allRSs new s of
           (Inl err, s) \<Rightarrow> (Inl err, s)
         | (Inr scaledUp, s) \<Rightarrow>
             if scaledUp then updateDeploymentStatus env api allRSs (Some new) s
             else
               case reconcileOldReplicaSets env api allRSs (FilterActiveReplicaSets (obj s) olds) new s of
                 (Inl err, s) \<Rightarrow> (Inl err, s)
               | (Inr scaledDown, s) \<Rightarrow>
                   if scaledDown then updateDeploymentStatus env api allRSs (Some new) s
                   else finish_sync env api allRSs olds (Some new) s) = (r, s')"
  shows "in_bounds av (dx_dep s) surge unavailable (dx_server s) (dx_server s')"
proof -
  define active where "active = FilterActiveReplicaSets (obj s) olds"
  have D: "0 \<le> d_Replicas (dx_dep s)" "0 \<le> surge" "0 \<le> unavailable" using rolling by (auto simp: rolling_def)
  note fa = found_active(1) [OF found, folded active_def]
  obtain u t where n: "reconcileNewReplicaSet api (map Some active @ [Some new]) new s = (u, t)" by fastforce
  have b: "in_bounds av (dx_dep s) surge unavailable (dx_server s) (dx_server t)"
    by (rule reconcile_new_in_bounds(1) [OF api rolling fa _ n]) (use small D in linarith)
  show ?thesis
  proof (cases "u = Inr False")
    case False
    then have "dx_server s' = dx_server t"
      using run n by (cases u) (auto simp: Let_def active_def [symmetric] dest: updateDeploymentStatus_server)
    then show ?thesis using b by simp
  next
    case True
    have ts: "t = s" by (rule reconcile_new_effect(2) [OF api rolling fa _ n True]) (use small D in linarith)
    obtain v w where o: "reconcileOldReplicaSets env api (map Some active @ [Some new]) active new s = (v, w)" by fastforce
    have sm: "all_replicas (dx_server s) + d_Replicas (dx_dep s) + unavailable < 2 ^ 31" using small D by linarith
    note ro = reconcile_old_in_bounds [OF api sees rolling fa sm o]
    show ?thesis
    proof (cases "v = Inr False")
      case False
      then have "dx_server s' = dx_server w"
        using run n o True ts by (cases v) (auto simp: Let_def active_def [symmetric] dest: updateDeploymentStatus_server)
      then show ?thesis using ro(1) by simp
    next
      case True': True
      then have f: "finish_sync env api (map Some active @ [Some new]) olds (Some new) w = (r, s')"
        using run n o True ts by (simp add: Let_def active_def [symmetric])
      have "in_bounds av (dx_dep s) surge unavailable (dx_server w) (dx_server s')"
      proof (rule finish_sync_in_bounds [OF f])
        show "finite (dom (dx_server w))" using foundD(2) [OF found] shape_dom [OF movesD(1) [OF ro(2)]] by simp
        show "0 \<le> srv (dx_server w) n" for n by (rule ro(3))
        fix p
        assume p: "p \<in> set olds" "rs_StatusReplicas (obj w p) = 0"
        have c: "current s p" using foundD(1) [OF found] p(1) by (simp add: split_ok_def ready_to_shrink_def)
        then obtain x where x: "obj w p = (obj s p)\<lparr>rs_Replicas := x\<rparr>" using ro(2) by (auto simp: current_def moves_def)
        have "av (rs_Selector (obj s p)) \<le> 0" using foundD(7) [OF found p(1)] p(2) x by simp
        then show "avs av (dx_server w) (rs_Name (obj w p)) \<le> 0"
          using avs_current [OF c, of av] x by (simp add: avs_shape [OF movesD(1) [OF ro(2)]])
      qed
      then show ?thesis by (rule in_bounds_trans [OF ro(1)])
    qed
  qed
qed


lemma syncRolling_in_bounds:
  assumes api: "api_ok api" and view: "ap_rsAndPods api (dx_n s) = Inr (rsList, pods)" and l: "rs_listed env api av (dx_dep s) rsList pods"
    and order: "\<forall>m. dom m \<subseteq> rs_Name ` set rsList \<longrightarrow> range_of m (ap_order api m)"
    and server: "dx_server s = by_name rsList" and sees: "sees env api (dx_dep s) av"
    and rolling: "rolling (dx_dep s) surge unavailable"
    and small: "max (all_replicas (by_name rsList)) (d_Replicas (dx_dep s) + surge) + d_Replicas (dx_dep s) + surge + unavailable < 2 ^ 31"
    and run: "syncRollingUpdateDeployment env api s = (r, s')"
  shows "in_bounds av (dx_dep s) surge unavailable (dx_server s) (dx_server s')"
proof -
  have D: "0 \<le> d_Replicas (dx_dep s)" "0 \<le> surge" "0 \<le> unavailable" using rolling by (auto simp: rolling_def)
  obtain u t where g: "getAllReplicaSetsAndSyncRevision env api True s = (u, t)" by fastforce
  have sm: "all_replicas (by_name rsList) + d_Replicas (dx_dep s) + surge < 2 ^ 31" using small D by linarith
  note ga = getAll_in_bounds [OF api view l order server rolling sm g]
  show ?thesis
  proof (cases u)
    case (Inl e)
    then show ?thesis using run g ga(1) by (simp add: syncRollingUpdateDeployment_def)
  next
    case (Inr res)
    obtain q olds where "u = Inr (q, olds)" using Inr by (cases res) simp
    moreover obtain new where q: "q = Some new" "found av olds new t" using ga(3) [OF calculation] by blast
    ultimately have u: "u = Inr (Some new, olds)" by simp
    obtain a where a: "dx_dep t = (dx_dep s)\<lparr>d_Annotations := a\<rparr>" using ga(2) by blast
    have "in_bounds av (dx_dep t) surge unavailable (dx_server t) (dx_server s')"
    proof (rule after_found_in_bounds [OF api _ _ q(2)])
      show "sees env api (dx_dep t) av" "rolling (dx_dep t) surge unavailable" using sees rolling by (simp_all add: a sees_annotations rolling_annotations)
      show "all_replicas (dx_server t) + d_Replicas (dx_dep t) + surge + unavailable < 2 ^ 31"
        using ga(1) small by (simp add: in_bounds_def a server)
    qed (use run g u in \<open>simp add: syncRollingUpdateDeployment_def\<close>)
    then show ?thesis using ga(1) by (auto simp: a in_bounds_annotations intro: in_bounds_trans)
  qed
qed



section \<open>An example\<close>

definition web_env :: "nat ctl_env" where
  "web_env = \<lparr>ce_parseFloat = \<lambda>_. None, ce_sort = \<lambda>l. l, ce_order = \<lambda>ls. filter (\<lambda>k. ls k \<noteq> None) [''app'', ''pod-template-hash''],
     ce_hash = \<lambda>_ _. 0, ce_createdBy = \<lambda>_ _. Some '''', ce_validPodName = \<lambda>_. True\<rparr>"

definition web_template :: "Set \<Rightarrow> string \<Rightarrow> PodTemplateSpec" where
  "web_template labels node = \<lparr>pt_Labels = labels, pt_Annotations = Map.empty, pt_NodeName = node, pt_NodeSelector = Map.empty,
     pt_Containers = [], pt_InitContainers = [], pt_Volumes = []\<rparr>"

definition web_dep :: Deployment where
  "web_dep = \<lparr>d_Name = ''web'', d_Namespace = ''ns'', d_Generation = 1, d_Annotations = Map.empty, d_Replicas = 3,
     d_Selector = Some \<lparr>ls_MatchLabels = [''app'' \<mapsto> ''web''], ls_MatchExpressions = []\<rparr>,
     d_Template = web_template [''app'' \<mapsto> ''web''] ''b'', d_Strategy = RollingUpdate (IntVal 1) (IntVal 1), d_MinReadySeconds = 0,
     d_RevisionHistoryLimit = None, d_Paused = False, d_RollbackTo = None,
     d_Status = \<lparr>dst_ObservedGeneration = 0, dst_Replicas = 0, dst_UpdatedReplicas = 0, dst_AvailableReplicas = 0, dst_UnavailableReplicas = 0\<rparr>\<rparr>"

text \<open>A replica set of three pods made from an earlier template.\<close>

definition web_old :: ReplicaSet where
  "web_old = \<lparr>rs_Name = ''web-1'', rs_Namespace = ''ns'', rs_CreationTimestamp = 1, rs_Generation = 1, rs_Labels = Map.empty,
     rs_Annotations = Map.empty, rs_Replicas = 3,
     rs_Selector = Some \<lparr>ls_MatchLabels = [''app'' \<mapsto> ''web'', ''pod-template-hash'' \<mapsto> ''1''], ls_MatchExpressions = []\<rparr>,
     rs_Template = web_template [''app'' \<mapsto> ''web'', ''pod-template-hash'' \<mapsto> ''1''] ''a'', rs_StatusReplicas = 3, rs_ObservedGeneration = 1\<rparr>"

definition web_pod :: "string \<Rightarrow> ApiPod" where
  "web_pod name = \<lparr>pod_Name = name, pod_Namespace = ''ns'', pod_Labels = [''app'' \<mapsto> ''web'', ''pod-template-hash'' \<mapsto> ''1''], pod_Annotations = Map.empty,
     pod_NodeName = ''a'', pod_NodeSelector = Map.empty, pod_Containers = [], pod_InitContainers = [], pod_Volumes = [],
     pod_GenerateName = ''web-1-'', pod_CreationTimestamp = 1, pod_DeletionTimestamp = None, pod_Phase = ''Running'',
     pod_Conditions = [\<lparr>pc_Type = ''Ready'', pc_Status = ''True'', pc_LastTransitionTime = 1\<rparr>], pod_RestartCounts = []\<rparr>"

definition web_pods :: "ApiPod list" where
  "web_pods = [web_pod ''x'', web_pod ''y'', web_pod ''z'']"

definition web_api :: dep_api where
  "web_api = \<lparr>ap_hash = \<lambda>_. 2, ap_order = \<lambda>m. filter (\<lambda>n. m n \<noteq> None) [''web-1''], ap_podOrder = [], ap_now = \<lambda>_. 5,
     ap_rsAndPods = \<lambda>_. Inr ([web_old], web_pods), ap_update = \<lambda>_. Some, ap_create = \<lambda>_. Some, ap_delete = \<lambda>_ _. True,
     ap_listPods = \<lambda>_ _ _. Some web_pods, ap_updateDeployment = \<lambda>_ _. True, ap_updateStatus = \<lambda>_ _. True\<rparr>"

definition web_available :: "LabelSelector option \<Rightarrow> int" where
  "web_available selector = (case CountAvailablePodsForReplicaSets web_env 5 web_pods [Some (web_old\<lparr>rs_Selector := selector\<rparr>)] 0 of Inl _ \<Rightarrow> 0 | Inr c \<Rightarrow> c)"

definition web_state :: DeploymentController where
  "web_state = \<lparr>dx_queue = Work_Queue.New, dx_dStore = Map.empty, dx_podStore = Map.empty, dx_storesSynced = True, dx_dep = web_dep, dx_heap = [],
     dx_server = [''web-1'' \<mapsto> web_old], dx_depServer = web_dep, dx_n = 0\<rparr>"

lemma web_sees: "sees web_env web_api web_dep web_available"
proof -
  have "CountAvailablePodsForReplicaSets web_env 5 web_pods [Some rs] 0 =
      CountAvailablePodsForReplicaSets web_env 5 web_pods [Some (web_old\<lparr>rs_Selector := rs_Selector rs\<rparr>)] 0" for rs
    by (simp add: CountAvailablePodsForReplicaSets_def)
  then show ?thesis
    by (auto simp: sees_def ListPods_def web_api_def web_dep_def web_available_def split: sum.splits)
qed

lemma web_requirements:
  "NewRequirement (ce_parseFloat web_env) ''app'' EqualsOperator {''web''} =
     Inr \<lparr>req_key = ''app'', req_operator = EqualsOperator, req_strValues = {''web''}\<rparr>"
  "NewRequirement (ce_parseFloat web_env) ''pod-template-hash'' EqualsOperator {''1''} =
     Inr \<lparr>req_key = ''pod-template-hash'', req_operator = EqualsOperator, req_strValues = {''1''}\<rparr>"
  "NewRequirement (ce_parseFloat web_env) ''pod-template-hash'' EqualsOperator {''2''} =
     Inr \<lparr>req_key = ''pod-template-hash'', req_operator = EqualsOperator, req_strValues = {''2''}\<rparr>"
  by code_simp+

lemma web_selector:
  assumes "v = ''1'' \<or> v = ''2''"
  shows "LabelSelectorAsSelector web_env (Some \<lparr>ls_MatchLabels = [''app'' \<mapsto> ''web'', ''pod-template-hash'' \<mapsto> v], ls_MatchExpressions = []\<rparr>) =
    Inr (internalSelector [\<lparr>req_key = ''app'', req_operator = EqualsOperator, req_strValues = {''web''}\<rparr>,
      \<lparr>req_key = ''pod-template-hash'', req_operator = EqualsOperator, req_strValues = {v}\<rparr>])"
proof -
  have o: "ce_order web_env [''app'' \<mapsto> ''web'', ''pod-template-hash'' \<mapsto> v] = [''app'', ''pod-template-hash'']" and srt: "ce_sort web_env l = l" for l
    by (simp_all add: web_env_def)
  have "[''app'' \<mapsto> ''web'', ''pod-template-hash'' \<mapsto> v] \<noteq> Map.empty" by (metis map_upd_nonempty)
  then show ?thesis using assms by (auto simp: LabelSelectorAsSelector_def o srt map_get_def web_requirements NewSelector_def)
qed

lemma web_available_eq:
  assumes "v = ''1'' \<or> v = ''2''"
  shows "web_available (Some \<lparr>ls_MatchLabels = [''app'' \<mapsto> ''web'', ''pod-template-hash'' \<mapsto> v], ls_MatchExpressions = []\<rparr>) = (if v = ''1'' then 3 else 0)"
proof -
  have "IsPodAvailable 5 (web_pod n) 0" for n by (simp add: IsPodAvailable_def IsPodActive_def web_pod_def)
  moreover have "pod_Labels (web_pod n) = [''app'' \<mapsto> ''web'', ''pod-template-hash'' \<mapsto> ''1'']" for n by (simp add: web_pod_def)
  ultimately show ?thesis
    by (auto simp: web_available_def CountAvailablePodsForReplicaSets_def web_selector [OF assms] web_pods_def countAvailablePods_def
      Requirement_Matches_def Set_Has_def Set_Get_def map_get_def)
qed

lemma web_old_available: "web_available (rs_Selector web_old) = 3"
  using web_available_eq [of "''1''"] by (simp add: web_old_def)

lemma web_new_available: "web_available (rs_Selector (new_rs web_env (\<lambda>_. 2) web_dep [])) = 0"
proof -
  have "fmt_d 2 = ''2''" by code_simp
  then have "rs_Selector (new_rs web_env (\<lambda>_. 2) web_dep []) =
      Some \<lparr>ls_MatchLabels = [''app'' \<mapsto> ''web'', ''pod-template-hash'' \<mapsto> ''2''], ls_MatchExpressions = []\<rparr>"
    by (simp add: new_rs_simps web_dep_def CloneSelectorAndAddLabel_def DefaultDeploymentUniqueLabelKey_def)
  then show ?thesis using web_available_eq [of "''2''"] by simp
qed

lemma web_listed: "rs_listed web_env web_api web_available web_dep [web_old] web_pods"
  using web_old_available web_new_available
  by (simp add: rs_listed_def labelled_def web_api_def) (simp add: web_old_def web_template_def web_pods_def DefaultDeploymentUniqueLabelKey_def)

lemma web_totals: "all_replicas (by_name [web_old]) = 3" "safe_pods web_available (by_name [web_old]) = 3"
  using web_old_available by (simp_all add: all_replicas_def safe_pods_def by_name_def srv_def avs_def) (simp_all add: web_old_def)

lemma web_rolling: "rolling web_dep 1 1"
  by (simp add: rolling_def web_dep_def ResolveFenceposts_def GetValueFromIntOrPercent_def getIntOrPercentValue_def)



section \<open>Percentages\<close>

lemma percent_value:
  assumes "0 \<le> a" and "a \<le> 100" and "0 \<le> n" and "n < 2 ^ 31"
  shows "GetValueFromIntOrPercent (StrVal (fmt_d a @ ''%'')) n up = Inr (if up then - (- (a * n) div 100) else a * n div 100)"
proof -
  have "filter (\<lambda>c. c \<noteq> CHR ''%'') (fmt_d a) = fmt_d a"
    using show_nat_digits [of "nat a"] assms(1) by (auto simp: fmt_d_def list_all_iff is_digit_def intro!: filter_True)
  moreover have "Atoi (fmt_d a) = Some a" by (rule Atoi_fmt_d) (use assms in auto)
  ultimately have v: "getIntOrPercentValue (StrVal (fmt_d a @ ''%'')) = Inr (a, True)" by (simp add: getIntOrPercentValue_def)
  have "a * n \<le> 100 * n" using assms by (intro mult_right_mono) auto
  then have an: "0 \<le> a * n" "a * n < 2 ^ 53" using assms by auto
  have "float_mult (float64 (of_int a)) (float64 (of_int n)) = of_int (a * n)"
    using float64_int [of a] float64_int [of n] float64_int [OF an] assms by (simp add: float_mult_def)
  then show ?thesis using float64_percent [OF an] v by (simp add: GetValueFromIntOrPercent_def float_div_def Let_def)
qed

text \<open>C36. Percentages up to 100 resolve exactly, in spite of the floating-point arithmetic: the surge is the rounded up share of
  the replicas and the unavailable number the rounded down share, or one pod when both would be none.\<close>

theorem fenceposts_exact:
  assumes "0 \<le> a" and "a \<le> 100" and "0 \<le> b" and "b \<le> 100" and "0 \<le> n" and "n < 2 ^ 31"
  shows "ResolveFenceposts (StrVal (fmt_d a @ ''%'')) (StrVal (fmt_d b @ ''%'')) n =
    Inr (- (- (a * n) div 100), if a * n = 0 \<and> b * n < 100 then 1 else b * n div 100)"
proof -
  have "a * n \<le> 100 * n" "b * n \<le> 100 * n" using assms by (auto intro: mult_right_mono)
  then have le: "0 \<le> a * n" "0 \<le> b * n" "a * n < 100 * 2 ^ 31" "b * n < 100 * 2 ^ 31" using assms by auto
  have w: "int32 (- (- (a * n) div 100)) = - (- (a * n) div 100)" "int32 (b * n div 100) = b * n div 100"
    using le \<open>a * n \<le> 100 * n\<close> assms by (intro int32_in_range; linarith)+
  have z: "- (- (a * n) div 100) = 0 \<longleftrightarrow> a * n = 0" "b * n div 100 = 0 \<longleftrightarrow> b * n < 100" using le(1,2) by linarith+
  show ?thesis using percent_value [OF assms(1,2,5,6), of True] percent_value [OF assms(3-6), of False] w z
    by (simp add: ResolveFenceposts_def Let_def)
qed

theorem fenceposts_exact_witness:
  "ResolveFenceposts (StrVal (fmt_d 25 @ ''%'')) (StrVal (fmt_d 25 @ ''%'')) 10 = Inr (3, 2)"
  using fenceposts_exact [of 25 25 10] by simp

section \<open>Old replica sets without pods\<close>

lemma getAll_no_pods:
  assumes view: "ap_rsAndPods api (dx_n s) = Inr (rsList, [])" and lab: "\<forall>rs \<in> set rsList. labelled rs \<and> \<not> is_new (ap_hash api) (dx_dep s) rs"
    and order: "range_of Map.empty (ap_order api Map.empty)" and create: "\<forall>n rs. ap_create api n rs = Some rs"
    and fresh: "\<forall>revision. dx_server s (rs_Name (new_rs env (ap_hash api) (dx_dep s) revision)) = None"
    and rolling: "rolling (dx_dep s) surge unavailable" and small: "d_Replicas (dx_dep s) + surge < 2 ^ 31"
    and run: "getAllReplicaSetsAndSyncRevision env api True s = (r, s')"
  shows "\<exists>rs. rs_Replicas rs = d_Replicas (dx_dep s) \<and> dx_server s (rs_Name rs) = None \<and> dx_server s' = (dx_server s)(rs_Name rs \<mapsto> rs) \<and>
    d_Replicas (dx_dep s') = d_Replicas (dx_dep s) \<and> (\<forall>q olds. r = Inr (q, olds) \<longrightarrow> olds = [] \<and> (\<exists>new. q = Some new \<and> obj s' new = rs))"
proof -
  let ?D = "d_Replicas (dx_dep s)"
  have old: "FindOldReplicaSets env (ap_hash api) (ap_order api) (dx_dep s) rsList [] = Inr ([], [])"
    using order by (simp add: FindOldReplicaSets_def range_of_def)
  define newRevision where "newRevision = fmt_d (wrap 64 (maxRevision [] + 1))"
  define newRS where "newRS = new_rs env (ap_hash api) (dx_dep s) newRevision"
  have D: "0 \<le> ?D" "0 \<le> surge" using rolling by (auto simp: rolling_def)
  have "NewRSNewReplicas (dx_dep s) (map Some [newRS]) newRS =
      Inr (if 0 \<ge> ?D + surge then rs_Replicas newRS else rs_Replicas newRS + min (?D + surge - 0) (?D - rs_Replicas newRS))"
    by (rule NewRSNewReplicas_eq [OF rolling]) (use D small in \<open>simp_all add: newRS_def new_rs_simps\<close>)
  then have size: "NewRSNewReplicas (dx_dep s) [Some newRS] newRS = Inr ?D" using D by (auto simp: newRS_def new_rs_simps)
  define rs where "rs = newRS\<lparr>rs_Replicas := ?D\<rparr>"
  define t where "t = tick ((tick s)\<lparr>dx_server := (dx_server s)(rs_Name rs \<mapsto> rs), dx_heap := dx_heap s @ [rs]\<rparr>)"
  have fr: "dx_server s (rs_Name rs) = None" using fresh by (simp add: rs_def newRS_def)
  then have c: "client_Create api rs (tick s) = (Inr (length (dx_heap s)), t)" using create by (simp add: client_Create_def alloc_rs_def t_def)
  have "List.find (is_new (ap_hash api) (dx_dep s)) rsList = None" using lab by (simp add: find_None_iff)
  then have find: "FindNewReplicaSet (ap_hash api) (dx_dep s) rsList = Inr None" using FindNew_eq [of rsList] lab by simp
  obtain u t' where u: "updateDeploymentRevision api newRevision t = (u, t')" by fastforce
  note f = updateDeploymentRevision_frame [OF u]
  have g: "getNewReplicaSet env api rsList (maxRevision []) [] True (tick s) = (case u of Inl err \<Rightarrow> Inl err | Inr _ \<Rightarrow> Inr (Some (length (dx_heap s))), t')"
    using find size c u by (simp add: getNewReplicaSet_def Let_def newRevision_def [symmetric] newRS_def [symmetric] rs_def [symmetric] split: sum.splits)
  note sr = sync_revision_frame [of api _ t']
  have run': "(case u of Inl err \<Rightarrow> r = Inl err \<and> s' = t' | Inr _ \<Rightarrow> r = Inr (Some (length (dx_heap s)), []) \<and> s' = sync_revision api (Some (length (dx_heap s))) t')"
    using run by (cases u) (simp_all add: getAllReplicaSetsAndSyncRevision_def view old g)
  have "dx_server s' = dx_server t" "dx_heap s' = dx_heap t" "d_Replicas (dx_dep s') = d_Replicas (dx_dep t)"
    using run' f sr(1,2) [of "Some (length (dx_heap s))"] sr(3) [of "Some (length (dx_heap s))"] by (auto split: sum.splits)
  then have "dx_server s' = (dx_server s)(rs_Name rs \<mapsto> rs)" "obj s' (length (dx_heap s)) = rs" "d_Replicas (dx_dep s') = ?D"
    by (simp_all add: t_def)
  moreover have "rs_Replicas rs = ?D" by (simp add: rs_def)
  ultimately show ?thesis using fr run' by (intro exI [of _ rs]) (auto split: sum.splits)
qed


lemma finish_sync_no_olds: "finish_sync env api rss [] new s = (r, s') \<Longrightarrow> dx_server s' = dx_server s"
  using syncDeploymentStatus_server
  by (fastforce simp: finish_sync_def cleanupOldReplicaSets_def by_creation_def Let_def split: option.splits if_splits)

text \<open>C38. When no pod of the deployment is listed, as while the pods of an old replica set are still to be created, its old replica
  sets are not found: a new replica set of full size is created beside them, and the surge does not bound the total.\<close>

theorem rolling_update_ignores_sets_without_pods:
  assumes "ap_rsAndPods api (dx_n s) = Inr (rsList, [])" and "\<forall>rs \<in> set rsList. labelled rs \<and> \<not> is_new (ap_hash api) (dx_dep s) rs"
    and "range_of Map.empty (ap_order api Map.empty)" and "\<forall>n rs. ap_create api n rs = Some rs"
    and "\<forall>revision. dx_server s (rs_Name (new_rs env (ap_hash api) (dx_dep s) revision)) = None" and "finite (dom (dx_server s))"
    and "rolling (dx_dep s) surge unavailable" and "d_Replicas (dx_dep s) + surge < 2 ^ 31"
    and run: "syncRollingUpdateDeployment env api s = (r, s')"
  shows "all_replicas (dx_server s') = all_replicas (dx_server s) + d_Replicas (dx_dep s)"
proof -
  obtain u t where g: "getAllReplicaSetsAndSyncRevision env api True s = (u, t)" by fastforce
  obtain rs where rs: "rs_Replicas rs = d_Replicas (dx_dep s)" "dx_server s (rs_Name rs) = None" "dx_server t = (dx_server s)(rs_Name rs \<mapsto> rs)"
    "d_Replicas (dx_dep t) = d_Replicas (dx_dep s)" "\<forall>q olds. u = Inr (q, olds) \<longrightarrow> olds = [] \<and> (\<exists>new. q = Some new \<and> obj t new = rs)"
    using getAll_no_pods [OF assms(1-5,7,8) g] by blast
  have "dx_server s' = dx_server t"
  proof (cases u)
    case (Inl e)
    then show ?thesis using run g by (simp add: syncRollingUpdateDeployment_def)
  next
    case (Inr res)
    then obtain new where u: "u = Inr (Some new, [])" "obj t new = rs" using rs(5) by (cases res) auto
    have "reconcileNewReplicaSet api [Some new] new t = (Inr False, t)" using rs(1,4) u(2) by (simp add: reconcileNewReplicaSet_def)
    moreover have "reconcileOldReplicaSets env api [Some new] [] new t = (Inr False, t)"
      by (simp add: reconcileOldReplicaSets_def GetReplicaCountForReplicaSets_def)
    ultimately have "finish_sync env api [Some new] [] (Some new) t = (r, s')"
      using run g u(1) by (simp add: syncRollingUpdateDeployment_def FilterActiveReplicaSets_def)
    then show ?thesis by (rule finish_sync_no_olds)
  qed
  then show ?thesis using totals_create(1) [OF assms(6) rs(2)] rs(1,3) by simp
qed

theorem rolling_update_ignores_sets_without_pods_witness:
  "all_replicas (dx_server (snd (syncRollingUpdateDeployment web_env (web_api\<lparr>ap_rsAndPods := \<lambda>_. Inr ([web_old], [])\<rparr>) web_state))) = 6"
proof -
  let ?api = "web_api\<lparr>ap_rsAndPods := \<lambda>_. Inr ([web_old], [])\<rparr>"
  have "fmt_d 2 = ''2''" by code_simp
  then have n: "rs_Name (new_rs web_env (ap_hash ?api) web_dep revision) = ''web-2''" for revision
    by (simp add: new_rs_simps web_dep_def web_api_def)
  have new: "\<not> is_new (ap_hash ?api) web_dep web_old"
    by (simp add: is_new_def web_old_def web_dep_def web_template_def GetNewReplicaSetTemplate_def Let_def)
  have "labelled web_old" using web_listed by (simp add: rs_listed_def)
  moreover have "dx_server web_state = by_name [web_old]" "dx_dep web_state = web_dep" "d_Replicas web_dep = 3" "rs_Name web_old = ''web-1''"
    by (simp_all add: web_state_def by_name_def web_dep_def) (simp_all add: web_old_def)
  ultimately show ?thesis
    using rolling_update_ignores_sets_without_pods [of ?api web_state "[web_old]" web_env 1 1, OF _ _ _ _ _ _ _ _ surjective_pairing]
      web_rolling web_totals new n by (simp add: range_of_def web_api_def by_name_def)
qed

section \<open>Revisions\<close>

lemma copy_annotations_skipped:
  "skipCopyAnnotation k \<Longrightarrow> fst (copy_annotations annotations ks m changed) k = m k"
  by (induction ks arbitrary: m changed) (auto simp: Let_def)

text \<open>Revisions are compared as text: a replica set of revision 2 that is rolled out again as revision 10 keeps revision 2.\<close>

theorem revisions_compared_as_text:
  assumes "rs_Annotations rs RevisionAnnotation = Some ''2''"
  shows "rs_Annotations (snd (setNewReplicaSetAnnotations env d rs ''10'')) RevisionAnnotation = Some ''2''"
proof -
  obtain m c where m: "copy_annotations (d_Annotations d) (ce_order env (d_Annotations d)) (rs_Annotations rs) False = (m, c)" by fastforce
  have "m RevisionAnnotation = Some ''2''"
    using copy_annotations_skipped [of RevisionAnnotation "d_Annotations d" "ce_order env (d_Annotations d)" "rs_Annotations rs" False] m assms
    by (simp add: skipCopyAnnotation_def)
  moreover have "\<not> ''2'' < ''10''" by code_simp
  ultimately show ?thesis
    by (simp add: setNewReplicaSetAnnotations_def copyDeploymentAnnotationsToReplicaSet_def m map_get_def)
qed

end
