(* ===== verification/Spec2Isabelle.thy ===== *)
theory Spec2Isabelle
  imports Informer Rate_Limiters Service_REST Storage_Cacher Scheduler_Safety Replication_Safety Deployment_Rollout
begin

text \<open>
  This development verifies parts of the machinery that keeps a Kubernetes-style control plane
  consistent, as it is written in the repository's \<^verbatim>\<open>src/pkg\<close>: the API server's cache that serves
  lists and watches, the client-side caches that mirror the API server, the work queues the
  controllers take their work from, the selectors they find objects with, the allocators and
  handlers that give services their addresses and node ports, the replication manager, and the
  scheduler of \<^verbatim>\<open>src/plugin/pkg/scheduler\<close>.

  \<^bold>\<open>The parts and how they interact.\<close>  The API server keeps the objects of a storage directory
  and the latest events in a watch cache, and a cacher serves lists and watches from it.  A client's
  reflector lists and watches the API server and feeds every
  event into a delta queue; an informer pops the deltas, updates an indexed store and notifies
  handlers.  Handlers put keys into a work queue, from which workers take them and into which
  failed keys return after a delay that a rate limiter computes.  The service registry's handlers
  allocate cluster addresses and node ports from allocators that map them to offsets of a bitmap,
  inside a transaction that is rolled back when the handler fails.  The scheduler mirrors pods and
  nodes in a cache, filters the nodes by predicates and ranks them by priority functions for one
  pod at a time, and records the decision in the cache before the API server confirms it.  The
  replication manager keeps the number of pods of each replication controller: its handlers and
  workers share a queue and the expectations, which say what the informer has still to report.

  \<^bold>\<open>Theories and the code they model.\<close>
  \<^item> \<open>Go_Prelude\<close>: what the code uses of Go: partial maps with the order in which a loop visits
    them, interface values, results and \<^verbatim>\<open>sort.Search\<close>, with the lemmas the components share.
  \<^item> \<open>Cache_Store\<close>: \<^verbatim>\<open>client/cache/thread_safe_store.go\<close>, \<^verbatim>\<open>store.go\<close>, \<^verbatim>\<open>index.go\<close>,
    \<^verbatim>\<open>undelta_store.go\<close>.  The store is a record of items, indexers and indices; index functions are
    arguments.  The lemmas show that every operation keeps each index equal to what the indexer
    says about the stored objects, and that a failing indexer breaks it.
  \<^item> \<open>Cache_FIFO\<close> (\<^verbatim>\<open>fifo.go\<close>) and \<open>Cache_DeltaFIFO\<close> (\<^verbatim>\<open>delta_fifo.go\<close>): the queues of objects and
    of deltas.  A \<^verbatim>\<open>Pop\<close> that waits on its condition variable is the result \<open>None\<close>.  The lemmas show
    the relation of items and queue, what \<^verbatim>\<open>Replace\<close> does to every key, that draining returns
    everything, and the cases where the code loses an object.
  \<^item> \<open>Informer\<close>: \<^verbatim>\<open>controller/framework/controller.go\<close>, \<^verbatim>\<open>shared_informer.go\<close> and the list and watch
    handling of \<^verbatim>\<open>client/cache/reflector.go\<close>, composed into a step relation with the server's state.
    The lemmas show that the local store is right wherever nothing is pending and that the process
    loop converges to the server's state.
  \<^item> \<open>Work_Queue\<close>: \<^verbatim>\<open>util/workqueue/queue.go\<close>, \<^verbatim>\<open>delaying_queue.go\<close>, \<^verbatim>\<open>parallelizer.go\<close>.  Concurrent use
    is a sequence of events, since every method runs under the queue's lock; a \<^verbatim>\<open>Get\<close> that waits
    is not an event of the sequence.  The lemmas show that no item is lost, processed twice at the
    same time or added before it is due.
  \<^item> \<open>Rate_Limiters\<close>: \<^verbatim>\<open>default_rate_limiters.go\<close>, \<^verbatim>\<open>rate_limitting_queue.go\<close>.  Durations are 64-bit
    words, so the multiplication wraps as it does in the code.
  \<^item> \<open>Allocator_Bitmap\<close>: \<^verbatim>\<open>registry/service/allocator\<close> without its etcd variant; \<open>Go_Strconv\<close>:
    \<^verbatim>\<open>util/net/port_range.go\<close>; \<open>Service_Allocators\<close>: \<^verbatim>\<open>registry/service/ipallocator/allocator.go\<close>,
    \<^verbatim>\<open>portallocator/allocator.go\<close>, \<^verbatim>\<open>operation.go\<close>.  The allocators refine a set of ports or addresses
    and the transaction is all or nothing; both are proved over an interface of offset allocators,
    which the bitmap implements.
  \<^item> \<open>Service_REST\<close>: \<^verbatim>\<open>Create\<close>, \<^verbatim>\<open>Delete\<close> and \<^verbatim>\<open>Update\<close> of \<^verbatim>\<open>registry/service/rest.go\<close>.  The lemmas
    account for every address and port before and after the handlers, errors included.

  \<^item> \<open>Watch_Cache\<close>: \<^verbatim>\<open>storage/watch_cache.go\<close>, over the store of \<open>Cache_Store\<close>, and \<open>Storage_Cacher\<close>:
    \<^verbatim>\<open>storage/cacher.go\<close> with the key functions of \<^verbatim>\<open>storage/util.go\<close>.  The lemmas relate the cyclic
    buffer to the list of events, show that listing and then watching is complete, also through
    the cacher's channels and filters and whatever the interleaving, that nothing is sent on a
    closed channel, and that the filter by key prefix crosses namespaces.  Versions are 64-bit
    words.
  \<^item> \<open>Label_Selector\<close>: \<^verbatim>\<open>labels/selector.go\<close>, \<^verbatim>\<open>labels.go\<close> and the label part of
    \<^verbatim>\<open>util/validation/validation.go\<close>.  The lemmas show that printing and parsing are inverse, that the
    parser returns on every input with well-formed results, and what a set of labels selects.
  \<^item> \<open>Scheduler_Cache\<close>: \<^verbatim>\<open>schedulercache/cache.go\<close> and \<^verbatim>\<open>node_info.go\<close>, with the API objects' fields
    the scheduler reads, \<^verbatim>\<open>resource_helpers.go\<close> and \<^verbatim>\<open>priorities/util/non_zero.go\<close>.  The totals of a
    node are cells of an explicit heap, because copies of a node share them.  The cache refines a
    table of pods and nodes, with the expiry of assumed pods; the lemmas also show what sharing
    and a changed node name do.
  \<^item> \<open>Scheduler_Predicates\<close>: \<^verbatim>\<open>algorithm/predicates/predicates.go\<close>, \<^verbatim>\<open>error.go\<close> and the annotation
    helpers of \<^verbatim>\<open>api/helpers.go\<close>; the lemmas say when each predicate accepts a pod.
    \<open>Generic_Scheduler\<close>: \<^verbatim>\<open>generic_scheduler.go\<close> and \<^verbatim>\<open>scheduleOne\<close> of \<^verbatim>\<open>scheduler.go\<close>, over the
    interface of a priority function, which \<open>Scheduler_Priorities\<close> (\<^verbatim>\<open>priorities/priorities.go\<close>)
    provides; the lemmas show that the host returned fits, has the best score and is chosen in
    turn.  \<open>Scheduler_Safety\<close> composes the cache, the predicates and the loop with the events of
    the watches into a step relation and shows that no node is ever overcommitted.
  \<^item> \<open>Controller_Utils\<close>: \<^verbatim>\<open>controller/controller_utils.go\<close>, \<^verbatim>\<open>lookup_cache.go\<close> with the LRU cache
    it uses, and the pod conditions of \<^verbatim>\<open>api/resource_helpers.go\<close>.  \<open>Replication_Manager\<close>:
    \<^verbatim>\<open>controller/replication/replication_controller.go\<close>, \<^verbatim>\<open>replication_controller_utils.go\<close> and the
    listers of \<^verbatim>\<open>client/cache/listers.go\<close> it uses.  \<open>Replication_Cluster\<close> composes the handlers and
    the parts of a synchronization with the API server, the watch and the informer into a step
    relation, in which any number of workers run, requests fail and pods change or vanish at any
    time; \<open>Replication_Safety\<close> shows that a controller never has too many or too few pods, does not
    come to rest with the wrong number, gives up the least valuable pods first, and creates one
    too many when it starts before its handlers know the pods.  In the relation expectations do
    not expire, controllers keep their selectors and do not overlap, and no deletion is missed by
    the watch; each is a condition of the rules or of the configuration.

  \<^bold>\<open>Conventions.\<close>  A method under a lock is one atomic function on the state record.  A panic or a
  wait that does not end is \<open>None\<close> (or \<open>Panicked\<close>), an error a value of a sum type.  The order in
  which Go visits a map, random draws, clock readings and the choice of a \<^verbatim>\<open>select\<close> are arguments, so
  that the lemmas hold for all of them.  No definition uses fuel: the loops recurse over their
  list or carry a termination proof.

  \<^bold>\<open>Not modelled.\<close>  Network and disk input and output, timers and goroutine start-up (no state of
  their own); API validation, storage and encoding (parameters of the handlers); the etcd-backed
  allocator and the repair loops; \<^verbatim>\<open>ResourceLocation\<close>, \<^verbatim>\<open>Watch\<close>, \<^verbatim>\<open>List\<close> and \<^verbatim>\<open>Get\<close> of the service
  registry; the token bucket and floating-point parsing; the cacher's methods that only delegate;
  the predicates on volume counts and zones, service and pod affinity and memory pressure; the
  priority functions that compute with floating-point numbers; binding, events and metrics of the
  scheduler; the other controllers; the remaining components of the repository, among them the kubelet, the proxies, the
  cloud providers, the volume plugins and the command line tools.
\<close>

end
